(* ===== verification/Prelude.thy ===== *)
theory Prelude
  imports Main "HOL-Library.Word" "HOL-Library.Multiset"
begin

text \<open>
  What every component shares: frames and messages, the four ways a C++ statement can fail to
  go on, the double-ended queue operations whose precondition the sources rely on, the shape of
  an event loop (one iteration as a function, a run as a fold over the iterations' inputs), and
  two interfaces stated as locales: a loop with an invariant, and a broker that hands requests
  to workers that have reported.
\<close>

named_theorems res_simps \<open>equations of the result monad and of the deque operations\<close>

subsection \<open>Frames, time, and the ways a statement can stop\<close>

type_synonym frame = string
type_synonym msg = "frame list"

text \<open>A message part on the wire: its bytes, and whether more parts of the message follow.\<close>

type_synonym part = "frame \<times> bool"

text \<open>
  Time points and durations are integers in ticks of 100 ns, the tick of the
  \<open>system_clock\<close> of the compiler the projects are set up for.
\<close>

type_synonym time = int

definition secs :: "int \<Rightarrow> time" where
  "secs n = 10000000 * n"

definition msecs :: "int \<Rightarrow> time" where
  "msecs n = 10000 * n"

text \<open>
  A failed \<open>assert\<close>, undefined behaviour (the front of an empty deque, a write past a
  buffer, a division by zero), an exception that leaves the function, and a blocking receive
  that has nothing to return.
\<close>

datatype fault = Assertion | Undefined | Exception | Blocked

type_synonym 'a res = "fault + 'a"

fun rbind :: "'a res \<Rightarrow> ('a \<Rightarrow> 'b res) \<Rightarrow> 'b res" where
  "rbind (Inl e) f = Inl e"
| "rbind (Inr x) f = f x"

declare rbind.simps [res_simps]

lemma rbind_Inr_iff [simp]: "rbind r f = Inr y \<longleftrightarrow> (\<exists>x. r = Inr x \<and> f x = Inr y)"
  by (cases r) auto

lemma rbind_Inl_iff: "rbind r f = Inl e \<longleftrightarrow> r = Inl e \<or> (\<exists>x. r = Inr x \<and> f x = Inl e)"
  by (cases r) auto

lemma rbind_cong [fundef_cong]:
  "r = r' \<Longrightarrow> (\<And>x. r' = Inr x \<Longrightarrow> f x = f' x) \<Longrightarrow> rbind r f = rbind r' f'"
  by (cases r') auto

definition res_map :: "('a \<Rightarrow> 'b) \<Rightarrow> 'a res \<Rightarrow> 'b res" where
  "res_map f r = rbind r (\<lambda>x. Inr (f x))"

lemma res_map_simps [simp, res_simps]: "res_map f (Inl e) = Inl e" "res_map f (Inr x) = Inr (f x)"
  by (simp_all add: res_map_def)

definition assert_that :: "bool \<Rightarrow> unit res" where
  "assert_that b = (if b then Inr () else Inl Assertion)"

lemma assert_that_simps [simp, res_simps]:
  "assert_that True = Inr ()" "assert_that False = Inl Assertion"
  by (simp_all add: assert_that_def)

lemma assert_that_Inr [simp]: "assert_that b = Inr u \<longleftrightarrow> b"
  by (simp add: assert_that_def)

lemma assert_that_Inl [simp]: "assert_that b = Inl e \<longleftrightarrow> \<not> b \<and> e = Assertion"
  by (auto simp: assert_that_def)

subsection \<open>Deques\<close>

text \<open>
  \<open>front\<close>, \<open>back\<close> and \<open>pop_front\<close> of \<open>std::deque\<close> (and
  \<open>front\<close>, \<open>pop\<close> of \<open>std::queue\<close>) require a non-empty container.
\<close>

fun deque_front :: "'a list \<Rightarrow> 'a res" where
  "deque_front [] = Inl Undefined"
| "deque_front (x # xs) = Inr x"

fun deque_pop_front :: "'a list \<Rightarrow> 'a list res" where
  "deque_pop_front [] = Inl Undefined"
| "deque_pop_front (x # xs) = Inr xs"

definition deque_back :: "'a list \<Rightarrow> 'a res" where
  "deque_back xs = (if xs = [] then Inl Undefined else Inr (last xs))"

declare deque_front.simps [res_simps] deque_pop_front.simps [res_simps]

lemma deque_front_Inr [simp]: "deque_front xs = Inr x \<longleftrightarrow> (\<exists>ys. xs = x # ys)"
  by (cases xs) auto

lemma deque_front_Inl [simp]: "deque_front xs = Inl e \<longleftrightarrow> xs = [] \<and> e = Undefined"
  by (cases xs) auto

lemma deque_pop_front_Inr [simp]: "deque_pop_front xs = Inr ys \<longleftrightarrow> (\<exists>x. xs = x # ys)"
  by (cases xs) auto

lemma deque_pop_front_Inl [simp]: "deque_pop_front xs = Inl e \<longleftrightarrow> xs = [] \<and> e = Undefined"
  by (cases xs) auto

lemma deque_back_simps [simp, res_simps]:
  "deque_back [] = Inl Undefined" "deque_back (x # xs) = Inr (last (x # xs))"
  by (simp_all add: deque_back_def)

lemma deque_back_Inr [simp]: "deque_back xs = Inr x \<longleftrightarrow> xs \<noteq> [] \<and> x = last xs"
  by (auto simp: deque_back_def)

subsection \<open>Event loops\<close>

text \<open>
  One iteration of a \<open>while (true)\<close> loop goes on with a new state or leaves the loop
  (\<open>break\<close>, or the end of the function). A run feeds a list of inputs to the iteration and
  collects what it emits; it ends at the first \<open>Halt\<close>, at the first fault, or when the
  inputs are used up.
\<close>

datatype 's ctl = Next 's | Halt 's

fun ctl_state :: "'s ctl \<Rightarrow> 's" where
  "ctl_state (Next s) = s"
| "ctl_state (Halt s) = s"

fun run :: "('i \<Rightarrow> 's \<Rightarrow> ('s ctl \<times> 'o list) res) \<Rightarrow> 's \<Rightarrow> 'i list \<Rightarrow> ('s ctl \<times> 'o list) res" where
  "run step s [] = Inr (Next s, [])"
| "run step s (i # is) =
     (case step i s of
        Inl e \<Rightarrow> Inl e
      | Inr (Halt s', os) \<Rightarrow> Inr (Halt s', os)
      | Inr (Next s', os) \<Rightarrow>
          (case run step s' is of
             Inl e \<Rightarrow> Inl e
           | Inr (c, os') \<Rightarrow> Inr (c, os @ os')))"

lemma run_Cons_Next:
  "step i s = Inr (Next s', os) \<Longrightarrow> run step s' is = Inr (c, os') \<Longrightarrow>
    run step s (i # is) = Inr (c, os @ os')"
  by simp

lemma run_Cons_Halt: "step i s = Inr (Halt s', os) \<Longrightarrow> run step s (i # is) = Inr (Halt s', os)"
  by simp

lemma run_Cons_fault: "step i s = Inl e \<Longrightarrow> run step s (i # is) = Inl e"
  by simp

lemma run_append_Next:
  "run step s is = Inr (Next s', os) \<Longrightarrow>
    run step s (is @ js) =
      (case run step s' js of Inl e \<Rightarrow> Inl e | Inr (c, os') \<Rightarrow> Inr (c, os @ os'))"
proof (induction "is" arbitrary: s os)
  case Nil
  then show ?case by (auto split: sum.splits)
next
  case (Cons i "is")
  then show ?case
    by (fastforce split: sum.splits prod.splits ctl.splits)
qed

text \<open>A loop whose iteration keeps an invariant: the contract every broker below meets.\<close>

locale guarded_loop =
  fixes step :: "'i \<Rightarrow> 's \<Rightarrow> ('s ctl \<times> 'o list) res"
    and inv :: "'s \<Rightarrow> bool"
  assumes step_inv: "inv s \<Longrightarrow> step i s = Inr (c, os) \<Longrightarrow> inv (ctl_state c)"
begin

lemma run_inv: "inv s \<Longrightarrow> run step s is = Inr (c, os) \<Longrightarrow> inv (ctl_state c)"
proof (induction "is" arbitrary: s c os)
  case Nil
  then show ?case by auto
next
  case (Cons i "is")
  from Cons.prems(2) obtain d ps where st: "step i s = Inr (d, ps)"
    by (auto split: sum.splits)
  with Cons.prems(1) have "inv (ctl_state d)" by (rule step_inv)
  with st Cons show ?case
    by (cases d) (auto split: sum.splits)
qed

end

text \<open>
  A broker that hands a request to a worker only when the worker has reported since it was last
  given one. \<open>idle\<close> is the list of workers it holds to be free, \<open>reports i\<close> the workers an
  iteration's input comes from, \<open>served os\<close> the workers the emitted requests are addressed
  to. The law is a balance; the run lemma makes it a bound over a whole history.
\<close>

locale dispatcher = guarded_loop +
  fixes idle :: "'b \<Rightarrow> frame list"
    and reports :: "'a \<Rightarrow> frame list"
    and served :: "'c list \<Rightarrow> frame list"
  assumes served_append: "served (os @ os') = served os @ served os'"
    and step_balance: "inv s \<Longrightarrow> step i s = Inr (c, os) \<Longrightarrow>
      count_list (idle (ctl_state c)) w + count_list (served os) w
        \<le> count_list (idle s) w + count_list (reports i) w"
begin

lemma run_balance:
  "inv s \<Longrightarrow> run step s is = Inr (c, os) \<Longrightarrow>
    count_list (idle (ctl_state c)) w + count_list (served os) w
      \<le> count_list (idle s) w + count_list (concat (map reports is)) w"
proof (induction "is" arbitrary: s c os)
  case Nil
  have "served [] = []" using served_append [of "[]" "[]"] by simp
  with Nil show ?case by auto
next
  case (Cons i "is")
  from Cons.prems(2) obtain d ps where st: "step i s = Inr (d, ps)"
    by (auto split: sum.splits)
  note inv = step_inv [OF Cons.prems(1) st] and bal = step_balance [OF Cons.prems(1) st, of w]
  show ?case
  proof (cases d)
    case (Next s')
    with Cons.prems(2) st obtain qs where r: "run step s' is = Inr (c, qs)" and os: "os = ps @ qs"
      by (auto split: sum.splits)
    from Next inv have "inv s'" by simp
    from Cons.IH [OF this r] bal Next os show ?thesis
      by (simp add: served_append)
  next
    case (Halt s')
    with Cons.prems(2) st bal show ?thesis by simp
  qed
qed

lemma run_served_le:
  assumes "inv s" and "run step s is = Inr (c, os)" and "idle s = []"
  shows "count_list (served os) w \<le> count_list (concat (map reports is)) w"
  using run_balance [OF assms(1,2), of w] assms(3) by simp

end

text \<open>
  A broker that keeps its free workers in a queue obeys a stronger law: the workers it has served,
  followed by those still waiting, are the workers that have reported, in the order they did.
\<close>

locale fifo_dispatcher = guarded_loop +
  fixes idle :: "'b \<Rightarrow> frame list"
    and reports :: "'a \<Rightarrow> frame list"
    and served :: "'c list \<Rightarrow> frame list"
  assumes fifo_served_append: "served (os @ os') = served os @ served os'"
    and step_fifo: "inv s \<Longrightarrow> step i s = Inr (c, os) \<Longrightarrow>
      served os @ idle (ctl_state c) = idle s @ reports i"
begin

lemma served_Nil [simp]: "served [] = []"
  using fifo_served_append [of "[]" "[]"] by simp

lemma run_fifo:
  "inv s \<Longrightarrow> run step s is = Inr (c, os) \<Longrightarrow>
    \<exists>k \<le> length is. served os @ idle (ctl_state c) = idle s @ concat (map reports (take k is))
      \<and> (\<forall>s'. c = Next s' \<longrightarrow> k = length is)"
proof (induction "is" arbitrary: s c os)
  case Nil
  then show ?case by auto
next
  case (Cons i "is")
  from Cons.prems(2) obtain d ps where st: "step i s = Inr (d, ps)"
    by (auto split: sum.splits)
  note inv = step_inv [OF Cons.prems(1) st] and fifo = step_fifo [OF Cons.prems(1) st]
  show ?case
  proof (cases d)
    case (Next s')
    with Cons.prems(2) st obtain qs where r: "run step s' is = Inr (c, qs)" and os: "os = ps @ qs"
      by (auto split: sum.splits)
    from Next inv have "inv s'" by simp
    from Cons.IH [OF this r] obtain k where k: "k \<le> length is"
      "served qs @ idle (ctl_state c) = idle s' @ concat (map reports (take k is))"
      "\<forall>s'. c = Next s' \<longrightarrow> k = length is" by blast
    have "served os @ idle (ctl_state c) = (served ps @ idle s') @ concat (map reports (take k is))"
      using k(2) os by (simp add: fifo_served_append)
    also have "served ps @ idle s' = idle s @ reports i" using fifo Next by simp
    finally show ?thesis using k(1,3) by (intro exI [of _ "Suc k"]) simp
  next
    case (Halt s')
    with Cons.prems(2) st fifo show ?thesis by (intro exI [of _ 1]) auto
  qed
qed

end

sublocale fifo_dispatcher \<subseteq> dispatcher step inv idle reports served
proof unfold_locales
  fix s i c os w
  assume "inv s" and "step i s = Inr (c, os)"
  from step_fifo [OF this]
  have "count_list (served os @ idle (ctl_state c)) w = count_list (idle s @ reports i) w" by simp
  then show "count_list (idle (ctl_state c)) w + count_list (served os) w
      \<le> count_list (idle s) w + count_list (reports i) w"
    by simp
qed (rule fifo_served_append)

subsection \<open>Arithmetic\<close>

text \<open>Integer division of C++, and \<open>duration_cast\<close>, truncate towards zero.\<close>

definition trunc_div :: "int \<Rightarrow> int \<Rightarrow> int" where
  "trunc_div a b = (let q = \<bar>a\<bar> div \<bar>b\<bar> in if (a < 0) = (b < 0) then q else - q)"

lemma trunc_div_nonneg: "0 \<le> a \<Longrightarrow> 0 < b \<Longrightarrow> trunc_div a b = a div b"
  by (simp add: trunc_div_def Let_def)

lemma trunc_div_neg: "a < 0 \<Longrightarrow> 0 < b \<Longrightarrow> trunc_div a b = - (- a div b)"
  by (simp add: trunc_div_def Let_def)

subsection \<open>Lists\<close>

lemma count_list_remove1: "count_list (remove1 x xs) w = count_list xs w - (if x = w then 1 else 0)"
  by (induction xs) (auto simp: count_list_0_iff)

lemma count_list_filter_le: "count_list (filter P xs) w \<le> count_list xs w"
  by (induction xs) auto

lemma count_list_distinct: "distinct xs \<Longrightarrow> count_list xs w = (if w \<in> set xs then 1 else 0)"
  by (induction xs) auto

lemma count_list_replicate: "count_list (replicate r x) y = (if x = y then r else 0)"
  by (induction r) auto

lemma count_list_pos: "w \<in> set xs \<Longrightarrow> 1 \<le> count_list xs w"
  by (induction xs) auto

end
