(* ===== verification/Version.thy ===== *)
theory Version
  imports Prelude
begin

text \<open>
  The library version checks at the start of the pirate programs: \<open>pp::check_version\<close> of
  \<open>ppcommon.cpp\<close> returns a flag, \<open>check_version\<close> of \<open>spqueue.cpp\<close> returns or
  exits. Both compare major and minor number lexicographically.
\<close>

datatype version = Version (major: int) (minor: int)

instantiation version :: linorder
begin

definition less_eq_version :: "version \<Rightarrow> version \<Rightarrow> bool" where
  "v \<le> w \<longleftrightarrow> major v < major w \<or> major v = major w \<and> minor v \<le> minor w"

definition less_version :: "version \<Rightarrow> version \<Rightarrow> bool" where
  "v < w \<longleftrightarrow> major v < major w \<or> major v = major w \<and> minor v < minor w"

instance
  by standard (auto simp: less_eq_version_def less_version_def intro: version.expand)

end

text \<open>The tuple \<open>zmq::version()\<close> gives; the patch number is not looked at.\<close>

type_synonym zmq_version = "int \<times> int \<times> int"

definition pp_check_version :: "zmq_version \<Rightarrow> int \<Rightarrow> int \<Rightarrow> bool" where
  "pp_check_version ver wants_major wants_minor =
     (if fst ver > wants_major then True
      else if fst ver = wants_major \<and> fst (snd ver) \<ge> wants_minor then True
      else False)"

datatype exit_status = Returned | Exited_failure

definition sp_check_version :: "zmq_version \<Rightarrow> int \<Rightarrow> int \<Rightarrow> exit_status" where
  "sp_check_version ver want_major want_minor =
     (if fst ver > want_major then Returned
      else if fst ver = want_major \<and> fst (snd ver) \<ge> want_minor then Returned
      else Exited_failure)"

text \<open>
  Both checks accept exactly the versions at or above the wanted one in the linear order of
  versions.
\<close>

theorem check_version_order:
  "(pp_check_version (M, m, p) wM wm \<longleftrightarrow> Version wM wm \<le> Version M m)
    \<and> (sp_check_version (M, m, p) wM wm = Returned \<longleftrightarrow> Version wM wm \<le> Version M m)"
  by (auto simp: pp_check_version_def sp_check_version_def less_eq_version_def)

end
