(* ===== verification/Workers.thy ===== *)
theory Workers
  imports Prelude
begin

text \<open>
  The pool of available workers of the paranoid pirate queue (\<open>workers_t\<close> of
  \<open>robust-reliable-queuing/workers.cpp\<close>): a deque of identities in least-recently-used order
  and a hash map from an identity to the time its heartbeat is due. The lemmas: the invariant that
  ties the two, what each operation does to the pool seen as one list of (identity, expiry)
  pairs, and an exact account of the purge loop.
\<close>

record workers =
  ws_ttl :: time
  ws_queue :: "string list"
  ws_lookup :: "string \<Rightarrow> time option"

definition workers_new :: "time \<Rightarrow> workers" where
  "workers_new ttl = \<lparr>ws_ttl = ttl, ws_queue = [], ws_lookup = Map.empty\<rparr>"

definition workers_empty :: "workers \<Rightarrow> bool" where
  "workers_empty w \<longleftrightarrow> ws_queue w = []"

definition workers_erase :: "string \<Rightarrow> workers \<Rightarrow> workers" where
  "workers_erase identity w =
     w\<lparr>ws_lookup := (ws_lookup w)(identity := None), ws_queue := remove1 identity (ws_queue w)\<rparr>"

definition workers_push :: "time \<Rightarrow> string \<Rightarrow> workers \<Rightarrow> workers res" where
  "workers_push now identity w =
     rbind (assert_that (ws_lookup w identity = None)) (\<lambda>_.
       Inr (w\<lparr>ws_lookup := (ws_lookup w)(identity \<mapsto> now + ws_ttl w),
              ws_queue := ws_queue w @ [identity]\<rparr>))"

definition workers_try_push :: "time \<Rightarrow> string \<Rightarrow> workers \<Rightarrow> (bool \<times> workers) res" where
  "workers_try_push now identity w =
     (if ws_lookup w identity \<noteq> None then Inr (False, w)
      else rbind (workers_push now identity w) (\<lambda>w'. Inr (True, w')))"

definition workers_refresh :: "time \<Rightarrow> string \<Rightarrow> workers \<Rightarrow> workers res" where
  "workers_refresh now identity w =
     rbind (assert_that (ws_lookup w identity \<noteq> None)) (\<lambda>_.
       Inr (w\<lparr>ws_lookup := (ws_lookup w)(identity \<mapsto> now + ws_ttl w)\<rparr>))"

definition workers_front :: "workers \<Rightarrow> string res" where
  "workers_front w = deque_front (ws_queue w)"

definition workers_pop :: "workers \<Rightarrow> workers" where
  "workers_pop w =
     (if ws_queue w = [] then w
      else w\<lparr>ws_lookup := (ws_lookup w)(hd (ws_queue w) := None), ws_queue := tl (ws_queue w)\<rparr>)"

text \<open>
  \<open>lookup_[k]\<close> of an \<open>unordered_map\<close> inserts the epoch for a missing key. The purge loop
  compares its counter with the size of the shrinking queue; \<open>now i\<close> is the reading of the
  clock in round \<open>i\<close>.
\<close>

definition lookup_touch :: "(string \<Rightarrow> time option) \<Rightarrow> string \<Rightarrow> (string \<Rightarrow> time option)" where
  "lookup_touch m k = (case m k of None \<Rightarrow> m(k \<mapsto> 0) | Some _ \<Rightarrow> m)"

function purge_loop :: "(nat \<Rightarrow> time) \<Rightarrow> nat \<Rightarrow> workers \<Rightarrow> workers" where
  "purge_loop now i w =
     (if i < length (ws_queue w) then
        let x = hd (ws_queue w); m = lookup_touch (ws_lookup w) x in
        if now i > the (m x)
        then purge_loop now (Suc i) (w\<lparr>ws_lookup := m(x := None), ws_queue := tl (ws_queue w)\<rparr>)
        else purge_loop now (Suc i) (w\<lparr>ws_lookup := m, ws_queue := tl (ws_queue w) @ [x]\<rparr>)
      else w)"
  by pat_completeness auto
termination
  by (relation "measure (\<lambda>(now, i, w). length (ws_queue w) - i)") (auto simp: Let_def)

declare purge_loop.simps [simp del]

definition workers_purge :: "(nat \<Rightarrow> time) \<Rightarrow> workers \<Rightarrow> workers" where
  "workers_purge now w = purge_loop now 0 w"

subsection \<open>The invariant\<close>

definition workers_inv :: "workers \<Rightarrow> bool" where
  "workers_inv w \<longleftrightarrow> distinct (ws_queue w) \<and> dom (ws_lookup w) = set (ws_queue w)"

lemma workers_inv_alt:
  "workers_inv w \<longleftrightarrow>
    distinct (ws_queue w) \<and> (\<forall>x. ws_lookup w x = None \<longleftrightarrow> x \<notin> set (ws_queue w))"
  unfolding workers_inv_def by (metis domIff set_eqI)

lemma workers_invD:
  "workers_inv w \<Longrightarrow> distinct (ws_queue w)"
  "workers_inv w \<Longrightarrow> ws_lookup w x = None \<longleftrightarrow> x \<notin> set (ws_queue w)"
  "workers_inv w \<Longrightarrow> x \<in> set (ws_queue w) \<Longrightarrow> \<exists>t. ws_lookup w x = Some t"
  by (auto simp: workers_inv_alt)

lemma workers_inv_new [simp]: "workers_inv (workers_new ttl)"
  by (simp add: workers_inv_def workers_new_def)

lemma workers_inv_erase: "workers_inv w \<Longrightarrow> workers_inv (workers_erase x w)"
  by (auto simp: workers_inv_alt workers_erase_def)

lemma workers_inv_push: "workers_inv w \<Longrightarrow> workers_push now x w = Inr w' \<Longrightarrow> workers_inv w'"
  by (auto simp: workers_inv_alt workers_push_def split: if_splits)

lemma workers_inv_try_push:
  "workers_inv w \<Longrightarrow> workers_try_push now x w = Inr (b, w') \<Longrightarrow> workers_inv w'"
  by (auto simp: workers_try_push_def dest: workers_inv_push split: if_splits)

lemma workers_inv_refresh: "workers_inv w \<Longrightarrow> workers_refresh now x w = Inr w' \<Longrightarrow> workers_inv w'"
  proof -
  assume inv: "workers_inv w" and r: "workers_refresh now x w = Inr w'"
  from r have w': "w' = w\<lparr>ws_lookup := (ws_lookup w)(x \<mapsto> now + ws_ttl w)\<rparr>"
    and "ws_lookup w x \<noteq> None" by (auto simp: workers_refresh_def)
  with inv have "x \<in> set (ws_queue w)" by (simp add: workers_inv_alt)
  with inv w' show ?thesis by (simp add: workers_inv_alt)
qed

lemma workers_inv_pop: "workers_inv w \<Longrightarrow> workers_inv (workers_pop w)"
  by (cases "ws_queue w") (auto simp: workers_inv_alt workers_pop_def)

subsection \<open>What the operations do to the queue\<close>

lemma erase_queue: "ws_queue (workers_erase x w) = remove1 x (ws_queue w)"
  by (simp add: workers_erase_def)

lemma push_Inr:
  "workers_inv w \<Longrightarrow> x \<notin> set (ws_queue w) \<Longrightarrow>
    \<exists>w'. workers_push now x w = Inr w' \<and> ws_queue w' = ws_queue w @ [x]"
  by (auto simp: workers_push_def workers_invD)

lemma push_Inl: "workers_inv w \<Longrightarrow> x \<in> set (ws_queue w) \<Longrightarrow> workers_push now x w = Inl Assertion"
  by (auto simp: workers_push_def assert_that_def dest: workers_invD(3))

lemma try_push_Inr:
  "workers_inv w \<Longrightarrow> \<exists>w'. workers_try_push now x w = Inr (x \<notin> set (ws_queue w), w') \<and>
    ws_queue w' = (if x \<in> set (ws_queue w) then ws_queue w else ws_queue w @ [x])"
  by (auto simp: workers_try_push_def workers_invD(2) dest: push_Inr [of w x now])

lemma refresh_Inr:
  "workers_inv w \<Longrightarrow> x \<in> set (ws_queue w) \<Longrightarrow>
    \<exists>w'. workers_refresh now x w = Inr w' \<and> ws_queue w' = ws_queue w"
  by (auto simp: workers_refresh_def workers_invD(2))

lemma refresh_Inl:
  "workers_inv w \<Longrightarrow> x \<notin> set (ws_queue w) \<Longrightarrow> workers_refresh now x w = Inl Assertion"
  by (auto simp: workers_refresh_def assert_that_def workers_invD(2))

subsection \<open>The interface the queue program relies on\<close>

text \<open>
  A pool of identities in the order in which they are served: registering an identity afresh
  (erase, then push) cannot fail and puts it last, exactly once; the head can be taken whenever
  the pool is not empty.
\<close>

locale lru_pool =
  fixes inv :: "'s \<Rightarrow> bool"
    and ids :: "'s \<Rightarrow> string list"
    and erase :: "string \<Rightarrow> 's \<Rightarrow> 's"
    and push :: "time \<Rightarrow> string \<Rightarrow> 's \<Rightarrow> 's res"
    and front :: "'s \<Rightarrow> string res"
    and pop :: "'s \<Rightarrow> 's"
  assumes ids_distinct: "inv s \<Longrightarrow> distinct (ids s)"
    and erase_inv: "inv s \<Longrightarrow> inv (erase x s)"
    and erase_ids: "inv s \<Longrightarrow> ids (erase x s) = remove1 x (ids s)"
    and push_new: "inv s \<Longrightarrow> x \<notin> set (ids s) \<Longrightarrow>
      \<exists>s'. push t x s = Inr s' \<and> inv s' \<and> ids s' = ids s @ [x]"
    and front_ids: "inv s \<Longrightarrow> front s = deque_front (ids s)"
    and pop_inv: "inv s \<Longrightarrow> inv (pop s)"
    and pop_ids: "inv s \<Longrightarrow> ids (pop s) = tl (ids s)"
begin

lemma register:
  assumes "inv s"
  shows "\<exists>s'. push t x (erase x s) = Inr s' \<and> inv s' \<and> ids s' = remove1 x (ids s) @ [x]"
proof -
  have "x \<notin> set (ids (erase x s))"
    using ids_distinct [OF assms] by (simp add: erase_ids [OF assms])
  from push_new [OF erase_inv [OF assms] this] show ?thesis
    by (simp add: erase_ids [OF assms])
qed

lemma register_count:
  assumes "inv s" and "push t x (erase x s) = Inr s'"
  shows "count_list (ids s') w \<le> count_list (ids s) w + (if x = w then 1 else 0)"
proof -
  from register [OF assms(1), of t x] assms(2) have "ids s' = remove1 x (ids s) @ [x]" by auto
  then show ?thesis by (simp add: count_list_remove1)
qed

lemma take_head:
  "inv s \<Longrightarrow> ids s = x # xs \<Longrightarrow> front s = Inr x \<and> ids (pop s) = xs \<and> inv (pop s)"
  by (simp add: front_ids pop_ids pop_inv)

lemma head_absent: "inv s \<Longrightarrow> ids s = x # xs \<Longrightarrow> x \<notin> set (ids (pop s))"
  using ids_distinct [of s] by (simp add: pop_ids)

end

interpretation pool: lru_pool workers_inv ws_queue workers_erase workers_push workers_front workers_pop
proof unfold_locales
  fix s x t
  assume inv: "workers_inv s" and new: "x \<notin> set (ws_queue s)"
  from push_Inr [OF this, of t] inv
  show "\<exists>s'. workers_push t x s = Inr s' \<and> workers_inv s' \<and> ws_queue s' = ws_queue s @ [x]"
    by (auto intro: workers_inv_push)
next
  fix s :: workers
  assume "workers_inv s"
  then show "ws_queue (workers_pop s) = tl (ws_queue s)"
    by (cases "ws_queue s") (simp_all add: workers_pop_def)
qed (simp_all add: workers_invD(1) workers_inv_erase workers_inv_pop workers_front_def erase_queue)

subsection \<open>The purge loop, exactly\<close>

lemma restrict_dom: "dom m = A \<Longrightarrow> m |` A = m"
  by (rule ext) (auto simp: restrict_map_def domIff)

text \<open>
  The loop seen from outside: it walks down the queue it was given, moving the live behind the
  rest, and stops as soon as its counter reaches the size of what is left.
\<close>

fun purge_spec :: "(nat \<Rightarrow> time) \<Rightarrow> (string \<Rightarrow> time option) \<Rightarrow> nat \<Rightarrow> string list \<Rightarrow> string list \<Rightarrow> string list"
where
  "purge_spec now m i [] kept = kept"
| "purge_spec now m i (x # rest) kept =
     (if i < length (x # rest) + length kept then
        (if now i > the (m x) then purge_spec now m (Suc i) rest kept
         else purge_spec now m (Suc i) rest (kept @ [x]))
      else x # rest @ kept)"

lemma purge_spec_set: "set (purge_spec now m i rest kept) \<subseteq> set rest \<union> set kept"
proof (induction rest arbitrary: i kept)
  case (Cons x rest)
  from Cons [of "Suc i" kept] Cons [of "Suc i" "kept @ [x]"] show ?case by auto
qed simp

lemma purge_spec_distinct: "distinct (rest @ kept) \<Longrightarrow> distinct (purge_spec now m i rest kept)"
  by (induction rest arbitrary: i kept) auto

lemma purge_spec_kept: "set kept \<subseteq> set (purge_spec now m i rest kept)"
proof (induction rest arbitrary: i kept)
  case (Cons x rest)
  from Cons [of kept "Suc i"] Cons [of "kept @ [x]" "Suc i"] show ?case by auto
qed simp

lemma purge_spec_only_expired:
  "x \<in> set rest \<Longrightarrow> x \<notin> set (purge_spec now m i rest kept) \<Longrightarrow>
    \<exists>j. i \<le> j \<and> j < i + length rest \<and> now j > the (m x)"
proof (induction rest arbitrary: i kept)
  case (Cons y rest)
  show ?case
  proof (cases "x = y \<and> now i > the (m x)")
    case True
    then show ?thesis by (intro exI [of _ i]) auto
  next
    case False
    with Cons.prems have "x \<in> set rest"
      using purge_spec_kept [of "kept @ [y]" now m "Suc i" rest] by (auto split: if_splits)
    moreover from Cons.prems have "x \<notin> set (purge_spec now m (Suc i) rest kept) \<or>
        x \<notin> set (purge_spec now m (Suc i) rest (kept @ [y]))"
      using calculation by (auto split: if_splits)
    ultimately obtain j where "Suc i \<le> j" "j < Suc i + length rest" "now j > the (m x)"
      using Cons.IH by blast
    then show ?thesis by (intro exI [of _ j]) simp
  qed
qed simp

lemma purge_loop_spec:
  assumes "ws_queue w = rest @ kept" and "distinct (rest @ kept)" and "length kept \<le> i"
    and "dom (ws_lookup w) = set (rest @ kept)"
  shows "purge_loop now i w = w\<lparr>ws_queue := purge_spec now (ws_lookup w) i rest kept,
      ws_lookup := ws_lookup w |` set (purge_spec now (ws_lookup w) i rest kept)\<rparr>"
  using assms
proof (induction rest arbitrary: i kept w)
  case Nil
  have "ws_lookup w |` set kept = ws_lookup w"
    using Nil.prems(4) by (simp add: restrict_dom)
  with Nil show ?case by (simp add: purge_loop.simps [of now i w])
next
  case (Cons x rest)
  let ?m = "ws_lookup w"
  from Cons.prems(4) obtain t where t: "?m x = Some t" by auto
  then have touch: "lookup_touch ?m x = ?m" by (simp add: lookup_touch_def)
  show ?case
  proof (cases "i < length (x # rest) + length kept")
    case False
    have "?m |` set (x # rest @ kept) = ?m"
      using Cons.prems(4) by (simp add: restrict_dom)
    with False Cons.prems show ?thesis by (simp add: purge_loop.simps [of now i w])
  next
    case go: True
    show ?thesis
    proof (cases "now i > t")
      case True
      let ?w = "w\<lparr>ws_lookup := ?m(x := None), ws_queue := rest @ kept\<rparr>"
      have spec: "purge_spec now (?m(x := None)) j r k = purge_spec now ?m j r k"
        if "x \<notin> set r" for j r k using that by (induction r arbitrary: j k) auto
      have x: "x \<notin> set rest" "x \<notin> set (purge_spec now ?m (Suc i) rest kept)"
        using Cons.prems(2) purge_spec_set [of now ?m "Suc i" rest kept] by auto
      have dom: "dom (ws_lookup ?w) = set (rest @ kept)"
        using Cons.prems(2,4) by auto
      have "purge_loop now i w = purge_loop now (Suc i) ?w"
        using go True Cons.prems t touch by (simp add: purge_loop.simps [of now i w])
      also have "\<dots> = ?w\<lparr>ws_queue := purge_spec now ?m (Suc i) rest kept,
          ws_lookup := ?m(x := None) |` set (purge_spec now ?m (Suc i) rest kept)\<rparr>"
        using Cons.IH [of ?w kept "Suc i", OF _ _ _ dom] Cons.prems spec [OF x(1)]
        by (simp del: fun_upd_apply)
      also have "?m(x := None) |` set (purge_spec now ?m (Suc i) rest kept) =
          ?m |` set (purge_spec now ?m (Suc i) rest kept)"
        using x(2) by (auto simp: restrict_map_def fun_eq_iff)
      finally show ?thesis using go True t by simp
    next
      case False
      let ?w = "w\<lparr>ws_queue := rest @ kept @ [x]\<rparr>"
      have "purge_loop now i w = purge_loop now (Suc i) ?w"
        using go False Cons.prems t touch by (simp add: purge_loop.simps [of now i w])
      also have "\<dots> = ?w\<lparr>ws_queue := purge_spec now ?m (Suc i) rest (kept @ [x]),
          ws_lookup := ?m |` set (purge_spec now ?m (Suc i) rest (kept @ [x]))\<rparr>"
        using Cons.IH [of ?w "kept @ [x]" "Suc i"] Cons.prems by auto
      finally show ?thesis using go False t by simp
    qed
  qed
qed

lemma workers_purge_spec:
  "workers_inv w \<Longrightarrow> workers_purge now w =
    w\<lparr>ws_queue := purge_spec now (ws_lookup w) 0 (ws_queue w) [],
      ws_lookup := ws_lookup w |` set (purge_spec now (ws_lookup w) 0 (ws_queue w) [])\<rparr>"
  using purge_loop_spec [of w "ws_queue w" "[]" 0 now]
  by (simp add: workers_purge_def workers_inv_def)

lemma workers_inv_purge: "workers_inv w \<Longrightarrow> workers_inv (workers_purge now w)"
  using purge_spec_set [of now "ws_lookup w" 0 "ws_queue w" "[]"]
    purge_spec_distinct [of "ws_queue w" "[]" now "ws_lookup w" 0]
  by (auto simp: workers_purge_spec workers_inv_def)

lemma purge_queue_subset: "workers_inv w \<Longrightarrow> set (ws_queue (workers_purge now w)) \<subseteq> set (ws_queue w)"
  using purge_spec_set [of now "ws_lookup w" 0 "ws_queue w" "[]"] by (simp add: workers_purge_spec)

subsection \<open>The pool as one list\<close>

text \<open>
  What the two containers together stand for: the identities in order, each with its expiry, and
  the operations on that list.
\<close>

type_synonym pool = "(string \<times> time) list"

definition pool_of :: "workers \<Rightarrow> pool" where
  "pool_of w = map (\<lambda>x. (x, the (ws_lookup w x))) (ws_queue w)"

definition pool_erase :: "string \<Rightarrow> pool \<Rightarrow> pool" where
  "pool_erase x p = filter (\<lambda>e. fst e \<noteq> x) p"

definition pool_push :: "time \<Rightarrow> string \<Rightarrow> pool \<Rightarrow> pool res" where
  "pool_push t x p = (if x \<in> fst ` set p then Inl Assertion else Inr (p @ [(x, t)]))"

definition pool_refresh :: "time \<Rightarrow> string \<Rightarrow> pool \<Rightarrow> pool res" where
  "pool_refresh t x p =
     (if x \<in> fst ` set p then Inr (map (\<lambda>e. if fst e = x then (x, t) else e) p) else Inl Assertion)"

lemma fst_pool_of [simp]: "fst ` set (pool_of w) = set (ws_queue w)"
  by (auto simp: pool_of_def image_iff)

lemma pool_of_erase: "workers_inv w \<Longrightarrow> pool_of (workers_erase x w) = pool_erase x (pool_of w)"
  by (auto simp: pool_of_def pool_erase_def workers_erase_def filter_map o_def
      distinct_remove1_removeAll workers_invD(1) removeAll_filter_not_eq intro!: map_cong filter_cong)

lemma pool_of_push:
  "workers_inv w \<Longrightarrow> res_map pool_of (workers_push now x w) = pool_push (now + ws_ttl w) x (pool_of w)"
  by (auto simp: workers_push_def pool_push_def pool_of_def workers_invD(2) assert_that_def
      image_iff)

lemma pool_of_refresh:
  "workers_inv w \<Longrightarrow> res_map pool_of (workers_refresh now x w) = pool_refresh (now + ws_ttl w) x (pool_of w)"
  by (auto simp: workers_refresh_def pool_refresh_def pool_of_def workers_invD(2) assert_that_def
      image_iff)

lemma pool_of_pop: "workers_inv w \<Longrightarrow> pool_of (workers_pop w) = tl (pool_of w)"
  by (cases "ws_queue w") (auto simp: pool_of_def workers_pop_def dest: workers_invD(1))

lemma pool_of_front: "workers_front w = res_map fst (deque_front (pool_of w))"
  by (cases "ws_queue w") (simp_all add: workers_front_def pool_of_def)

lemma pool_of_new: "pool_of (workers_new ttl) = []"
  by (simp add: pool_of_def workers_new_def)

lemma pool_of_empty: "workers_empty w \<longleftrightarrow> pool_of w = []"
  by (simp add: pool_of_def workers_empty_def)

lemma pool_of_try_push:
  "workers_inv w \<Longrightarrow> res_map (\<lambda>(b, w'). (b, pool_of w')) (workers_try_push now x w) =
    Inr (if x \<in> fst ` set (pool_of w) then (False, pool_of w) else (True, pool_of w @ [(x, now + ws_ttl w)]))"
  using pool_of_push [of w now x]
  by (cases "workers_push now x w") (auto simp: workers_try_push_def workers_invD(2) pool_push_def split: if_splits)

lemma workers_ttl:
  "ws_ttl (workers_new ttl) = ttl" "ws_ttl (workers_erase x w) = ws_ttl w" "ws_ttl (workers_pop w) = ws_ttl w"
  "workers_push now x w = Inr w' \<Longrightarrow> ws_ttl w' = ws_ttl w"
  "workers_try_push now x w = Inr (b, w') \<Longrightarrow> ws_ttl w' = ws_ttl w"
  "workers_refresh now x w = Inr w' \<Longrightarrow> ws_ttl w' = ws_ttl w"
  by (auto simp: workers_new_def workers_erase_def workers_pop_def workers_push_def workers_try_push_def
      workers_refresh_def split: if_splits)

text \<open>
  C28: deque and hash map together implement one list of (identity, expiry) pairs: a new pool is the
  empty list, erasing filters it, pushing appends a fresh entry due one time-to-live from now and fails
  the assertion on a duplicate, trying to push leaves a duplicate alone, refreshing moves the due time
  of one entry and fails the assertion when there is none, popping drops the head, and every operation
  that returns leaves the two containers with the same identities, none of them twice, and the
  time-to-live as it was.
\<close>

theorem workers_refine_pool:
  assumes "workers_inv w"
  shows "(workers_inv (workers_new ttl) \<and> ws_ttl (workers_new ttl) = ttl \<and> pool_of (workers_new ttl) = [])
    \<and> (workers_empty w \<longleftrightarrow> pool_of w = [])
    \<and> (workers_inv (workers_erase x w) \<and> ws_ttl (workers_erase x w) = ws_ttl w
        \<and> pool_of (workers_erase x w) = pool_erase x (pool_of w))
    \<and> ((\<forall>w'. workers_push now x w = Inr w' \<longrightarrow> workers_inv w' \<and> ws_ttl w' = ws_ttl w)
        \<and> res_map pool_of (workers_push now x w) = pool_push (now + ws_ttl w) x (pool_of w))
    \<and> ((\<forall>b w'. workers_try_push now x w = Inr (b, w') \<longrightarrow> workers_inv w' \<and> ws_ttl w' = ws_ttl w)
        \<and> res_map (\<lambda>(b, w'). (b, pool_of w')) (workers_try_push now x w) =
            Inr (if x \<in> fst ` set (pool_of w) then (False, pool_of w) else (True, pool_of w @ [(x, now + ws_ttl w)])))
    \<and> ((\<forall>w'. workers_refresh now x w = Inr w' \<longrightarrow> workers_inv w' \<and> ws_ttl w' = ws_ttl w)
        \<and> res_map pool_of (workers_refresh now x w) = pool_refresh (now + ws_ttl w) x (pool_of w))
    \<and> (workers_inv (workers_pop w) \<and> ws_ttl (workers_pop w) = ws_ttl w \<and> pool_of (workers_pop w) = tl (pool_of w))
    \<and> workers_front w = res_map fst (deque_front (pool_of w))"
  by (intro conjI allI impI;
      (erule workers_ttl(4-6) workers_inv_push [OF assms] workers_inv_try_push [OF assms] workers_inv_refresh [OF assms]
      | simp add: assms pool_of_erase pool_of_push pool_of_try_push pool_of_refresh pool_of_pop pool_of_front
          workers_inv_erase workers_inv_pop pool_of_new pool_of_empty workers_ttl(1-3)))

theorem workers_refine_pool_witness:
  "let w = \<lparr>ws_ttl = 3, ws_queue = [''a'', ''b''], ws_lookup = [''a'' \<mapsto> 5, ''b'' \<mapsto> 6]\<rparr>
   in pool_of w = [(''a'', 5), (''b'', 6)] \<and> workers_inv (workers_erase ''a'' w)
      \<and> res_map pool_of (workers_push 10 ''c'' w) = Inr [(''a'', 5), (''b'', 6), (''c'', 13)]"
proof -
  let ?w = "\<lparr>ws_ttl = 3, ws_queue = [''a'', ''b''], ws_lookup = [''a'' \<mapsto> 5, ''b'' \<mapsto> 6]\<rparr>"
  have inv: "workers_inv ?w" by (auto simp: workers_inv_def)
  from workers_refine_pool [OF inv, of 0 "''a''"] have "workers_inv (workers_erase ''a'' ?w)" by blast
  with workers_refine_pool [OF inv, of 0 "''c''" 10] show ?thesis
    by (simp add: pool_of_def pool_push_def Let_def)
qed

subsection \<open>Which workers a purge reaches\<close>

lemma purge_spec_all_live:
  assumes "\<forall>x \<in> set rest. \<forall>j. now j \<le> the (m x)" and "length kept \<le> i"
    and "n = length rest + length kept - i"
  shows "purge_spec now m i rest kept = drop n rest @ kept @ take n rest"
  using assms
proof (induction rest arbitrary: i kept n)
  case (Cons x rest)
  then have live: "\<not> now i > the (m x)" by (simp add: not_less)
  show ?case
  proof (cases n)
    case 0
    with Cons.prems live show ?thesis by simp
  next
    case (Suc k)
    with Cons.prems(3) have k: "k = length rest + length (kept @ [x]) - Suc i"
      and go: "i < length (x # rest) + length kept" by simp_all
    have "purge_spec now m i (x # rest) kept = purge_spec now m (Suc i) rest (kept @ [x])"
      using go live by simp
    also have "\<dots> = drop k rest @ (kept @ [x]) @ take k rest"
      using Cons.prems(1,2) k by (intro Cons.IH) auto
    finally show ?thesis using Suc by simp
  qed
qed simp

text \<open>
  The walk over a queue \<open>q\<close> in general: worker \<open>i\<close> of the queue is looked at in round \<open>i\<close>, and
  \<open>dead i\<close> is what the clock says of it then. Before round \<open>i\<close> the pool has lost as many workers as
  were dead among the first \<open>i\<close>; the walk ends with the first round whose number is the size of what is left.
\<close>

definition dead_before :: "(nat \<Rightarrow> bool) \<Rightarrow> nat \<Rightarrow> nat" where
  "dead_before dead k = length (filter dead [0..<k])"

definition live_before :: "(nat \<Rightarrow> bool) \<Rightarrow> string list \<Rightarrow> nat \<Rightarrow> string list" where
  "live_before dead q k = map ((!) q) (filter (\<lambda>i. \<not> dead i) [0..<k])"

lemma dead_before_Suc: "dead_before dead (Suc k) = dead_before dead k + of_bool (dead k)"
  by (simp add: dead_before_def)

lemma dead_before_le: "dead_before dead k \<le> k"
  using length_filter_le [of dead "[0..<k]"] by (simp add: dead_before_def)

lemma live_before_length: "length (live_before dead q k) = k - dead_before dead k"
  using sum_length_filter_compl [of dead "[0..<k]"] by (simp add: live_before_def dead_before_def)

lemma purge_spec_walk:
  assumes "rest = drop i q" and "i \<le> length q" and "kept = live_before dead q i"
    and dead: "dead = (\<lambda>j. now j > the (m (q ! j)))"
    and "\<forall>j<i. j + dead_before dead j < length q"
  shows "\<exists>k \<le> length q. length q \<le> k + dead_before dead k \<and> (\<forall>j<k. j + dead_before dead j < length q)
    \<and> purge_spec now m i rest kept = drop k q @ live_before dead q k"
  using assms
proof (induction rest arbitrary: i kept)
  case Nil
  then show ?case by (intro exI [of _ "length q"]) auto
next
  case (Cons x rest)
  from Cons.prems(1,2) have i: "i < length q" "x = q ! i" "rest = drop (Suc i) q"
    by (auto simp: Cons_nth_drop_Suc [symmetric] le_less)
  have len: "length (x # rest) + length kept = length q - dead_before dead i"
    using Cons.prems(3) i dead_before_le [of dead i] by (simp add: live_before_length)
  show ?case
  proof (cases "i + dead_before dead i < length q")
    case True
    with Cons.prems(5) have go: "\<forall>j<Suc i. j + dead_before dead j < length q" by (auto simp: less_Suc_eq)
    have next_round: "purge_spec now m i (x # rest) kept = purge_spec now m (Suc i) rest (live_before dead q (Suc i))"
      using True len i(2) Cons.prems(3) by (auto simp: dead live_before_def)
    from Cons.IH [OF i(3) _ refl dead go] i(1) show ?thesis unfolding next_round by simp
  next
    case False
    with len have "\<not> i < length (x # rest) + length kept" by linarith
    then have "purge_spec now m i (x # rest) kept = (x # rest) @ kept" by simp
    also have "\<dots> = drop i q @ live_before dead q i" using Cons.prems(1,3) by simp
    finally have "purge_spec now m i (x # rest) kept = drop i q @ live_before dead q i" .
    with False Cons.prems(2,5) show ?thesis by (intro exI [of _ i]) auto
  qed
qed

text \<open>
  C26: a purge keeps the pool well formed, drops a worker only when the clock has passed the
  expiry it had stored for it, and leaves the expiry of the others as it was.
\<close>

theorem purge_drops_only_expired:
  assumes "workers_inv w"
  shows "workers_inv (workers_purge now w)
    \<and> set (ws_queue (workers_purge now w)) \<subseteq> set (ws_queue w)
    \<and> (\<forall>x \<in> set (ws_queue (workers_purge now w)). ws_lookup (workers_purge now w) x = ws_lookup w x)
    \<and> (\<forall>x \<in> set (ws_queue w). x \<notin> set (ws_queue (workers_purge now w)) \<longrightarrow>
          (\<exists>i < length (ws_queue w). \<exists>t. ws_lookup w x = Some t \<and> now i > t))"
proof (intro conjI ballI impI)
  fix x
  assume x: "x \<in> set (ws_queue w)" "x \<notin> set (ws_queue (workers_purge now w))"
  then obtain j where "j < length (ws_queue w)" "now j > the (ws_lookup w x)"
    using purge_spec_only_expired [of x "ws_queue w" now "ws_lookup w" 0 "[]"]
    by (auto simp: workers_purge_spec [OF assms])
  moreover obtain t where "ws_lookup w x = Some t" using workers_invD(3) [OF assms x(1)] by blast
  ultimately show "\<exists>i < length (ws_queue w). \<exists>t. ws_lookup w x = Some t \<and> now i > t" by auto
next
  show "workers_inv (workers_purge now w)" by (rule workers_inv_purge [OF assms])
  show "set (ws_queue (workers_purge now w)) \<subseteq> set (ws_queue w)"
    by (rule purge_queue_subset [OF assms])
qed (simp add: workers_purge_spec [OF assms])

theorem purge_drops_only_expired_witness:
  "let w = \<lparr>ws_ttl = secs 3, ws_queue = [''a'', ''b''], ws_lookup = [''a'' \<mapsto> 5, ''b'' \<mapsto> 50]\<rparr>
   in workers_inv w \<and> ws_queue (workers_purge (\<lambda>_. 10) w) = [''b'']
      \<and> workers_inv (workers_purge (\<lambda>_. 10) w)"
proof -
  let ?w = "\<lparr>ws_ttl = secs 3, ws_queue = [''a'', ''b''], ws_lookup = [''a'' \<mapsto> 5, ''b'' \<mapsto> 50]\<rparr>"
  have inv: "workers_inv ?w" by (auto simp: workers_inv_def)
  have "ws_queue (workers_purge (\<lambda>_. 10) ?w) = [''b'']"
    by (simp add: workers_purge_spec [OF inv])
  with purge_drops_only_expired [OF inv, of "\<lambda>_. 10"] inv show ?thesis by (simp add: Let_def)
qed

text \<open>The numbers the walk ends with, for a pool that is all dead and one that is all alive.\<close>

lemma dead_before_all: "\<forall>j<k. dead j \<Longrightarrow> dead_before dead k = k"
  by (simp add: dead_before_def)

lemma dead_before_none: "\<forall>j<k. \<not> dead j \<Longrightarrow> dead_before dead k = 0"
  by (simp add: dead_before_def)

lemma walk_half:
  assumes "n \<le> k + dead_before dead k" and "\<forall>j<k. j + dead_before dead j < n" and "k \<le> n"
  shows "(n + 1) div 2 \<le> k" and "\<forall>j<n. dead j \<Longrightarrow> k = (n + 1) div 2" and "\<forall>j<n. \<not> dead j \<Longrightarrow> k = n"
proof -
  show half: "(n + 1) div 2 \<le> k" using assms(1) dead_before_le [of dead k] by linarith
  show "k = n" if "\<forall>j<n. \<not> dead j"
    using assms(1,3) that dead_before_none [of k dead] by auto
  show "k = (n + 1) div 2" if "\<forall>j<n. dead j"
  proof (cases k)
    case (Suc j)
    then have "j + j < n" using assms(2,3) that dead_before_all [of j dead] by auto
    with Suc half show ?thesis by linarith
  qed (use half in simp)
qed

lemma purge_walk:
  assumes inv: "workers_inv w" and q: "q = ws_queue w" and dead: "dead = (\<lambda>i. now i > the (ws_lookup w (q ! i)))"
  obtains k where "k \<le> length q" "length q \<le> k + dead_before dead k" "\<forall>j<k. j + dead_before dead j < length q"
    "ws_queue (workers_purge now w) = drop k q @ live_before dead q k"
  using purge_spec_walk [where rest = q and i = 0 and kept = "[]", OF _ _ _ dead] that
  by (auto simp: workers_purge_spec [OF inv] q dead live_before_def)

lemma take_map_nth: "k \<le> length q \<Longrightarrow> take k q = map ((!) q) [0..<k]"
  by (rule nth_equalityI) auto

lemma live_before_steady:
  assumes "\<forall>x \<in> set q. \<forall>j. now j > the (m x) \<longleftrightarrow> expired x" and "k \<le> length q"
  shows "live_before (\<lambda>i. now i > the (m (q ! i))) q k = filter (\<lambda>x. \<not> expired x) (take k q)"
proof -
  have "filter (\<lambda>x. \<not> expired x) (take k q) = filter (\<lambda>x. \<not> expired x) (map ((!) q) [0..<k])"
    using take_map_nth [OF assms(2)] by simp
  also have "\<dots> = live_before (\<lambda>i. now i > the (m (q ! i))) q k"
    using assms by (auto simp: live_before_def filter_map o_def intro!: arg_cong [where f = "map ((!) q)"] filter_cong)
  finally show ?thesis ..
qed

text \<open>
  C27: exactly which workers a purge reaches, whatever the clock says in each round. Worker \<open>i\<close> of the
  queue is looked at in round \<open>i\<close>, and the loop stops after the least number \<open>k\<close> of rounds with
  \<open>n \<le> k +\<close> the number of dead among them, \<open>n\<close> being the size of the pool: a dead worker that is dropped
  costs one of the last workers its turn. Those beyond the first \<open>k\<close> stay as they are, at the front, to be
  given the next requests; behind them are those of the first \<open>k\<close> that were alive, in their order, and
  only these and the ones not reached are left in the lookup. At least half are reached: just half when all
  have expired, all when none has. When the clock does not pass an expiry during the purge, the expired
  workers that remain are those beyond the first \<open>k\<close>, and the live are all kept.
\<close>

theorem purge_leaves_expired:
  assumes inv: "workers_inv w"
    and q: "q = ws_queue w" and dead: "dead = (\<lambda>i. now i > the (ws_lookup w (q ! i)))"
  shows "\<exists>k \<le> length q. length q \<le> k + length (filter dead [0..<k])
    \<and> (\<forall>j<k. j + length (filter dead [0..<j]) < length q)
    \<and> ws_queue (workers_purge now w) = drop k q @ map ((!) q) (filter (\<lambda>i. \<not> dead i) [0..<k])
    \<and> ws_lookup (workers_purge now w) = ws_lookup w |` set (ws_queue (workers_purge now w))
    \<and> ws_ttl (workers_purge now w) = ws_ttl w
    \<and> (length q + 1) div 2 \<le> k
    \<and> ((\<forall>i<length q. dead i) \<longrightarrow> k = (length q + 1) div 2)
    \<and> ((\<forall>i<length q. \<not> dead i) \<longrightarrow> k = length q)
    \<and> (\<forall>expired. (\<forall>x \<in> set q. \<forall>j. now j > the (ws_lookup w x) \<longleftrightarrow> expired x) \<longrightarrow>
        filter expired (ws_queue (workers_purge now w)) = filter expired (drop k q)
        \<and> (\<forall>x \<in> set q. \<not> expired x \<longrightarrow> x \<in> set (ws_queue (workers_purge now w))))"
proof -
  obtain k where k: "k \<le> length q" "length q \<le> k + dead_before dead k" "\<forall>j<k. j + dead_before dead j < length q"
    and left: "ws_queue (workers_purge now w) = drop k q @ live_before dead q k"
    by (rule purge_walk [OF assms])
  have steady: "filter expired (ws_queue (workers_purge now w)) = filter expired (drop k q)
      \<and> (\<forall>x \<in> set q. \<not> expired x \<longrightarrow> x \<in> set (ws_queue (workers_purge now w)))"
    if "\<forall>x \<in> set q. \<forall>j. now j > the (ws_lookup w x) \<longleftrightarrow> expired x" for expired
  proof -
    from live_before_steady [OF that k(1)] left
    have "ws_queue (workers_purge now w) = drop k q @ filter (\<lambda>x. \<not> expired x) (take k q)" by (simp add: dead)
    moreover have "set q = set (take k q) \<union> set (drop k q)" by (metis append_take_drop_id set_append)
    ultimately show ?thesis by auto
  qed
  have "ws_lookup (workers_purge now w) = ws_lookup w |` set (ws_queue (workers_purge now w))"
    "ws_ttl (workers_purge now w) = ws_ttl w" by (simp_all add: workers_purge_spec [OF inv])
  with k left walk_half [OF k(2,3,1)] steady show ?thesis
    unfolding dead_before_def live_before_def by (intro exI [of _ k] conjI allI impI) blast+
qed

theorem purge_leaves_expired_witness:
  "let w = \<lparr>ws_ttl = secs 3, ws_queue = [''a'', ''b'', ''c'', ''d''],
             ws_lookup = [''a'' \<mapsto> 5, ''b'' \<mapsto> 50, ''c'' \<mapsto> 5, ''d'' \<mapsto> 5]\<rparr>
   in workers_inv w \<and> filter (\<lambda>x. x \<noteq> ''b'') (ws_queue (workers_purge (\<lambda>_. 10) w)) = [''d'']"
proof -
  define w where "w = \<lparr>ws_ttl = secs 3, ws_queue = [''a'', ''b'', ''c'', ''d''],
             ws_lookup = [''a'' \<mapsto> 5, ''b'' \<mapsto> 50, ''c'' \<mapsto> 5, ''d'' \<mapsto> (5::time)]\<rparr>"
  have inv: "workers_inv w" by (auto simp: workers_inv_def w_def)
  define q where "q = ws_queue w"
  define dead where "dead = (\<lambda>i::nat. (10::time) > the (ws_lookup w (q ! i)))"
  obtain k where k: "k \<le> length q" "length q \<le> k + length (filter dead [0..<k])"
      "\<forall>j<k. j + length (filter dead [0..<j]) < length q"
    and steady: "\<forall>expired. (\<forall>x \<in> set q. \<forall>j::nat. 10 > the (ws_lookup w x) \<longleftrightarrow> expired x) \<longrightarrow>
        filter expired (ws_queue (workers_purge (\<lambda>_. 10) w)) = filter expired (drop k q)
        \<and> (\<forall>x \<in> set q. \<not> expired x \<longrightarrow> x \<in> set (ws_queue (workers_purge (\<lambda>_. 10) w)))"
    using purge_leaves_expired [where now = "\<lambda>_. 10", OF inv q_def dead_def] by (elim exE conjE) (rule that; assumption)
  have q: "q = [''a'', ''b'', ''c'', ''d'']" by (simp add: q_def w_def)
  have "length (filter dead [0..<1]) = 1" "length (filter dead [0..<2]) = 1" and three: "length (filter dead [0..<3]) = 2"
    by (simp_all add: dead_def w_def q upt_rec)
  then have "k \<noteq> 1" "k \<noteq> 2" "k \<noteq> 0" using k(2) by (auto simp: q intro!: Nat.gr0I)
  with k(1) have "k = 3 \<or> k = 4" by (auto simp: q)
  moreover have "k \<noteq> 4"
  proof
    assume "k = 4"
    with k(3) have "3 + length (filter dead [0..<3]) < length q" by simp
    then show False using three by (simp add: q)
  qed
  moreover have "\<forall>x \<in> set q. \<forall>j::nat. 10 > the (ws_lookup w x) \<longleftrightarrow> x \<noteq> ''b''" by (simp add: q w_def)
  ultimately have "filter (\<lambda>x. x \<noteq> ''b'') (ws_queue (workers_purge (\<lambda>_. 10) w)) = [''d'']"
    using steady by (auto simp: q)
  with inv show ?thesis by (simp add: w_def)
qed

text \<open>
  When nobody has expired a purge turns the queue round once and changes nothing; but when
  only the head has expired the loop stops one short of the full turn, and the worker that was
  used last comes first.
\<close>

theorem purge_order:
  assumes "workers_inv w" and "ws_queue w = d # ls" and "ls \<noteq> []"
    and "\<forall>x \<in> set ls. \<forall>j. now j \<le> the (ws_lookup w x)"
  shows "(now 0 > the (ws_lookup w d) \<longrightarrow> ws_queue (workers_purge now w) = last ls # butlast ls)
    \<and> ((\<forall>j. now j \<le> the (ws_lookup w d)) \<longrightarrow> ws_queue (workers_purge now w) = d # ls)"
proof (intro conjI impI)
  let ?m = "ws_lookup w"
  assume "now 0 > the (?m d)"
  moreover have "purge_spec now ?m 1 ls [] = last ls # butlast ls"
    using purge_spec_all_live [OF assms(4), of "[]" 1 "length ls - 1"] assms(3)
    by (cases ls rule: rev_cases) auto
  ultimately show "ws_queue (workers_purge now w) = last ls # butlast ls"
    using assms(2) by (simp add: workers_purge_spec [OF assms(1)])
next
  let ?m = "ws_lookup w"
  assume "\<forall>j. now j \<le> the (?m d)"
  then have "purge_spec now ?m 0 (d # ls) [] = d # ls"
    using purge_spec_all_live [of "d # ls" now ?m "[]" 0 "length (d # ls)"] assms(4)
    by (simp del: purge_spec.simps)
  then show "ws_queue (workers_purge now w) = d # ls"
    using assms(2) by (simp add: workers_purge_spec [OF assms(1)])
qed

theorem purge_order_witness:
  "let w = \<lparr>ws_ttl = secs 3, ws_queue = [''a'', ''b'', ''c''],
             ws_lookup = [''a'' \<mapsto> 5, ''b'' \<mapsto> 50, ''c'' \<mapsto> 50]\<rparr>
   in ws_queue (workers_purge (\<lambda>_. 10) w) = [''c'', ''b'']"
proof -
  let ?w = "\<lparr>ws_ttl = secs 3, ws_queue = [''a'', ''b'', ''c''],
             ws_lookup = [''a'' \<mapsto> 5, ''b'' \<mapsto> 50, ''c'' \<mapsto> 50]\<rparr>"
  have "workers_inv ?w" by (auto simp: workers_inv_def)
  from purge_order [OF this, of "''a''" "[''b'', ''c'']" "\<lambda>_. 10"] show ?thesis by simp
qed

end
