(* ===== verification/Frames.thy ===== *)
theory Frames
  imports Prelude
begin

text \<open>
  Multipart messages: the \<open>recv_frames\<close> and \<open>send_frames\<close> helpers that the programs
  carry in several copies, and the part-by-part forwarding of the proxies. What the sockets
  deliver is an input (a list of receive events); what is sent is a list of parts with their
  \<open>ZMQ_SNDMORE\<close> flag. Sender and receiver are two interfaces, stated as locales, and every
  copy is an instance of them.
\<close>

subsection \<open>Receive events\<close>

text \<open>
  What one \<open>socket.recv\<close> yields: a part and the value a following
  \<open>getsockopt(ZMQ_RCVMORE)\<close> reports, the result \<open>false\<close> (the message object stays
  empty) and that value, or an exception.
\<close>

datatype recv_event = Part frame bool | NoPart bool | RecvError

definition wire :: "part list \<Rightarrow> recv_event list" where
  "wire ps = map (\<lambda>(d, more). Part d more) ps"

lemma wire_simps [simp]:
  "wire [] = []" "wire ((d, m) # ps) = Part d m # wire ps" "wire (ps @ qs) = wire ps @ wire qs"
  by (simp_all add: wire_def)

text \<open>The parts of a message: all but the last are followed by more.\<close>

fun parts_of :: "msg \<Rightarrow> part list" where
  "parts_of [] = []"
| "parts_of [f] = [(f, False)]"
| "parts_of (f # g # fs) = (f, True) # parts_of (g # fs)"

lemma parts_of_Cons: "fs \<noteq> [] \<Longrightarrow> parts_of (f # fs) = (f, True) # parts_of fs"
  by (cases fs) auto

lemma map_fst_parts_of [simp]: "map fst (parts_of fs) = fs"
  by (induction fs rule: parts_of.induct) auto

lemma parts_of_inject [simp]: "parts_of fs = parts_of gs \<longleftrightarrow> fs = gs"
  by (metis map_fst_parts_of)

lemma parts_of_Nil_iff [simp]: "parts_of fs = [] \<longleftrightarrow> fs = []"
  by (cases fs rule: parts_of.cases) auto

lemma parts_of_butlast_last:
  "fs \<noteq> [] \<Longrightarrow> parts_of fs = map (\<lambda>f. (f, True)) (butlast fs) @ [(last fs, False)]"
  by (induction fs rule: parts_of.induct) auto

subsection \<open>Receiving\<close>

text \<open>
  The loop of the copies that look at the result of \<open>recv\<close>: a part is appended and the
  loop goes on while more parts follow; a result \<open>false\<close> gives the empty deque.
\<close>

fun recv_checked :: "msg \<Rightarrow> recv_event list \<Rightarrow> (msg \<times> recv_event list) res" where
  "recv_checked frames [] = Inl Blocked"
| "recv_checked frames (RecvError # es) = Inl Exception"
| "recv_checked frames (NoPart more # es) = Inr ([], es)"
| "recv_checked frames (Part d more # es) =
     (if more then recv_checked (frames @ [d]) es else Inr (frames @ [d], es))"

text \<open>The loop of the copies that ignore it: the untouched, empty message is appended.\<close>

fun recv_unchecked :: "msg \<Rightarrow> recv_event list \<Rightarrow> (msg \<times> recv_event list) res" where
  "recv_unchecked frames [] = Inl Blocked"
| "recv_unchecked frames (RecvError # es) = Inl Exception"
| "recv_unchecked frames (NoPart more # es) =
     (if more then recv_unchecked (frames @ [[]]) es else Inr (frames @ [[]], es))"
| "recv_unchecked frames (Part d more # es) =
     (if more then recv_unchecked (frames @ [d]) es else Inr (frames @ [d], es))"

definition sp_recv_frames :: "recv_event list \<Rightarrow> (msg \<times> recv_event list) res" where
  "sp_recv_frames es = recv_checked [] es"

definition pp_recv_frames :: "recv_event list \<Rightarrow> (msg \<times> recv_event list) res" where
  "pp_recv_frames es = recv_checked [] es"

definition peering_recv_frames :: "recv_event list \<Rightarrow> (msg \<times> recv_event list) res" where
  "peering_recv_frames es = recv_checked [] es"

definition flserver2_recv_frames :: "recv_event list \<Rightarrow> (msg \<times> recv_event list) res" where
  "flserver2_recv_frames es = recv_checked [] es"

definition flclient2_recv_frames :: "recv_event list \<Rightarrow> (msg \<times> recv_event list) res" where
  "flclient2_recv_frames es = recv_unchecked [] es"

definition fl3_recv_msg :: "recv_event list \<Rightarrow> (msg \<times> recv_event list) res" where
  "fl3_recv_msg es = recv_unchecked [] es"

definition tripping_recv_frames :: "recv_event list \<Rightarrow> (msg \<times> recv_event list) res" where
  "tripping_recv_frames es = recv_unchecked [] es"

text \<open>A single \<open>recv\<close> whose result is ignored, as the brokers that take parts one by one do.\<close>

fun recv_part :: "recv_event list \<Rightarrow> (frame \<times> recv_event list) res" where
  "recv_part [] = Inl Blocked"
| "recv_part (RecvError # es) = Inl Exception"
| "recv_part (NoPart more # es) = Inr ([], es)"
| "recv_part (Part d more # es) = Inr (d, es)"

declare recv_part.simps [res_simps]

subsection \<open>Sending\<close>

text \<open>
  The iterator loop up to \<open>end() - 1\<close>, then the last frame; \<open>end() - 1\<close> and
  \<open>back()\<close> of an empty deque are undefined.
\<close>

definition send_iter :: "msg \<Rightarrow> part list res" where
  "send_iter frames =
     (if frames = [] then Inl Undefined
      else Inr (map (\<lambda>f. (f, True)) (butlast frames) @ [(last frames, False)]))"

definition sp_send_frames :: "msg \<Rightarrow> part list res" where
  "sp_send_frames frames = send_iter frames"

definition pp_send_frames :: "msg \<Rightarrow> part list res" where
  "pp_send_frames frames = send_iter frames"

definition peering_send_frames :: "msg \<Rightarrow> part list res" where
  "peering_send_frames frames = send_iter frames"

definition flserver2_send_frames :: "msg \<Rightarrow> part list res" where
  "flserver2_send_frames frames = send_iter frames"

definition flclient2_send_frames :: "msg \<Rightarrow> part list res" where
  "flclient2_send_frames frames = send_iter frames"

definition fl3_send_msg :: "msg \<Rightarrow> part list res" where
  "fl3_send_msg frames = send_iter frames"

definition fl3_send_frame :: "frame \<Rightarrow> part list" where
  "fl3_send_frame frame = [(frame, False)]"

text \<open>
  The index loop: \<open>frames.size() - 1\<close> wraps to the largest \<open>size_t\<close> on an empty deque,
  and \<open>frames[0]\<close> is then out of range.
\<close>

definition tripping_send_frames :: "msg \<Rightarrow> part list res" where
  "tripping_send_frames frames =
     (if frames = [] then Inl Undefined
      else Inr (map (\<lambda>i. (frames ! i, True)) [0..<length frames - 1] @ [(last frames, False)]))"

subsection \<open>Forwarding part by part\<close>

fun forward_parts :: "recv_event list \<Rightarrow> (part list \<times> recv_event list) res" where
  "forward_parts [] = Inl Blocked"
| "forward_parts (RecvError # es) = Inl Exception"
| "forward_parts (NoPart more # es) =
     (if more then rbind (forward_parts es) (\<lambda>(ps, r). Inr (([], True) # ps, r))
      else Inr ([([], False)], es))"
| "forward_parts (Part d more # es) =
     (if more then rbind (forward_parts es) (\<lambda>(ps, r). Inr ((d, True) # ps, r))
      else Inr ([(d, False)], es))"

subsection \<open>The two interfaces\<close>

locale frame_sender =
  fixes send :: "msg \<Rightarrow> part list res"
  assumes send_Nil: "send [] = Inl Undefined"
    and send_parts: "fs \<noteq> [] \<Longrightarrow> send fs = Inr (parts_of fs)"
begin

lemma send_eq: "send fs = (if fs = [] then Inl Undefined else Inr (parts_of fs))"
  by (simp add: send_Nil send_parts)

lemma send_Inr_iff: "send fs = Inr ps \<longleftrightarrow> fs \<noteq> [] \<and> ps = parts_of fs"
  by (auto simp: send_eq)

lemma send_Inl_iff: "send fs = Inl e \<longleftrightarrow> fs = [] \<and> e = Undefined"
  by (auto simp: send_eq)

lemma send_Cons: "send (f # fs) = Inr (parts_of (f # fs))"
  by (simp add: send_eq)

lemma send_inj: "send fs = send gs \<Longrightarrow> fs = gs"
  by (auto simp: send_eq split: if_splits)

end

locale frame_receiver =
  fixes recv :: "recv_event list \<Rightarrow> (msg \<times> recv_event list) res"
  assumes recv_parts: "fs \<noteq> [] \<Longrightarrow> recv (wire (parts_of fs) @ rest) = Inr (fs, rest)"
    and recv_partial: "recv (map (\<lambda>f. Part f True) fs) = Inl Blocked"
begin

lemma recv_message: "fs \<noteq> [] \<Longrightarrow> recv (wire (parts_of fs)) = Inr (fs, [])"
  using recv_parts [of fs "[]"] by simp

lemma recv_cut_off: "fs \<noteq> [] \<Longrightarrow> recv (wire (butlast (parts_of fs))) = Inl Blocked"
proof -
  assume "fs \<noteq> []"
  then have "wire (butlast (parts_of fs)) = map (\<lambda>f. Part f True) (butlast fs)"
    by (simp add: parts_of_butlast_last wire_def)
  then show ?thesis by (simp add: recv_partial)
qed

end

text \<open>A stream of messages sent back to back is received as the same messages, in order.\<close>

fun recv_many :: "(recv_event list \<Rightarrow> (msg \<times> recv_event list) res) \<Rightarrow> nat \<Rightarrow> recv_event list
    \<Rightarrow> (msg list \<times> recv_event list) res" where
  "recv_many recv 0 es = Inr ([], es)"
| "recv_many recv (Suc n) es =
     rbind (recv es) (\<lambda>(fs, es'). rbind (recv_many recv n es') (\<lambda>(fss, es''). Inr (fs # fss, es'')))"

fun send_many :: "(msg \<Rightarrow> part list res) \<Rightarrow> msg list \<Rightarrow> part list res" where
  "send_many send [] = Inr []"
| "send_many send (fs # fss) = rbind (send fs) (\<lambda>ps. rbind (send_many send fss) (\<lambda>qs. Inr (ps @ qs)))"

locale frame_codec = frame_sender + frame_receiver
begin

lemma recv_send: "send fs = Inr ps \<Longrightarrow> recv (wire ps @ rest) = Inr (fs, rest)"
  by (simp add: send_Inr_iff recv_parts)

lemma recv_many_send_many:
  "send_many send fss = Inr ps \<Longrightarrow> recv_many recv (length fss) (wire ps @ rest) = Inr (fss, rest)"
proof (induction fss arbitrary: ps)
  case Nil
  then show ?case by simp
next
  case (Cons fs fss)
  then obtain p q where p: "send fs = Inr p" and q: "send_many send fss = Inr q" and ps: "ps = p @ q"
    by auto
  with Cons.IH [OF q] recv_send [OF p, of "wire q @ rest"] show ?case by simp
qed

lemma send_many_total: "[] \<notin> set fss \<Longrightarrow> \<exists>ps. send_many send fss = Inr ps"
  by (induction fss) (auto simp: send_eq)

end

subsection \<open>Every copy meets them\<close>

lemma send_iter_eq: "send_iter fs = (if fs = [] then Inl Undefined else Inr (parts_of fs))"
  by (simp add: send_iter_def parts_of_butlast_last)

lemma recv_checked_parts:
  "fs \<noteq> [] \<Longrightarrow> recv_checked acc (wire (parts_of fs) @ rest) = Inr (acc @ fs, rest)"
  by (induction fs arbitrary: acc rule: parts_of.induct) auto

lemma recv_unchecked_parts:
  "fs \<noteq> [] \<Longrightarrow> recv_unchecked acc (wire (parts_of fs) @ rest) = Inr (acc @ fs, rest)"
  by (induction fs arbitrary: acc rule: parts_of.induct) auto

lemma recv_checked_partial: "recv_checked acc (map (\<lambda>f. Part f True) fs) = Inl Blocked"
  by (induction fs arbitrary: acc) auto

lemma recv_unchecked_partial: "recv_unchecked acc (map (\<lambda>f. Part f True) fs) = Inl Blocked"
  by (induction fs arbitrary: acc) auto

lemma recv_checked_faults: "recv_checked acc es = Inl e \<Longrightarrow> e = Blocked \<or> e = Exception"
  by (induction acc es rule: recv_checked.induct) (auto split: if_splits)

lemma recv_unchecked_faults: "recv_unchecked acc es = Inl e \<Longrightarrow> e = Blocked \<or> e = Exception"
  by (induction acc es rule: recv_unchecked.induct) (auto split: if_splits)

lemma butlast_conv_nth: "fs \<noteq> [] \<Longrightarrow> map (\<lambda>i. (fs ! i, True)) [0..<length fs - 1] = map (\<lambda>f. (f, True)) (butlast fs)"
  by (rule nth_equalityI) (auto simp: nth_butlast)

lemma tripping_send_eq: "tripping_send_frames fs = send_iter fs"
  unfolding tripping_send_frames_def send_iter_def by (metis butlast_conv_nth)

lemmas recv_copies = sp_recv_frames_def pp_recv_frames_def peering_recv_frames_def
  flserver2_recv_frames_def flclient2_recv_frames_def fl3_recv_msg_def tripping_recv_frames_def

lemmas send_copies = sp_send_frames_def pp_send_frames_def peering_send_frames_def
  flserver2_send_frames_def flclient2_send_frames_def fl3_send_msg_def tripping_send_eq

lemmas codec_simps = recv_copies send_copies send_iter_eq recv_checked_parts recv_unchecked_parts
  recv_checked_partial recv_unchecked_partial

interpretation sp: frame_codec sp_send_frames sp_recv_frames
  by unfold_locales (simp_all add: codec_simps)

interpretation pp: frame_codec pp_send_frames pp_recv_frames
  by unfold_locales (simp_all add: codec_simps)

interpretation peering: frame_codec peering_send_frames peering_recv_frames
  by unfold_locales (simp_all add: codec_simps)

interpretation fl2_request: frame_codec flclient2_send_frames flserver2_recv_frames
  by unfold_locales (simp_all add: codec_simps)

interpretation fl2_reply: frame_codec flserver2_send_frames flclient2_recv_frames
  by unfold_locales (simp_all add: codec_simps)

interpretation fl3: frame_codec fl3_send_msg fl3_recv_msg
  by unfold_locales (simp_all add: codec_simps)

interpretation tripping: frame_codec tripping_send_frames tripping_recv_frames
  by unfold_locales (simp_all add: codec_simps)

declare sp.send_Cons [simp] pp.send_Cons [simp] peering.send_Cons [simp]
  fl2_request.send_Cons [simp] fl2_reply.send_Cons [simp] fl3.send_Cons [simp]
  tripping.send_Cons [simp]
  sp.send_Nil [simp] pp.send_Nil [simp] peering.send_Nil [simp]
  fl2_request.send_Nil [simp] fl2_reply.send_Nil [simp] fl3.send_Nil [simp]
  tripping.send_Nil [simp]

text \<open>Storing a message and sending it on is the same as forwarding its parts as they come.\<close>

lemma recv_unchecked_acc:
  "recv_unchecked acc es = rbind (recv_unchecked [] es) (\<lambda>(fs, r). Inr (acc @ fs, r))"
proof (induction es arbitrary: acc)
  case Nil
  then show ?case by simp
next
  case (Cons e es)
  have step: "recv_unchecked (acc @ [d]) es =
      rbind (recv_unchecked [d] es) (\<lambda>(fs, r). Inr (acc @ fs, r))" for d
    using Cons [of "acc @ [d]"] Cons [of "[d]"] by (cases "recv_unchecked [] es") auto
  show ?case by (cases e) (auto simp: step)
qed

lemma recv_unchecked_not_Nil: "recv_unchecked acc es = Inr (fs, r) \<Longrightarrow> fs \<noteq> []"
  by (induction acc es rule: recv_unchecked.induct) (auto split: if_splits)

lemma forward_eq_recv_send:
  "forward_parts es = rbind (recv_unchecked [] es) (\<lambda>(fs, r). Inr (parts_of fs, r))"
proof (induction es rule: forward_parts.induct)
  case (3 more es)
  then show ?case
    using recv_unchecked_acc [of "[[]]" es]
    by (cases "recv_unchecked [] es") (auto simp: parts_of_Cons dest: recv_unchecked_not_Nil)
next
  case (4 d more es)
  then show ?case
    using recv_unchecked_acc [of "[d]" es]
    by (cases "recv_unchecked [] es") (auto simp: parts_of_Cons dest: recv_unchecked_not_Nil)
qed simp_all
subsection \<open>The copies compared\<close>

text \<open>The two loops part ways exactly at a receive that returns false.\<close>

lemma recv_loops_after_parts:
  "recv_checked acc (map (\<lambda>f. Part f True) fs @ es) = recv_checked (acc @ fs) es"
  "recv_unchecked acc (map (\<lambda>f. Part f True) fs @ es) = recv_unchecked (acc @ fs) es"
  by (induction fs arbitrary: acc) auto

lemma recv_loops_agree:
  "(\<nexists>fs more rest. es = map (\<lambda>f. Part f True) fs @ NoPart more # rest) \<Longrightarrow> recv_checked acc es = recv_unchecked acc es"
proof (induction acc es rule: recv_checked.induct)
  case (3 acc more es)
  then have False by (metis append_Nil list.map(1))
  then show ?case ..
next
  case (4 acc d more es)
  have "\<nexists>fs m rest. es = map (\<lambda>f. Part f True) fs @ NoPart m # rest" if more
  proof
    assume "\<exists>fs m rest. es = map (\<lambda>f. Part f True) fs @ NoPart m # rest"
    then obtain fs m rest where "es = map (\<lambda>f. Part f True) fs @ NoPart m # rest" by blast
    with that have "Part d more # es = map (\<lambda>f. Part f True) (d # fs) @ NoPart m # rest" by simp
    with "4.prems" show False by blast
  qed
  with 4 show ?case by simp
qed simp_all

lemma recv_loops_differ:
  "recv_checked acc (map (\<lambda>f. Part f True) fs @ NoPart more # rest)
    \<noteq> recv_unchecked acc (map (\<lambda>f. Part f True) fs @ NoPart more # rest)"
  using recv_unchecked_not_Nil [of "acc @ fs" "NoPart more # rest" "[]" rest]
  by (auto simp: recv_loops_after_parts simp del: recv_unchecked.simps)

text \<open>
  C32: the copies of the helpers agree. All senders compute the same function, the iterator loops and the
  index loop alike. A receiver that looks at the result of \<open>recv\<close> and one that does not
  give the same answer on all inputs except those where a receive within the message returns false.
  And forwarding a message part by part is receiving and sending it.
\<close>

theorem helpers_equivalent:
  "tripping_send_frames fs = sp_send_frames fs \<and> pp_send_frames fs = sp_send_frames fs
    \<and> peering_send_frames fs = sp_send_frames fs \<and> flserver2_send_frames fs = sp_send_frames fs
    \<and> flclient2_send_frames fs = sp_send_frames fs \<and> fl3_send_msg fs = sp_send_frames fs
    \<and> pp_recv_frames es = sp_recv_frames es \<and> peering_recv_frames es = sp_recv_frames es
    \<and> flserver2_recv_frames es = sp_recv_frames es
    \<and> flclient2_recv_frames es = tripping_recv_frames es \<and> fl3_recv_msg es = tripping_recv_frames es
    \<and> (sp_recv_frames es \<noteq> tripping_recv_frames es \<longleftrightarrow>
        (\<exists>gs more rest. es = map (\<lambda>g. Part g True) gs @ NoPart more # rest))
    \<and> forward_parts es =
        rbind (tripping_recv_frames es) (\<lambda>(gs, r). rbind (tripping_send_frames gs) (\<lambda>ps. Inr (ps, r)))"
proof (intro conjI)
  show "sp_recv_frames es \<noteq> tripping_recv_frames es \<longleftrightarrow>
      (\<exists>gs more rest. es = map (\<lambda>g. Part g True) gs @ NoPart more # rest)"
    unfolding sp_recv_frames_def tripping_recv_frames_def using recv_loops_agree recv_loops_differ by blast
  show "forward_parts es =
      rbind (tripping_recv_frames es) (\<lambda>(gs, r). rbind (tripping_send_frames gs) (\<lambda>ps. Inr (ps, r)))"
    unfolding forward_eq_recv_send tripping_recv_frames_def
    by (cases "recv_unchecked [] es") (auto simp: tripping.send_parts dest: recv_unchecked_not_Nil)
qed (simp_all add: recv_copies send_copies sp_send_frames_def)

end
