(* ===== verification/Brokers.thy ===== *)
theory Brokers
  imports Frames
begin

text \<open>
  What the brokers share: the two sockets, what a poll reports for them, the messages sent, and
  the list of workers that the requests among those messages are addressed to.
\<close>

datatype port = Frontend | Backend

type_synonym sent = "port \<times> part list"

text \<open>
  One round of polling: for each socket \<open>None\<close>, or the events the following receive calls on
  it will see (\<open>POLLIN\<close> set).
\<close>

record poll_in =
  poll_be :: "recv_event list option"
  poll_fe :: "recv_event list option"

definition sent_to :: "'p \<Rightarrow> ('p \<times> part list) list \<Rightarrow> msg list" where
  "sent_to p os = map (map fst \<circ> snd) (filter (\<lambda>o'. fst o' = p) os)"

lemma sent_to_simps [simp]:
  "sent_to p [] = []"
  "sent_to p ((q, ps) # os) = (if q = p then map fst ps # sent_to p os else sent_to p os)"
  "sent_to p (os @ os') = sent_to p os @ sent_to p os'"
  by (simp_all add: sent_to_def)

text \<open>The peers of a ROUTER socket are named by the first frame of what is sent through it.\<close>

definition addressees :: "msg list \<Rightarrow> frame list" where
  "addressees fss = map hd (filter (\<lambda>fs. fs \<noteq> []) fss)"

lemma addressees_simps [simp]:
  "addressees [] = []"
  "addressees ((f # fs) # fss) = f # addressees fss"
  "addressees ([] # fss) = addressees fss"
  "addressees (fss @ gss) = addressees fss @ addressees gss"
  by (simp_all add: addressees_def)

definition served_by :: "sent list \<Rightarrow> frame list" where
  "served_by os = addressees (sent_to Backend os)"

lemma served_by_append [simp]: "served_by (os @ os') = served_by os @ served_by os'"
  by (simp add: served_by_def)

lemma served_by_simps [simp]:
  "served_by [] = []"
  "served_by ((Frontend, ps) # os) = served_by os"
  "served_by ((Backend, parts_of (w # fs)) # os) = w # served_by os"
  "served_by ((Backend, (w, b) # ps) # os) = w # served_by os"
  by (simp_all add: served_by_def)

text \<open>
  A worker of a paranoid pirate queue is sent heartbeats too; the requests are the messages with
  another body.
\<close>

definition requests_only :: "msg list \<Rightarrow> msg list" where
  "requests_only fss = filter (\<lambda>fs. tl fs \<noteq> [''HEARTBEAT'']) fss"

lemma requests_only_simps [simp]:
  "requests_only [] = []"
  "requests_only (fs # fss) = (if tl fs = [''HEARTBEAT''] then requests_only fss else fs # requests_only fss)"
  "requests_only (fss @ gss) = requests_only fss @ requests_only gss"
  by (simp_all add: requests_only_def)

subsection \<open>What the brokers rely on from the socket library\<close>

text \<open>
  The library is not part of the repository; the end-to-end properties take the documented
  envelope handling of its sockets as a parameter. A ROUTER socket puts the identity of the sending
  peer in front of what it receives, and takes the first frame of what it is given as the peer to
  send the rest to; a REQ socket puts an empty frame in front of what it sends, and strips it from
  what it receives. A REP socket strips the envelope, up to the first empty frame, from the request
  of its peer, and puts the same envelope in front of its reply; the peers here send no more than the
  empty frame.
\<close>

record zmq_envelope =
  router_in :: "frame \<Rightarrow> msg \<Rightarrow> msg"
  router_out :: "msg \<Rightarrow> frame \<times> msg"
  req_out :: "msg \<Rightarrow> msg"
  req_in :: "msg \<Rightarrow> msg"
  rep_in :: "msg \<Rightarrow> msg"
  rep_out :: "msg \<Rightarrow> msg"

definition zmq_contract :: "zmq_envelope \<Rightarrow> bool" where
  "zmq_contract Z \<longleftrightarrow>
     (\<forall>i fs. router_in Z i fs = i # fs) \<and> (\<forall>i fs. router_out Z (i # fs) = (i, fs)) \<and>
     (\<forall>fs. req_out Z fs = [] # fs) \<and> (\<forall>fs. req_in Z ([] # fs) = fs) \<and>
     (\<forall>fs. rep_in Z ([] # fs) = fs) \<and> (\<forall>fs. rep_out Z fs = [] # fs)"

lemma zmq_contractD:
  assumes "zmq_contract Z"
  shows "router_in Z i fs = i # fs" "router_out Z (i # fs) = (i, fs)"
    "req_out Z fs = [] # fs" "req_in Z ([] # fs) = fs"
    "rep_in Z ([] # fs) = fs" "rep_out Z fs = [] # fs"
  using assms by (simp_all add: zmq_contract_def)

text \<open>An instance, for the witnesses.\<close>

definition zmq_std :: zmq_envelope where
  "zmq_std = \<lparr>router_in = (\<lambda>i fs. i # fs), router_out = (\<lambda>fs. (hd fs, tl fs)),
     req_out = (\<lambda>fs. [] # fs), req_in = tl, rep_in = tl, rep_out = (\<lambda>fs. [] # fs)\<rparr>"

lemma zmq_std_contract [simp]: "zmq_contract zmq_std"
  by (simp add: zmq_contract_def zmq_std_def)

text \<open>The events a socket reads when one message arrives.\<close>

definition arrives :: "msg \<Rightarrow> recv_event list" where
  "arrives fs = wire (parts_of fs)"

lemma recv_arrives [simp]:
  "sp_recv_frames (arrives (f # fs)) = Inr (f # fs, [])"
  "pp_recv_frames (arrives (f # fs)) = Inr (f # fs, [])"
  "peering_recv_frames (arrives (f # fs)) = Inr (f # fs, [])"
  "tripping_recv_frames (arrives (f # fs)) = Inr (f # fs, [])"
  "fl3_recv_msg (arrives (f # fs)) = Inr (f # fs, [])"
  "flserver2_recv_frames (arrives (f # fs)) = Inr (f # fs, [])"
  "flclient2_recv_frames (arrives (f # fs)) = Inr (f # fs, [])"
  unfolding arrives_def
  by (simp_all only: sp.recv_message pp.recv_message peering.recv_message tripping.recv_message
      fl3.recv_message fl2_request.recv_message fl2_reply.recv_message list.distinct simp_thms)

lemma recv_part_arrives [simp]:
  "recv_part (arrives (f # fs)) = Inr (f, arrives fs)"
  by (cases fs) (simp_all add: arrives_def)

end
