(* ===== verification/PPQueue.thy ===== *)
theory PPQueue
  imports Brokers Workers
begin

text \<open>
  The paranoid pirate queue (\<open>robust-reliable-queuing/ppqueue.cpp\<close>): one iteration of its
  loop, in the three parts the loop has (message from a worker, request from a client,
  heartbeats and purge), and what it does with each message, when it can fail, and how often a
  worker is given work.
\<close>

subsection \<open>Constants and state\<close>

definition heartbeat_liveness :: "32 word" where
  "heartbeat_liveness = 3"

definition heartbeat_interval :: time where
  "heartbeat_interval = secs 1"

definition pp_ttl :: time where
  "pp_ttl = heartbeat_interval * uint heartbeat_liveness"

record ppq =
  ppq_workers :: workers
  ppq_heartbeat_at :: time

definition ppq_init :: "time \<Rightarrow> ppq" where
  "ppq_init now = \<lparr>ppq_workers = workers_new pp_ttl, ppq_heartbeat_at = now + heartbeat_interval\<rparr>"

text \<open>
  The inputs of an iteration: what the poll reports, and the readings of the clock at the places
  that read it (in the pool operation, in the heartbeat test, when the heartbeat is rescheduled,
  and in each round of the purge).
\<close>

record ppq_in = poll_in +
  ppq_t_pool :: time
  ppq_t_check :: time
  ppq_t_reset :: time
  ppq_t_purge :: "nat \<Rightarrow> time"

subsection \<open>One iteration\<close>

definition ppq_backend :: "time \<Rightarrow> recv_event list \<Rightarrow> ppq \<Rightarrow> (ppq ctl \<times> sent list) res" where
  "ppq_backend now es s =
     rbind (pp_recv_frames es) (\<lambda>(frames, _).
       if frames = [] then Inr (Halt s, [])
       else rbind (deque_front frames) (\<lambda>ident.
         rbind (deque_pop_front frames) (\<lambda>frames.
           if length frames = 1 then
             rbind (deque_front frames) (\<lambda>f.
               if f = ''READY'' then
                 rbind (workers_push now ident (workers_erase ident (ppq_workers s))) (\<lambda>ws.
                   Inr (Next (s\<lparr>ppq_workers := ws\<rparr>), []))
               else if f = ''HEARTBEAT'' then
                 rbind (workers_refresh now ident (ppq_workers s)) (\<lambda>ws.
                   Inr (Next (s\<lparr>ppq_workers := ws\<rparr>), []))
               else Inr (Next s, []))
           else
             rbind (pp_send_frames frames) (\<lambda>ps.
               rbind (workers_try_push now ident (ppq_workers s)) (\<lambda>(_, ws).
                 Inr (Next (s\<lparr>ppq_workers := ws\<rparr>), [(Frontend, ps)]))))))"

definition ppq_frontend :: "recv_event list \<Rightarrow> ppq \<Rightarrow> (ppq \<times> sent list) res" where
  "ppq_frontend es s =
     rbind (pp_recv_frames es) (\<lambda>(frames, _).
       rbind (workers_front (ppq_workers s)) (\<lambda>w.
         rbind (pp_send_frames (w # frames)) (\<lambda>ps.
           Inr (s\<lparr>ppq_workers := workers_pop (ppq_workers s)\<rparr>, [(Backend, ps)]))))"

definition ppq_heartbeats :: "workers \<Rightarrow> sent list" where
  "ppq_heartbeats ws = map (\<lambda>ident. (Backend, parts_of [ident, ''HEARTBEAT''])) (ws_queue ws)"

definition ppq_housekeeping :: "time \<Rightarrow> time \<Rightarrow> (nat \<Rightarrow> time) \<Rightarrow> ppq \<Rightarrow> ppq \<times> sent list" where
  "ppq_housekeeping t_check t_reset t_purge s =
     (if workers_empty (ppq_workers s) then (s, [])
      else
        let (s1, os) =
          (if t_check > ppq_heartbeat_at s
           then (s\<lparr>ppq_heartbeat_at := t_reset + heartbeat_interval\<rparr>, ppq_heartbeats (ppq_workers s))
           else (s, []))
        in (s1\<lparr>ppq_workers := workers_purge t_purge (ppq_workers s1)\<rparr>, os))"

definition ppq_step :: "ppq_in \<Rightarrow> ppq \<Rightarrow> (ppq ctl \<times> sent list) res" where
  "ppq_step i s =
     (let fe = (if workers_empty (ppq_workers s) then None else poll_fe i)
      in rbind (case poll_be i of None \<Rightarrow> Inr (Next s, []) | Some es \<Rightarrow> ppq_backend (ppq_t_pool i) es s)
           (\<lambda>(c, o1). case c of
              Halt s1 \<Rightarrow> Inr (Halt s1, o1)
            | Next s1 \<Rightarrow>
                rbind (case fe of None \<Rightarrow> Inr (s1, []) | Some es \<Rightarrow> ppq_frontend es s1) (\<lambda>(s2, o2).
                  let (s3, o3) = ppq_housekeeping (ppq_t_check i) (ppq_t_reset i) (ppq_t_purge i) s2
                  in Inr (Next s3, o1 @ o2 @ o3))))"

subsection \<open>The parts, one message at a time\<close>

abbreviation ppq_ids :: "ppq \<Rightarrow> string list" where
  "ppq_ids s \<equiv> ws_queue (ppq_workers s)"

definition ppq_inv :: "ppq \<Rightarrow> bool" where
  "ppq_inv s \<longleftrightarrow> workers_inv (ppq_workers s)"

lemma ppq_inv_init [simp]: "ppq_inv (ppq_init t)"
  by (simp add: ppq_inv_def ppq_init_def)

lemma ppq_inv_workers [simp]: "ppq_inv (s\<lparr>ppq_workers := ws\<rparr>) = workers_inv ws"
  by (simp add: ppq_inv_def)

lemma ppq_inv_heartbeat [simp]: "ppq_inv (s\<lparr>ppq_heartbeat_at := t\<rparr>) = ppq_inv s"
  by (simp add: ppq_inv_def)

lemma ppq_backend_READY:
  assumes "ppq_inv s" and "pp_recv_frames es = Inr ([x, ''READY''], r)"
  shows "\<exists>ws. ppq_backend now es s = Inr (Next (s\<lparr>ppq_workers := ws\<rparr>), []) \<and> workers_inv ws
    \<and> ws_queue ws = remove1 x (ppq_ids s) @ [x]"
  using pool.register [of "ppq_workers s" now x] assms by (auto simp: ppq_backend_def ppq_inv_def)

lemma ppq_backend_HEARTBEAT:
  assumes "ppq_inv s" and "pp_recv_frames es = Inr ([x, ''HEARTBEAT''], r)" and "x \<in> set (ppq_ids s)"
  shows "\<exists>ws. ppq_backend now es s = Inr (Next (s\<lparr>ppq_workers := ws\<rparr>), []) \<and> workers_inv ws
    \<and> ws_queue ws = ppq_ids s"
  using refresh_Inr [of "ppq_workers s" x now] assms workers_inv_refresh
  by (fastforce simp: ppq_backend_def ppq_inv_def)

lemma ppq_backend_HEARTBEAT_unknown:
  assumes "ppq_inv s" and "pp_recv_frames es = Inr ([x, ''HEARTBEAT''], r)" and "x \<notin> set (ppq_ids s)"
  shows "ppq_backend now es s = Inl Assertion"
  using refresh_Inl [of "ppq_workers s" x now] assms by (simp add: ppq_backend_def ppq_inv_def)

lemma ppq_backend_reply:
  assumes "ppq_inv s" and "pp_recv_frames es = Inr (x # f # g # fs, r)"
  shows "\<exists>ws. ppq_backend now es s =
      Inr (Next (s\<lparr>ppq_workers := ws\<rparr>), [(Frontend, parts_of (f # g # fs))]) \<and> workers_inv ws
    \<and> ws_queue ws = (if x \<in> set (ppq_ids s) then ppq_ids s else ppq_ids s @ [x])"
  using try_push_Inr [of "ppq_workers s" now x] assms workers_inv_try_push
  by (fastforce simp: ppq_backend_def ppq_inv_def)

lemma ppq_backend_lone:
  "pp_recv_frames es = Inr ([x], r) \<Longrightarrow> ppq_backend now es s = Inl Undefined"
  by (simp add: ppq_backend_def)

lemma ppq_backend_other:
  "pp_recv_frames es = Inr ([x, f], r) \<Longrightarrow> f \<noteq> ''READY'' \<Longrightarrow> f \<noteq> ''HEARTBEAT'' \<Longrightarrow>
    ppq_backend now es s = Inr (Next s, [])"
  by (simp add: ppq_backend_def)

lemma ppq_backend_interrupted:
  "pp_recv_frames es = Inr ([], r) \<Longrightarrow> ppq_backend now es s = Inr (Halt s, [])"
  by (simp add: ppq_backend_def)

lemma ppq_backend_recv_fault:
  "pp_recv_frames es = Inl e \<Longrightarrow> ppq_backend now es s = Inl e"
  by (simp add: ppq_backend_def)

lemmas ppq_backend_cases = ppq_backend_READY ppq_backend_HEARTBEAT ppq_backend_HEARTBEAT_unknown
  ppq_backend_reply ppq_backend_lone ppq_backend_other ppq_backend_interrupted ppq_backend_recv_fault

lemma ppq_frontend_request:
  assumes "ppq_inv s" and "ppq_ids s = w # ws" and "pp_recv_frames es = Inr (frames, r)"
  shows "ppq_frontend es s =
      Inr (s\<lparr>ppq_workers := workers_pop (ppq_workers s)\<rparr>, [(Backend, parts_of (w # frames))])
    \<and> ws_queue (workers_pop (ppq_workers s)) = ws \<and> workers_inv (workers_pop (ppq_workers s))"
  using pool.take_head [of "ppq_workers s" w ws] assms by (simp add: ppq_frontend_def ppq_inv_def)

subsection \<open>The iteration\<close>

text \<open>
  The worker a message of the back end makes available: the sender of a READY or of a reply.
\<close>

definition ppq_report :: "recv_event list \<Rightarrow> frame list" where
  "ppq_report es = (case pp_recv_frames es of
      Inl _ \<Rightarrow> []
    | Inr (frames, _) \<Rightarrow>
        (case frames of
           [] \<Rightarrow> []
         | [x] \<Rightarrow> []
         | [x, f] \<Rightarrow> if f = ''READY'' then [x] else []
         | x # _ \<Rightarrow> [x]))"

definition ppq_reports :: "ppq_in \<Rightarrow> frame list" where
  "ppq_reports i = (case poll_be i of None \<Rightarrow> [] | Some es \<Rightarrow> ppq_report es)"

definition ppq_served :: "sent list \<Rightarrow> frame list" where
  "ppq_served os = addressees (requests_only (sent_to Backend os))"

lemma ppq_served_simps [simp]:
  "ppq_served [] = []"
  "ppq_served (os @ os') = ppq_served os @ ppq_served os'"
  "ppq_served ((Frontend, ps) # os) = ppq_served os"
  by (simp_all add: ppq_served_def)

lemma list_shapes:
  obtains "fs = []" | x where "fs = [x]" | x f where "fs = [x, f]" | x f g gs where "fs = x # f # g # gs"
  by (metis list.exhaust)

lemma ppq_backend_Inr:
  assumes inv: "ppq_inv s" and r: "ppq_backend now es s = Inr (c, os)"
  shows "ppq_inv (ctl_state c) \<and> (ppq_ids s \<noteq> [] \<longrightarrow> ppq_ids (ctl_state c) \<noteq> []) \<and> ppq_served os = []
    \<and> count_list (ppq_ids (ctl_state c)) w \<le> count_list (ppq_ids s) w + count_list (ppq_report es) w"
proof (cases "pp_recv_frames es")
  case (Inl e)
  with r show ?thesis by (simp add: ppq_backend_recv_fault)
next
  case (Inr fr)
  obtain fs rest where fr: "pp_recv_frames es = Inr (fs, rest)" using Inr by (cases fr) auto
  show ?thesis
  proof (cases fs rule: list_shapes)
    case 1
    with r fr inv show ?thesis by (auto simp: ppq_backend_interrupted)
  next
    case (2 x)
    with r fr show ?thesis by (simp add: ppq_backend_lone)
  next
    case (3 x f)
    consider "f = ''READY''" | "f = ''HEARTBEAT''" "x \<in> set (ppq_ids s)"
      | "f = ''HEARTBEAT''" "x \<notin> set (ppq_ids s)" | "f \<noteq> ''READY''" "f \<noteq> ''HEARTBEAT''"
      by blast
    then show ?thesis
    proof cases
      case 1
      with ppq_backend_READY [OF inv, of es x rest now] 3 fr r show ?thesis
        by (auto simp: ppq_report_def count_list_remove1)
    next
      case 2
      with ppq_backend_HEARTBEAT [OF inv, of es x rest now] 3 fr r show ?thesis by auto
    next
      case unknown: 3
      with ppq_backend_HEARTBEAT_unknown [OF inv, of es x rest now] 3 fr r show ?thesis by auto
    next
      case 4
      with ppq_backend_other [of es x f rest now s] 3 fr r inv show ?thesis by auto
    qed
  next
    case (4 x f g gs)
    with ppq_backend_reply [OF inv, of es x f g gs rest now] fr r show ?thesis
      by (auto simp: ppq_report_def split: if_splits)
  qed
qed

lemma ppq_heartbeats_served [simp]: "ppq_served (ppq_heartbeats ws) = []"
proof -
  have "requests_only (sent_to Backend (map (\<lambda>ident. (Backend, parts_of [ident, ''HEARTBEAT''])) xs)) = []"
    for xs :: "frame list" by (induction xs) simp_all
  then show ?thesis by (simp add: ppq_served_def ppq_heartbeats_def)
qed

lemma purge_count: "workers_inv ws \<Longrightarrow>
  count_list (ws_queue (workers_purge now ws)) w \<le> count_list (ws_queue ws) w"
  using purge_queue_subset [of ws now] workers_inv_purge [of ws now]
  by (auto simp: count_list_distinct workers_invD(1))

lemma ppq_housekeeping_inv:
  assumes "ppq_inv s" and "ppq_housekeeping tc tr tp s = (s', os)"
  shows "ppq_inv s' \<and> ppq_served os = [] \<and> sent_to Frontend os = []
    \<and> count_list (ppq_ids s') w \<le> count_list (ppq_ids s) w"
proof -
  have "sent_to Frontend (ppq_heartbeats ws) = []" for ws
    by (simp add: ppq_heartbeats_def sent_to_def o_def filter_map)
  with assms show ?thesis
    by (auto simp: ppq_housekeeping_def Let_def ppq_inv_def workers_inv_purge purge_count
        split: if_splits)
qed

lemma ppq_frontend_Inr:
  assumes inv: "ppq_inv s" and r: "ppq_frontend es s = Inr (s', os)"
  shows "ppq_inv s' \<and> count_list (ppq_ids s') w + count_list (ppq_served os) w \<le> count_list (ppq_ids s) w"
proof -
  from r obtain frames rest x where fr: "pp_recv_frames es = Inr (frames, rest)"
    and x: "workers_front (ppq_workers s) = Inr x" by (auto simp: ppq_frontend_def)
  then obtain xs where ids: "ppq_ids s = x # xs" by (auto simp: workers_front_def)
  from ppq_frontend_request [OF inv ids fr] r show ?thesis
    by (auto simp: ids ppq_served_def)
qed

lemma ppq_step_Inr:
  assumes inv: "ppq_inv s" and r: "ppq_step i s = Inr (c, os)"
  shows "ppq_inv (ctl_state c)
    \<and> count_list (ppq_ids (ctl_state c)) w + count_list (ppq_served os) w
        \<le> count_list (ppq_ids s) w + count_list (ppq_reports i) w"
proof -
  let ?b = "case poll_be i of None \<Rightarrow> Inr (Next s, []) | Some es \<Rightarrow> ppq_backend (ppq_t_pool i) es s"
  from r obtain c1 o1 where b: "?b = Inr (c1, o1)" by (auto simp: ppq_step_def Let_def)
  have b': "ppq_inv (ctl_state c1) \<and> ppq_served o1 = []
      \<and> count_list (ppq_ids (ctl_state c1)) w \<le> count_list (ppq_ids s) w + count_list (ppq_reports i) w"
  proof (cases "poll_be i")
    case None
    with b inv show ?thesis by auto
  next
    case (Some es)
    with b ppq_backend_Inr [OF inv, of "ppq_t_pool i" es c1 o1 w] show ?thesis
      by (simp add: ppq_reports_def)
  qed
  show ?thesis
  proof (cases c1)
    case (Halt s1)
    with r b b' show ?thesis by (auto simp: ppq_step_def Let_def)
  next
    case (Next s1)
    let ?fe = "if workers_empty (ppq_workers s) then None else poll_fe i"
    let ?f = "case ?fe of None \<Rightarrow> Inr (s1, []) | Some es \<Rightarrow> ppq_frontend es s1"
    from r b Next obtain s2 o2 where f: "?f = Inr (s2, o2)" by (auto simp: ppq_step_def Let_def)
    obtain s3 o3 where h: "ppq_housekeeping (ppq_t_check i) (ppq_t_reset i) (ppq_t_purge i) s2 = (s3, o3)"
      by fastforce
    with r b Next f have c: "c = Next s3" and os: "os = o1 @ o2 @ o3"
      by (auto simp: ppq_step_def Let_def)
    from b' Next have inv1: "ppq_inv s1" by simp
    have f': "ppq_inv s2 \<and> count_list (ppq_ids s2) w + count_list (ppq_served o2) w \<le> count_list (ppq_ids s1) w"
    proof (cases ?fe)
      case None
      with f inv1 show ?thesis by auto
    next
      case (Some es)
      with f ppq_frontend_Inr [OF inv1, of es s2 o2 w] show ?thesis by simp
    qed
    from ppq_housekeeping_inv [OF conjunct1 [OF f'] h, of w] f' b' Next c os show ?thesis by auto
  qed
qed

interpretation ppq: dispatcher ppq_step ppq_inv ppq_ids ppq_reports ppq_served
  by unfold_locales (use ppq_step_Inr in auto)

subsection \<open>When the queue program fails\<close>

lemma ppq_backend_fault:
  assumes inv: "ppq_inv s"
  shows "ppq_backend now es s = Inl e \<longleftrightarrow>
      pp_recv_frames es = Inl e
    \<or> e = Undefined \<and> (\<exists>x r. pp_recv_frames es = Inr ([x], r))
    \<or> e = Assertion \<and> (\<exists>x r. pp_recv_frames es = Inr ([x, ''HEARTBEAT''], r) \<and> x \<notin> set (ppq_ids s))"
proof (cases "pp_recv_frames es")
  case (Inl e')
  then show ?thesis by (auto simp: ppq_backend_recv_fault)
next
  case (Inr fr)
  obtain fs rest where fr: "pp_recv_frames es = Inr (fs, rest)" using Inr by (cases fr) auto
  show ?thesis
  proof (cases fs rule: list_shapes)
    case (3 x f)
    consider "f = ''READY''" | "f = ''HEARTBEAT''" "x \<in> set (ppq_ids s)"
      | "f = ''HEARTBEAT''" "x \<notin> set (ppq_ids s)" | "f \<noteq> ''READY''" "f \<noteq> ''HEARTBEAT''"
      by blast
    then show ?thesis
    proof cases
      case 1
      with ppq_backend_READY [OF inv, of es x rest now] 3 fr show ?thesis by auto
    next
      case 2
      with ppq_backend_HEARTBEAT [OF inv, of es x rest now] 3 fr show ?thesis by auto
    next
      case unknown: 3
      with ppq_backend_HEARTBEAT_unknown [OF inv, of es x rest now] 3 fr show ?thesis by auto
    next
      case 4
      with ppq_backend_other [of es x f rest now s] 3 fr show ?thesis by auto
    qed
  next
    case (4 x f g gs)
    with ppq_backend_reply [OF inv, of es x f g gs rest now] fr show ?thesis by auto
  qed (use fr in \<open>auto simp: ppq_backend_interrupted ppq_backend_lone\<close>)
qed

lemma ppq_frontend_fault:
  assumes inv: "ppq_inv s" and "ppq_ids s \<noteq> []"
  shows "ppq_frontend es s = Inl e \<longleftrightarrow> pp_recv_frames es = Inl e"
proof (cases "pp_recv_frames es")
  case (Inl e')
  then show ?thesis by (simp add: ppq_frontend_def)
next
  case (Inr fr)
  obtain fs rest where fr: "pp_recv_frames es = Inr (fs, rest)" using Inr by (cases fr) auto
  obtain x xs where "ppq_ids s = x # xs" using assms(2) by (cases "ppq_ids s") auto
  from ppq_frontend_request [OF inv this fr] fr show ?thesis by simp
qed

lemma ppq_step_fault:
  assumes inv: "ppq_inv s" and e: "e = Assertion \<or> e = Undefined"
  shows "ppq_step i s = Inl e \<longleftrightarrow> (\<exists>es. poll_be i = Some es \<and> ppq_backend (ppq_t_pool i) es s = Inl e)"
proof
  assume "\<exists>es. poll_be i = Some es \<and> ppq_backend (ppq_t_pool i) es s = Inl e"
  then show "ppq_step i s = Inl e" by (auto simp: ppq_step_def)
next
  let ?b = "case poll_be i of None \<Rightarrow> Inr (Next s, []) | Some es \<Rightarrow> ppq_backend (ppq_t_pool i) es s"
  let ?fe = "if workers_empty (ppq_workers s) then None else poll_fe i"
  assume r: "ppq_step i s = Inl e"
  have no_fe: False if b: "?b = Inr (Next s1, o1)" and f: "?fe = Some es" "ppq_frontend es s1 = Inl e" for s1 o1 es
  proof -
    have "ppq_inv s1 \<and> (ppq_ids s \<noteq> [] \<longrightarrow> ppq_ids s1 \<noteq> [])"
      using b inv ppq_backend_Inr [OF inv, of "ppq_t_pool i"] by (cases "poll_be i") fastforce+
    moreover have "ppq_ids s \<noteq> []" using f(1) by (auto simp: workers_empty_def split: if_splits)
    ultimately have "pp_recv_frames es = Inl e" using f(2) ppq_frontend_fault by blast
    with e show False using recv_checked_faults [of "[]" es e] by (auto simp: pp_recv_frames_def)
  qed
  show "\<exists>es. poll_be i = Some es \<and> ppq_backend (ppq_t_pool i) es s = Inl e"
  proof (cases ?b)
    case (Inl e')
    with r show ?thesis by (cases "poll_be i") (auto simp: ppq_step_def)
  next
    case (Inr co)
    then obtain c1 o1 where b: "?b = Inr (c1, o1)" by (cases co) auto
    show ?thesis
    proof (cases c1)
      case (Halt s1)
      with r b show ?thesis by (simp add: ppq_step_def Let_def)
    next
      case (Next s1)
      with b have b: "?b = Inr (Next s1, o1)" by simp
      show ?thesis
      proof (cases ?fe)
        case None
        with r b show ?thesis by (simp add: ppq_step_def Let_def split: prod.splits)
      next
        case (Some es)
        with r b have "ppq_frontend es s1 = Inl e"
          by (cases "ppq_frontend es s1") (auto simp: ppq_step_def Let_def split: prod.splits)
        with no_fe [OF b Some] show ?thesis by blast
      qed
    qed
  qed
qed

text \<open>
  C3: from a well-formed state an iteration fails an assertion exactly when a HEARTBEAT comes from
  a worker that is not in the pool, and runs into undefined behaviour exactly when a worker sends a
  message without a body; a request from a client can cause neither, since the front end is polled
  only while a worker is available.
\<close>

theorem ppq_step_faults:
  assumes "ppq_inv s"
  shows "(ppq_step i s = Inl Assertion \<longleftrightarrow>
      (\<exists>es x r. poll_be i = Some es \<and> pp_recv_frames es = Inr ([x, ''HEARTBEAT''], r) \<and> x \<notin> set (ppq_ids s)))
    \<and> (ppq_step i s = Inl Undefined \<longleftrightarrow>
      (\<exists>es x r. poll_be i = Some es \<and> pp_recv_frames es = Inr ([x], r)))"
  using recv_checked_faults
  by (simp add: ppq_step_fault [OF assms] ppq_backend_fault [OF assms]) (fastforce simp: pp_recv_frames_def)

theorem ppq_step_faults_witness:
  "ppq_step \<lparr>poll_be = Some [Part ''w'' True, Part ''HEARTBEAT'' False], poll_fe = None,
      ppq_t_pool = 0, ppq_t_check = 0, ppq_t_reset = 0, ppq_t_purge = \<lambda>_. 0\<rparr> (ppq_init 0) = Inl Assertion"
proof -
  have "ppq_inv (ppq_init 0)" by simp
  from ppq_step_faults [OF this] show ?thesis
    by (auto simp: pp_recv_frames_def ppq_init_def workers_new_def)
qed

definition ppq_at :: "time \<Rightarrow> msg option \<Rightarrow> msg option \<Rightarrow> ppq_in" where
  "ppq_at t be fe = \<lparr>poll_be = map_option (wire \<circ> parts_of) be, poll_fe = map_option (wire \<circ> parts_of) fe,
     ppq_t_pool = t, ppq_t_check = t, ppq_t_reset = t, ppq_t_purge = \<lambda>_. t\<rparr>"

definition ppq_one :: "time \<Rightarrow> frame \<Rightarrow> ppq" where
  "ppq_one t w = (ppq_init t)\<lparr>ppq_workers :=
     \<lparr>ws_ttl = pp_ttl, ws_queue = [w], ws_lookup = [w \<mapsto> t + pp_ttl]\<rparr>\<rparr>"

lemma ppq_one_inv: "ppq_inv (ppq_one t w)"
  by (auto simp: ppq_inv_def ppq_one_def workers_inv_def)

lemma ppq_step_READY: "ppq_step (ppq_at t (Some [w, ''READY'']) None) (ppq_init t) = Inr (Next (ppq_one t w), [])"
proof -
  have pos: "0 < pp_ttl" "0 < heartbeat_interval"
    by (simp_all add: pp_ttl_def heartbeat_interval_def heartbeat_liveness_def secs_def)
  have "workers_inv (ppq_workers (ppq_one t w))" using ppq_one_inv by (simp add: ppq_inv_def)
  then have "workers_purge (\<lambda>_. t) (ppq_workers (ppq_one t w)) = ppq_workers (ppq_one t w)"
    using pos by (simp add: workers_purge_spec ppq_one_def restrict_dom)
  then show ?thesis
    using pos by (simp add: ppq_step_def ppq_at_def ppq_backend_def ppq_init_def ppq_one_def
        workers_new_def pp_recv_frames_def workers_erase_def workers_push_def
        ppq_housekeeping_def workers_empty_def)
qed

lemma ppq_step_request:
  "ppq_step (ppq_at t None (Some [client, [], body])) (ppq_one t w) =
    Inr (Next (ppq_init t), [(Backend, parts_of [w, client, [], body])])"
  by (simp add: ppq_step_def ppq_at_def ppq_frontend_def ppq_one_def ppq_init_def workers_new_def
      pp_recv_frames_def workers_front_def workers_pop_def ppq_housekeeping_def workers_empty_def)

text \<open>
  A worker that has been given a request is no longer in the pool, so if the HEARTBEAT it had
  already sent is read next, the queue program aborts: for every worker, client and request, three
  consecutive iterations suffice.
\<close>

theorem ppq_busy_heartbeat_aborts:
  "run ppq_step (ppq_init t)
     [ppq_at t (Some [w, ''READY'']) None, ppq_at t None (Some [client, [], body]),
      ppq_at t (Some [w, ''HEARTBEAT'']) None] = Inl Assertion"
proof -
  have "ppq_step (ppq_at t (Some [w, ''HEARTBEAT'']) None) (ppq_init t) = Inl Assertion"
    using ppq_step_fault [of "ppq_init t" Assertion]
    by (simp add: ppq_backend_fault ppq_at_def)
      (simp add: ppq_init_def workers_new_def pp_recv_frames_def)
  then show ?thesis by (simp add: ppq_step_READY ppq_step_request)
qed

text \<open>
  Over any run from the start, a worker is given at most as many requests as it has sent READY
  messages and replies: a busy worker is never given a second request.
\<close>

theorem ppq_work_bound:
  assumes "run ppq_step (ppq_init t) is = Inr (c, os)"
  shows "count_list (ppq_served os) w \<le> count_list (concat (map ppq_reports is)) w"
proof (rule ppq.run_served_le [OF _ assms])
  show "ppq_ids (ppq_init t) = []" by (simp add: ppq_init_def workers_new_def)
qed simp

theorem ppq_work_bound_witness:
  "\<exists>c os. run ppq_step (ppq_init 0)
      [ppq_at 0 (Some [''w'', ''READY'']) None, ppq_at 0 None (Some [''c'', [], ''hi''])] = Inr (c, os)
    \<and> ppq_served os = [''w'']
    \<and> count_list (ppq_served os) ''w'' \<le> count_list (concat (map ppq_reports
      [ppq_at 0 (Some [''w'', ''READY'']) None, ppq_at 0 None (Some [''c'', [], ''hi''])])) ''w''"
proof -
  let ?is = "[ppq_at 0 (Some [''w'', ''READY'']) None, ppq_at 0 None (Some [''c'', [], ''hi''])]"
  have r: "run ppq_step (ppq_init 0) ?is =
      Inr (Next (ppq_init 0), [(Backend, parts_of [''w'', ''c'', [], ''hi''])])"
    by (simp add: ppq_step_READY ppq_step_request)
  from ppq_work_bound [OF r, of "''w''"] r show ?thesis by (simp add: ppq_served_def)
qed

text \<open>
  What an iteration does with each message it accepts. READY puts the sender last, once;
  HEARTBEAT keeps the order; a reply goes to the client without the worker's identity and makes the
  worker available; a request goes, with the identity in front, to the worker that has waited
  longest, which leaves the pool.
\<close>

theorem ppq_messages:
  assumes "ppq_inv s"
  shows "(pp_recv_frames es = Inr ([x, ''READY''], r) \<longrightarrow>
      (\<exists>ws. ppq_backend now es s = Inr (Next (s\<lparr>ppq_workers := ws\<rparr>), []) \<and> ws_queue ws = remove1 x (ppq_ids s) @ [x]))
    \<and> (pp_recv_frames es = Inr ([x, ''HEARTBEAT''], r) \<and> x \<in> set (ppq_ids s) \<longrightarrow>
      (\<exists>ws. ppq_backend now es s = Inr (Next (s\<lparr>ppq_workers := ws\<rparr>), []) \<and> ws_queue ws = ppq_ids s))
    \<and> (pp_recv_frames es = Inr (x # f # g # fs, r) \<longrightarrow>
      (\<exists>ws. ppq_backend now es s = Inr (Next (s\<lparr>ppq_workers := ws\<rparr>), [(Frontend, parts_of (f # g # fs))])
        \<and> ws_queue ws = (if x \<in> set (ppq_ids s) then ppq_ids s else ppq_ids s @ [x])))
    \<and> (pp_recv_frames es = Inr (frames, r) \<and> ppq_ids s = w # ws \<longrightarrow>
      (\<exists>s'. ppq_frontend es s = Inr (s', [(Backend, parts_of (w # frames))]) \<and> ppq_ids s' = ws))"
  using ppq_backend_READY [OF assms, of es x r now] ppq_backend_HEARTBEAT [OF assms, of es x r now]
    ppq_backend_reply [OF assms, of es x f g fs r now] ppq_frontend_request [OF assms, of w ws es frames r]
  by auto

theorem ppq_messages_witness:
  "\<exists>s'. ppq_frontend (wire (parts_of [''c'', [], ''hi''])) (ppq_one 0 ''w'') =
      Inr (s', [(Backend, parts_of [''w'', ''c'', [], ''hi''])]) \<and> ppq_ids s' = []"
proof -
  have "pp_recv_frames (wire (parts_of [''c'', [], ''hi''])) = Inr ([''c'', [], ''hi''], [])"
    by (rule pp.recv_message) simp
  moreover have "ppq_ids (ppq_one 0 ''w'') = [''w'']" by (simp add: ppq_one_def)
  ultimately show ?thesis using ppq_messages [OF ppq_one_inv] by metis
qed

end
