(* ===== verification/Numerals.thy ===== *)
theory Numerals
  imports Prelude
begin

text \<open>
  The number formatting and parsing of the C and C++ standard libraries that the sources use:
  \<open>std::to_string\<close>, the \<open>setw(4)\<close> upper-case hexadecimal of the thread identities,
  \<open>%0wd\<close> of \<open>printf\<close>, \<open>strtol\<close> in base 10, \<open>std::stoi\<close> and
  \<open>istream >> int\<close>. \<open>int\<close>, \<open>unsigned\<close> and \<open>long\<close> have 32 bits, as on the
  target the projects are set up for (x86, MSVC). The lemmas are the round trips between them.
\<close>

subsection \<open>Formatting\<close>

definition digit_char :: "nat \<Rightarrow> char" where
  "digit_char d = char_of (48 + d)"

definition hex_char :: "nat \<Rightarrow> char" where
  "hex_char d = (if d < 10 then char_of (48 + d) else char_of (55 + d))"

fun nat_string :: "nat \<Rightarrow> string" where
  "nat_string n = (if n < 10 then [digit_char n] else nat_string (n div 10) @ [digit_char (n mod 10)])"

declare nat_string.simps [simp del]

fun hex_string :: "nat \<Rightarrow> string" where
  "hex_string n = (if n < 16 then [hex_char n] else hex_string (n div 16) @ [hex_char (n mod 16)])"

declare hex_string.simps [simp del]

text \<open>\<open>std::to_string\<close> of a signed and of an unsigned 32-bit integer.\<close>

definition int_string :: "int \<Rightarrow> string" where
  "int_string i = (if i < 0 then CHR ''-'' # nat_string (nat (- i)) else nat_string (nat i))"

definition unsigned_string :: "32 word \<Rightarrow> string" where
  "unsigned_string w = nat_string (unat w)"

text \<open>\<open>setw(w)\<close> with \<open>setfill('0')\<close>: padded on the left, never cut.\<close>

definition pad_left :: "nat \<Rightarrow> string \<Rightarrow> string" where
  "pad_left w s = replicate (w - length s) (CHR ''0'') @ s"

subsection \<open>Parsing\<close>

definition is_digit :: "char \<Rightarrow> bool" where
  "is_digit c \<longleftrightarrow> 48 \<le> (of_char c :: nat) \<and> (of_char c :: nat) \<le> 57"

definition digit_val :: "char \<Rightarrow> nat" where
  "digit_val c = of_char c - 48"

definition is_space :: "char \<Rightarrow> bool" where
  "is_space c \<longleftrightarrow> (of_char c :: nat) = 32 \<or> 9 \<le> (of_char c :: nat) \<and> (of_char c :: nat) \<le> 13"

definition NUL :: char where
  "NUL = CHR 0x00"

text \<open>The C string a \<open>char*\<close> points to ends at its first NUL.\<close>

definition c_str :: "string \<Rightarrow> string" where
  "c_str s = takeWhile (\<lambda>c. (of_char c :: nat) \<noteq> 0) s"

fun read_digits :: "nat \<Rightarrow> string \<Rightarrow> nat \<times> string" where
  "read_digits acc [] = (acc, [])"
| "read_digits acc (c # cs) =
     (if is_digit c then read_digits (10 * acc + digit_val c) cs else (acc, c # cs))"

fun read_sign :: "string \<Rightarrow> bool \<times> string" where
  "read_sign [] = (False, [])"
| "read_sign (c # cs) =
     (if c = CHR ''-'' then (True, cs) else if c = CHR ''+'' then (False, cs) else (False, c # cs))"

definition starts_digit :: "string \<Rightarrow> bool" where
  "starts_digit s = (case s of [] \<Rightarrow> False | c # _ \<Rightarrow> is_digit c)"

text \<open>The value before any clamping, and what is left; \<open>None\<close> when there is no number.\<close>

definition read_number :: "string \<Rightarrow> (int \<times> string) option" where
  "read_number s =
     (let (neg, t) = read_sign (dropWhile is_space s)
      in if starts_digit t
         then (let (n, rest) = read_digits 0 t in Some (if neg then - int n else int n, rest))
         else None)"

definition clamp32 :: "int \<Rightarrow> int" where
  "clamp32 v = max (- (2 ^ 31)) (min (2 ^ 31 - 1) v)"

text \<open>
  \<open>strtol(s, &end, 10)\<close>: the clamped value and the text \<open>end\<close> points to, which is the
  whole argument when no conversion was done.
\<close>

definition strtol :: "string \<Rightarrow> int \<times> string" where
  "strtol s = (case read_number (c_str s) of None \<Rightarrow> (0, c_str s) | Some (v, rest) \<Rightarrow> (clamp32 v, rest))"

text \<open>\<open>std::stoi\<close> throws \<open>invalid_argument\<close> or \<open>out_of_range\<close>.\<close>

definition stoi :: "string \<Rightarrow> int res" where
  "stoi s = (case read_number (c_str s) of
      None \<Rightarrow> Inl Exception
    | Some (v, _) \<Rightarrow> if v = clamp32 v then Inr v else Inl Exception)"

text \<open>
  \<open>is >> x\<close> for an \<open>int x\<close>, on a stream that has not failed yet: the value stored and the
  rest of the stream, or the value stored by a failed extraction (0 when there is no number, the
  nearest representable value on overflow). When only white space is left nothing is stored
(\<open>stores_int\<close>): the variable keeps the value it had.
\<close>

definition stores_int :: "string \<Rightarrow> bool" where
  "stores_int s = list_ex (\<lambda>c. \<not> is_space c) s"

definition extract_int :: "string \<Rightarrow> int \<times> string option" where
  "extract_int s = (case read_number s of
      None \<Rightarrow> (0, None)
    | Some (v, rest) \<Rightarrow> if v = clamp32 v then (v, Some rest) else (clamp32 v, None))"

subsection \<open>Digits\<close>

lemma of_char_digit: "d < 10 \<Longrightarrow> (of_char (digit_char d) :: nat) = 48 + d"
  by (simp add: digit_char_def of_char_of take_bit_eq_mod)

lemma digit_char_props [simp]:
  assumes "d < 10"
  shows "is_digit (digit_char d)" "digit_val (digit_char d) = d" "\<not> is_space (digit_char d)"
    "digit_char d \<noteq> CHR ''-''" "digit_char d \<noteq> CHR ''+''" "(of_char (digit_char d) :: nat) \<noteq> 0"
proof -
  note o = of_char_digit [OF assms]
  show "is_digit (digit_char d)" "digit_val (digit_char d) = d" "\<not> is_space (digit_char d)"
    "(of_char (digit_char d) :: nat) \<noteq> 0"
    using assms o by (simp_all add: is_digit_def digit_val_def is_space_def)
  show "digit_char d \<noteq> CHR ''-''" "digit_char d \<noteq> CHR ''+''"
    using o by auto
qed

lemma nat_string_digits: "c \<in> set (nat_string n) \<Longrightarrow> \<exists>d < 10. c = digit_char d"
proof (induction n rule: nat_string.induct)
  case (1 n)
  show ?case
  proof (cases "n < 10")
    case True
    with "1.prems" show ?thesis by (auto simp: nat_string.simps [of n])
  next
    case False
    have "n mod 10 < 10" by simp
    with False 1 show ?thesis by (fastforce simp: nat_string.simps [of n])
  qed
qed

lemma nat_string_not_Nil [simp]: "nat_string n \<noteq> []"
  by (subst nat_string.simps) simp

lemma nat_string_hd: "\<exists>d ds. nat_string n = digit_char d # ds \<and> d < 10"
proof -
  obtain c cs where n: "nat_string n = c # cs" by (cases "nat_string n") auto
  then have "c \<in> set (nat_string n)" by simp
  then obtain d where "d < 10" "c = digit_char d" using nat_string_digits by blast
  with n show ?thesis by auto
qed

lemma nat_string_len: "n < 10 ^ k \<Longrightarrow> 0 < k \<Longrightarrow> length (nat_string n) \<le> k"
proof (induction n arbitrary: k rule: nat_string.induct)
  case (1 n)
  show ?case
  proof (cases "n < 10")
    case True
    with "1.prems" show ?thesis by (simp add: nat_string.simps [of n])
  next
    case False
    with "1.prems" obtain j where k: "k = Suc j" by (cases k) auto
    with False "1.prems" have "0 < j" by (cases j) auto
    moreover from k "1.prems" have "n div 10 < 10 ^ j" by auto
    ultimately have "length (nat_string (n div 10)) \<le> j" using "1.IH" False by simp
    with False k show ?thesis by (simp add: nat_string.simps [of n])
  qed
qed

lemma nat_string_len_ge: "10 ^ k \<le> n \<Longrightarrow> k < length (nat_string n)"
proof (induction n arbitrary: k rule: nat_string.induct)
  case (1 n)
  show ?case
  proof (cases "n < 10")
    case True
    have "k = 0"
    proof (rule ccontr)
      assume "k \<noteq> 0"
      then have "(10::nat) ^ 1 \<le> 10 ^ k" by (intro power_increasing) auto
      with True "1.prems" show False by simp
    qed
    then show ?thesis by simp
  next
    case False
    show ?thesis
    proof (cases k)
      case 0
      then show ?thesis by simp
    next
      case (Suc j)
      with "1.prems" have "10 ^ j \<le> n div 10" by (simp add: less_eq_div_iff_mult_less_eq mult.commute)
      with "1.IH" False have "j < length (nat_string (n div 10))" by simp
      with False Suc show ?thesis by (simp add: nat_string.simps [of n])
    qed
  qed
qed

subsection \<open>Round trips\<close>

lemma read_digits_append:
  "(\<forall>c \<in> set xs. is_digit c) \<Longrightarrow> read_digits acc (xs @ ys) = read_digits (fst (read_digits acc xs)) ys"
  by (induction xs arbitrary: acc) auto

lemma read_digits_stop: "\<not> starts_digit rest \<Longrightarrow> read_digits acc rest = (acc, rest)"
  by (cases rest) (auto simp: starts_digit_def)

lemma fst_read_digits_nat_string:
  "fst (read_digits acc (nat_string n)) = acc * 10 ^ length (nat_string n) + n"
proof (induction n arbitrary: acc rule: nat_string.induct)
  case (1 n)
  show ?case
  proof (cases "n < 10")
    case True
    then show ?thesis by (simp add: nat_string.simps [of n])
  next
    case False
    have "\<forall>c \<in> set (nat_string (n div 10)). is_digit c"
      using nat_string_digits by fastforce
    with False "1.IH" show ?thesis
      by (simp add: nat_string.simps [of n] read_digits_append algebra_simps)
  qed
qed

lemma read_digits_nat_string:
  assumes "\<not> starts_digit rest"
  shows "read_digits 0 (nat_string n @ rest) = (n, rest)"
proof -
  have "\<forall>c \<in> set (nat_string n). is_digit c" using nat_string_digits by fastforce
  then show ?thesis
    using assms by (simp add: read_digits_append fst_read_digits_nat_string read_digits_stop)
qed

lemma read_number_nat_string:
  assumes "\<not> starts_digit rest"
  shows "read_number (nat_string n @ rest) = Some (int n, rest)"
proof -
  obtain d ds where h: "nat_string n = digit_char d # ds" "d < 10" using nat_string_hd by blast
  then have "dropWhile is_space (nat_string n @ rest) = nat_string n @ rest" by simp
  moreover have "read_sign (nat_string n @ rest) = (False, nat_string n @ rest)" using h by simp
  moreover have "starts_digit (nat_string n @ rest)" using h by (simp add: starts_digit_def)
  ultimately show ?thesis using assms by (simp add: read_number_def read_digits_nat_string)
qed

lemma read_number_int_string:
  assumes "\<not> starts_digit rest"
  shows "read_number (int_string i @ rest) = Some (i, rest)"
proof (cases "i < 0")
  case True
  obtain d ds where h: "nat_string (nat (- i)) = digit_char d # ds" "d < 10"
    using nat_string_hd by blast
  then have "starts_digit (nat_string (nat (- i)) @ rest)" by (simp add: starts_digit_def)
  moreover have "\<not> is_space (CHR ''-'')" by (simp add: is_space_def)
  ultimately show ?thesis
    using True assms by (simp add: read_number_def int_string_def read_digits_nat_string)
next
  case False
  then show ?thesis using assms by (simp add: int_string_def read_number_nat_string)
qed

lemma read_number_space: "is_space c \<Longrightarrow> read_number (c # s) = read_number s"
  by (simp add: read_number_def)

lemma c_str_nat_string [simp]: "c_str (nat_string n) = nat_string n"
  unfolding c_str_def takeWhile_eq_all_conv using nat_string_digits digit_char_props(6) by blast

lemma starts_digit_Nil [simp]: "\<not> starts_digit []"
  by (simp add: starts_digit_def)

lemma strtol_nat_string: "strtol (nat_string n) = (min (2 ^ 31 - 1) (int n), [])"
  using read_number_nat_string [of "[]" n] by (auto simp: strtol_def clamp32_def)

lemma stoi_nat_string: "n < 2 ^ 31 \<Longrightarrow> stoi (nat_string n) = Inr (int n)"
  using read_number_nat_string [of "[]" n] by (auto simp: stoi_def clamp32_def)

lemma stoi_nat_string_overflow: "2 ^ 31 \<le> n \<Longrightarrow> stoi (nat_string n) = Inl Exception"
  using read_number_nat_string [of "[]" n] by (auto simp: stoi_def clamp32_def)

lemma nat_string_inj: "nat_string m = nat_string n \<Longrightarrow> m = n"
  using read_number_nat_string [of "[]" m] read_number_nat_string [of "[]" n] by simp

lemma extract_int_string:
  "- (2 ^ 31) \<le> i \<Longrightarrow> i < 2 ^ 31 \<Longrightarrow> \<not> starts_digit rest \<Longrightarrow>
    extract_int (int_string i @ rest) = (i, Some rest)"
  by (auto simp: extract_int_def read_number_int_string clamp32_def)

lemma extract_int_stores: "extract_int s = (v, Some rest) \<Longrightarrow> stores_int s"
proof (rule ccontr)
  assume e: "extract_int s = (v, Some rest)" and "\<not> stores_int s"
  then have "\<forall>c \<in> set s. is_space c" by (auto simp: stores_int_def list_ex_iff)
  then have d: "dropWhile is_space s = []" by simp
  have "read_number s = None" unfolding read_number_def d by (simp add: starts_digit_def)
  with e show False by (simp add: extract_int_def)
qed

lemma c_str_terminated: "NUL \<notin> set t \<Longrightarrow> c_str (t @ NUL # s) = t"
proof -
  have nul: "(of_char c :: nat) = 0 \<longleftrightarrow> c = NUL" for c
    using of_char_eq_iff [of c NUL, where ?'a = nat] by (simp add: NUL_def)
  assume "NUL \<notin> set t"
  then show ?thesis by (induction t) (auto simp: c_str_def nul)
qed

subsection \<open>Hexadecimal identities\<close>

text \<open>The value of a string of upper-case hexadecimal digits: a left inverse of the formatting.\<close>

definition hex_digit_val :: "char \<Rightarrow> nat" where
  "hex_digit_val c = (let n = of_char c in if n < 58 then n - 48 else n - 55)"

definition hex_value :: "string \<Rightarrow> nat" where
  "hex_value s = foldl (\<lambda>a c. 16 * a + hex_digit_val c) 0 s"

lemma hex_digit_val_char: "d < 16 \<Longrightarrow> hex_digit_val (hex_char d) = d"
  by (auto simp: hex_digit_val_def hex_char_def Let_def of_char_of take_bit_eq_mod)

lemma hex_value_snoc: "hex_value (s @ [c]) = 16 * hex_value s + hex_digit_val c"
  by (simp add: hex_value_def)

lemma hex_value_zeros: "hex_value (replicate k (CHR ''0'') @ s) = hex_value s"
proof (induction k)
  case (Suc k)
  have "hex_digit_val (CHR ''0'') = 0" by (simp add: hex_digit_val_def Let_def)
  then have "hex_value (CHR ''0'' # t) = hex_value t" for t by (simp add: hex_value_def)
  with Suc show ?case by simp
qed simp

lemma hex_value_hex_string: "hex_value (hex_string n) = n"
proof (induction n rule: hex_string.induct)
  case (1 n)
  show ?case
  proof (cases "n < 16")
    case True
    then have "hex_value (hex_string n) = hex_digit_val (hex_char n)"
      by (simp add: hex_value_def hex_string.simps [of n])
    with True show ?thesis by (simp add: hex_digit_val_char)
  next
    case False
    have "hex_digit_val (hex_char (n mod 16)) = n mod 16" by (rule hex_digit_val_char) simp
    with False 1 show ?thesis by (simp add: hex_string.simps [of n] hex_value_snoc)
  qed
qed

lemma hex_value_pad_left: "hex_value (pad_left w (hex_string n)) = n"
  by (simp add: pad_left_def hex_value_zeros hex_value_hex_string)

lemma hex_string_chars: "c \<in> set (hex_string n) \<Longrightarrow> \<exists>d < 16. c = hex_char d"
proof (induction n rule: hex_string.induct)
  case (1 n)
  have "n mod 16 < 16" by simp
  with 1 show ?case by (cases "n < 16") (fastforce simp: hex_string.simps [of n])+
qed

lemma hex_chars: "d < 16 \<Longrightarrow> (of_char (hex_char d) :: nat) < 71"
  by (auto simp: hex_char_def of_char_of take_bit_eq_mod)

lemma pad_left_hex_chars: "c \<in> set (pad_left w (hex_string n)) \<Longrightarrow> (of_char c :: nat) < 71"
  using hex_string_chars [of c n] hex_chars by (auto simp: pad_left_def)

end
