(* ===== verification/PPWorker.thy ===== *)
theory PPWorker
  imports PPQueue Numerals
begin

text \<open>
  The paranoid pirate worker (\<open>robust-reliable-queuing/ppworker.cpp\<close>): the loop that echoes
  requests, counts silent polls, and reconnects with exponential back-off. The lemmas: the
  bounds of its counters, the exact back-off schedule, and the round trip of a request through queue
  and worker.
\<close>

subsection \<open>State and actions\<close>

definition interval_max :: int where
  "interval_max = 32"

text \<open>
  The time-out is a duration in seconds; the liveness an \<open>unsigned\<close>; the cycles are an
  \<open>int\<close>, whose increment is undefined at the end of its range.
\<close>

record ppw =
  ppw_heartbeat_at :: time
  ppw_timeout :: int
  ppw_liveness :: "32 word"
  ppw_cycles :: int

datatype ppw_act = PpwConnect | PpwSend "part list" | PpwSleep time

text \<open>
  One iteration sees what the poll reports, the two draws of the random distribution (in 0..5), and
  the clock where it is read. A silent poll has waited for one interval.
\<close>

record ppw_in =
  ppw_poll :: "recv_event list option"
  ppw_crash :: int
  ppw_slow :: int
  ppw_t_check :: time
  ppw_t_reset :: time

definition ppw_new_socket :: "ppw_act list" where
  "ppw_new_socket = [PpwConnect, PpwSend [(''READY'', False)]]"

definition ppw_init :: "time \<Rightarrow> ppw" where
  "ppw_init now = \<lparr>ppw_heartbeat_at = now + heartbeat_interval, ppw_timeout = 1,
     ppw_liveness = heartbeat_liveness, ppw_cycles = 0\<rparr>"

subsection \<open>One iteration\<close>

definition ppw_message :: "ppw_in \<Rightarrow> recv_event list \<Rightarrow> ppw \<Rightarrow> (ppw ctl \<times> ppw_act list) res" where
  "ppw_message i es s =
     rbind (pp_recv_frames es) (\<lambda>(frames, _).
       if frames = [] then Inr (Halt s, [])
       else if length frames = 3 then
         if ppw_cycles s = 2 ^ 31 - 1 then Inl Undefined
         else
           let s1 = s\<lparr>ppw_cycles := ppw_cycles s + 1\<rparr>
           in if ppw_cycles s1 > 10 \<and> ppw_crash i = 0 then Inr (Halt s1, [])
              else
                let o1 = (if ppw_cycles s1 > 5 \<and> ppw_slow i = 0 then [PpwSleep (secs 5)] else [])
                in rbind (pp_send_frames frames) (\<lambda>ps.
                     Inr (Next (s1\<lparr>ppw_liveness := heartbeat_liveness, ppw_timeout := 1\<rparr>),
                          o1 @ [PpwSleep (secs 1), PpwSend ps]))
       else if length frames = 1 \<and> last frames = ''HEARTBEAT'' then
         Inr (Next (s\<lparr>ppw_liveness := heartbeat_liveness, ppw_timeout := 1\<rparr>), [])
       else Inr (Halt s, []))"

definition ppw_silent :: "ppw \<Rightarrow> ppw \<times> ppw_act list" where
  "ppw_silent s =
     (let s1 = s\<lparr>ppw_liveness := ppw_liveness s - 1\<rparr>
      in if ppw_liveness s1 = 0
         then (s1\<lparr>ppw_timeout := (if ppw_timeout s1 < interval_max then ppw_timeout s1 * 2 else ppw_timeout s1),
                  ppw_liveness := heartbeat_liveness\<rparr>,
               PpwSleep (secs (ppw_timeout s1)) # ppw_new_socket)
         else (s1, []))"

definition ppw_heartbeat :: "ppw_in \<Rightarrow> ppw \<Rightarrow> ppw \<times> ppw_act list" where
  "ppw_heartbeat i s =
     (if ppw_t_check i > ppw_heartbeat_at s
      then (s\<lparr>ppw_heartbeat_at := ppw_t_reset i + heartbeat_interval\<rparr>, [PpwSend [(''HEARTBEAT'', False)]])
      else (s, []))"

definition ppw_step :: "ppw_in \<Rightarrow> ppw \<Rightarrow> (ppw ctl \<times> ppw_act list) res" where
  "ppw_step i s =
     rbind (case ppw_poll i of
              Some es \<Rightarrow> ppw_message i es s
            | None \<Rightarrow> (let (s1, o1) = ppw_silent s in Inr (Next s1, o1)))
       (\<lambda>(c, o1). case c of
          Halt s1 \<Rightarrow> Inr (Halt s1, o1)
        | Next s1 \<Rightarrow> (let (s2, o2) = ppw_heartbeat i s1 in Inr (Next s2, o1 @ o2)))"

definition ppw_get_id :: "int \<Rightarrow> string" where
  "ppw_get_id pid = ''ppworker-'' @ int_string pid"

subsection \<open>The counters\<close>

definition ppw_inv :: "ppw \<Rightarrow> bool" where
  "ppw_inv s \<longleftrightarrow> ppw_liveness s \<in> {1, 2, 3} \<and> ppw_timeout s \<in> {1, 2, 4, 8, 16, 32}"

lemma ppw_inv_init [simp]: "ppw_inv (ppw_init t)"
  by (simp add: ppw_inv_def ppw_init_def heartbeat_liveness_def)

lemma ppw_message_inv: "ppw_inv s \<Longrightarrow> ppw_message i es s = Inr (c, os) \<Longrightarrow> ppw_inv (ctl_state c)"
proof -
  assume inv: "ppw_inv s" and r: "ppw_message i es s = Inr (c, os)"
  then obtain frames rest where fr: "pp_recv_frames es = Inr (frames, rest)"
    by (auto simp: ppw_message_def)
  have eq: "ppw_inv s1" if "ppw_liveness s1 = ppw_liveness s" "ppw_timeout s1 = ppw_timeout s"
    for s1 using that inv by (simp add: ppw_inv_def)
  have reset: "ppw_inv s1" if "ppw_liveness s1 = 3" "ppw_timeout s1 = 1" for s1
    using that by (simp add: ppw_inv_def)
  consider "frames = []" | "length frames = 3" | "frames \<noteq> []" "length frames \<noteq> 3" by blast
  then show ?thesis
  proof cases
    case 2
    then have ne: "frames \<noteq> []" by auto
    then obtain ps where ps: "pp_send_frames frames = Inr ps" using pp.send_eq [of frames] by simp
    have "ppw_cycles s \<noteq> 2 ^ 31 - 1" using r fr 2 ne by (auto simp: ppw_message_def)
    with ps r fr 2 ne show ?thesis
      by (cases "ppw_cycles s + 1 > 10 \<and> ppw_crash i = 0")
        (auto simp: ppw_message_def Let_def eq reset heartbeat_liveness_def)
  qed (use r fr inv in \<open>auto simp: ppw_message_def eq reset heartbeat_liveness_def split: if_splits\<close>)
qed

lemma ppw_silent_inv: "ppw_inv s \<Longrightarrow> ppw_inv (fst (ppw_silent s))"
  by (auto simp: ppw_silent_def ppw_inv_def Let_def heartbeat_liveness_def interval_max_def)

lemma ppw_heartbeat_inv: "ppw_inv (fst (ppw_heartbeat i s)) = ppw_inv s"
  by (simp add: ppw_heartbeat_def ppw_inv_def)

lemma ppw_step_inv: "ppw_inv s \<Longrightarrow> ppw_step i s = Inr (c, os) \<Longrightarrow> ppw_inv (ctl_state c)"
proof -
  assume inv: "ppw_inv s" and r: "ppw_step i s = Inr (c, os)"
  let ?m = "case ppw_poll i of Some es \<Rightarrow> ppw_message i es s
    | None \<Rightarrow> (let (s1, o1) = ppw_silent s in Inr (Next s1, o1))"
  from r obtain c1 o1 where m: "?m = Inr (c1, o1)" by (auto simp: ppw_step_def)
  have "ppw_inv (ctl_state c1)"
    using m ppw_silent_inv [OF inv] ppw_message_inv [OF inv]
    by (cases "ppw_poll i") (auto split: prod.splits)
  with r m show ?thesis
    using ppw_heartbeat_inv [of i "ctl_state c1"]
    by (cases c1) (auto simp: ppw_step_def split: prod.splits)
qed

interpretation ppw: guarded_loop ppw_step ppw_inv
  by unfold_locales (rule ppw_step_inv)

subsection \<open>Silence\<close>

definition silent_input :: "ppw_in \<Rightarrow> bool" where
  "silent_input i \<longleftrightarrow> ppw_poll i = None"

definition reconnects :: "ppw_act list \<Rightarrow> ppw_act list" where
  "reconnects os = filter (\<lambda>a. case a of PpwSend ps \<Rightarrow> ps = [(''READY'', False)] | _ \<Rightarrow> True) os"

lemma reconnects_append [simp]: "reconnects (xs @ ys) = reconnects xs @ reconnects ys"
  by (simp add: reconnects_def)

lemma ppw_step_silent:
  assumes "silent_input i"
  shows "\<exists>s' os. ppw_step i s = Inr (Next s', os)
    \<and> ppw_liveness s' = ppw_liveness (fst (ppw_silent s)) \<and> ppw_timeout s' = ppw_timeout (fst (ppw_silent s))
    \<and> reconnects os = snd (ppw_silent s)"
  using assms
  by (auto simp: ppw_step_def silent_input_def ppw_heartbeat_def ppw_silent_def Let_def reconnects_def
      ppw_new_socket_def)

lemma ppw_silent_cases:
  "ppw_liveness s = 3 \<or> ppw_liveness s = 2 \<Longrightarrow>
    ppw_liveness (fst (ppw_silent s)) = ppw_liveness s - 1 \<and>
    ppw_timeout (fst (ppw_silent s)) = ppw_timeout s \<and> snd (ppw_silent s) = []"
  "ppw_liveness s = 1 \<Longrightarrow>
    ppw_liveness (fst (ppw_silent s)) = 3 \<and>
    ppw_timeout (fst (ppw_silent s)) = (if ppw_timeout s < interval_max then ppw_timeout s * 2 else ppw_timeout s) \<and>
    snd (ppw_silent s) = PpwSleep (secs (ppw_timeout s)) # ppw_new_socket"
  by (auto simp: ppw_silent_def Let_def heartbeat_liveness_def)

text \<open>Three silent polls in a row: two are counted, the third reconnects.\<close>

lemma ppw_three_silent:
  assumes "ppw_liveness s = 3" and "silent_input i" "silent_input j" "silent_input k"
  shows "\<exists>s' os. run ppw_step s [i, j, k] = Inr (Next s', os) \<and> ppw_liveness s' = 3
    \<and> ppw_timeout s' = (if ppw_timeout s < interval_max then ppw_timeout s * 2 else ppw_timeout s)
    \<and> reconnects os = PpwSleep (secs (ppw_timeout s)) # ppw_new_socket"
proof -
  obtain s1 o1 where 1: "ppw_step i s = Inr (Next s1, o1)" "ppw_liveness s1 = 2"
    "ppw_timeout s1 = ppw_timeout s" "reconnects o1 = []"
    using ppw_step_silent [OF assms(2), of s] ppw_silent_cases(1) [of s] assms(1) by auto
  obtain s2 o2 where 2: "ppw_step j s1 = Inr (Next s2, o2)" "ppw_liveness s2 = 1"
    "ppw_timeout s2 = ppw_timeout s" "reconnects o2 = []"
    using ppw_step_silent [OF assms(3), of s1] ppw_silent_cases(1) [of s1] 1 by auto
  obtain s3 o3 where 3: "ppw_step k s2 = Inr (Next s3, o3)" "ppw_liveness s3 = 3"
    "ppw_timeout s3 = (if ppw_timeout s < interval_max then ppw_timeout s * 2 else ppw_timeout s)"
    "reconnects o3 = PpwSleep (secs (ppw_timeout s)) # ppw_new_socket"
    using ppw_step_silent [OF assms(4), of s2] ppw_silent_cases(2) [of s2] 2 by auto
  from 1 2 3 show ?thesis by simp
qed

lemma backoff_step: "(if min (2 ^ j) 32 < interval_max then min (2 ^ j) 32 * 2 else min (2 ^ j) 32) =
    (min (2 ^ Suc j) 32 :: int)"
proof (cases "j < 5")
  case True
  then have "j = 0 \<or> j = 1 \<or> j = 2 \<or> j = 3 \<or> j = 4" by auto
  then show ?thesis by (auto simp: interval_max_def)
next
  case False
  then have "(2::int) ^ 5 \<le> 2 ^ j" by (intro power_increasing) auto
  then show ?thesis by (simp add: interval_max_def min_def)
qed

lemma ppw_backoff_from:
  assumes "ppw_liveness s = 3" and "ppw_timeout s = min (2 ^ j) 32"
    and "length is = 3 * k" and "\<forall>i \<in> set is. silent_input i"
  shows "\<exists>s' os. run ppw_step s is = Inr (Next s', os)
    \<and> reconnects os = concat (map (\<lambda>n. PpwSleep (secs (min (2 ^ n) 32)) # ppw_new_socket) [j..<j + k])
    \<and> ppw_liveness s' = 3 \<and> ppw_timeout s' = min (2 ^ (j + k)) 32"
  using assms
proof (induction k arbitrary: s j "is")
  case 0
  then show ?case by (auto simp: reconnects_def)
next
  case (Suc k)
  from Suc.prems(3) obtain a b c rest where sp: "is = a # b # c # rest" "length rest = 3 * k"
    by (cases "is" rule: list.exhaust; cases "tl is"; cases "tl (tl is)") auto
  then have silent: "silent_input a" "silent_input b" "silent_input c" "\<forall>i \<in> set rest. silent_input i"
    using Suc.prems(4) by auto
  from ppw_three_silent [OF Suc.prems(1) silent(1-3)] obtain s1 o1 where s1:
    "run ppw_step s [a, b, c] = Inr (Next s1, o1)" "ppw_liveness s1 = 3"
    "ppw_timeout s1 = min (2 ^ Suc j) 32"
    "reconnects o1 = PpwSleep (secs (min (2 ^ j) 32)) # ppw_new_socket"
    unfolding Suc.prems(2) backoff_step by blast
  from Suc.IH [OF s1(2,3) sp(2) silent(4)] obtain s' os where rest:
    "run ppw_step s1 rest = Inr (Next s', os)"
    "reconnects os = concat (map (\<lambda>n. PpwSleep (secs (min (2 ^ n) 32)) # ppw_new_socket) [Suc j..<Suc j + k])"
    "ppw_liveness s' = 3" "ppw_timeout s' = min (2 ^ (Suc j + k)) 32" by auto
  have "run ppw_step s is = Inr (Next s', o1 @ os)"
    using run_append_Next [OF s1(1), of rest] rest(1) sp(1) by (simp del: run.simps)
  moreover have "[j..<j + Suc k] = j # [Suc j..<Suc j + k]" by (simp add: upt_conv_Cons)
  ultimately show ?case using s1(4) rest by simp
qed

text \<open>
  C30: a worker that hears nothing reconnects at every third silent poll, sends READY on the new
  socket, and waits before the n-th reconnection for 2^n seconds, at most 32.
\<close>

theorem ppw_backoff:
  assumes "length is = 3 * k" and "\<forall>i \<in> set is. silent_input i"
  shows "\<exists>s' os. run ppw_step (ppw_init t) is = Inr (Next s', os)
    \<and> reconnects os = concat (map (\<lambda>n. PpwSleep (secs (min (2 ^ n) 32)) # ppw_new_socket) [0..<k])"
proof -
  have "ppw_liveness (ppw_init t) = 3" "ppw_timeout (ppw_init t) = min (2 ^ 0) 32"
    by (simp_all add: ppw_init_def heartbeat_liveness_def)
  from ppw_backoff_from [OF this assms] show ?thesis by auto
qed

theorem ppw_backoff_witness:
  "let i = \<lparr>ppw_poll = None, ppw_crash = 1, ppw_slow = 1, ppw_t_check = 0, ppw_t_reset = 0\<rparr>
   in \<exists>s' os. run ppw_step (ppw_init 0) [i, i, i, i, i, i] = Inr (Next s', os)
    \<and> reconnects os = PpwSleep (secs 1) # ppw_new_socket @ PpwSleep (secs 2) # ppw_new_socket"
proof -
  let ?i = "\<lparr>ppw_poll = None, ppw_crash = 1, ppw_slow = 1, ppw_t_check = 0, ppw_t_reset = 0\<rparr>"
  have "length [?i, ?i, ?i, ?i, ?i, ?i] = 3 * 2" by simp
  from ppw_backoff [OF this, of 0] show ?thesis
    by (simp add: silent_input_def numeral_2_eq_2)
qed

text \<open>
  In every run the liveness of a worker stays between 1 and 3, so decrementing the unsigned
  never wraps, and the time-out stays a power of two between 1 and 32 seconds.
\<close>

theorem ppw_counters_bounded:
  assumes "run ppw_step (ppw_init t) is = Inr (c, os)"
  shows "1 \<le> unat (ppw_liveness (ctl_state c)) \<and> unat (ppw_liveness (ctl_state c)) \<le> 3
    \<and> (\<exists>n \<le> 5. ppw_timeout (ctl_state c) = 2 ^ n)"
proof -
  have "ppw_inv (ctl_state c)" by (rule ppw.run_inv [OF _ assms]) simp
  then have l: "ppw_liveness (ctl_state c) \<in> {1, 2, 3}"
    and t: "ppw_timeout (ctl_state c) \<in> {2 ^ 0, 2 ^ 1, 2 ^ 2, 2 ^ 3, 2 ^ 4, 2 ^ 5}"
    by (auto simp: ppw_inv_def)
  have "\<exists>n \<le> 5. ppw_timeout (ctl_state c) = 2 ^ n"
    using t by (elim insertE) (auto intro: exI [of _ 0] exI [of _ 1] exI [of _ 2] exI [of _ 3]
        exI [of _ 4] exI [of _ 5])
  moreover from l have "unat (ppw_liveness (ctl_state c)) \<in> {1, 2, 3}" by auto
  ultimately show ?thesis by auto
qed

theorem ppw_counters_bounded_witness:
  "run ppw_step (ppw_init 0) [] = Inr (Next (ppw_init 0), [])
    \<and> 1 \<le> unat (ppw_liveness (ppw_init 0)) \<and> unat (ppw_liveness (ppw_init 0)) \<le> 3"
  using ppw_counters_bounded [of 0 "[]" "Next (ppw_init 0)" "[]"] by simp

subsection \<open>A request and its reply\<close>

lemma ppw_message_echo:
  assumes "ppw_cycles s + 1 > 10 \<longrightarrow> ppw_crash i \<noteq> 0" and "ppw_cycles s \<noteq> 2 ^ 31 - 1"
  shows "\<exists>s' os. ppw_message i (arrives [a, b, c]) s = Inr (Next s', os @ [PpwSend (parts_of [a, b, c])])
    \<and> ppw_liveness s' = heartbeat_liveness \<and> ppw_timeout s' = 1"
  using assms by (simp add: ppw_message_def Let_def del: parts_of.simps)

text \<open>
  C29: a request of one frame makes the whole round through queue and worker: it goes to the worker
  that has waited longest, the worker echoes it and resets its counters, and the reply reaches the
  client that sent the request, while the worker becomes the last of the pool.
\<close>

theorem pp_round_trip:
  assumes Z: "zmq_contract Z" and inv: "ppq_inv s" and ids: "ppq_ids s = w # ws"
    and alive: "ppw_cycles st + 1 > 10 \<longrightarrow> ppw_crash i \<noteq> 0" and range: "ppw_cycles st \<noteq> 2 ^ 31 - 1"
  shows "\<exists>s1 s2 st' ps qs rs os.
      ppq_frontend (arrives (router_in Z client (req_out Z [body]))) s = Inr (s1, [(Backend, ps)])
    \<and> router_out Z (map fst ps) = (w, [client, [], body])
    \<and> ppw_message i (arrives [client, [], body]) st = Inr (Next st', os @ [PpwSend qs])
    \<and> ppw_liveness st' = heartbeat_liveness \<and> ppw_timeout st' = 1
    \<and> ppq_backend now (arrives (router_in Z w (map fst qs))) s1 = Inr (Next s2, [(Frontend, rs)])
    \<and> ppq_ids s2 = ws @ [w]
    \<and> router_out Z (map fst rs) = (client, [[], body]) \<and> req_in Z [[], body] = [body]"
proof -
  let ?s1 = "s\<lparr>ppq_workers := workers_pop (ppq_workers s)\<rparr>"
  have f: "ppq_frontend (arrives [client, [], body]) s = Inr (?s1, [(Backend, parts_of [w, client, [], body])])"
    and q: "ppq_ids ?s1 = ws" and i1: "ppq_inv ?s1"
    using ppq_frontend_request [OF inv ids recv_arrives(2), of client "[[], body]"] by simp_all
  have "w \<notin> set ws" using workers_invD(1) [of "ppq_workers s"] inv ids by (simp add: ppq_inv_def)
  with q ppq_backend_reply [OF i1, of "arrives [w, client, [], body]" w client "[]" "[body]" "[]" now]
  obtain s2 where b: "ppq_backend now (arrives [w, client, [], body]) ?s1 =
      Inr (Next s2, [(Frontend, parts_of [client, [], body])])" and q2: "ppq_ids s2 = ws @ [w]"
    by fastforce
  obtain st' os where w: "ppw_message i (arrives [client, [], body]) st =
      Inr (Next st', os @ [PpwSend (parts_of [client, [], body])])"
    "ppw_liveness st' = heartbeat_liveness" "ppw_timeout st' = 1"
    using ppw_message_echo [OF alive range] by blast
  note parts_of.simps [simp del]
  show ?thesis
    by (intro exI [of _ ?s1] exI [of _ s2] exI [of _ st'] exI [of _ os]
        exI [of _ "parts_of [w, client, [], body]"] exI [of _ "parts_of [client, [], body]"])
      (use f b q2 w zmq_contractD [OF Z] in simp)
qed

theorem pp_round_trip_witness:
  "\<exists>s1 ps. ppq_frontend (arrives [''c'', [], ''hi'']) (ppq_one 0 ''w'') = Inr (s1, [(Backend, ps)])
    \<and> map fst ps = [''w'', ''c'', [], ''hi'']"
proof -
  let ?i = "\<lparr>ppw_poll = None, ppw_crash = 1, ppw_slow = 1, ppw_t_check = 0, ppw_t_reset = 0\<rparr>"
  have ids: "ppq_ids (ppq_one 0 ''w'') = ''w'' # []" by (simp add: ppq_one_def)
  from pp_round_trip [OF zmq_std_contract ppq_one_inv ids, of "ppw_init 0" ?i "''c''" "''hi''" 0]
  show ?thesis by (auto simp: ppw_init_def ppq_frontend_def ppq_one_def workers_front_def zmq_std_def)
qed

end
