(* ===== verification/SPQueue.thy ===== *)
theory SPQueue
  imports Brokers Numerals
begin

text \<open>
  The simple pirate queue and worker (\<open>basic-reliable-queuing\<close>): a broker that keeps the
  identities of the free workers in a queue, and a worker that echoes. The lemmas: what an iteration
  does on every shape of message, the first-in first-out law of the dispatching, the bound on the
  queue, and the round trip of a request.
\<close>

subsection \<open>The queue program\<close>

definition MAX_WORKERS :: nat where
  "MAX_WORKERS = 100"

type_synonym spq = "string list"

definition spq_backend :: "recv_event list \<Rightarrow> spq \<Rightarrow> (spq \<times> sent list) res" where
  "spq_backend es worker_queue =
     rbind (sp_recv_frames es) (\<lambda>(frames, _).
       rbind (assert_that (length worker_queue < MAX_WORKERS)) (\<lambda>_.
         rbind (deque_front frames) (\<lambda>ident.
           rbind (deque_pop_front frames) (\<lambda>frames.
             rbind (deque_front frames) (\<lambda>delim.
               rbind (assert_that (delim = [])) (\<lambda>_.
                 rbind (deque_pop_front frames) (\<lambda>frames.
                   rbind (deque_front frames) (\<lambda>f.
                     if f \<noteq> ''READY'' then
                       rbind (sp_send_frames frames) (\<lambda>ps.
                         Inr (worker_queue @ [ident], [(Frontend, ps)]))
                     else Inr (worker_queue @ [ident], [])))))))))"

definition spq_frontend :: "recv_event list \<Rightarrow> spq \<Rightarrow> (spq \<times> sent list) res" where
  "spq_frontend es worker_queue =
     rbind (sp_recv_frames es) (\<lambda>(frames, _).
       rbind (deque_front worker_queue) (\<lambda>w.
         rbind (deque_pop_front worker_queue) (\<lambda>worker_queue.
           rbind (sp_send_frames (w # [] # frames)) (\<lambda>ps.
             Inr (worker_queue, [(Backend, ps)])))))"

definition spq_step :: "poll_in \<Rightarrow> spq \<Rightarrow> (spq ctl \<times> sent list) res" where
  "spq_step i worker_queue =
     (let fe = (if worker_queue = [] then None else poll_fe i)
      in rbind (case poll_be i of None \<Rightarrow> Inr (worker_queue, []) | Some es \<Rightarrow> spq_backend es worker_queue)
           (\<lambda>(q1, o1).
              rbind (case fe of None \<Rightarrow> Inr (q1, []) | Some es \<Rightarrow> spq_frontend es q1)
                (\<lambda>(q2, o2). Inr (Next q2, o1 @ o2))))"

subsection \<open>The worker program\<close>

text \<open>
  The counter of requests, the draws of the random distribution (in 0..5), and what the worker
  sends; the two draws are made only when the counter is past its threshold.
\<close>

datatype spw_act = SpwSleep time | SpwSend "part list"

text \<open>The identity of a worker, from the number of its process.\<close>

definition spw_identity :: "int \<Rightarrow> string" where
  "spw_identity pid = ''spworker-'' @ int_string pid"

definition spw_ready :: "part list" where
  "spw_ready = [(''READY'', False)]"

record spw_in =
  spw_request :: "recv_event list"
  spw_crash :: int
  spw_slow :: int

definition spw_step :: "spw_in \<Rightarrow> int \<Rightarrow> (int ctl \<times> spw_act list) res" where
  "spw_step i cycles =
     rbind (sp_recv_frames (spw_request i)) (\<lambda>(frames, _).
       if cycles = 2 ^ 31 - 1 then Inl Undefined
       else let cycles = cycles + 1
       in if cycles > 6 \<and> spw_crash i = 0 then Inr (Halt cycles, [])
          else
            let o1 = (if cycles > 3 \<and> spw_slow i = 0 then [SpwSleep (secs 5)] else [])
            in rbind (deque_back frames) (\<lambda>_.
                 rbind (sp_send_frames frames) (\<lambda>ps.
                   Inr (Next cycles, o1 @ [SpwSleep (secs 1), SpwSend ps]))))"

subsection \<open>Messages of the queue program\<close>

lemma spq_backend_READY:
  assumes "length q < MAX_WORKERS"
  shows "sp_recv_frames es = Inr (x # [] # ''READY'' # fs, r) \<Longrightarrow> spq_backend es q = Inr (q @ [x], [])"
  using assms by (simp add: spq_backend_def)

lemma spq_backend_reply:
  assumes "length q < MAX_WORKERS" and "f \<noteq> ''READY''"
  shows "sp_recv_frames es = Inr (x # [] # f # fs, r) \<Longrightarrow>
    spq_backend es q = Inr (q @ [x], [(Frontend, parts_of (f # fs))])"
  using assms by (simp add: spq_backend_def)

lemma spq_frontend_request:
  "sp_recv_frames es = Inr (fs, r) \<Longrightarrow>
    spq_frontend es (w # q) = Inr (q, [(Backend, parts_of (w # [] # fs))])"
  by (simp add: spq_frontend_def)

lemma spq_backend_Inr:
  assumes "spq_backend es q = Inr (q', os)"
  shows "\<exists>x f fs r. sp_recv_frames es = Inr (x # [] # f # fs, r) \<and> q' = q @ [x] \<and> length q < MAX_WORKERS
    \<and> os = (if f = ''READY'' then [] else [(Frontend, parts_of (f # fs))])"
proof -
  from assms obtain frames r where fr: "sp_recv_frames es = Inr (frames, r)" and len: "length q < MAX_WORKERS"
    by (auto simp: spq_backend_def)
  from assms fr len obtain x fs1 where 1: "frames = x # fs1"
    by (cases frames) (auto simp: spq_backend_def)
  with assms fr len obtain fs2 where 2: "fs1 = [] # fs2"
    by (cases fs1) (auto simp: spq_backend_def)
  with assms fr len 1 obtain f fs where 3: "fs2 = f # fs"
    by (cases fs2) (auto simp: spq_backend_def)
  from spq_backend_READY [OF len, of es x fs r] spq_backend_reply [OF len, of f es x fs r]
    assms fr len 1 2 3 show ?thesis by (cases "f = ''READY''") auto
qed

lemma spq_frontend_Inr:
  assumes "spq_frontend es q = Inr (q', os)"
  shows "\<exists>w fs r. q = w # q' \<and> sp_recv_frames es = Inr (fs, r) \<and> os = [(Backend, parts_of (w # [] # fs))]"
proof -
  from assms obtain fs r w q2 where "sp_recv_frames es = Inr (fs, r)" "q = w # q2"
    by (auto simp: spq_frontend_def)
  with assms spq_frontend_request [of es fs r w q2] show ?thesis by auto
qed

subsection \<open>The dispatching law\<close>

definition spq_inv :: "spq \<Rightarrow> bool" where
  "spq_inv q \<longleftrightarrow> length q \<le> MAX_WORKERS"

text \<open>Every message from a worker, READY or reply, reports its sender.\<close>

definition spq_reports :: "poll_in \<Rightarrow> frame list" where
  "spq_reports i = (case poll_be i of
      None \<Rightarrow> []
    | Some es \<Rightarrow> (case sp_recv_frames es of Inl _ \<Rightarrow> [] | Inr (frames, _) \<Rightarrow> take 1 frames))"

lemma spq_step_Inr:
  assumes inv: "spq_inv q" and r: "spq_step i q = Inr (c, os)"
  shows "spq_inv (ctl_state c) \<and> served_by os @ ctl_state c = q @ spq_reports i"
proof -
  let ?b = "case poll_be i of None \<Rightarrow> Inr (q, []) | Some es \<Rightarrow> spq_backend es q"
  let ?fe = "if q = [] then None else poll_fe i"
  from r obtain q1 o1 q2 o2 where b: "?b = Inr (q1, o1)"
    and f: "(case ?fe of None \<Rightarrow> Inr (q1, []) | Some es \<Rightarrow> spq_frontend es q1) = Inr (q2, o2)"
    and c: "c = Next q2" and os: "os = o1 @ o2"
    by (auto simp: spq_step_def Let_def)
  have 1: "spq_inv q1 \<and> q1 = q @ spq_reports i \<and> served_by o1 = []"
  proof (cases "poll_be i")
    case None
    with b inv show ?thesis by (simp add: spq_reports_def)
  next
    case (Some es)
    with b spq_backend_Inr [of es q q1 o1] show ?thesis
      by (auto simp: spq_reports_def spq_inv_def)
  qed
  have "spq_inv q2 \<and> served_by o2 @ q2 = q1"
  proof (cases ?fe)
    case None
    with f 1 show ?thesis by auto
  next
    case (Some es)
    with f have "spq_frontend es q1 = Inr (q2, o2)" by simp
    from spq_frontend_Inr [OF this] 1 show ?thesis by (auto simp: spq_inv_def)
  qed
  with 1 c os show ?thesis by simp
qed

interpretation spq: fifo_dispatcher spq_step spq_inv "\<lambda>q. q" spq_reports served_by
  by unfold_locales (use spq_step_Inr in auto)

lemma spq_step_Next: "spq_step i q = Inr (c, os) \<Longrightarrow> \<exists>q'. c = Next q'"
  by (auto simp: spq_step_def Let_def)

lemma spq_run_Next: "run spq_step q is = Inr (c, os) \<Longrightarrow> \<exists>q'. c = Next q'"
proof (induction "is" arbitrary: q c os)
  case (Cons i "is")
  then obtain d ps where st: "spq_step i q = Inr (d, ps)" by (auto split: sum.splits)
  with spq_step_Next [OF st] Cons show ?case by (auto split: sum.splits)
qed simp

text \<open>
  The queue is first-in first-out over its whole life: the workers that have been given
  requests, in the order of the requests, followed by the workers still waiting, are the workers
  that have reported, in the order of their reports.
\<close>

theorem spq_fifo:
  assumes "run spq_step [] is = Inr (Next q, os)"
  shows "served_by os @ q = concat (map spq_reports is)"
  using spq.run_fifo [OF _ assms] by (fastforce simp: spq_inv_def)

theorem spq_fifo_witness:
  "served_by [(Backend, parts_of [''w'', [], ''c'', [], ''hi''])] @ [''v''] = [''w'', ''v'']"
proof -
  let ?i = "\<lparr>poll_be = Some (arrives [''w'', [], ''READY'']), poll_fe = None\<rparr>"
  let ?j = "\<lparr>poll_be = Some (arrives [''v'', [], ''READY'']),
              poll_fe = Some (arrives [''c'', [], ''hi''])\<rparr>"
  have "run spq_step [] [?i, ?j] = Inr (Next [''v''], [(Backend, parts_of [''w'', [], ''c'', [], ''hi''])])"
    by (simp add: spq_step_def spq_backend_def spq_frontend_def MAX_WORKERS_def)
  from spq_fifo [OF this] show ?thesis by (simp add: spq_reports_def)
qed

text \<open>
  What an iteration that only hears from a worker can do. It fails the assertion when 100
  workers are waiting already or when the second frame is not empty, it is undefined on a message of
  fewer than three frames, and otherwise the sender joins the end of the queue and anything but
  READY is passed on to the client without the envelope of the worker.
\<close>

theorem spq_backend_cases:
  assumes "sp_recv_frames es = Inr (frames, r)"
  shows "spq_backend es q =
    (if length q \<ge> MAX_WORKERS then Inl Assertion
     else case frames of
       x # d # rest \<Rightarrow>
         if d \<noteq> [] then Inl Assertion
         else (case rest of
           f # fs \<Rightarrow> Inr (q @ [x], if f = ''READY'' then [] else [(Frontend, parts_of (f # fs))])
         | [] \<Rightarrow> Inl Undefined)
     | _ \<Rightarrow> Inl Undefined)"
  using assms by (auto simp: spq_backend_def assert_that_def split: list.splits)

theorem spq_backend_cases_witness:
  "spq_backend (arrives [''w'', [], ''c'', [], ''hi'']) [''v''] =
      Inr ([''v'', ''w''], [(Frontend, parts_of [''c'', [], ''hi''])])"
  using spq_backend_cases [OF recv_arrives(1), of "''w''" "[[], ''c'', [], ''hi'']" "[''v'']"]
  by (simp add: MAX_WORKERS_def)

subsection \<open>A request and its reply\<close>

lemma spw_step_echo:
  assumes "sp_recv_frames (spw_request i) = Inr (f # fs, r)" and "cycles + 1 > 6 \<longrightarrow> spw_crash i \<noteq> 0"
    and "cycles < 2 ^ 31 - 1"
  shows "\<exists>os. spw_step i cycles = Inr (Next (cycles + 1), os @ [SpwSend (parts_of (f # fs))])"
proof -
  have "deque_back (f # fs) = Inr (last (f # fs))" by simp
  with assms show ?thesis
    by (cases "cycles + 1 > 6") (auto simp: spw_step_def Let_def simp del: deque_back_simps)
qed

text \<open>
  A request makes the whole round. Whatever a REQ client sends with a non-empty body comes back
  to that client as it was sent, through the first waiting worker, which ends up last in the queue;
  this holds for every client whose identity is not READY, since the queue program would take that
  client's reply for a worker's greeting.
\<close>

theorem sp_round_trip:
  assumes Z: "zmq_contract Z" and body: "body \<noteq> []" and cl: "client \<noteq> ''READY''"
    and room: "length ws < MAX_WORKERS"
    and i: "spw_request i = arrives (req_in Z ([] # client # [] # body))"
    and alive: "cycles + 1 > 6 \<longrightarrow> spw_crash i \<noteq> 0" and count: "cycles < 2 ^ 31 - 1"
  shows "\<exists>ps qs rs os.
      spq_frontend (arrives (router_in Z client (req_out Z body))) (w # ws) = Inr (ws, [(Backend, ps)])
    \<and> router_out Z (map fst ps) = (w, [] # client # [] # body)
    \<and> spw_step i cycles = Inr (Next (cycles + 1), os @ [SpwSend qs])
    \<and> spq_backend (arrives (router_in Z w (req_out Z (map fst qs)))) ws = Inr (ws @ [w], [(Frontend, rs)])
    \<and> router_out Z (map fst rs) = (client, [] # body) \<and> req_in Z ([] # body) = body"
proof -
  have in_w: "sp_recv_frames (spw_request i) = Inr (client # [] # body, [])"
    by (simp add: i zmq_contractD [OF Z])
  obtain os where w: "spw_step i cycles = Inr (Next (cycles + 1), os @ [SpwSend (parts_of (client # [] # body))])"
    using spw_step_echo [OF in_w alive count] by blast
  have f: "spq_frontend (arrives (client # [] # body)) (w # ws) =
      Inr (ws, [(Backend, parts_of (w # [] # client # [] # body))])"
    by (rule spq_frontend_request) simp
  have b: "spq_backend (arrives (w # [] # client # [] # body)) ws =
      Inr (ws @ [w], [(Frontend, parts_of (client # [] # body))])"
    by (rule spq_backend_reply [OF room cl]) simp
  show ?thesis
    by (rule exI [of _ "parts_of (w # [] # client # [] # body)"], rule exI [of _ "parts_of (client # [] # body)"],
        rule exI [of _ "parts_of (client # [] # body)"], rule exI [of _ os])
      (simp add: w f b map_fst_parts_of zmq_contractD [OF Z] del: parts_of.simps)
qed

theorem sp_round_trip_witness:
  "\<exists>ps. spq_frontend (arrives [''c'', [], ''hi'']) [''w''] = Inr ([], [(Backend, ps)])
    \<and> map fst ps = [''w'', [], ''c'', [], ''hi'']"
proof -
  let ?i = "\<lparr>spw_request = arrives [''c'', [], ''hi''], spw_crash = 1, spw_slow = 1\<rparr>"
  have "\<exists>ps qs rs os.
      spq_frontend (arrives (router_in zmq_std ''c'' (req_out zmq_std [''hi'']))) [''w''] = Inr ([], [(Backend, ps)])
    \<and> router_out zmq_std (map fst ps) = (''w'', [[], ''c'', [], ''hi''])
    \<and> spw_step ?i 0 = Inr (Next (0 + 1), os @ [SpwSend qs])
    \<and> spq_backend (arrives (router_in zmq_std ''w'' (req_out zmq_std (map fst qs)))) [] = Inr ([] @ [''w''], [(Frontend, rs)])
    \<and> router_out zmq_std (map fst rs) = (''c'', [[], ''hi'']) \<and> req_in zmq_std [[], ''hi''] = [''hi'']"
    by (rule sp_round_trip) (simp_all add: MAX_WORKERS_def, simp add: zmq_std_def)
  then show ?thesis by (auto simp: spq_frontend_def)
qed

end
