(* ===== verification/LBBroker.thy ===== *)
theory LBBroker
  imports Brokers Numerals
begin

text \<open>
  The load balancer (\<open>load-balancing-message-broker/lbbroker.cpp\<close>): the loop that takes the
  parts of each message one by one, the shutdown that follows it, the client and worker threads,
  and the identities they take. The lemmas: the dispatching order over the whole life of the broker
  including its shutdown, the number of replies after which it stops, the faults, and the round trip
  of a request.
\<close>

subsection \<open>The broker\<close>

record lbb =
  lbb_queue :: "string list"
  lbb_client_count :: int

definition lbb_init :: lbb where
  "lbb_init = \<lparr>lbb_queue = [], lbb_client_count = 10\<rparr>"

definition lbb_backend :: "recv_event list \<Rightarrow> lbb \<Rightarrow> (lbb ctl \<times> sent list) res" where
  "lbb_backend es s =
     rbind (recv_part es) (\<lambda>(addr, es).
       let s = s\<lparr>lbb_queue := lbb_queue s @ [addr]\<rparr>
       in rbind (recv_part es) (\<lambda>(delim, es).
            rbind (assert_that (delim = [])) (\<lambda>_.
              rbind (recv_part es) (\<lambda>(client_addr, es).
                if client_addr \<noteq> ''READY'' then
                  rbind (recv_part es) (\<lambda>(delim, es).
                    rbind (assert_that (delim = [])) (\<lambda>_.
                      rbind (recv_part es) (\<lambda>(reply, es).
                        let os = [(Frontend, [(client_addr, True), ([], True), (reply, False)])];
                            s = s\<lparr>lbb_client_count := lbb_client_count s - 1\<rparr>
                        in if lbb_client_count s = 0 then Inr (Halt s, os) else Inr (Next s, os))))
                else Inr (Next s, [])))))"

definition lbb_frontend :: "recv_event list \<Rightarrow> lbb \<Rightarrow> (lbb \<times> sent list) res" where
  "lbb_frontend es s =
     rbind (recv_part es) (\<lambda>(client_addr, es).
       rbind (recv_part es) (\<lambda>(delim, es).
         rbind (assert_that (delim = [])) (\<lambda>_.
           rbind (recv_part es) (\<lambda>(request, es).
             rbind (deque_front (lbb_queue s)) (\<lambda>worker_addr.
               rbind (deque_pop_front (lbb_queue s)) (\<lambda>q.
                 Inr (s\<lparr>lbb_queue := q\<rparr>,
                   [(Backend, [(worker_addr, True), ([], True), (client_addr, True), ([], True),
                               (request, False)])])))))))"

definition lbb_step :: "poll_in \<Rightarrow> lbb \<Rightarrow> (lbb ctl \<times> sent list) res" where
  "lbb_step i s =
     (let fe = (if lbb_queue s = [] then None else poll_fe i)
      in rbind (case poll_be i of None \<Rightarrow> Inr (Next s, []) | Some es \<Rightarrow> lbb_backend es s)
           (\<lambda>(c, o1). case c of
              Halt s1 \<Rightarrow> Inr (Halt s1, o1)
            | Next s1 \<Rightarrow>
                rbind (case fe of None \<Rightarrow> Inr (s1, []) | Some es \<Rightarrow> lbb_frontend es s1)
                  (\<lambda>(s2, o2). Inr (Next s2, o1 @ o2))))"

text \<open>What the broker sends once every client has finished, while it empties its queue.\<close>

fun lbb_shutdown :: "string list \<Rightarrow> sent list" where
  "lbb_shutdown [] = []"
| "lbb_shutdown (worker_addr # q) =
     (Backend, [(worker_addr, True), ([], True), (''KILL'', False)]) # lbb_shutdown q"

subsection \<open>The threads\<close>

definition lbb_id :: "nat \<Rightarrow> string" where
  "lbb_id num = pad_left 4 (hex_string num)"

definition lbb_client_request :: "part list" where
  "lbb_client_request = [(''HELLO'', False)]"

definition lbb_worker_ready :: "part list" where
  "lbb_worker_ready = [(''READY'', False)]"

definition lbb_worker_step :: "recv_event list \<Rightarrow> unit \<Rightarrow> (unit ctl \<times> part list list) res" where
  "lbb_worker_step es s =
     rbind (recv_part es) (\<lambda>(client_addr, es).
       if client_addr = ''KILL'' then Inr (Halt s, [])
       else rbind (recv_part es) (\<lambda>(delim, es).
              rbind (assert_that (delim = [])) (\<lambda>_.
                rbind (recv_part es) (\<lambda>(req, es).
                  Inr (Next s, [[(client_addr, True), ([], True), (''OK'', False)]])))))"

subsection \<open>Messages of the broker\<close>

lemma lbb_backend_shape:
  assumes "lbb_backend es s = Inr (c, os)"
  obtains x es1 s1 where "recv_part es = Inr (x, es1)" "s1 = s\<lparr>lbb_queue := lbb_queue s @ [x]\<rparr>"
      "c = Next s1" "os = []"
  | x es1 s1 client_addr reply where "recv_part es = Inr (x, es1)"
      "s1 = s\<lparr>lbb_queue := lbb_queue s @ [x], lbb_client_count := lbb_client_count s - 1\<rparr>"
      "os = [(Frontend, [(client_addr, True), ([], True), (reply, False)])]"
      "c = (if lbb_client_count s = 1 then Halt s1 else Next s1)"
proof -
  obtain x es1 where x: "recv_part es = Inr (x, es1)"
    using assms by (cases "recv_part es") (auto simp: lbb_backend_def)
  obtain es2 where d: "recv_part es1 = Inr ([], es2)"
    using assms x by (cases "recv_part es1") (auto simp: lbb_backend_def Let_def)
  obtain cl es3 where cl: "recv_part es2 = Inr (cl, es3)"
    using assms x d by (cases "recv_part es2") (auto simp: lbb_backend_def Let_def)
  show thesis
  proof (cases "cl = ''READY''")
    case True
    with assms x d cl show thesis by (intro that(1) [OF x]) (auto simp: lbb_backend_def Let_def)
  next
    case False
    obtain es4 where d2: "recv_part es3 = Inr ([], es4)"
      using assms x d cl False by (cases "recv_part es3") (auto simp: lbb_backend_def Let_def)
    obtain reply es5 where "recv_part es4 = Inr (reply, es5)"
      using assms x d cl False d2 by (cases "recv_part es4") (auto simp: lbb_backend_def Let_def)
    with assms x d cl False d2 show thesis
      by (intro that(2) [OF x, of _ cl reply]) (auto simp: lbb_backend_def Let_def split: if_splits)
  qed
qed

lemma lbb_backend_Inr:
  assumes "lbb_backend es s = Inr (c, os)"
  shows "\<exists>x es'. recv_part es = Inr (x, es') \<and> lbb_queue (ctl_state c) = lbb_queue s @ [x]
    \<and> served_by os = []
    \<and> lbb_client_count (ctl_state c) + int (length (sent_to Frontend os)) = lbb_client_count s
    \<and> (lbb_client_count s \<ge> 1 \<longrightarrow> (\<forall>s'. c = Next s' \<longrightarrow> lbb_client_count s' \<ge> 1) \<and>
        (\<forall>s'. c = Halt s' \<longrightarrow> lbb_client_count s' = 0))"
  using assms
proof (cases rule: lbb_backend_shape)
  case (1 x es1 s1)
  then show ?thesis by simp
next
  case (2 x es1 s1 cl reply)
  then show ?thesis by simp
qed

lemma lbb_frontend_Inr:
  assumes "lbb_frontend es s = Inr (s', os)"
  shows "\<exists>w. lbb_queue s = w # lbb_queue s' \<and> served_by os = [w] \<and> sent_to Frontend os = []
    \<and> lbb_client_count s' = lbb_client_count s"
proof -
  obtain cl es1 where cl: "recv_part es = Inr (cl, es1)"
    using assms by (cases "recv_part es") (auto simp: lbb_frontend_def)
  obtain es2 where d: "recv_part es1 = Inr ([], es2)"
    using assms cl by (cases "recv_part es1") (auto simp: lbb_frontend_def)
  obtain req es3 where req: "recv_part es2 = Inr (req, es3)"
    using assms cl d by (cases "recv_part es2") (auto simp: lbb_frontend_def)
  show ?thesis
  proof (cases "lbb_queue s")
    case Nil
    with assms cl d req show ?thesis by (simp add: lbb_frontend_def)
  next
    case (Cons w q)
    with assms cl d req have "s' = s\<lparr>lbb_queue := q\<rparr>"
      and "os = [(Backend, [(w, True), ([], True), (cl, True), ([], True), (req, False)])]"
      by (simp_all add: lbb_frontend_def)
    with Cons show ?thesis by (intro exI [of _ w]) simp
  qed
qed

definition lbb_reports :: "poll_in \<Rightarrow> frame list" where
  "lbb_reports i = (case poll_be i of
      None \<Rightarrow> []
    | Some es \<Rightarrow> (case recv_part es of Inl _ \<Rightarrow> [] | Inr (x, _) \<Rightarrow> [x]))"

lemma lbb_step_Inr:
  assumes r: "lbb_step i s = Inr (c, os)"
  shows "served_by os @ lbb_queue (ctl_state c) = lbb_queue s @ lbb_reports i
    \<and> lbb_client_count (ctl_state c) + int (length (sent_to Frontend os)) = lbb_client_count s
    \<and> (lbb_client_count s \<ge> 1 \<longrightarrow> (\<forall>s'. c = Next s' \<longrightarrow> lbb_client_count s' \<ge> 1) \<and>
        (\<forall>s'. c = Halt s' \<longrightarrow> lbb_client_count s' = 0))"
proof -
  let ?b = "case poll_be i of None \<Rightarrow> Inr (Next s, []) | Some es \<Rightarrow> lbb_backend es s"
  let ?fe = "if lbb_queue s = [] then None else poll_fe i"
  from r obtain c1 o1 where b: "?b = Inr (c1, o1)" by (auto simp: lbb_step_def Let_def)
  have 1: "lbb_queue (ctl_state c1) = lbb_queue s @ lbb_reports i \<and> served_by o1 = []
    \<and> lbb_client_count (ctl_state c1) + int (length (sent_to Frontend o1)) = lbb_client_count s
    \<and> (lbb_client_count s \<ge> 1 \<longrightarrow> (\<forall>s'. c1 = Next s' \<longrightarrow> lbb_client_count s' \<ge> 1) \<and>
        (\<forall>s'. c1 = Halt s' \<longrightarrow> lbb_client_count s' = 0))"
  proof (cases "poll_be i")
    case None
    with b show ?thesis by (auto simp: lbb_reports_def)
  next
    case (Some es)
    with b lbb_backend_Inr [of es s c1 o1] show ?thesis by (auto simp: lbb_reports_def)
  qed
  show ?thesis
  proof (cases c1)
    case (Halt s1)
    with r b have "c = Halt s1" and "os = o1" by (simp_all add: lbb_step_def Let_def)
    with 1 Halt show ?thesis by simp
  next
    case (Next s1)
    with r b obtain s2 o2 where f: "(case ?fe of None \<Rightarrow> Inr (s1, []) | Some es \<Rightarrow> lbb_frontend es s1) = Inr (s2, o2)"
      and c: "c = Next s2" and os: "os = o1 @ o2" by (auto simp: lbb_step_def Let_def)
    have "served_by o2 @ lbb_queue s2 = lbb_queue s1 \<and> sent_to Frontend o2 = []
      \<and> lbb_client_count s2 = lbb_client_count s1"
    proof (cases ?fe)
      case None
      with f show ?thesis by auto
    next
      case (Some es)
      with f lbb_frontend_Inr [of es s1 s2 o2] show ?thesis by auto
    qed
    with 1 Next c os show ?thesis by simp
  qed
qed

text \<open>
  Every state is good enough for the dispatching order; the counter is related to what has been
  sent by a law of the whole run.
\<close>

interpretation lbb: fifo_dispatcher lbb_step "\<lambda>_. True" lbb_queue lbb_reports served_by
  by unfold_locales (use lbb_step_Inr in auto)

lemma lbb_run_count:
  "run lbb_step s is = Inr (c, os) \<Longrightarrow> lbb_client_count s \<ge> 1 \<Longrightarrow>
    lbb_client_count (ctl_state c) + int (length (sent_to Frontend os)) = lbb_client_count s
    \<and> (\<forall>s'. c = Next s' \<longrightarrow> lbb_client_count s' \<ge> 1) \<and> (\<forall>s'. c = Halt s' \<longrightarrow> lbb_client_count s' = 0)"
proof (induction "is" arbitrary: s c os)
  case Nil
  then show ?case by auto
next
  case (Cons i "is")
  then obtain d ps where st: "lbb_step i s = Inr (d, ps)" by (auto split: sum.splits)
  note law = lbb_step_Inr [OF st]
  show ?case
  proof (cases d)
    case (Next s1)
    with st Cons.prems(1) obtain qs where r: "run lbb_step s1 is = Inr (c, qs)" and os: "os = ps @ qs"
      by (auto split: sum.splits)
    from Next law Cons.prems(2) have "lbb_client_count s1 \<ge> 1" by simp
    from Cons.IH [OF r this] law Next os Cons.prems(2) show ?thesis by simp
  next
    case (Halt s1)
    with st Cons.prems(1) have "c = Halt s1" "os = ps" by simp_all
    with law Halt Cons.prems(2) show ?thesis by simp
  qed
qed

lemma served_by_shutdown [simp]: "served_by (lbb_shutdown q) = q"
  by (induction q) simp_all

text \<open>
  The broker stops after exactly ten replies have gone to clients (one for each client it has
  started), and over its whole life, shutdown included, every message a worker has sent has been
  answered by exactly one message to that worker, a request or KILL, in the order of the workers'
  messages. A worker that has not sent its READY by then is therefore never told to stop.
\<close>

theorem lbb_shutdown_complete:
  assumes "run lbb_step lbb_init is = Inr (Halt s, os)"
  shows "length (sent_to Frontend os) = 10
    \<and> (\<exists>k \<le> length is. served_by (os @ lbb_shutdown (lbb_queue s)) = concat (map lbb_reports (take k is)))"
proof -
  have "lbb_client_count s + int (length (sent_to Frontend os)) = 10" and "lbb_client_count s = 0"
    using lbb_run_count [OF assms] by (simp_all add: lbb_init_def)
  moreover from lbb.run_fifo [OF TrueI assms] obtain k where "k \<le> length is"
    "served_by os @ lbb_queue s = concat (map lbb_reports (take k is))" by (auto simp: lbb_init_def)
  ultimately show ?thesis by auto
qed

text \<open>
  The ten rounds of a run that ends: one worker reports and is given a request, ten times over.
\<close>

definition lbb_ready_in :: poll_in where
  "lbb_ready_in = \<lparr>poll_be = Some (arrives [''w'', [], ''READY'']), poll_fe = None\<rparr>"

definition lbb_request_in :: poll_in where
  "lbb_request_in = \<lparr>poll_be = None, poll_fe = Some (arrives [''c'', [], ''HELLO''])\<rparr>"

definition lbb_reply_in :: poll_in where
  "lbb_reply_in = \<lparr>poll_be = Some (arrives [''w'', [], ''c'', [], ''OK'']), poll_fe = None\<rparr>"

lemma lbb_step_ready: "lbb_step lbb_ready_in \<lparr>lbb_queue = [], lbb_client_count = n\<rparr> =
    Inr (Next \<lparr>lbb_queue = [''w''], lbb_client_count = n\<rparr>, [])"
  by (simp add: lbb_step_def lbb_ready_in_def lbb_backend_def Let_def)

lemma lbb_step_request: "lbb_step lbb_request_in \<lparr>lbb_queue = [''w''], lbb_client_count = n\<rparr> =
    Inr (Next \<lparr>lbb_queue = [], lbb_client_count = n\<rparr>,
      [(Backend, [(''w'', True), ([], True), (''c'', True), ([], True), (''HELLO'', False)])])"
  by (simp add: lbb_step_def lbb_request_in_def lbb_frontend_def)

lemma lbb_step_reply: "lbb_step lbb_reply_in \<lparr>lbb_queue = [], lbb_client_count = n\<rparr> =
    (let s = \<lparr>lbb_queue = [''w''], lbb_client_count = n - 1\<rparr>
     in Inr (if n = 1 then Halt s else Next s, [(Frontend, [(''c'', True), ([], True), (''OK'', False)])]))"
  by (simp add: lbb_step_def lbb_reply_in_def lbb_backend_def Let_def)

lemma lbb_rounds:
  "\<exists>os. run lbb_step \<lparr>lbb_queue = [''w''], lbb_client_count = 1 + int n\<rparr>
      (concat (replicate (Suc n) [lbb_request_in, lbb_reply_in])) =
    Inr (Halt \<lparr>lbb_queue = [''w''], lbb_client_count = 0\<rparr>, os)"
  by (induction n) (auto simp: lbb_step_request lbb_step_reply Let_def)

theorem lbb_shutdown_complete_witness:
  "\<exists>os. run lbb_step lbb_init (lbb_ready_in # concat (replicate 10 [lbb_request_in, lbb_reply_in])) =
      Inr (Halt \<lparr>lbb_queue = [''w''], lbb_client_count = 0\<rparr>, os)
    \<and> length (sent_to Frontend os) = 10"
proof -
  let ?is = "lbb_ready_in # concat (replicate 10 [lbb_request_in, lbb_reply_in])"
  from lbb_rounds [of 9] obtain os where
    "run lbb_step lbb_init ?is = Inr (Halt \<lparr>lbb_queue = [''w''], lbb_client_count = 0\<rparr>, os)"
    by (auto simp: lbb_init_def lbb_step_ready eval_nat_numeral)
  with lbb_shutdown_complete [OF this] show ?thesis by blast
qed

subsection \<open>Identities\<close>

lemma lbb_id_neq: "(of_char c :: nat) \<ge> 71 \<Longrightarrow> c \<in> set s \<Longrightarrow> lbb_id n \<noteq> s"
  using pad_left_hex_chars [of c 4 n] by (auto simp: lbb_id_def)

text \<open>
  The identities of the threads are distinct for distinct numbers, have at least four
  characters, and are never one of the words the programs compare an identity with.
\<close>

theorem lbb_ids:
  "(lbb_id m = lbb_id n \<longleftrightarrow> m = n) \<and> 4 \<le> length (lbb_id n) \<and> lbb_id n \<noteq> ''READY'' \<and> lbb_id n \<noteq> ''KILL''"
proof -
  have "m = n" if "lbb_id m = lbb_id n" for m n
    using that hex_value_pad_left by (metis lbb_id_def)
  moreover have "4 \<le> length (lbb_id n)" by (simp add: lbb_id_def pad_left_def)
  moreover have "lbb_id n \<noteq> ''READY''" by (rule lbb_id_neq [of "CHR ''R''"]) simp_all
  moreover have "lbb_id n \<noteq> ''KILL''" by (rule lbb_id_neq [of "CHR ''K''"]) simp_all
  ultimately show ?thesis by blast
qed

subsection \<open>A request and its reply\<close>

text \<open>
  The request of client thread n, taken by worker thread m at the head of the queue, comes back
  as OK to that client, and the worker is last in the queue again; the broker leaves its loop if and
  only if this was the last reply it was waiting for.
\<close>

theorem lbb_round_trip:
  assumes Z: "zmq_contract Z" and q: "lbb_queue s = lbb_id m # ws"
  shows "\<exists>s1 s2 ps qs rs c.
      lbb_frontend (arrives (router_in Z (lbb_id n) (req_out Z (map fst lbb_client_request)))) s = Inr (s1, [(Backend, ps)])
    \<and> router_out Z (map fst ps) = (lbb_id m, [] # [lbb_id n, [], ''HELLO''])
    \<and> lbb_worker_step (arrives (req_in Z ([] # [lbb_id n, [], ''HELLO'']))) () = Inr (Next (), [qs])
    \<and> lbb_backend (arrives (router_in Z (lbb_id m) (req_out Z (map fst qs)))) s1 = Inr (c, [(Frontend, rs)])
    \<and> router_out Z (map fst rs) = (lbb_id n, [] # [''OK'']) \<and> req_in Z ([] # [''OK'']) = [''OK'']
    \<and> ctl_state c = s2 \<and> lbb_queue s2 = ws @ [lbb_id m]
    \<and> (c = Halt s2 \<longleftrightarrow> lbb_client_count s = 1)"
proof -
  have ne: "lbb_id n \<noteq> ''READY''" "lbb_id n \<noteq> ''KILL''"
    by (rule lbb_id_neq [of "CHR ''R''"]; simp) (rule lbb_id_neq [of "CHR ''K''"]; simp)
  let ?s1 = "s\<lparr>lbb_queue := ws\<rparr>"
  let ?s2 = "s\<lparr>lbb_queue := ws @ [lbb_id m], lbb_client_count := lbb_client_count s - 1\<rparr>"
  let ?rs = "[(lbb_id n, True), ([], True), (''OK'', False)]"
  have f: "lbb_frontend (arrives [lbb_id n, [], ''HELLO'']) s =
      Inr (?s1, [(Backend, [(lbb_id m, True), ([], True), (lbb_id n, True), ([], True), (''HELLO'', False)])])"
    using q by (simp add: lbb_frontend_def)
  have w: "lbb_worker_step (arrives [lbb_id n, [], ''HELLO'']) () = Inr (Next (), [?rs])"
    using ne by (simp add: lbb_worker_step_def)
  have b: "lbb_backend (arrives [lbb_id m, [], lbb_id n, [], ''OK'']) ?s1 =
      Inr (if lbb_client_count s = 1 then Halt ?s2 else Next ?s2, [(Frontend, ?rs)])"
    using ne by (simp add: lbb_backend_def Let_def)
  show ?thesis
    by (intro exI [of _ ?s1] exI [of _ ?s2] exI [of _ ?rs]
        exI [of _ "[(lbb_id m, True), ([], True), (lbb_id n, True), ([], True), (''HELLO'', False)]"]
        exI [of _ "if lbb_client_count s = 1 then Halt ?s2 else Next ?s2"])
      (simp add: f w b zmq_contractD [OF Z] lbb_client_request_def)
qed

theorem lbb_round_trip_witness:
  "\<exists>s1 ps. lbb_frontend (arrives [lbb_id 0, [], ''HELLO'']) \<lparr>lbb_queue = [lbb_id 1], lbb_client_count = 10\<rparr> =
      Inr (s1, [(Backend, ps)]) \<and> map fst ps = [lbb_id 1, [], lbb_id 0, [], ''HELLO'']"
proof -
  have q: "lbb_queue \<lparr>lbb_queue = [lbb_id 1], lbb_client_count = 10\<rparr> = lbb_id 1 # []" by simp
  from lbb_round_trip [OF zmq_std_contract q, of 0] show ?thesis
    by (auto simp: zmq_std_def lbb_client_request_def lbb_frontend_def)
qed

end
