(* ===== verification/Peering.thy ===== *)
theory Peering
  imports Brokers Numerals
begin

text \<open>
  The peering brokers: the routing of requests and replies between clients, workers and peer
  brokers (\<open>prototyping-the-local-and-cloud-flows/peering2.cpp\<close>), and the exchange of
  status messages (\<open>prototyping-the-state-flow/peering1.cpp\<close>). The lemmas: the order in
  which workers are given requests, the rule that only a local request may be rerouted and only
  once, where a reply goes, and the round trip of a request through a peer.
\<close>

subsection \<open>Sockets and inputs of the routing broker\<close>

datatype peer_socket = LocalFE | LocalBE | CloudFE | CloudBE

type_synonym peer_sent = "peer_socket \<times> part list"

text \<open>
  One round of the inner loop sees the result of its poll, what the two front ends have, and the two
  draws; one iteration of the outer loop sees its own poll and the rounds that follow (once they are
  used up, neither front end has work).
\<close>

record peer_round =
  pr_rc :: int
  pr_cloudfe :: "recv_event list option"
  pr_localfe :: "recv_event list option"
  pr_route :: int
  pr_broker :: nat

record peer_in =
  pi_rc :: int
  pi_localbe :: "recv_event list option"
  pi_cloudbe :: "recv_event list option"
  pi_rounds :: "peer_round list"

definition WORKER_READY :: string where
  "WORKER_READY = [char_of (1::nat)]"

definition peering_broker_id :: "int \<Rightarrow> string" where
  "peering_broker_id cloudfe_port = ''localhost:'' @ int_string cloudfe_port"

definition was_interrupted :: "msg \<Rightarrow> bool" where
  "was_interrupted frames \<longleftrightarrow> length frames = 0"

subsection \<open>Replies\<close>

text \<open>What the back ends have to say: a reply to route (or none) and the workers now ready.\<close>

definition peering_collect :: "peer_in \<Rightarrow> string list \<Rightarrow> (msg \<times> string list) ctl res" where
  "peering_collect i ready_workers =
     (case pi_localbe i of
        Some es \<Rightarrow>
          rbind (peering_recv_frames es) (\<lambda>(rep_frames, _).
            if was_interrupted rep_frames then Inr (Halt ([], ready_workers))
            else rbind (deque_front rep_frames) (\<lambda>ident.
                   rbind (assert_that (ident \<noteq> [])) (\<lambda>_.
                     rbind (deque_pop_front rep_frames) (\<lambda>rep_frames.
                       rbind (deque_front rep_frames) (\<lambda>delim.
                         rbind (assert_that (delim = [])) (\<lambda>_.
                           rbind (deque_pop_front rep_frames) (\<lambda>rep_frames.
                             rbind (deque_front rep_frames) (\<lambda>f.
                               Inr (Next (if f = WORKER_READY then [] else rep_frames,
                                          ready_workers @ [ident]))))))))))
      | None \<Rightarrow>
          (case pi_cloudbe i of
             Some es \<Rightarrow>
               rbind (peering_recv_frames es) (\<lambda>(rep_frames, _).
                 if was_interrupted rep_frames then Inr (Halt ([], ready_workers))
                 else rbind (deque_pop_front rep_frames) (\<lambda>rep_frames.
                        Inr (Next (rep_frames, ready_workers))))
           | None \<Rightarrow> Inr (Next ([], ready_workers))))"

text \<open>The first peer with the name in the first frame gets the reply; else it is for a client.\<close>

definition peering_reply :: "string list \<Rightarrow> msg \<Rightarrow> peer_sent list res" where
  "peering_reply peers rep_frames =
     (case rep_frames of
        [] \<Rightarrow> Inr []
      | f # _ \<Rightarrow>
          if f \<in> set peers then rbind (peering_send_frames rep_frames) (\<lambda>ps. Inr [(CloudFE, ps)])
          else rbind (peering_send_frames rep_frames) (\<lambda>ps. Inr [(LocalFE, ps)]))"

subsection \<open>Requests\<close>

definition peering_dispatch ::
  "string list \<Rightarrow> peer_round \<Rightarrow> bool \<Rightarrow> msg \<Rightarrow> string list \<Rightarrow> (string list \<times> peer_sent list) res" where
  "peering_dispatch peers r reroutable req_frames ready_workers =
     (if reroutable \<and> peers \<noteq> [] \<and> pr_route r = 0 then
        (if pr_broker r < length peers then
           rbind (peering_send_frames (peers ! pr_broker r # req_frames)) (\<lambda>ps.
             Inr (ready_workers, [(CloudBE, ps)]))
         else Inl Exception)
      else
        rbind (deque_front ready_workers) (\<lambda>ident.
          rbind (deque_pop_front ready_workers) (\<lambda>ready_workers.
            rbind (peering_send_frames (ident # [] # req_frames)) (\<lambda>ps.
              Inr (ready_workers, [(LocalBE, ps)])))))"

fun peering_route ::
  "string list \<Rightarrow> peer_round list \<Rightarrow> string list \<Rightarrow> (string list \<times> peer_sent list) res" where
  "peering_route peers [] ready_workers = Inr (ready_workers, [])"
| "peering_route peers (r # rs) ready_workers =
     (if ready_workers = [] then Inr (ready_workers, [])
      else rbind (assert_that (pr_rc r \<ge> 0)) (\<lambda>_.
        case pr_cloudfe r of
          Some es \<Rightarrow>
            rbind (peering_recv_frames es) (\<lambda>(req_frames, _).
              rbind (peering_dispatch peers r False req_frames ready_workers) (\<lambda>(ready_workers, o1).
                rbind (peering_route peers rs ready_workers) (\<lambda>(ready_workers, o2).
                  Inr (ready_workers, o1 @ o2))))
        | None \<Rightarrow>
            (case pr_localfe r of
               Some es \<Rightarrow>
                 rbind (peering_recv_frames es) (\<lambda>(req_frames, _).
                   rbind (peering_dispatch peers r True req_frames ready_workers) (\<lambda>(ready_workers, o1).
                     rbind (peering_route peers rs ready_workers) (\<lambda>(ready_workers, o2).
                       Inr (ready_workers, o1 @ o2))))
             | None \<Rightarrow> Inr (ready_workers, []))))"

definition peering_step :: "string list \<Rightarrow> peer_in \<Rightarrow> string list \<Rightarrow> (string list ctl \<times> peer_sent list) res" where
  "peering_step peers i ready_workers =
     (if pi_rc i = -1 then Inr (Halt ready_workers, [])
      else rbind (peering_collect i ready_workers) (\<lambda>c. case c of
             Halt (_, ws) \<Rightarrow> Inr (Halt ws, [])
           | Next (rep_frames, ws) \<Rightarrow>
               rbind (peering_reply peers rep_frames) (\<lambda>o1.
                 rbind (peering_route peers (pi_rounds i) ws) (\<lambda>(ws, o2).
                   Inr (Next ws, o1 @ o2)))))"

subsection \<open>Worker and client threads\<close>

definition peering_worker_ready :: "part list" where
  "peering_worker_ready = [(WORKER_READY, False)]"

definition peering_worker_step :: "recv_event list \<Rightarrow> unit \<Rightarrow> (unit ctl \<times> part list list) res" where
  "peering_worker_step es s =
     rbind (peering_recv_frames es) (\<lambda>(frames, _).
       if was_interrupted frames then Inr (Halt s, [])
       else rbind (peering_send_frames (butlast frames @ [''OK''])) (\<lambda>ps. Inr (Next s, [ps])))"

text \<open>
  A client sends its request and waits for the reply. Its receive takes one part; its result
  \<open>false\<close> ends the thread.
\<close>

definition peering_client_request :: "part list" where
  "peering_client_request = [(''HELLO'', False)]"

definition peering_client_step :: "recv_event list \<Rightarrow> unit \<Rightarrow> (unit ctl \<times> part list list) res" where
  "peering_client_step es s =
     (case es of
        [] \<Rightarrow> Inl Blocked
      | RecvError # _ \<Rightarrow> Inl Exception
      | NoPart _ # _ \<Rightarrow> Inr (Halt s, [peering_client_request])
      | Part d _ # _ \<Rightarrow> Inr (Next s, [peering_client_request]))"

subsection \<open>The order of the workers\<close>

definition peering_served :: "peer_sent list \<Rightarrow> frame list" where
  "peering_served os = addressees (sent_to LocalBE os)"

lemma peering_served_append [simp]: "peering_served (os @ os') = peering_served os @ peering_served os'"
  by (simp add: peering_served_def)

definition peering_reports :: "peer_in \<Rightarrow> frame list" where
  "peering_reports i =
     (if pi_rc i = -1 then []
      else case pi_localbe i of
        None \<Rightarrow> []
      | Some es \<Rightarrow> (case peering_recv_frames es of Inl _ \<Rightarrow> [] | Inr (frames, _) \<Rightarrow> take 1 frames))"

lemma peering_collect_Inr:
  assumes "peering_collect i ws = Inr c" and "pi_rc i \<noteq> -1"
  shows "snd (ctl_state c) = ws @ peering_reports i"
proof (cases "pi_localbe i")
  case None
  with assms show ?thesis
    by (cases "pi_cloudbe i") (auto simp: peering_collect_def peering_reports_def split: if_splits)
next
  case (Some es)
  with assms obtain frames r where fr: "peering_recv_frames es = Inr (frames, r)"
    by (auto simp: peering_collect_def)
  show ?thesis
  proof (cases frames)
    case Nil
    with assms Some fr show ?thesis
      by (auto simp: peering_collect_def peering_reports_def was_interrupted_def)
  next
    case (Cons x fs)
    with assms Some fr show ?thesis
      by (auto simp: peering_collect_def peering_reports_def was_interrupted_def)
  qed
qed

lemma peering_dispatch_Inr:
  assumes "peering_dispatch peers r b req ws = Inr (ws', os)"
  shows "peering_served os @ ws' = ws \<and>
    (os = [(CloudBE, parts_of (peers ! pr_broker r # req))] \<and> b \<and> pr_route r = 0 \<and> pr_broker r < length peers
     \<or> (\<exists>w. os = [(LocalBE, parts_of (w # [] # req))] \<and> ws = w # ws'))"
proof (cases "b \<and> peers \<noteq> [] \<and> pr_route r = 0")
  case True
  with assms show ?thesis
    by (auto simp: peering_dispatch_def peering_served_def split: if_splits)
next
  case False
  with assms obtain w where "ws = w # ws'" "os = [(LocalBE, parts_of (w # [] # req))]"
    by (cases ws) (auto simp: peering_dispatch_def)
  then show ?thesis by (simp add: peering_served_def)
qed

text \<open>One round of the inner loop that does something, in one equation for both front ends.\<close>

definition peering_work :: "peer_round \<Rightarrow> (bool \<times> recv_event list) option" where
  "peering_work r = (case pr_cloudfe r of Some es \<Rightarrow> Some (False, es) | None \<Rightarrow> map_option (Pair True) (pr_localfe r))"

lemma peering_route_Cons:
  "peering_route peers (r # rs) ws =
     (if ws = [] then Inr (ws, [])
      else rbind (assert_that (pr_rc r \<ge> 0)) (\<lambda>_.
        case peering_work r of
          None \<Rightarrow> Inr (ws, [])
        | Some (b, es) \<Rightarrow>
            rbind (peering_recv_frames es) (\<lambda>(req, _).
              rbind (peering_dispatch peers r b req ws) (\<lambda>(ws1, o1).
                rbind (peering_route peers rs ws1) (\<lambda>(ws2, o2). Inr (ws2, o1 @ o2))))))"
  by (auto simp: peering_work_def split: option.splits)

lemma peering_route_cases:
  assumes "peering_route peers (r # rs) ws = Inr (ws', os)"
  obtains "ws' = ws" "os = []"
  | b es req rest ws1 o1 o2 where "peering_work r = Some (b, es)" "peering_recv_frames es = Inr (req, rest)"
      "peering_dispatch peers r b req ws = Inr (ws1, o1)" "peering_route peers rs ws1 = Inr (ws', o2)"
      "os = o1 @ o2"
proof (cases "ws = [] \<or> peering_work r = None")
  case True
  with assms show thesis
    by (intro that(1)) (auto simp: peering_route_Cons simp del: peering_route.simps split: if_splits)
next
  case False
  then obtain b es where w: "ws \<noteq> []" "peering_work r = Some (b, es)" by auto
  with assms obtain req rest ws1 o1 o2 where "peering_recv_frames es = Inr (req, rest)"
    "peering_dispatch peers r b req ws = Inr (ws1, o1)" "peering_route peers rs ws1 = Inr (ws', o2)" "os = o1 @ o2"
    by (auto simp: peering_route_Cons simp del: peering_route.simps)
  with w(2) show thesis by (rule that(2))
qed

lemma peering_route_fifo:
  "peering_route peers rs ws = Inr (ws', os) \<Longrightarrow> peering_served os @ ws' = ws"
proof (induction rs arbitrary: ws ws' os)
  case Nil
  then show ?case by (simp add: peering_served_def)
next
  case (Cons r rs)
  from Cons.prems show ?case
  proof (cases rule: peering_route_cases)
    case 1
    then show ?thesis by (simp add: peering_served_def)
  next
    case (2 b es req rest ws1 o1 o2)
    from Cons.IH [OF 2(4)] peering_dispatch_Inr [OF 2(3)] 2(5) show ?thesis by simp
  qed
qed

lemma peering_reply_served: "peering_reply peers rep = Inr os \<Longrightarrow> peering_served os = []"
  by (auto simp: peering_reply_def peering_served_def split: list.splits if_splits)

lemma peering_step_fifo:
  assumes "peering_step peers i ws = Inr (c, os)"
  shows "peering_served os @ ctl_state c = ws @ peering_reports i"
proof (cases "pi_rc i = -1")
  case True
  with assms show ?thesis by (auto simp: peering_step_def peering_reports_def peering_served_def)
next
  case False
  with assms obtain d where d: "peering_collect i ws = Inr d" by (auto simp: peering_step_def)
  note col = peering_collect_Inr [OF d False]
  show ?thesis
  proof (cases d)
    case (Next p)
    obtain rep ws1 where p: "p = (rep, ws1)" by (cases p)
    with assms False d Next obtain o1 ws2 o2 where "peering_reply peers rep = Inr o1"
      and r: "peering_route peers (pi_rounds i) ws1 = Inr (ws2, o2)" and "c = Next ws2" "os = o1 @ o2"
      by (auto simp: peering_step_def)
    with col Next p peering_reply_served [of peers rep o1] peering_route_fifo [OF r] show ?thesis by simp
  next
    case (Halt p)
    with assms False d col show ?thesis
      by (cases p) (auto simp: peering_step_def peering_served_def)
  qed
qed

interpretation peering_broker: fifo_dispatcher "peering_step peers" "\<lambda>_. True" "\<lambda>ws. ws"
    peering_reports peering_served for peers
  by unfold_locales (use peering_step_fifo in auto)

text \<open>
  C31: over any run of the routing broker, whatever is rerouted to peers in between, the workers that
  have been given requests, in the order of the requests, followed by those still ready, are the
  workers that have reported, in the order of their reports: the load balancing is least recently
  used, and no worker is given two requests for one report.
\<close>

theorem peering_fifo:
  assumes "run (peering_step peers) [] is = Inr (Next ws, os)"
  shows "peering_served os @ ws = concat (map peering_reports is)"
  using peering_broker.run_fifo [OF TrueI assms] by fastforce

theorem peering_fifo_witness:
  "peering_served [(LocalBE, parts_of [''w'', [], ''c'', [], ''HELLO''])] @ [''v''] = [''w'', ''v'']"
proof -
  let ?r = "\<lparr>pr_rc = 1, pr_cloudfe = None, pr_localfe = Some (arrives [''c'', [], ''HELLO'']), pr_route = 1, pr_broker = 0\<rparr>"
  let ?n = "\<lparr>pr_rc = 0, pr_cloudfe = None, pr_localfe = None, pr_route = 1, pr_broker = 0\<rparr>"
  let ?i = "\<lambda>w rs. \<lparr>pi_rc = 1, pi_localbe = Some (arrives [w, [], WORKER_READY]), pi_cloudbe = None, pi_rounds = rs\<rparr>"
  have "run (peering_step [''p'']) [] [?i ''w'' [?n], ?i ''v'' [?r, ?n]] =
      Inr (Next [''v''], [(LocalBE, parts_of [''w'', [], ''c'', [], ''HELLO''])])"
    by (simp add: peering_step_def peering_collect_def peering_reply_def peering_dispatch_def was_interrupted_def)
  from peering_fifo [OF this] show ?thesis by (simp add: peering_reports_def)
qed

subsection \<open>What may be rerouted\<close>

lemma peering_route_reroutes:
  "peering_route peers rs ws = Inr (ws', os) \<Longrightarrow> m \<in> set (sent_to CloudBE os) \<Longrightarrow>
    \<exists>r \<in> set rs. \<exists>es req rest. pr_cloudfe r = None \<and> pr_localfe r = Some es
      \<and> peering_recv_frames es = Inr (req, rest) \<and> pr_route r = 0 \<and> pr_broker r < length peers
      \<and> m = peers ! pr_broker r # req"
proof (induction rs arbitrary: ws ws' os)
  case Nil
  then show ?case by simp
next
  case (Cons r rs)
  from Cons.prems(1) show ?case
  proof (cases rule: peering_route_cases)
    case 1
    with Cons.prems(2) show ?thesis by simp
  next
    case (2 b es req rest ws1 o1 o2)
    show ?thesis
    proof (cases "m \<in> set (sent_to CloudBE o2)")
      case True
      from Cons.IH [OF 2(4) this] show ?thesis by auto
    next
      case False
      with Cons.prems(2) 2(5) have "m \<in> set (sent_to CloudBE o1)" by simp
      with peering_dispatch_Inr [OF 2(3)]
      have b: "b" "pr_route r = 0" "pr_broker r < length peers" "m = peers ! pr_broker r # req"
        by (auto simp del: parts_of.simps)
      with 2(1) have "pr_cloudfe r = None" "pr_localfe r = Some es"
        by (auto simp: peering_work_def split: option.splits)
      with b 2(2) show ?thesis by auto
    qed
  qed
qed

lemma peering_reply_CloudBE: "peering_reply peers rep = Inr os \<Longrightarrow> sent_to CloudBE os = []"
  by (auto simp: peering_reply_def split: list.splits if_splits)

text \<open>
  What an iteration sends to the cloud on its own account is a request that came from one of
  its local clients, with the name of a peer in front; a request from the cloud is never sent on to
  another peer, so no request travels more than one hop.
\<close>

theorem peering_reroutes_local_only:
  assumes "peering_step peers i ws = Inr (c, os)" and "m \<in> set (sent_to CloudBE os)"
  shows "\<exists>r \<in> set (pi_rounds i). \<exists>es req rest. pr_cloudfe r = None \<and> pr_localfe r = Some es
      \<and> peering_recv_frames es = Inr (req, rest) \<and> pr_route r = 0 \<and> pr_broker r < length peers
      \<and> m = peers ! pr_broker r # req"
proof (cases "pi_rc i = -1")
  case True
  with assms show ?thesis by (simp add: peering_step_def)
next
  case False
  with assms obtain d where d: "peering_collect i ws = Inr d" by (auto simp: peering_step_def)
  show ?thesis
  proof (cases d)
    case (Next p)
    obtain rep ws1 where p: "p = (rep, ws1)" by (cases p)
    with assms False d Next obtain o1 ws2 o2 where "peering_reply peers rep = Inr o1"
      and r: "peering_route peers (pi_rounds i) ws1 = Inr (ws2, o2)" and "os = o1 @ o2"
      by (auto simp: peering_step_def)
    with assms(2) have "m \<in> set (sent_to CloudBE o2)" by (simp add: peering_reply_CloudBE)
    with r show ?thesis by (rule peering_route_reroutes)
  next
    case (Halt p)
    with assms False d show ?thesis by (cases p) (simp add: peering_step_def)
  qed
qed

definition peering_in :: "msg option \<Rightarrow> msg option \<Rightarrow> peer_round list \<Rightarrow> peer_in" where
  "peering_in be cloud rs = \<lparr>pi_rc = 1, pi_localbe = map_option arrives be, pi_cloudbe = map_option arrives cloud,
     pi_rounds = rs\<rparr>"

definition peering_round :: "msg option \<Rightarrow> msg option \<Rightarrow> int \<Rightarrow> nat \<Rightarrow> peer_round" where
  "peering_round cloud local route k = \<lparr>pr_rc = 1, pr_cloudfe = map_option arrives cloud,
     pr_localfe = map_option arrives local, pr_route = route, pr_broker = k\<rparr>"

theorem peering_reroutes_local_only_witness:
  "\<exists>r \<in> {peering_round None (Some [''c'', [], ''HELLO'']) 0 0}. pr_cloudfe r = None"
proof -
  let ?r = "peering_round None (Some [''c'', [], ''HELLO'']) 0 0"
  have "peering_step [''p''] (peering_in None None [?r]) [''w''] =
      Inr (Next [''w''], [(CloudBE, parts_of [''p'', ''c'', [], ''HELLO''])])"
    by (simp add: peering_step_def peering_in_def peering_round_def peering_collect_def peering_reply_def
        peering_dispatch_def)
  from peering_reroutes_local_only [OF this, of "[''p'', ''c'', [], ''HELLO'']"]
  show ?thesis by (auto simp: peering_in_def)
qed

subsection \<open>A request that is served by a peer\<close>

lemma broker_id_not_ready [simp]: "peering_broker_id p \<noteq> WORKER_READY"
  by (simp add: peering_broker_id_def WORKER_READY_def)

lemma broker_id_inj: "peering_broker_id p = peering_broker_id q \<longleftrightarrow> p = q"
proof -
  have "p = q" if "int_string p = int_string q"
    using read_number_int_string [of "[]" p] read_number_int_string [of "[]" q] that by simp
  then show ?thesis by (auto simp: peering_broker_id_def)
qed

text \<open>
  C2: a request that broker A reroutes to broker B comes back to the client that sent it. Each step
  is what the code of the broker, or of B's worker, does with the message the step before has sent;
  the replies find their way by the names of the brokers alone. It needs A to be on B's list of peers
  by the very name A gives itself, and the client's identity not to be on A's list.
\<close>

theorem peering_round_trip:
  assumes Z: "zmq_contract Z"
    and A: "k < length PA" "PA ! k = peering_broker_id pB" "client \<notin> set PA" "ws \<noteq> []"
    and B: "peering_broker_id pA \<in> set PB" "w \<noteq> []"
  shows "\<exists>ps qs us vs.
      peering_step PA (peering_in None None [peering_round None (Some (router_in Z client (req_out Z [''HELLO'']))) 0 k]) ws
        = Inr (Next ws, [(CloudBE, ps)])
    \<and> router_out Z (map fst ps) = (peering_broker_id pB, [client, [], ''HELLO''])
    \<and> peering_step PB (peering_in None None
          [peering_round (Some (router_in Z (peering_broker_id pA) [client, [], ''HELLO''])) None route j]) (w # us')
        = Inr (Next us', [(LocalBE, qs)])
    \<and> router_out Z (map fst qs) = (w, [] # [peering_broker_id pA, client, [], ''HELLO''])
    \<and> peering_worker_step (arrives (req_in Z ([] # [peering_broker_id pA, client, [], ''HELLO'']))) ()
        = Inr (Next (), [us])
    \<and> peering_step PB (peering_in (Some (router_in Z w (req_out Z (map fst us)))) None []) us'
        = Inr (Next (us' @ [w]), [(CloudFE, vs)])
    \<and> router_out Z (map fst vs) = (peering_broker_id pA, [client, [], ''OK''])
    \<and> peering_step PA (peering_in None (Some (router_in Z (peering_broker_id pB) [client, [], ''OK''])) []) ws
        = Inr (Next ws, [(LocalFE, parts_of [client, [], ''OK''])])"
proof -
  let ?A = "peering_broker_id pA" and ?B = "peering_broker_id pB"
  note defs = peering_step_def peering_in_def peering_round_def peering_collect_def peering_reply_def
    peering_dispatch_def was_interrupted_def
  have 1: "peering_step PA (peering_in None None [peering_round None (Some [client, [], ''HELLO'']) 0 k]) ws
      = Inr (Next ws, [(CloudBE, parts_of [?B, client, [], ''HELLO''])])"
    using A by (auto simp: defs)
  have 2: "peering_step PB (peering_in None None [peering_round (Some [?A, client, [], ''HELLO'']) None route j]) (w # us')
      = Inr (Next us', [(LocalBE, parts_of [w, [], ?A, client, [], ''HELLO''])])"
    by (simp add: defs)
  have 3: "peering_worker_step (arrives [?A, client, [], ''HELLO'']) () = Inr (Next (), [parts_of [?A, client, [], ''OK'']])"
    by (simp add: peering_worker_step_def was_interrupted_def)
  have 4: "peering_step PB (peering_in (Some [w, [], ?A, client, [], ''OK'']) None []) us'
      = Inr (Next (us' @ [w]), [(CloudFE, parts_of [?A, client, [], ''OK''])])"
    using B by (simp add: defs)
  have 5: "peering_step PA (peering_in None (Some [?B, client, [], ''OK'']) []) ws
      = Inr (Next ws, [(LocalFE, parts_of [client, [], ''OK''])])"
    using A by (simp add: defs)
  show ?thesis
    by (intro exI [of _ "parts_of [?B, client, [], ''HELLO'']"]
        exI [of _ "parts_of [w, [], ?A, client, [], ''HELLO'']"] exI [of _ "parts_of [?A, client, [], ''OK'']"])
      (simp add: 1 2 3 4 5 zmq_contractD [OF Z] map_fst_parts_of del: parts_of.simps)
qed

theorem peering_round_trip_witness:
  "\<exists>ps. peering_step [peering_broker_id 5552] (peering_in None None [peering_round None (Some [''c'', [], ''HELLO'']) 0 0]) [''v'']
        = Inr (Next [''v''], [(CloudBE, ps)])
    \<and> map fst ps = [peering_broker_id 5552, ''c'', [], ''HELLO'']"
proof -
  have "''c'' \<notin> set [peering_broker_id 5552]" by (simp add: peering_broker_id_def)
  from peering_round_trip [OF zmq_std_contract, of 0 "[peering_broker_id 5552]" 5552 "''c''" "[''v'']" 5551
      "[peering_broker_id 5551]" "''w''" 0 0 "[]"] this
  show ?thesis by (auto simp: zmq_std_def peering_step_def peering_in_def peering_round_def peering_collect_def
      peering_reply_def peering_dispatch_def simp del: parts_of.simps)
qed

end
