(* ===== verification/Freelance3.thy ===== *)
theory Freelance3
  imports Brokers Numerals "HOL-Library.AList"
begin

text \<open>
  The third freelance model (\<open>model-three-complex-and-nasty\<close>): an agent thread that talks
  to the servers on behalf of an API object, the API, the server and the client program. The servers
  the agent knows are shared objects (\<open>shared_ptr\<close>), kept in a store by address; the two
  containers of the agent hold addresses. The lemmas: the invariant of the agent, when its
  assertions fail, what completes a request, what repeated dispatching sends, and the round trip of a
  request.
\<close>

subsection \<open>Servers as the agent sees them\<close>

definition PING_INTERVAL :: time where
  "PING_INTERVAL = secs 2"

definition SERVER_TTL :: time where
  "SERVER_TTL = secs 6"

definition GLOBAL_TIMEOUT :: time where
  "GLOBAL_TIMEOUT = secs 3"

record flcliserver =
  fs_endpoint :: string
  fs_alive :: bool
  fs_ping_at :: time
  fs_expires :: time

definition fs_set_alive :: "bool \<Rightarrow> flcliserver \<Rightarrow> flcliserver" where
  "fs_set_alive v sv = sv\<lparr>fs_alive := v\<rparr>"

definition fs_ttl :: "time \<Rightarrow> time \<Rightarrow> flcliserver \<Rightarrow> flcliserver" where
  "fs_ttl now interval sv = sv\<lparr>fs_expires := now + interval\<rparr>"

definition fs_expired :: "time \<Rightarrow> flcliserver \<Rightarrow> bool" where
  "fs_expired now sv \<longleftrightarrow> now \<ge> fs_expires sv"

definition fs_next_ping :: "time \<Rightarrow> time \<Rightarrow> flcliserver \<Rightarrow> flcliserver" where
  "fs_next_ping now interval sv = sv\<lparr>fs_ping_at := now + interval\<rparr>"

text \<open>The constructor reads the clock twice; its members start from the values it assigns.\<close>

definition flcliserver_new :: "time \<Rightarrow> time \<Rightarrow> string \<Rightarrow> flcliserver" where
  "flcliserver_new t_ping t_ttl endpoint =
     fs_ttl t_ttl SERVER_TTL (fs_next_ping t_ping PING_INTERVAL
       \<lparr>fs_endpoint = endpoint, fs_alive = False, fs_ping_at = 0, fs_expires = 0\<rparr>)"

subsection \<open>The agent\<close>

text \<open>
  \<open>fa_conn\<close> is the table from endpoints to servers. The order in which the source iterates
  over it (an \<open>unordered_map\<close>) is not specified; here it is the order of insertion.
\<close>

record flagent =
  fa_expires :: time
  fa_request :: msg
  fa_alive :: "nat list"
  fa_conn :: "(string \<times> nat) list"
  fa_sequence :: "32 word"
  fa_store :: "nat \<Rightarrow> flcliserver"
  fa_next :: nat

definition flagent_init :: flagent where
  "flagent_init = \<lparr>fa_expires = 0, fa_request = [], fa_alive = [], fa_conn = [], fa_sequence = 0,
     fa_store = (\<lambda>_. flcliserver_new 0 0 []), fa_next = 0\<rparr>"

datatype fa_act = FaConnect string | FaRouter "part list" | FaPipe "part list"

definition stoseq :: "string \<Rightarrow> int" where
  "stoseq str = (let (seq_no, rest) = strtol str in if rest = [] then seq_no else -1)"

text \<open>
  Each handler gets its readings of the clock as a function of how many it has made before. The
  connect call of the socket library throws on an endpoint it does not accept.
\<close>

definition on_control_message ::
  "(string \<Rightarrow> bool) \<Rightarrow> (nat \<Rightarrow> time) \<Rightarrow> recv_event list \<Rightarrow> flagent \<Rightarrow> (flagent \<times> fa_act list) res" where
  "on_control_message connectable now es s =
     rbind (fl3_recv_msg es) (\<lambda>(msg, _).
       rbind (deque_front msg) (\<lambda>command.
         rbind (deque_pop_front msg) (\<lambda>msg.
           if command = ''CONNECT'' then
             rbind (deque_front msg) (\<lambda>endpoint.
               if \<not> connectable endpoint then Inl Exception
               else
                 let a = fa_next s;
                     server = fs_ttl (now 3) SERVER_TTL
                       (fs_next_ping (now 2) PING_INTERVAL (flcliserver_new (now 0) (now 1) endpoint))
                 in Inr (s\<lparr>fa_conn := AList.update endpoint a (fa_conn s), fa_alive := fa_alive s @ [a],
                           fa_store := (fa_store s)(a := server), fa_next := a + 1\<rparr>,
                         [FaConnect endpoint]))
           else if command = ''REQUEST'' then
             rbind (assert_that (fa_request s = [])) (\<lambda>_.
               let sequence = fa_sequence s + 1
               in Inr (s\<lparr>fa_sequence := sequence, fa_request := unsigned_string sequence # msg,
                         fa_expires := now 0 + GLOBAL_TIMEOUT\<rparr>, []))
           else Inr (s, []))))"

definition on_router_message ::
  "(nat \<Rightarrow> time) \<Rightarrow> recv_event list \<Rightarrow> flagent \<Rightarrow> (flagent \<times> fa_act list) res" where
  "on_router_message now es s =
     rbind (fl3_recv_msg es) (\<lambda>(reply, _).
       rbind (deque_front reply) (\<lambda>endpoint.
         rbind (deque_pop_front reply) (\<lambda>reply.
           case map_of (fa_conn s) endpoint of
             None \<Rightarrow> Inl Assertion
           | Some a \<Rightarrow>
               let sv = fa_store s a;
                   (sv, alive) = (if \<not> fs_alive sv then (fs_set_alive True sv, fa_alive s @ [a])
                                  else (sv, fa_alive s));
                   sv = fs_ttl (now 1) SERVER_TTL (fs_next_ping (now 0) PING_INTERVAL sv);
                   s = s\<lparr>fa_alive := alive, fa_store := (fa_store s)(a := sv)\<rparr>
               in rbind (deque_front reply) (\<lambda>sequence.
                    rbind (deque_pop_front reply) (\<lambda>reply.
                      let seq_no = stoseq sequence
                      in if seq_no \<noteq> -1 \<and> word_of_int seq_no \<noteq> fa_sequence s then Inr (s, [])
                         else rbind (fl3_send_msg (''OK'' # reply)) (\<lambda>ps.
                                Inr (s\<lparr>fa_request := []\<rparr>, [FaPipe ps])))))))"

text \<open>The search for a server to talk to: expired ones are dropped from the front.\<close>

fun fa_find :: "(nat \<Rightarrow> time) \<Rightarrow> nat \<Rightarrow> (nat \<Rightarrow> flcliserver) \<Rightarrow> nat list
    \<Rightarrow> (nat \<Rightarrow> flcliserver) \<times> nat list" where
  "fa_find now k store [] = (store, [])"
| "fa_find now k store (a # as) =
     (if \<not> fs_expired (now k) (store a) then (store, a # as)
      else fa_find now (Suc k) (store(a := fs_set_alive False (store a))) as)"

definition fa_dispatch :: "(nat \<Rightarrow> time) \<Rightarrow> flagent \<Rightarrow> (flagent \<times> fa_act list) res" where
  "fa_dispatch now s =
     (if fa_request s = [] then Inr (s, [])
      else if now 0 \<ge> fa_expires s then
        Inr (s\<lparr>fa_request := []\<rparr>, [FaPipe (fl3_send_frame ''FAILED'')])
      else
        let (store, alive) = fa_find now 1 (fa_store s) (fa_alive s);
            s = s\<lparr>fa_store := store, fa_alive := alive\<rparr>
        in (case alive of
              [] \<Rightarrow> Inr (s, [])
            | a # _ \<Rightarrow>
                let request = fs_endpoint (store a) # fa_request s
                in rbind (fl3_send_msg request) (\<lambda>ps. Inr (s\<lparr>fa_request := request\<rparr>, [FaRouter ps]))))"

definition fa_ping :: "time \<Rightarrow> time \<Rightarrow> flcliserver \<Rightarrow> flcliserver \<times> fa_act list" where
  "fa_ping t_check t_next sv =
     (if t_check < fs_ping_at sv then (sv, [])
      else (fs_next_ping t_next PING_INTERVAL sv,
            [FaRouter [(fs_endpoint sv, True), (''PING'', False)]]))"

fun fa_pings :: "(nat \<Rightarrow> time) \<Rightarrow> nat \<Rightarrow> (nat \<Rightarrow> flcliserver) \<Rightarrow> (string \<times> nat) list
    \<Rightarrow> (nat \<Rightarrow> flcliserver) \<times> fa_act list" where
  "fa_pings now k store [] = (store, [])"
| "fa_pings now k store ((_, a) # conn) =
     (let (sv, o1) = fa_ping (now (2 * k)) (now (2 * k + 1)) (store a);
          (store, o2) = fa_pings now (Suc k) (store(a := sv)) conn
      in (store, o1 @ o2))"

text \<open>The tickless timer, and the number of milliseconds the poll is given.\<close>

definition fa_tickless :: "time \<Rightarrow> flagent \<Rightarrow> time" where
  "fa_tickless now s =
     (let tickless = now + secs 3600;
          tickless = (if fa_request s \<noteq> [] \<and> tickless > fa_expires s then fa_expires s else tickless)
      in fold (\<lambda>(_, a) t. if t > fs_ping_at (fa_store s a) then fs_ping_at (fa_store s a) else t)
           (fa_conn s) tickless)"

definition fa_timeout :: "time \<Rightarrow> time \<Rightarrow> flagent \<Rightarrow> int" where
  "fa_timeout t_tick t_wait s = trunc_div (fa_tickless t_tick s - t_wait) (msecs 1)"

record flagent_in =
  fai_rc :: int
  fai_pipe :: "recv_event list option"
  fai_router :: "recv_event list option"
  fai_t_control :: "nat \<Rightarrow> time"
  fai_t_router :: "nat \<Rightarrow> time"
  fai_t_dispatch :: "nat \<Rightarrow> time"
  fai_t_ping :: "nat \<Rightarrow> time"

definition agent_task_step ::
  "(string \<Rightarrow> bool) \<Rightarrow> flagent_in \<Rightarrow> flagent \<Rightarrow> (flagent ctl \<times> fa_act list) res" where
  "agent_task_step connectable i s =
     (if fai_rc i = -1 then Inr (Halt s, [])
      else rbind (case fai_pipe i of
                    None \<Rightarrow> Inr (s, [])
                  | Some es \<Rightarrow> on_control_message connectable (fai_t_control i) es s) (\<lambda>(s, o1).
             rbind (case fai_router i of
                      None \<Rightarrow> Inr (s, [])
                    | Some es \<Rightarrow> on_router_message (fai_t_router i) es s) (\<lambda>(s, o2).
               rbind (fa_dispatch (fai_t_dispatch i) s) (\<lambda>(s, o3).
                 let (store, o4) = fa_pings (fai_t_ping i) 0 (fa_store s) (fa_conn s)
                 in Inr (Next (s\<lparr>fa_store := store\<rparr>), o1 @ o2 @ o3 @ o4)))))"

subsection \<open>The API\<close>

definition flcliapi_connect :: "string \<Rightarrow> part list res" where
  "flcliapi_connect endpoint = fl3_send_msg [''CONNECT'', endpoint]"

definition flcliapi_request :: "frame \<Rightarrow> part list res" where
  "flcliapi_request content = fl3_send_msg [''REQUEST'', content]"

text \<open>What the second half of a request makes of the message the agent has sent.\<close>

definition flcliapi_reply :: "recv_event list \<Rightarrow> msg res" where
  "flcliapi_reply es =
     rbind (fl3_recv_msg es) (\<lambda>(reply, _).
       if reply = [] then Inr reply
       else rbind (deque_front reply) (\<lambda>status.
              rbind (deque_pop_front reply) (\<lambda>reply.
                if status = ''FAILED'' then Inr [] else Inr reply)))"

subsection \<open>The server\<close>

definition flserver3_step :: "recv_event list \<Rightarrow> unit \<Rightarrow> (unit ctl \<times> part list list) res" where
  "flserver3_step es s =
     rbind (fl3_recv_msg es) (\<lambda>(request, _).
       if request = [] then Inr (Halt s, [])
       else rbind (deque_front request) (\<lambda>identity.
              rbind (deque_pop_front request) (\<lambda>request.
                rbind (deque_front request) (\<lambda>control.
                  rbind (deque_pop_front request) (\<lambda>request.
                    let reply = (if control = ''PING'' then [''PONG''] else [control, ''OK''])
                    in rbind (fl3_send_msg (identity # reply)) (\<lambda>ps. Inr (Next s, [ps])))))))"

text \<open>
  The command line. The comparison without regard to case is a function of the Boost library, a
  parameter here; \<open>args\<close> is \<open>argv\<close> without the program's name. A negative number is
  converted to an unsigned one.
\<close>

fun fl3_get_verbose :: "(string \<Rightarrow> string \<Rightarrow> bool) \<Rightarrow> string list \<Rightarrow> bool" where
  "fl3_get_verbose iequals [] = False"
| "fl3_get_verbose iequals (arg # args) = (if iequals arg ''-v'' then True else fl3_get_verbose iequals args)"

definition DEFAULT_PORT :: "32 word" where
  "DEFAULT_PORT = 5555"

fun fl3_get_port :: "string list \<Rightarrow> 32 word" where
  "fl3_get_port [] = DEFAULT_PORT"
| "fl3_get_port (arg # args) =
     (let (port, rest) = strtol arg
      in if rest \<noteq> c_str arg then word_of_int port else fl3_get_port args)"

definition flserver3_identity :: "string list \<Rightarrow> string" where
  "flserver3_identity args = ''tcp://localhost:'' @ unsigned_string (fl3_get_port args)"

subsection \<open>The client program\<close>

definition TOTAL_REQUESTS :: int where
  "TOTAL_REQUESTS = 1000"

text \<open>The loop over requests, fed with the results of the API; it returns what is left to do.\<close>

fun flclient3_loop :: "int \<Rightarrow> msg list \<Rightarrow> int option" where
  "flclient3_loop requests replies =
     (if requests = 0 then Some requests
      else case replies of
        [] \<Rightarrow> None
      | reply # replies \<Rightarrow>
          if reply = [] then Some requests else flclient3_loop (requests - 1) replies)"

definition flclient3_average :: "int \<Rightarrow> int \<Rightarrow> (int \<times> int) res" where
  "flclient3_average elapsed requests =
     (let reply_count = TOTAL_REQUESTS - requests
      in if reply_count = 0 then Inl Undefined
         else Inr (trunc_div (trunc_div elapsed (msecs 1)) reply_count, trunc_div (elapsed * 100) reply_count))"

subsection \<open>The invariant of the agent\<close>

definition fa_endpoints :: "flagent \<Rightarrow> string set" where
  "fa_endpoints s = fst ` set (fa_conn s)"

definition fa_inv :: "flagent \<Rightarrow> bool" where
  "fa_inv s \<longleftrightarrow> distinct (map fst (fa_conn s))
     \<and> (\<forall>(ep, a) \<in> set (fa_conn s). a < fa_next s \<and> fs_endpoint (fa_store s a) = ep)
     \<and> (\<forall>a \<in> set (fa_alive s). a < fa_next s)
     \<and> (\<forall>a < fa_next s. fs_endpoint (fa_store s a) \<in> fa_endpoints s)"

lemma fa_inv_init [simp]: "fa_inv flagent_init"
  by (simp add: fa_inv_def flagent_init_def)

lemma fs_endpoint_simps [simp]:
  "fs_endpoint (fs_set_alive v sv) = fs_endpoint sv"
  "fs_endpoint (fs_ttl t d sv) = fs_endpoint sv"
  "fs_endpoint (fs_next_ping t d sv) = fs_endpoint sv"
  "fs_endpoint (flcliserver_new t t' ep) = ep"
  by (simp_all add: fs_set_alive_def fs_ttl_def fs_next_ping_def flcliserver_new_def)

text \<open>A change that keeps the table, and keeps the endpoint of every server, keeps the invariant.\<close>

definition same_servers :: "flagent \<Rightarrow> flagent \<Rightarrow> bool" where
  "same_servers s t \<longleftrightarrow> fa_conn t = fa_conn s \<and> fa_next t = fa_next s
     \<and> (\<forall>a. fs_endpoint (fa_store t a) = fs_endpoint (fa_store s a))"

lemma fa_inv_same_servers:
  "fa_inv s \<Longrightarrow> same_servers s t \<Longrightarrow> \<forall>a \<in> set (fa_alive t). a < fa_next t \<Longrightarrow> fa_inv t"
  by (simp add: fa_inv_def same_servers_def fa_endpoints_def)

lemma fa_inv_conn: "fa_inv s \<Longrightarrow> map_of (fa_conn s) ep = Some a \<Longrightarrow>
    a < fa_next s \<and> fs_endpoint (fa_store s a) = ep \<and> ep \<in> fa_endpoints s"
proof -
  assume inv: "fa_inv s" and "map_of (fa_conn s) ep = Some a"
  then have m: "(ep, a) \<in> set (fa_conn s)" by (simp add: map_of_SomeD)
  then have "ep \<in> fst ` set (fa_conn s)" by (rule image_eqI [rotated]) simp
  moreover have "\<forall>(ep, a) \<in> set (fa_conn s). a < fa_next s \<and> fs_endpoint (fa_store s a) = ep"
    using inv by (simp add: fa_inv_def)
  from bspec [OF this m] have "a < fa_next s \<and> fs_endpoint (fa_store s a) = ep" by simp
  ultimately show ?thesis by (simp add: fa_endpoints_def)
qed

lemma set_update_subset: "set (AList.update k v al) \<subseteq> insert (k, v) (set al)"
  by (induction al) auto

lemma fst_set_update: "fst ` set (AList.update k v al) = insert k (fst ` set al)"
  using dom_update [of k v al] by (simp add: dom_map_of_conv_image_fst)

lemma fa_inv_connect:
  assumes inv: "fa_inv s" and sv: "fs_endpoint sv = ep"
  shows "fa_inv (s\<lparr>fa_conn := AList.update ep (fa_next s) (fa_conn s), fa_alive := fa_alive s @ [fa_next s],
           fa_store := (fa_store s)(fa_next s := sv), fa_next := fa_next s + 1\<rparr>)" (is "fa_inv ?t")
proof -
  have "distinct (map fst (fa_conn ?t))" using inv by (simp add: fa_inv_def distinct_update)
  moreover have "\<forall>(e, a) \<in> set (fa_conn ?t). a < fa_next ?t \<and> fs_endpoint (fa_store ?t a) = e"
    using inv sv set_update_subset [of ep "fa_next s" "fa_conn s"] by (fastforce simp: fa_inv_def)
  moreover have "\<forall>a \<in> set (fa_alive ?t). a < fa_next ?t" using inv by (auto simp: fa_inv_def)
  moreover have "\<forall>a < fa_next ?t. fs_endpoint (fa_store ?t a) \<in> fa_endpoints ?t"
    using inv sv by (auto simp: fa_inv_def fa_endpoints_def fst_set_update less_Suc_eq)
  ultimately show ?thesis by (simp add: fa_inv_def)
qed

text \<open>The endpoints connected to, and those messages are sent to, among the actions of the agent.\<close>

definition connected :: "fa_act list \<Rightarrow> string set" where
  "connected os = {ep. FaConnect ep \<in> set os}"

fun fa_addressee :: "fa_act \<Rightarrow> frame list" where
  "fa_addressee (FaRouter ps) = map fst (take 1 ps)"
| "fa_addressee (FaConnect ep) = []"
| "fa_addressee (FaPipe ps) = []"

definition fa_addressees :: "fa_act list \<Rightarrow> frame list" where
  "fa_addressees os = concat (map fa_addressee os)"

lemma connected_simps [simp]:
  "connected [] = {}" "connected (FaConnect ep # os) = insert ep (connected os)"
  "connected (FaRouter ps # os) = connected os" "connected (FaPipe ps # os) = connected os"
  "connected (os @ os') = connected os \<union> connected os'"
  by (auto simp: connected_def)

lemma fa_addressees_simps [simp]:
  "fa_addressees [] = []" "fa_addressees (a # os) = fa_addressee a @ fa_addressees os"
  "fa_addressees (os @ os') = fa_addressees os @ fa_addressees os'"
  by (simp_all add: fa_addressees_def)

subsection \<open>The handlers, one at a time\<close>

text \<open>What a message from a known server does before its content is looked at.\<close>

definition fa_touched :: "(nat \<Rightarrow> time) \<Rightarrow> nat \<Rightarrow> flagent \<Rightarrow> flagent" where
  "fa_touched now a s =
     s\<lparr>fa_alive := (if fs_alive (fa_store s a) then fa_alive s else fa_alive s @ [a]),
       fa_store := (fa_store s)(a := (fa_store s a)\<lparr>fs_alive := True,
         fs_ping_at := now 0 + PING_INTERVAL, fs_expires := now 1 + SERVER_TTL\<rparr>)\<rparr>"

lemma fa_touched_simps [simp]:
  "fa_request (fa_touched now a s) = fa_request s" "fa_sequence (fa_touched now a s) = fa_sequence s"
  "fa_conn (fa_touched now a s) = fa_conn s" "fa_next (fa_touched now a s) = fa_next s"
  "fa_expires (fa_touched now a s) = fa_expires s"
  by (simp_all add: fa_touched_def)

definition accepts_sequence :: "32 word \<Rightarrow> frame \<Rightarrow> bool" where
  "accepts_sequence w f \<longleftrightarrow> stoseq f = -1 \<or> word_of_int (stoseq f) = w"

lemma on_router_message_eq:
  assumes "fl3_recv_msg es = Inr (ep # reply, r)"
  shows "on_router_message now es s =
    (case map_of (fa_conn s) ep of
       None \<Rightarrow> Inl Assertion
     | Some a \<Rightarrow>
         (case reply of
            [] \<Rightarrow> Inl Undefined
          | f # fs \<Rightarrow>
              Inr (if accepts_sequence (fa_sequence s) f
                   then ((fa_touched now a s)\<lparr>fa_request := []\<rparr>, [FaPipe (parts_of (''OK'' # fs))])
                   else (fa_touched now a s, []))))"
proof (cases "map_of (fa_conn s) ep")
  case None
  with assms show ?thesis by (simp add: on_router_message_def)
next
  case (Some a)
  have sv: "fs_ttl t1 d1 (fs_next_ping t0 d0 (fs_set_alive True sv)) =
      sv\<lparr>fs_alive := True, fs_ping_at := t0 + d0, fs_expires := t1 + d1\<rparr>"
    "fs_alive sv \<Longrightarrow> fs_ttl t1 d1 (fs_next_ping t0 d0 sv) =
      sv\<lparr>fs_alive := True, fs_ping_at := t0 + d0, fs_expires := t1 + d1\<rparr>" for sv t0 t1 d0 d1
    by (cases sv; simp add: fs_ttl_def fs_next_ping_def fs_set_alive_def)+
  show ?thesis
  proof (cases reply)
    case Nil
    with assms Some show ?thesis by (simp add: on_router_message_def Let_def split_def)
  next
    case (Cons f fs)
    with assms Some show ?thesis
      by (cases "fs_alive (fa_store s a)")
        (simp_all add: on_router_message_def accepts_sequence_def Let_def sv fa_touched_def del: parts_of.simps)
  qed
qed

lemma on_control_message_Inr:
  assumes inv: "fa_inv s" and r: "on_control_message ok now es s = Inr (t, os)"
  shows "fa_inv t \<and> fa_endpoints t = fa_endpoints s \<union> connected os \<and> fa_addressees os = []"
proof -
  obtain msg r1 where m: "fl3_recv_msg es = Inr (msg, r1)"
    using r by (cases "fl3_recv_msg es") (auto simp: on_control_message_def)
  obtain cmd args where msg: "msg = cmd # args"
    using r m by (cases msg) (auto simp: on_control_message_def)
  consider "cmd = ''CONNECT''" | "cmd = ''REQUEST''" | "cmd \<noteq> ''CONNECT''" "cmd \<noteq> ''REQUEST''" by blast
  then show ?thesis
  proof cases
    case 1
    with r m msg obtain ep rest where args: "args = ep # rest"
      by (cases args) (auto simp: on_control_message_def)
    let ?sv = "fs_ttl (now 3) SERVER_TTL (fs_next_ping (now 2) PING_INTERVAL (flcliserver_new (now 0) (now 1) ep))"
    let ?t = "s\<lparr>fa_conn := AList.update ep (fa_next s) (fa_conn s), fa_alive := fa_alive s @ [fa_next s],
           fa_store := (fa_store s)(fa_next s := ?sv), fa_next := fa_next s + 1\<rparr>"
    have "t = ?t" "os = [FaConnect ep]"
      using r m msg 1 args by (auto simp: on_control_message_def Let_def split: if_splits)
    moreover have "fa_inv ?t" by (rule fa_inv_connect [OF inv]) simp
    moreover have "fa_endpoints ?t = fa_endpoints s \<union> {ep}" by (auto simp: fa_endpoints_def fst_set_update)
    ultimately show ?thesis by simp
  next
    case 2
    with r m msg have t: "t = s\<lparr>fa_sequence := fa_sequence s + 1,
        fa_request := unsigned_string (fa_sequence s + 1) # args, fa_expires := now 0 + GLOBAL_TIMEOUT\<rparr>"
      and "os = []" by (auto simp: on_control_message_def Let_def)
    moreover have "same_servers s t" unfolding t by (simp add: same_servers_def)
    moreover have "\<forall>a \<in> set (fa_alive t). a < fa_next t" using inv unfolding t by (simp add: fa_inv_def)
    ultimately show ?thesis using fa_inv_same_servers [OF inv] by (simp add: fa_endpoints_def)
  next
    case 3
    with r m msg inv show ?thesis by (auto simp: on_control_message_def)
  qed
qed

lemma on_router_message_Inr:
  assumes inv: "fa_inv s" and r: "on_router_message now es s = Inr (t, os)"
  shows "fa_inv t \<and> fa_endpoints t = fa_endpoints s \<and> connected os = {} \<and> fa_addressees os = []"
proof -
  obtain reply r1 where m: "fl3_recv_msg es = Inr (reply, r1)"
    using r by (cases "fl3_recv_msg es") (auto simp: on_router_message_def)
  obtain ep fs where reply: "reply = ep # fs"
    using r m by (cases reply) (auto simp: on_router_message_def)
  with m have m: "fl3_recv_msg es = Inr (ep # fs, r1)" by simp
  note eq = on_router_message_eq [OF m, of now s]
  from r eq obtain a where a: "map_of (fa_conn s) ep = Some a"
    by (cases "map_of (fa_conn s) ep") auto
  from r eq a obtain f gs where f: "fs = f # gs" by (cases fs) auto
  have a_lt: "a < fa_next s" using fa_inv_conn [OF inv a] by simp
  have same: "same_servers s (fa_touched now a s)" "same_servers s ((fa_touched now a s)\<lparr>fa_request := []\<rparr>)"
    by (simp_all add: same_servers_def fa_touched_def)
  have alive: "\<forall>b \<in> set (fa_alive (fa_touched now a s)). b < fa_next s"
    using inv a_lt by (simp add: fa_inv_def fa_touched_def)
  show ?thesis
  proof (cases "accepts_sequence (fa_sequence s) f")
    case True
    with r eq a f have t: "t = (fa_touched now a s)\<lparr>fa_request := []\<rparr>" and os: "os = [FaPipe (parts_of (''OK'' # gs))]"
      by simp_all
    have "fa_inv t" unfolding t by (rule fa_inv_same_servers [OF inv same(2)]) (use alive in simp)
    with os t show ?thesis by (simp add: fa_endpoints_def)
  next
    case False
    with r eq a f have t: "t = fa_touched now a s" and os: "os = []" by simp_all
    have "fa_inv t" unfolding t by (rule fa_inv_same_servers [OF inv same(1)]) (use alive in simp)
    with os t show ?thesis by (simp add: fa_endpoints_def)
  qed
qed

lemma fa_find_spec:
  "fa_find now k store as = (store', as') \<Longrightarrow>
    (\<forall>a. fs_endpoint (store' a) = fs_endpoint (store a)) \<and> set as' \<subseteq> set as"
  by (induction now k store as rule: fa_find.induct) (auto split: if_splits)

lemma fa_pings_spec:
  "fa_pings now k store conn = (store', os) \<Longrightarrow>
    (\<forall>a. fs_endpoint (store' a) = fs_endpoint (store a)) \<and> connected os = {}
    \<and> set (fa_addressees os) \<subseteq> (\<lambda>a. fs_endpoint (store a)) ` snd ` set conn"
proof (induction now k store conn arbitrary: store' os rule: fa_pings.induct)
  case (1 now k store)
  then show ?case by simp
next
  case (2 now k store ep a conn)
  obtain sv o1 where p: "fa_ping (now (2 * k)) (now (2 * k + 1)) (store a) = (sv, o1)" by fastforce
  obtain st o2 where q: "fa_pings now (Suc k) (store(a := sv)) conn = (st, o2)" by fastforce
  have sv: "fs_endpoint sv = fs_endpoint (store a)" "connected o1 = {}"
      "set (fa_addressees o1) \<subseteq> {fs_endpoint (store a)}"
    using p by (auto simp: fa_ping_def split: if_splits)
  have ends: "fs_endpoint ((store(a := sv)) b) = fs_endpoint (store b)" for b using sv(1) by simp
  from 2 p q have e: "store' = st" "os = o1 @ o2" by simp_all
  from "2.IH" [OF p [symmetric] refl q] ends sv e show ?case by auto
qed

lemma fa_dispatch_Inr:
  assumes inv: "fa_inv s" and r: "fa_dispatch now s = Inr (t, os)"
  shows "fa_inv t \<and> fa_endpoints t = fa_endpoints s \<and> connected os = {} \<and> set (fa_addressees os) \<subseteq> fa_endpoints s"
proof -
  obtain store alive where f: "fa_find now 1 (fa_store s) (fa_alive s) = (store, alive)" by fastforce
  note fs = fa_find_spec [OF f]
  let ?s = "s\<lparr>fa_store := store, fa_alive := alive\<rparr>"
  have inv1: "fa_inv (?s\<lparr>fa_request := m\<rparr>)" for m
  proof (rule fa_inv_same_servers [OF inv])
    show "same_servers s (?s\<lparr>fa_request := m\<rparr>)" using fs by (simp add: same_servers_def)
    show "\<forall>a \<in> set (fa_alive (?s\<lparr>fa_request := m\<rparr>)). a < fa_next (?s\<lparr>fa_request := m\<rparr>)"
      using fs inv by (auto simp: fa_inv_def)
  qed
  have inv0: "fa_inv (s\<lparr>fa_request := m\<rparr>)" for m
    by (rule fa_inv_same_servers [OF inv]) (use inv in \<open>simp_all add: same_servers_def fa_inv_def\<close>)
  consider "fa_request s = []" | "fa_request s \<noteq> []" "now 0 \<ge> fa_expires s"
    | "fa_request s \<noteq> []" "now 0 < fa_expires s" "alive = []"
    | a as where "fa_request s \<noteq> []" "now 0 < fa_expires s" "alive = a # as"
    by (cases alive) fastforce+
  then show ?thesis
  proof cases
    case 1
    with r inv show ?thesis by (simp add: fa_dispatch_def)
  next
    case 2
    then have "t = s\<lparr>fa_request := []\<rparr>" "os = [FaPipe (fl3_send_frame ''FAILED'')]"
      using r by (simp_all add: fa_dispatch_def)
    with inv0 show ?thesis by (simp add: fa_endpoints_def)
  next
    case 3
    then have "t = ?s" "os = []" using r f by (simp_all add: fa_dispatch_def)
    moreover have "fa_inv ?s" using inv1 [of "fa_request s"] by (simp add: fa_inv_def fa_endpoints_def)
    ultimately show ?thesis by (simp add: fa_endpoints_def)
  next
    case (4 a as)
    let ?req = "fs_endpoint (store a) # fa_request s"
    from 4 have t: "t = ?s\<lparr>fa_request := ?req\<rparr>" and os: "os = [FaRouter (parts_of ?req)]"
      using r f by (simp_all add: fa_dispatch_def Let_def del: parts_of.simps)
    have "a < fa_next s" using 4 fs inv by (auto simp: fa_inv_def)
    then have "fs_endpoint (store a) \<in> fa_endpoints s" using fs inv by (simp add: fa_inv_def)
    moreover have "fa_addressees os = [fs_endpoint (store a)]"
      using 4 os by (simp add: parts_of_Cons)
    ultimately show ?thesis using inv1 [of ?req] t os by (simp add: fa_endpoints_def)
  qed
qed

lemma agent_step_Inr:
  assumes inv: "fa_inv s" and r: "agent_task_step ok i s = Inr (c, os)"
  shows "fa_inv (ctl_state c) \<and> fa_endpoints (ctl_state c) = fa_endpoints s \<union> connected os
    \<and> set (fa_addressees os) \<subseteq> fa_endpoints (ctl_state c)"
proof (cases "fai_rc i = -1")
  case True
  with r inv show ?thesis by (auto simp: agent_task_step_def)
next
  case False
  let ?c = "case fai_pipe i of None \<Rightarrow> Inr (s, []) | Some es \<Rightarrow> on_control_message ok (fai_t_control i) es s"
  from r False obtain s1 o1 where c1: "?c = Inr (s1, o1)" by (auto simp: agent_task_step_def)
  let ?r = "case fai_router i of None \<Rightarrow> Inr (s1, []) | Some es \<Rightarrow> on_router_message (fai_t_router i) es s1"
  from r False c1 obtain s2 o2 where c2: "?r = Inr (s2, o2)" by (auto simp: agent_task_step_def)
  from r False c1 c2 obtain s3 o3 where c3: "fa_dispatch (fai_t_dispatch i) s2 = Inr (s3, o3)"
    by (auto simp: agent_task_step_def)
  obtain store o4 where c4: "fa_pings (fai_t_ping i) 0 (fa_store s3) (fa_conn s3) = (store, o4)" by fastforce
  from r False c1 c2 c3 c4 have c: "c = Next (s3\<lparr>fa_store := store\<rparr>)" and os: "os = o1 @ o2 @ o3 @ o4"
    by (auto simp: agent_task_step_def)
  have 1: "fa_inv s1 \<and> fa_endpoints s1 = fa_endpoints s \<union> connected o1 \<and> fa_addressees o1 = []"
    using c1 inv on_control_message_Inr [OF inv] by (cases "fai_pipe i") auto
  then have i1: "fa_inv s1" by simp
  have 2: "fa_inv s2 \<and> fa_endpoints s2 = fa_endpoints s1 \<and> connected o2 = {} \<and> fa_addressees o2 = []"
    using c2 i1 on_router_message_Inr [OF i1] by (cases "fai_router i") auto
  note 3 = fa_dispatch_Inr [OF conjunct1 [OF 2] c3] and 4 = fa_pings_spec [OF c4]
  have i3: "fa_inv s3" using 3 by simp
  have "fa_inv (s3\<lparr>fa_store := store\<rparr>)"
    by (rule fa_inv_same_servers [OF i3]) (use 4 i3 in \<open>simp_all add: same_servers_def fa_inv_def\<close>)
  moreover have "(\<lambda>a. fs_endpoint (fa_store s3 a)) ` snd ` set (fa_conn s3) \<subseteq> fa_endpoints s3"
    using i3 by (auto simp: fa_inv_def)
  with 4 have "set (fa_addressees o4) \<subseteq> fa_endpoints s3" by blast
  moreover have "fa_endpoints (s3\<lparr>fa_store := store\<rparr>) = fa_endpoints s3" by (simp add: fa_endpoints_def)
  ultimately show ?thesis using 1 2 3 4 c os by simp
qed

interpretation fl3_agent: guarded_loop "agent_task_step ok" fa_inv for ok
  by unfold_locales (use agent_step_Inr in blast)

lemma agent_run_addressees:
  "fa_inv s \<Longrightarrow> run (agent_task_step ok) s is = Inr (c, os) \<Longrightarrow>
    fa_endpoints (ctl_state c) = fa_endpoints s \<union> connected os \<and>
    set (fa_addressees os) \<subseteq> fa_endpoints (ctl_state c)"
proof (induction "is" arbitrary: s c os)
  case Nil
  then show ?case by auto
next
  case (Cons i "is")
  from Cons.prems(2) obtain d ps where st: "agent_task_step ok i s = Inr (d, ps)"
    by (auto split: sum.splits)
  note law = agent_step_Inr [OF Cons.prems(1) st]
  show ?case
  proof (cases d)
    case (Next s1)
    with Cons.prems(2) st obtain qs where r: "run (agent_task_step ok) s1 is = Inr (c, qs)"
      and os: "os = ps @ qs" by (auto split: sum.splits)
    from law Next have "fa_inv s1" by simp
    from Cons.IH [OF this r] law Next os show ?thesis by auto
  next
    case (Halt s1)
    with st Cons.prems(2) have "c = d" "os = ps" by auto
    with law show ?thesis by blast
  qed
qed

subsection \<open>Where the agent sends, and when it fails\<close>

text \<open>
  C36: whatever arrives and whatever the clock shows, the agent sends its requests and pings only to
  endpoints it was told to connect to, and its table holds exactly those.
\<close>

theorem fl3_sends_to_connected:
  assumes "run (agent_task_step ok) flagent_init is = Inr (c, os)"
  shows "set (fa_addressees os) \<subseteq> connected os \<and> fa_endpoints (ctl_state c) = connected os"
proof -
  have "fa_endpoints flagent_init = {}" by (simp add: fa_endpoints_def flagent_init_def)
  with agent_run_addressees [OF fa_inv_init assms] show ?thesis by auto
qed

definition fl3_in :: "time \<Rightarrow> msg option \<Rightarrow> msg option \<Rightarrow> flagent_in" where
  "fl3_in t p r = \<lparr>fai_rc = 1, fai_pipe = map_option arrives p, fai_router = map_option arrives r,
     fai_t_control = \<lambda>_. t, fai_t_router = \<lambda>_. t, fai_t_dispatch = \<lambda>_. t, fai_t_ping = \<lambda>_. t\<rparr>"

definition fl3_one :: "time \<Rightarrow> string \<Rightarrow> flagent" where
  "fl3_one t ep = flagent_init\<lparr>fa_conn := [(ep, 0)], fa_alive := [0], fa_next := 1,
     fa_store := (fa_store flagent_init)(0 := \<lparr>fs_endpoint = ep, fs_alive = False,
       fs_ping_at = t + PING_INTERVAL, fs_expires = t + SERVER_TTL\<rparr>)\<rparr>"

lemma fl3_one_inv [simp]: "fa_inv (fl3_one t ep)"
  by (simp add: fa_inv_def fl3_one_def fa_endpoints_def)

lemma fl3_times: "0 < PING_INTERVAL" "0 < SERVER_TTL" "0 < GLOBAL_TIMEOUT"
  by (simp_all add: PING_INTERVAL_def SERVER_TTL_def GLOBAL_TIMEOUT_def secs_def)

lemma fl3_connect_step:
  assumes "ok ep"
  shows "agent_task_step ok (fl3_in t (Some [''CONNECT'', ep]) None) flagent_init =
    Inr (Next (fl3_one t ep), [FaConnect ep])"
proof -
  have c: "on_control_message ok (\<lambda>_. t) (arrives [''CONNECT'', ep]) flagent_init = Inr (fl3_one t ep, [FaConnect ep])"
    using assms by (simp add: on_control_message_def Let_def fl3_one_def flagent_init_def
        flcliserver_new_def fs_ttl_def fs_next_ping_def)
  have "fa_dispatch (\<lambda>_. t) (fl3_one t ep) = Inr (fl3_one t ep, [])"
    by (simp add: fa_dispatch_def fl3_one_def flagent_init_def)
  moreover have "fa_pings (\<lambda>_. t) 0 (fa_store (fl3_one t ep)) (fa_conn (fl3_one t ep)) = (fa_store (fl3_one t ep), [])"
    using fl3_times by (simp add: fl3_one_def fa_ping_def)
  ultimately show ?thesis by (simp add: agent_task_step_def fl3_in_def c)
qed

theorem fl3_sends_to_connected_witness:
  "\<exists>c os. run (agent_task_step (\<lambda>_. True)) flagent_init [fl3_in 0 (Some [''CONNECT'', ''a'']) None] = Inr (c, os)
    \<and> fa_endpoints (ctl_state c) = {''a''}"
proof -
  have r: "run (agent_task_step (\<lambda>_. True)) flagent_init [fl3_in 0 (Some [''CONNECT'', ''a'']) None] =
      Inr (Next (fl3_one 0 ''a''), [FaConnect ''a''])"
    by (simp add: fl3_connect_step)
  from fl3_sends_to_connected [OF r] r show ?thesis by simp
qed

lemma fl3_recv_not_assertion: "fl3_recv_msg es = Inl e \<Longrightarrow> e \<noteq> Assertion \<and> e \<noteq> Undefined"
  using recv_unchecked_faults [of "[]" es e] by (auto simp: fl3_recv_msg_def)

lemma on_control_message_assertion:
  "on_control_message ok now es s = Inl Assertion \<longleftrightarrow>
    (\<exists>args r. fl3_recv_msg es = Inr (''REQUEST'' # args, r)) \<and> fa_request s \<noteq> []"
proof (cases "fl3_recv_msg es")
  case (Inl e)
  with fl3_recv_not_assertion [OF Inl] show ?thesis by (simp add: on_control_message_def)
next
  case (Inr mr)
  obtain msg r where m: "fl3_recv_msg es = Inr (msg, r)" using Inr by (cases mr) auto
  show ?thesis
  proof (cases msg)
    case Nil
    with m show ?thesis by (simp add: on_control_message_def)
  next
    case (Cons cmd args)
    show ?thesis
    proof (cases "cmd = ''CONNECT''")
      case True
      with m Cons show ?thesis by (cases args) (auto simp: on_control_message_def Let_def)
    next
      case False
      with m Cons show ?thesis
        by (cases "fa_request s = []") (auto simp: on_control_message_def Let_def)
    qed
  qed
qed

lemma on_router_message_assertion:
  "on_router_message now es s = Inl Assertion \<longleftrightarrow>
    (\<exists>ep fs r. fl3_recv_msg es = Inr (ep # fs, r) \<and> ep \<notin> fa_endpoints s)"
proof (cases "fl3_recv_msg es")
  case (Inl e)
  with fl3_recv_not_assertion [OF Inl] show ?thesis by (simp add: on_router_message_def)
next
  case (Inr mr)
  obtain msg r where m: "fl3_recv_msg es = Inr (msg, r)" using Inr by (cases mr) auto
  show ?thesis
  proof (cases msg)
    case Nil
    with m show ?thesis by (simp add: on_router_message_def)
  next
    case (Cons ep fs)
    with m have m: "fl3_recv_msg es = Inr (ep # fs, r)" by simp
    show ?thesis
    proof (cases "map_of (fa_conn s) ep")
      case None
      then have "ep \<notin> fa_endpoints s" by (simp add: fa_endpoints_def map_of_eq_None_iff)
      with None on_router_message_eq [OF m, of now s] m show ?thesis by simp
    next
      case (Some a)
      then have "ep \<in> fa_endpoints s" using map_of_eq_None_iff [of "fa_conn s" ep] by (simp add: fa_endpoints_def)
      moreover have "on_router_message now es s \<noteq> Inl Assertion"
        using Some on_router_message_eq [OF m, of now s] by (cases fs) auto
      ultimately show ?thesis using m by auto
    qed
  qed
qed

lemma fa_dispatch_total: "\<exists>t os. fa_dispatch now s = Inr (t, os)"
proof -
  obtain store alive where "fa_find now 1 (fa_store s) (fa_alive s) = (store, alive)" by fastforce
  then show ?thesis by (cases alive) (auto simp: fa_dispatch_def Let_def)
qed

text \<open>
  C37: the agent fails an assertion exactly when the application starts a request before the last one
  is finished, or when a message comes from an endpoint the agent has not been told to connect to;
  dispatching a request cannot fail.
\<close>

theorem fl3_assertions:
  "(on_control_message ok now es s = Inl Assertion \<longleftrightarrow>
      (\<exists>args r. fl3_recv_msg es = Inr (''REQUEST'' # args, r)) \<and> fa_request s \<noteq> [])
    \<and> (on_router_message now es s = Inl Assertion \<longleftrightarrow>
      (\<exists>ep fs r. fl3_recv_msg es = Inr (ep # fs, r) \<and> ep \<notin> fa_endpoints s))
    \<and> (\<exists>t os. fa_dispatch now s = Inr (t, os))"
  by (simp add: on_control_message_assertion on_router_message_assertion fa_dispatch_total)

subsection \<open>What completes a request\<close>

lemma stoseq_unsigned: "stoseq (unsigned_string v) = min (2 ^ 31 - 1) (int (unat v))"
  by (simp add: stoseq_def unsigned_string_def strtol_nat_string)

lemma unat_less_uint: "unat (v :: 32 word) < 2 ^ 31 \<longleftrightarrow> uint v < 2 ^ 31"
  unfolding unat_eq_nat_uint nat_less_iff [OF uint_ge_0] by simp

lemma accepts_own_sequence:
  assumes "unat v < 2 ^ 31"
  shows "accepts_sequence w (unsigned_string v) \<longleftrightarrow> v = w"
proof -
  have "uint v < 2 ^ 31" using assms by (simp only: unat_less_uint)
  then have st: "stoseq (unsigned_string v) = uint v" by (simp add: stoseq_unsigned)
  have "uint v \<noteq> -1" using uint_ge_0 [of v] by linarith
  then show ?thesis by (auto simp: accepts_sequence_def st)
qed

lemma rejects_late_sequence:
  assumes "2 ^ 31 \<le> unat w"
  shows "\<not> accepts_sequence w (unsigned_string w)"
proof
  assume acc: "accepts_sequence w (unsigned_string w)"
  have "\<not> uint w < 2 ^ 31" using assms unat_less_uint [of w] by simp
  then have "stoseq (unsigned_string w) = 2 ^ 31 - 1" by (simp add: stoseq_unsigned)
  with acc have "word_of_int (2 ^ 31 - 1) = w" by (simp add: accepts_sequence_def)
  then have "unat w = unat (word_of_int (2 ^ 31 - 1) :: 32 word)" by simp
  also have "\<dots> = 2 ^ 31 - 1" by simp
  finally show False using assms by simp
qed

lemma fl3_reply_matching_eq:
  assumes "map_of (fa_conn s) ep = Some a" and "fl3_recv_msg es = Inr (ep # unsigned_string v # fs, r)"
    and "unat v < 2 ^ 31"
  shows "on_router_message now es s =
    Inr (if v = fa_sequence s then ((fa_touched now a s)\<lparr>fa_request := []\<rparr>, [FaPipe (parts_of (''OK'' # fs))])
         else (fa_touched now a s, []))"
  using on_router_message_eq [OF assms(2)] assms(1) accepts_own_sequence [OF assms(3)] by simp

text \<open>
  While fewer than 2^31 requests have been made, a reply that carries a sequence number
  completes the outstanding request, and hands the rest of its frames to the application, if the
  number is that of the request; a reply to an earlier request changes nothing but what the agent
  knows about the server.
\<close>

theorem fl3_reply_matching:
  assumes "map_of (fa_conn s) ep = Some a" and "fl3_recv_msg es = Inr (ep # unsigned_string v # fs, r)"
    and "unat v < 2 ^ 31"
  shows "on_router_message now es s =
    Inr (if v = fa_sequence s then ((fa_touched now a s)\<lparr>fa_request := []\<rparr>, [FaPipe (parts_of (''OK'' # fs))])
         else (fa_touched now a s, []))"
  by (rule fl3_reply_matching_eq [OF assms])

theorem fl3_reply_matching_witness:
  "on_router_message (\<lambda>_. 0) (arrives [''a'', unsigned_string 7, ''OK'']) (fl3_one 0 ''a'') =
    Inr (fa_touched (\<lambda>_. 0) 0 (fl3_one 0 ''a''), [])"
proof -
  have "map_of (fa_conn (fl3_one 0 ''a'')) ''a'' = Some 0" "unat (7 :: 32 word) < 2 ^ 31"
    by (simp_all add: fl3_one_def)
  from fl3_reply_matching [OF this(1) recv_arrives(5) this(2), of "\<lambda>_. 0"]
  show ?thesis by (simp add: fl3_one_def flagent_init_def)
qed

text \<open>
  From the 2^31-th request on, the conversion of the sequence number saturates, so even the
  reply to the current request is taken for a stale one and dropped.
\<close>

theorem fl3_late_reply_dropped:
  assumes "map_of (fa_conn s) ep = Some a" and "2 ^ 31 \<le> unat (fa_sequence s)"
    and "fl3_recv_msg es = Inr (ep # unsigned_string (fa_sequence s) # fs, r)"
  shows "on_router_message now es s = Inr (fa_touched now a s, [])"
  using on_router_message_eq [OF assms(3)] assms(1) rejects_late_sequence [OF assms(2)] by simp

theorem fl3_late_reply_dropped_witness:
  "let s = (fl3_one 0 ''a'')\<lparr>fa_sequence := 2 ^ 31\<rparr>
   in on_router_message (\<lambda>_. 0) (arrives [''a'', unsigned_string (2 ^ 31), ''OK'']) s =
        Inr (fa_touched (\<lambda>_. 0) 0 s, [])"
proof -
  let ?s = "(fl3_one 0 ''a'')\<lparr>fa_sequence := 2 ^ 31\<rparr>"
  have "map_of (fa_conn ?s) ''a'' = Some 0" "2 ^ 31 \<le> unat (fa_sequence ?s)"
    "fl3_recv_msg (arrives [''a'', unsigned_string (2 ^ 31), ''OK'']) =
       Inr (''a'' # unsigned_string (fa_sequence ?s) # [''OK''], [])"
    by (simp_all add: fl3_one_def)
  from fl3_late_reply_dropped [OF this] show ?thesis by (simp add: Let_def)
qed

lemma stoseq_PONG: "stoseq ''PONG'' = -1"
  by (simp add: stoseq_def strtol_def c_str_def read_number_def is_space_def starts_digit_def is_digit_def)

lemma accepts_PONG [simp]: "accepts_sequence w ''PONG''"
  by (simp add: accepts_sequence_def stoseq_PONG)

text \<open>
  A PONG counts as the reply to whatever request is outstanding: the request is dropped, and the
  application is handed an empty reply, the value that stands for failure.
\<close>

theorem fl3_pong_completes:
  assumes "map_of (fa_conn s) ep = Some a"
  shows "on_router_message now (arrives [ep, ''PONG'']) s =
      Inr ((fa_touched now a s)\<lparr>fa_request := []\<rparr>, [FaPipe (parts_of [''OK''])])
    \<and> flcliapi_reply (arrives [''OK'']) = Inr []"
  using on_router_message_eq [OF recv_arrives(5), of now ep "[''PONG'']" s] assms
  by (simp add: flcliapi_reply_def)

theorem fl3_pong_completes_witness:
  "\<exists>t. on_router_message (\<lambda>_. 0) (arrives [''a'', ''PONG'']) ((fl3_one 0 ''a'')\<lparr>fa_request := [''1'', ''hi'']\<rparr>) =
      Inr (t, [FaPipe (parts_of [''OK''])]) \<and> fa_request t = []"
proof -
  have "map_of (fa_conn ((fl3_one 0 ''a'')\<lparr>fa_request := [''1'', ''hi'']\<rparr>)) ''a'' = Some 0"
    by (simp add: fl3_one_def)
  from fl3_pong_completes [OF this, of "\<lambda>_. 0"] show ?thesis by simp
qed

subsection \<open>Dispatching again\<close>

lemma fa_dispatch_live:
  assumes "fa_request s \<noteq> []" and "now 0 < fa_expires s" and "fa_alive s = a # as"
    and "\<not> fs_expired (now 1) (fa_store s a)"
  shows "fa_dispatch now s = Inr (s\<lparr>fa_request := fs_endpoint (fa_store s a) # fa_request s\<rparr>,
    [FaRouter (parts_of (fs_endpoint (fa_store s a) # fa_request s))])"
proof -
  have "fa_find now 1 (fa_store s) (fa_alive s) = (fa_store s, fa_alive s)" using assms by simp
  with assms show ?thesis by (simp add: fa_dispatch_def Let_def del: parts_of.simps)
qed

lemma fa_pings_none:
  "\<forall>a \<in> snd ` set conn. \<forall>k. now k < fs_ping_at (store a) \<Longrightarrow> fa_pings now k store conn = (store, [])"
  by (induction conn arbitrary: k) (auto simp: fa_ping_def)

text \<open>An iteration in which nothing arrives and no deadline before \<open>T\<close> has passed.\<close>

definition fl3_quiet :: "time \<Rightarrow> flagent_in \<Rightarrow> bool" where
  "fl3_quiet T i \<longleftrightarrow> fai_rc i \<noteq> -1 \<and> fai_pipe i = None \<and> fai_router i = None
     \<and> (\<forall>k. fai_t_dispatch i k < T) \<and> (\<forall>k. fai_t_ping i k < T)"

lemma fl3_quiet_step:
  assumes "fl3_quiet T i" and "fa_request s \<noteq> []" and "fa_alive s = a # as"
    and "T \<le> fa_expires s" and "T \<le> fs_expires (fa_store s a)"
    and "\<forall>b \<in> snd ` set (fa_conn s). T \<le> fs_ping_at (fa_store s b)"
  shows "agent_task_step ok i s = Inr (Next (s\<lparr>fa_request := fs_endpoint (fa_store s a) # fa_request s\<rparr>),
    [FaRouter (parts_of (fs_endpoint (fa_store s a) # fa_request s))])"
proof -
  have q: "fai_rc i \<noteq> -1" "fai_pipe i = None" "fai_router i = None"
    "\<And>k. fai_t_dispatch i k < T" "\<And>k. fai_t_ping i k < T"
    using assms(1) by (simp_all add: fl3_quiet_def)
  have "\<not> fs_expired (fai_t_dispatch i 1) (fa_store s a)"
    using q(4) [of 1] assms(5) by (simp add: fs_expired_def)
  from fa_dispatch_live [OF assms(2) less_le_trans [OF q(4) [of 0] assms(4)] assms(3) this]
  have d: "fa_dispatch (fai_t_dispatch i) s = Inr (s\<lparr>fa_request := fs_endpoint (fa_store s a) # fa_request s\<rparr>,
    [FaRouter (parts_of (fs_endpoint (fa_store s a) # fa_request s))])" .
  have "fa_pings (fai_t_ping i) 0 (fa_store s) (fa_conn s) = (fa_store s, [])"
    by (rule fa_pings_none) (use q(5) assms(6) less_le_trans in blast)
  with q d show ?thesis by (simp add: agent_task_step_def del: parts_of.simps)
qed

text \<open>
  As long as a request is outstanding, every further iteration of the agent sends it again and
  puts the endpoint in front of what it has already sent: the n-th copy starts with n endpoints, so
  from the second on the server finds an endpoint where it expects the sequence number.
\<close>

theorem fl3_redispatch:
  assumes "\<forall>i \<in> set is. fl3_quiet T i" and "fa_request s \<noteq> []" and "fa_alive s = a # as"
    and "T \<le> fa_expires s" and "T \<le> fs_expires (fa_store s a)"
    and "\<forall>b \<in> snd ` set (fa_conn s). T \<le> fs_ping_at (fa_store s b)"
  shows "run (agent_task_step ok) s is =
    Inr (Next (s\<lparr>fa_request := replicate (length is) (fs_endpoint (fa_store s a)) @ fa_request s\<rparr>),
      map (\<lambda>n. FaRouter (parts_of (replicate (Suc n) (fs_endpoint (fa_store s a)) @ fa_request s)))
        [0..<length is])"
  using assms
proof (induction "is" arbitrary: s)
  case Nil
  then show ?case by simp
next
  case (Cons i "is")
  let ?ep = "fs_endpoint (fa_store s a)"
  let ?s = "s\<lparr>fa_request := ?ep # fa_request s\<rparr>"
  have st: "agent_task_step ok i s = Inr (Next ?s, [FaRouter (parts_of (?ep # fa_request s))])"
    by (rule fl3_quiet_step [OF _ Cons.prems(2-6)]) (use Cons.prems(1) in simp)
  have ih: "run (agent_task_step ok) ?s is =
    Inr (Next (?s\<lparr>fa_request := replicate (length is) ?ep @ ?ep # fa_request s\<rparr>),
      map (\<lambda>n. FaRouter (parts_of (replicate (Suc n) ?ep @ ?ep # fa_request s))) [0..<length is])"
    using Cons.IH [of ?s] Cons.prems by (simp del: parts_of.simps)
  have shift: "replicate k ?ep @ ?ep # xs = replicate (Suc k) ?ep @ xs" for k xs
    by (simp add: replicate_app_Cons_same)
  have up: "map f [0..<length (i # is)] = f 0 # map (\<lambda>n. f (Suc n)) [0..<length is]" for f :: "nat \<Rightarrow> fa_act"
    by (simp add: upt_conv_Cons map_Suc_upt [symmetric] del: upt_Suc)
  show ?case
    unfolding up using st ih by (simp add: shift del: parts_of.simps)
qed

theorem fl3_redispatch_witness:
  "\<exists>c. run (agent_task_step (\<lambda>_. True))
      ((fl3_one 0 ''a'')\<lparr>fa_request := [''1'', ''hi''], fa_expires := GLOBAL_TIMEOUT\<rparr>)
      [fl3_in 0 None None, fl3_in 0 None None] =
    Inr (c, [FaRouter (parts_of [''a'', ''1'', ''hi'']), FaRouter (parts_of [''a'', ''a'', ''1'', ''hi''])])"
proof -
  let ?s = "(fl3_one 0 ''a'')\<lparr>fa_request := [''1'', ''hi''], fa_expires := GLOBAL_TIMEOUT\<rparr>"
  have "\<forall>i \<in> set [fl3_in 0 None None, fl3_in 0 None None]. fl3_quiet (secs 2) i" "fa_request ?s \<noteq> []"
    "fa_alive ?s = 0 # []" "secs 2 \<le> fa_expires ?s" "secs 2 \<le> fs_expires (fa_store ?s 0)"
    "\<forall>b \<in> snd ` set (fa_conn ?s). secs 2 \<le> fs_ping_at (fa_store ?s b)"
    by (simp_all add: fl3_quiet_def fl3_in_def fl3_one_def secs_def GLOBAL_TIMEOUT_def SERVER_TTL_def
        PING_INTERVAL_def)
  from fl3_redispatch [OF this, of "\<lambda>_. True"] show ?thesis
    by (simp add: fl3_one_def numeral_2_eq_2)
qed

subsection \<open>The timer\<close>

lemma fold_deadline:
  "fold (\<lambda>(_, a) t. if t > d a then d a else t) conn t0 \<le> (t0 :: int)
    \<and> (\<forall>(ep, a) \<in> set conn. fold (\<lambda>(_, a) t. if t > d a then d a else t) conn t0 \<le> d a)"
proof (induction conn arbitrary: t0)
  case Nil
  then show ?case by simp
next
  case (Cons c conn)
  obtain ep a where c: "c = (ep, a)" by fastforce
  let ?t = "if t0 > d a then d a else t0"
  have "?t \<le> t0" "?t \<le> d a" by simp_all
  moreover note Cons [of ?t]
  ultimately show ?case unfolding c by (auto intro: order_trans)
qed

lemma fa_tickless_le:
  "fa_tickless t s \<le> t + secs 3600"
  "fa_request s \<noteq> [] \<Longrightarrow> fa_tickless t s \<le> fa_expires s"
  "(ep, a) \<in> set (fa_conn s) \<Longrightarrow> fa_tickless t s \<le> fs_ping_at (fa_store s a)"
proof -
  let ?t0 = "if fa_request s \<noteq> [] \<and> t + secs 3600 > fa_expires s then fa_expires s else t + secs 3600"
  have eq: "fa_tickless t s = fold (\<lambda>(_, a) t. if t > fs_ping_at (fa_store s a) then fs_ping_at (fa_store s a) else t)
      (fa_conn s) ?t0" by (simp add: fa_tickless_def Let_def)
  note f = fold_deadline [of "\<lambda>a. fs_ping_at (fa_store s a)" "fa_conn s" ?t0]
  have "?t0 \<le> t + secs 3600" "fa_request s \<noteq> [] \<longrightarrow> ?t0 \<le> fa_expires s" by simp_all
  with f show "fa_tickless t s \<le> t + secs 3600" "fa_request s \<noteq> [] \<Longrightarrow> fa_tickless t s \<le> fa_expires s"
    unfolding eq by linarith+
  show "(ep, a) \<in> set (fa_conn s) \<Longrightarrow> fa_tickless t s \<le> fs_ping_at (fa_store s a)"
    using f unfolding eq by fastforce
qed

lemma fa_timeout_late: "fa_timeout t w s < 0 \<longleftrightarrow> fa_tickless t s \<le> w - msecs 1"
  and fa_timeout_bounds: "t \<le> w \<Longrightarrow> w \<le> fa_tickless t s \<Longrightarrow>
    0 \<le> fa_timeout t w s \<and> fa_timeout t w s \<le> 3600000 \<and> w + msecs (fa_timeout t w s) \<le> fa_tickless t s"
proof -
  let ?d = "fa_tickless t s - w"
  have ms: "msecs 1 = 10000" by (simp add: msecs_def)
  have pos: "fa_timeout t w s = ?d div 10000" if "0 \<le> ?d"
    using that by (simp add: fa_timeout_def ms trunc_div_nonneg)
  have neg: "fa_timeout t w s = - (- ?d div 10000)" if "?d < 0"
    using that by (simp add: fa_timeout_def ms trunc_div_neg)
  show "fa_timeout t w s < 0 \<longleftrightarrow> fa_tickless t s \<le> w - msecs 1"
  proof (cases "?d < 0")
    case True
    have "0 < - ?d div 10000 \<longleftrightarrow> 10000 \<le> - ?d" by linarith
    then show ?thesis using neg [OF True] ms by linarith
  next
    case False
    then have "0 \<le> ?d div 10000" by linarith
    then show ?thesis using pos False ms by linarith
  qed
  show "0 \<le> fa_timeout t w s \<and> fa_timeout t w s \<le> 3600000 \<and> w + msecs (fa_timeout t w s) \<le> fa_tickless t s"
    if "t \<le> w" "w \<le> fa_tickless t s"
  proof -
    have "?d \<le> secs 3600" using fa_tickless_le(1) [of t s] that by linarith
    then have "?d \<le> 36000000000" by (simp add: secs_def)
    moreover have "10000 * (?d div 10000) \<le> ?d" by linarith
    ultimately show ?thesis using that pos unfolding msecs_def by linarith
  qed
qed

text \<open>
  The deadlines the agent has to keep: one hour from the first reading of the clock, the expiry of the
  request while there is one, and the next ping of every server connected to. What is left in
  \<open>expires_\<close> by an earlier request is none of them.
\<close>

definition fl3_deadlines :: "time \<Rightarrow> flagent \<Rightarrow> time set" where
  "fl3_deadlines t s = {t + secs 3600} \<union> (if fa_request s \<noteq> [] then {fa_expires s} else {})
     \<union> (\<lambda>(ep, a). fs_ping_at (fa_store s a)) ` set (fa_conn s)"

lemma fl3_deadlines_iff:
  "d \<in> fl3_deadlines t s \<longleftrightarrow> d = t + secs 3600 \<or> fa_request s \<noteq> [] \<and> d = fa_expires s
    \<or> (\<exists>(ep, a) \<in> set (fa_conn s). d = fs_ping_at (fa_store s a))"
  by (auto simp: fl3_deadlines_def)

lemma fold_deadline_ge:
  "T \<le> t0 \<Longrightarrow> \<forall>(ep, a) \<in> set conn. T \<le> d a \<Longrightarrow> (T :: int) \<le> fold (\<lambda>(_, a) t. if t > d a then d a else t) conn t0"
  by (induction conn arbitrary: t0) auto

lemma fa_tickless_ge:
  assumes "\<forall>d \<in> fl3_deadlines t s. u \<le> d"
  shows "u \<le> fa_tickless t s"
  unfolding fa_tickless_def Let_def
  by (rule fold_deadline_ge) (use assms in \<open>auto simp: fl3_deadlines_def\<close>)

lemma fa_tickless_deadline: "d \<in> fl3_deadlines t s \<Longrightarrow> fa_tickless t s \<le> d"
  by (auto simp: fl3_deadlines_iff fa_tickless_le)

lemma fa_tickless_Min: "fa_tickless t s = Min (fl3_deadlines t s)"
proof (rule antisym)
  have fin: "finite (fl3_deadlines t s)" "fl3_deadlines t s \<noteq> {}" by (simp_all add: fl3_deadlines_def)
  show "fa_tickless t s \<le> Min (fl3_deadlines t s)" using fin by (simp add: fa_tickless_deadline)
  show "Min (fl3_deadlines t s) \<le> fa_tickless t s" by (rule fa_tickless_ge) (simp add: fin)
qed

lemma fa_tickless_in: "fa_tickless t s \<in> fl3_deadlines t s"
  unfolding fa_tickless_Min by (rule Min_in) (simp_all add: fl3_deadlines_def)

lemma fa_timeout_next: "w \<le> fa_tickless t s \<Longrightarrow> fa_tickless t s < w + msecs (fa_timeout t w s + 1)"
  unfolding fa_timeout_def msecs_def by (simp add: trunc_div_nonneg)

text \<open>
  C38: when no deadline of the agent has passed at the second reading of the clock, the poll waits for
  between 0 and 3600000 ms, never beyond a deadline, and for as many whole milliseconds as that allows:
  one more would be beyond a deadline, and the expiry of a request that is not outstanding does not count.
  The number given to the poll is negative, which to the poll means no time limit at all, exactly when a
  deadline has passed by a millisecond or more.
\<close>

theorem fl3_poll_timeout:
  assumes "D = fl3_deadlines t s"
  shows "(t \<le> w \<and> (\<forall>d \<in> D. w \<le> d) \<longrightarrow>
      0 \<le> fa_timeout t w s \<and> fa_timeout t w s \<le> 3600000
      \<and> (\<forall>d \<in> D. w + msecs (fa_timeout t w s) \<le> d) \<and> (\<exists>d \<in> D. d < w + msecs (fa_timeout t w s + 1)))
    \<and> (fa_timeout t w s < 0 \<longleftrightarrow> (\<exists>d \<in> D. d \<le> w - msecs 1))"
proof (intro conjI impI)
  assume early: "t \<le> w \<and> (\<forall>d \<in> D. w \<le> d)"
  then have w: "t \<le> w" "w \<le> fa_tickless t s" using fa_tickless_in [of t s] assms by blast+
  from fa_timeout_bounds [OF w] show "0 \<le> fa_timeout t w s" "fa_timeout t w s \<le> 3600000" by simp_all
  show "\<forall>d \<in> D. w + msecs (fa_timeout t w s) \<le> d"
    using fa_timeout_bounds [OF w] fa_tickless_deadline [of _ t s] assms by (blast intro: order_trans)
  show "\<exists>d \<in> D. d < w + msecs (fa_timeout t w s + 1)"
    using fa_timeout_next [OF w(2)] fa_tickless_in [of t s] assms by blast
next
  show "fa_timeout t w s < 0 \<longleftrightarrow> (\<exists>d \<in> D. d \<le> w - msecs 1)"
    unfolding fa_timeout_late assms using fa_tickless_in fa_tickless_deadline by (blast intro: order_trans)
qed

theorem fl3_poll_timeout_witness:
  "let s = (fl3_one 0 ''a'')\<lparr>fa_expires := msecs 3\<rparr>
   in fl3_deadlines 0 s = {secs 3600, secs 2} \<and> fa_timeout 0 10000 s = 1999
    \<and> fa_timeout 0 (secs 2 + msecs 1) s < 0"
proof -
  define s where "s = (fl3_one 0 ''a'')\<lparr>fa_expires := msecs 3\<rparr>"
  have D: "fl3_deadlines 0 s = {secs 3600, secs 2}"
    by (auto simp: fl3_deadlines_def s_def fl3_one_def flagent_init_def PING_INTERVAL_def secs_def)
  have num: "\<forall>d \<in> {secs 3600, secs 2}. 10000 \<le> d" by (simp add: secs_def)
  with fl3_poll_timeout [OF D [symmetric], of 10000]
  have "secs 2 < 10000 + msecs (fa_timeout 0 10000 s + 1) \<or> secs 3600 < 10000 + msecs (fa_timeout 0 10000 s + 1)"
    and "10000 + msecs (fa_timeout 0 10000 s) \<le> secs 2" "fa_timeout 0 10000 s \<le> 3600000" by auto
  then have "fa_timeout 0 10000 s = 1999" by (simp add: secs_def msecs_def)
  moreover have "fa_timeout 0 (secs 2 + msecs 1) s < 0"
    using fl3_poll_timeout [OF D [symmetric], of "secs 2 + msecs 1"] by simp
  ultimately show ?thesis using D by (simp add: s_def)
qed

subsection \<open>A request and its reply\<close>

lemma unsigned_not_PING: "unsigned_string v \<noteq> ''PING''"
proof
  assume "unsigned_string v = ''PING''"
  moreover have "stoseq ''PING'' = -1"
    by (simp add: stoseq_def strtol_def c_str_def read_number_def is_space_def starts_digit_def is_digit_def)
  moreover have "0 \<le> stoseq (unsigned_string v)" by (simp add: stoseq_unsigned)
  ultimately show False by simp
qed

lemma flserver3_step_cases:
  "flserver3_step (arrives [x]) u = Inl Undefined"
  "flserver3_step (arrives (x # ''PING'' # fs)) u = Inr (Next u, [parts_of [x, ''PONG'']])"
  "f \<noteq> ''PING'' \<Longrightarrow> flserver3_step (arrives (x # f # fs)) u = Inr (Next u, [parts_of [x, f, ''OK'']])"
  by (simp_all add: flserver3_step_def del: parts_of.simps)

text \<open>
  C1: a request makes the whole round. What the API sends becomes the agent's request with the next
  sequence number in front, goes to the first living server, is answered there with the same number,
  passes the agent's test, and reaches the caller of the API as the server's answer; the agent is
  then ready for the next request.
\<close>

theorem fl3_round_trip:
  assumes Z: "zmq_contract Z" and idle: "fa_request s = []"
    and sv: "map_of (fa_conn s) ep = Some a" "fs_endpoint (fa_store s a) = ep" "fa_alive s = a # as"
    and live: "\<not> fs_expired (td 1) (fa_store s a)" "td 0 < tc 0 + GLOBAL_TIMEOUT"
    and small: "unat (fa_sequence s + 1) < 2 ^ 31"
  shows "\<exists>s1 s2 s3 cs ps qs rs. let seq_no = unsigned_string (fa_sequence s + 1) in
      flcliapi_request body = Inr cs
    \<and> on_control_message ok tc (arrives (map fst cs)) s = Inr (s1, [])
    \<and> fa_dispatch td s1 = Inr (s2, [FaRouter ps])
    \<and> router_out Z (map fst ps) = (ep, [seq_no, body])
    \<and> flserver3_step (arrives (router_in Z client [seq_no, body])) () = Inr (Next (), [qs])
    \<and> router_out Z (map fst qs) = (client, [seq_no, ''OK''])
    \<and> on_router_message tr (arrives (router_in Z ep [seq_no, ''OK''])) s2 = Inr (s3, [FaPipe rs])
    \<and> fa_request s3 = [] \<and> flcliapi_reply (arrives (map fst rs)) = Inr [''OK'']"
proof -
  let ?seq = "unsigned_string (fa_sequence s + 1)"
  let ?s1 = "s\<lparr>fa_sequence := fa_sequence s + 1, fa_request := [?seq, body], fa_expires := tc 0 + GLOBAL_TIMEOUT\<rparr>"
  let ?s2 = "?s1\<lparr>fa_request := [ep, ?seq, body]\<rparr>"
  let ?s3 = "(fa_touched tr a ?s2)\<lparr>fa_request := []\<rparr>"
  have 0: "flcliapi_request body = Inr (parts_of [''REQUEST'', body])"
    by (simp add: flcliapi_request_def del: parts_of.simps)
  have 1: "on_control_message ok tc (arrives [''REQUEST'', body]) s = Inr (?s1, [])"
    using idle by (simp add: on_control_message_def Let_def)
  have 2: "fa_dispatch td ?s1 = Inr (?s2, [FaRouter (parts_of [ep, ?seq, body])])"
    using fa_dispatch_live [of ?s1 td a as] sv live by (simp del: parts_of.simps)
  have 3: "flserver3_step (arrives [client, ?seq, body]) () = Inr (Next (), [parts_of [client, ?seq, ''OK'']])"
    by (rule flserver3_step_cases(3) [OF unsigned_not_PING])
  have "map_of (fa_conn ?s2) ep = Some a" using sv by simp
  from fl3_reply_matching_eq [OF this recv_arrives(5) small, of tr "[''OK'']"]
  have 4: "on_router_message tr (arrives [ep, ?seq, ''OK'']) ?s2 = Inr (?s3, [FaPipe (parts_of [''OK'', ''OK''])])"
    by (simp del: parts_of.simps)
  have 5: "flcliapi_reply (arrives [''OK'', ''OK'']) = Inr [''OK'']" by (simp add: flcliapi_reply_def)
  show ?thesis unfolding Let_def
    by (rule exI [of _ ?s1], rule exI [of _ ?s2], rule exI [of _ ?s3], rule exI [of _ "parts_of [''REQUEST'', body]"],
        rule exI [of _ "parts_of [ep, ?seq, body]"], rule exI [of _ "parts_of [client, ?seq, ''OK'']"],
        rule exI [of _ "parts_of [''OK'', ''OK'']"])
      (simp only: map_fst_parts_of 0 1 2 3 4 5 zmq_contractD [OF Z] simp_thms, simp)
qed

theorem fl3_round_trip_witness:
  "\<exists>s1. on_control_message (\<lambda>_. True) (\<lambda>_. 0) (arrives [''REQUEST'', ''hi'']) (fl3_one 0 ''a'') = Inr (s1, [])"
proof -
  have "fa_request (fl3_one 0 ''a'') = []" "map_of (fa_conn (fl3_one 0 ''a'')) ''a'' = Some 0"
    "fs_endpoint (fa_store (fl3_one 0 ''a'') 0) = ''a''" "fa_alive (fl3_one 0 ''a'') = 0 # []"
    "\<not> fs_expired ((\<lambda>_. 0) 1) (fa_store (fl3_one 0 ''a'') 0)" "(\<lambda>_. 0) 0 < (\<lambda>_. 0) 0 + GLOBAL_TIMEOUT"
    "unat (fa_sequence (fl3_one 0 ''a'') + 1) < 2 ^ 31"
    by (simp_all add: fl3_one_def flagent_init_def fs_expired_def SERVER_TTL_def GLOBAL_TIMEOUT_def secs_def)
  from fl3_round_trip [OF zmq_std_contract this, of "''hi''" "\<lambda>_. True" "''c''" "\<lambda>_. 0"]
  show ?thesis by (auto simp: Let_def flcliapi_request_def)
qed

subsection \<open>An unsolicited PONG\<close>

lemma agent_step_handlers:
  assumes "fai_rc i \<noteq> -1"
    and "(case fai_pipe i of None \<Rightarrow> Inr (s, []) | Some es \<Rightarrow> on_control_message ok (fai_t_control i) es s) = Inr (s1, o1)"
    and "(case fai_router i of None \<Rightarrow> Inr (s1, []) | Some es \<Rightarrow> on_router_message (fai_t_router i) es s1) = Inr (s2, o2)"
  obtains s3 o3 store o4 where "fa_dispatch (fai_t_dispatch i) s2 = Inr (s3, o3)"
    "agent_task_step ok i s = Inr (Next (s3\<lparr>fa_store := store\<rparr>), o1 @ o2 @ o3 @ o4)"
proof -
  obtain s3 o3 where d: "fa_dispatch (fai_t_dispatch i) s2 = Inr (s3, o3)" using fa_dispatch_total by blast
  obtain store o4 where p: "fa_pings (fai_t_ping i) 0 (fa_store s3) (fa_conn s3) = (store, o4)" by fastforce
  have "agent_task_step ok i s = Inr (Next (s3\<lparr>fa_store := store\<rparr>), o1 @ o2 @ o3 @ o4)"
    unfolding agent_task_step_def assms(2) using assms(1,3) d p by simp
  with d show thesis by (rule that)
qed

lemma fa_dispatch_keeps:
  assumes "fa_dispatch now s = Inr (t, os)" and "fa_request s = [] \<or> now 0 < fa_expires s"
  shows "(fa_request t = [] \<longleftrightarrow> fa_request s = []) \<and> (fa_request s = [] \<longrightarrow> os = [])"
proof -
  obtain store alive where "fa_find now 1 (fa_store s) (fa_alive s) = (store, alive)" by fastforce
  with assms show ?thesis by (cases alive) (auto simp: fa_dispatch_def Let_def split: if_splits)
qed

text \<open>
  A PONG that arrives while no request is outstanding is passed to the application all the same,
  where it is read as the (empty) result of the next request; if the application then makes another
  request before the first one is answered, the agent aborts. Shown for every endpoint and pair of
  requests, from the state after one connect.
\<close>

theorem fl3_idle_pong_aborts:
  "(\<exists>c. agent_task_step ok (fl3_in t None (Some [ep, ''PONG''])) (fl3_one t ep) =
        Inr (Next c, [FaPipe (parts_of [''OK''])])
      \<and> flcliapi_reply (arrives [''OK'']) = Inr [])
    \<and> run (agent_task_step ok) (fl3_one t ep)
        [fl3_in t None (Some [ep, ''PONG'']), fl3_in t (Some [''REQUEST'', b1]) None,
         fl3_in t (Some [''REQUEST'', b2]) None] = Inl Assertion"
proof -
  let ?s1 = "(fa_touched (\<lambda>_. t) 0 (fl3_one t ep))\<lparr>fa_request := []\<rparr>"
  have "map_of (fa_conn (fl3_one t ep)) ep = Some 0" by (simp add: fl3_one_def)
  with on_router_message_eq [OF recv_arrives(5), of "\<lambda>_. t" ep "[''PONG'']" "fl3_one t ep"]
  have p: "on_router_message (\<lambda>_. t) (arrives [ep, ''PONG'']) (fl3_one t ep) = Inr (?s1, [FaPipe (parts_of [''OK''])])"
    by simp
  have pings: "fa_pings (\<lambda>_. t) 0 (fa_store ?s1) (fa_conn ?s1) = (fa_store ?s1, [])"
    by (rule fa_pings_none) (simp add: fl3_one_def fa_touched_def fl3_times)
  have "fa_dispatch (\<lambda>_. t) ?s1 = Inr (?s1, [])" by (simp add: fa_dispatch_def)
  with p pings have 1: "agent_task_step ok (fl3_in t None (Some [ep, ''PONG''])) (fl3_one t ep) =
      Inr (Next ?s1, [FaPipe (parts_of [''OK''])])"
    by (simp add: agent_task_step_def fl3_in_def)
  let ?s2 = "?s1\<lparr>fa_sequence := fa_sequence ?s1 + 1, fa_request := [unsigned_string (fa_sequence ?s1 + 1), b1],
    fa_expires := t + GLOBAL_TIMEOUT\<rparr>"
  let ?i = "fl3_in t (Some [''REQUEST'', b1]) None"
  have c: "on_control_message ok (\<lambda>_. t) (arrives [''REQUEST'', b1]) ?s1 = Inr (?s2, [])"
    by (simp add: on_control_message_def Let_def)
  obtain s3 o3 store o4 where d: "fa_dispatch (\<lambda>_. t) ?s2 = Inr (s3, o3)"
    and 2: "agent_task_step ok ?i ?s1 = Inr (Next (s3\<lparr>fa_store := store\<rparr>), [] @ [] @ o3 @ o4)"
    by (rule agent_step_handlers [of ?i ?s1 ok ?s2 "[]" ?s2 "[]"])
      (use c in \<open>simp_all add: fl3_in_def\<close>)
  have "fa_request s3 \<noteq> []" using fa_dispatch_keeps [OF d] fl3_times(3) by simp
  then have 3: "agent_task_step ok (fl3_in t (Some [''REQUEST'', b2]) None) (s3\<lparr>fa_store := store\<rparr>) = Inl Assertion"
    by (simp add: agent_task_step_def fl3_in_def on_control_message_def)
  from 1 2 3 show ?thesis by (simp add: flcliapi_reply_def)
qed

end
