(* ===== verification/LazyPirate.thy ===== *)
theory LazyPirate
  imports Brokers Numerals
begin

text \<open>
  The lazy pirate client and server (\<open>client-side-reliability\<close>): a client that resends a
  request on a new socket when no reply comes, and gives up after three failures, and a server that
  echoes and sometimes crashes or is slow. The lemmas: what is resent and when the client gives up,
  and the numbering of the requests over a run.
\<close>

subsection \<open>The client\<close>

definition retries_allowed :: int where
  "retries_allowed = 3"

record lpc =
  lp_sequence :: int
  lp_retries_left :: int

datatype lp_act = LpConnect | LpSend string

definition lp_init :: lpc where
  "lp_init = \<lparr>lp_sequence = 0, lp_retries_left = retries_allowed\<rparr>"

text \<open>The head of the outer loop; incrementing a signed integer beyond its range is undefined.\<close>

definition lp_request :: "lpc \<Rightarrow> (lpc ctl \<times> lp_act list) res" where
  "lp_request s =
     (if lp_retries_left s = 0 then Inr (Halt s, [])
      else if lp_sequence s = 2 ^ 31 - 1 then Inl Undefined
      else let sequence = lp_sequence s + 1
           in Inr (Next (s\<lparr>lp_sequence := sequence\<rparr>), [LpSend (int_string sequence)]))"

text \<open>
  One iteration of the inner loop: what the poll and the receive that follows it give. Leaving the
  inner loop leads to the head of the outer one.
\<close>

definition lp_step :: "recv_event option \<Rightarrow> lpc \<Rightarrow> (lpc ctl \<times> lp_act list) res" where
  "lp_step i s =
     (let req_str = int_string (lp_sequence s)
      in case i of
           Some RecvError \<Rightarrow> Inl Exception
         | Some (NoPart _) \<Rightarrow> lp_request s
         | Some (Part rep_str _) \<Rightarrow>
             if rep_str = req_str then lp_request (s\<lparr>lp_retries_left := retries_allowed\<rparr>)
             else Inr (Next s, [])
         | None \<Rightarrow>
             let s = s\<lparr>lp_retries_left := lp_retries_left s - 1\<rparr>
             in if lp_retries_left s = 0 then lp_request s
                else Inr (Next s, [LpConnect, LpSend req_str]))"

subsection \<open>The server\<close>

datatype lps_act = LpsSleep time | LpsSend "part list"

record lps_in =
  lps_request :: "recv_event list"
  lps_crash :: int
  lps_slow :: int

definition lps_step :: "lps_in \<Rightarrow> int \<Rightarrow> (int ctl \<times> lps_act list) res" where
  "lps_step i cycles =
     rbind (recv_part (lps_request i)) (\<lambda>(req_str, _).
       if cycles = 2 ^ 31 - 1 then Inl Undefined
       else let cycles = cycles + 1
       in if cycles > 3 \<and> lps_crash i = 0 then Inr (Halt cycles, [])
          else
            let o1 = (if cycles > 3 \<and> lps_slow i = 0 then [LpsSleep (secs 2)] else [])
            in Inr (Next cycles, o1 @ [LpsSleep (secs 1), LpsSend [(req_str, False)]]))"

subsection \<open>Giving up\<close>

text \<open>An iteration that brings no reply to the current request: silence, or another text.\<close>

definition lp_no_reply :: "lpc \<Rightarrow> recv_event option \<Rightarrow> bool" where
  "lp_no_reply s i \<longleftrightarrow> i = None \<or> (\<exists>d more. i = Some (Part d more) \<and> d \<noteq> int_string (lp_sequence s))"

lemma lp_step_no_reply:
  assumes "lp_no_reply s i"
  shows "lp_step i s =
    (if i \<noteq> None then Inr (Next s, [])
     else if lp_retries_left s = 1 then Inr (Halt (s\<lparr>lp_retries_left := 0\<rparr>), [])
     else Inr (Next (s\<lparr>lp_retries_left := lp_retries_left s - 1\<rparr>), [LpConnect, LpSend (int_string (lp_sequence s))]))"
  using assms by (auto simp: lp_step_def lp_no_reply_def lp_request_def Let_def)

lemma lp_retries:
  assumes "\<forall>i \<in> set is. lp_no_reply s i" and "int (count_list is None) < lp_retries_left s"
  shows "run lp_step s is =
    Inr (Next (s\<lparr>lp_retries_left := lp_retries_left s - int (count_list is None)\<rparr>),
      concat (replicate (count_list is None) [LpConnect, LpSend (int_string (lp_sequence s))]))"
  using assms
proof (induction "is" arbitrary: s)
  case Nil
  then show ?case by simp
next
  case (Cons i "is")
  then have nr: "lp_no_reply s i" by simp
  show ?case
  proof (cases "i = None")
    case True
    let ?s = "s\<lparr>lp_retries_left := lp_retries_left s - 1\<rparr>"
    have st: "lp_step i s = Inr (Next ?s, [LpConnect, LpSend (int_string (lp_sequence s))])"
      using lp_step_no_reply [OF nr] True Cons.prems(2) by simp
    have "\<forall>i \<in> set is. lp_no_reply ?s i" "int (count_list is None) < lp_retries_left ?s"
      using Cons.prems True by (auto simp: lp_no_reply_def)
    from Cons.IH [OF this] st True show ?thesis by (simp add: algebra_simps)
  next
    case False
    with lp_step_no_reply [OF nr] have st: "lp_step i s = Inr (Next s, [])" by simp
    have "\<forall>i \<in> set is. lp_no_reply s i" "int (count_list is None) < lp_retries_left s"
      using Cons.prems False by auto
    from Cons.IH [OF this] st False show ?thesis by simp
  qed
qed

text \<open>
  While no reply to the current request comes, each time-out but the last makes the client open
  a new socket and send the very same request again, malformed replies change nothing, and the
  time-out that uses up the last try ends the program. With three tries a request is sent at most
  three times.
\<close>

theorem lp_gives_up:
  assumes "\<forall>i \<in> set is. lp_no_reply s i" and "int (count_list is None) = lp_retries_left s - 1"
  shows "run lp_step s (is @ [None]) =
    Inr (Halt (s\<lparr>lp_retries_left := 0\<rparr>),
      concat (replicate (count_list is None) [LpConnect, LpSend (int_string (lp_sequence s))]))"
proof -
  let ?s = "s\<lparr>lp_retries_left := 1\<rparr>"
  from lp_retries [OF assms(1)] assms(2) have r: "run lp_step s is =
      Inr (Next ?s, concat (replicate (count_list is None) [LpConnect, LpSend (int_string (lp_sequence s))]))"
    by simp
  have "lp_no_reply ?s None" by (simp add: lp_no_reply_def)
  from lp_step_no_reply [OF this] have "lp_step None ?s = Inr (Halt (s\<lparr>lp_retries_left := 0\<rparr>), [])" by simp
  with run_append_Next [OF r, of "[None]"] show ?thesis by simp
qed

theorem lp_gives_up_witness:
  "run lp_step \<lparr>lp_sequence = 1, lp_retries_left = 3\<rparr> [None, Some (Part ''x'' False), None, None] =
    Inr (Halt \<lparr>lp_sequence = 1, lp_retries_left = 0\<rparr>,
      [LpConnect, LpSend (int_string 1), LpConnect, LpSend (int_string 1)])"
proof -
  let ?s = "\<lparr>lp_sequence = 1, lp_retries_left = 3\<rparr>"
  have "int_string 1 = [digit_char 1]" by (simp add: int_string_def nat_string.simps)
  moreover have "is_digit (digit_char 1)" "\<not> is_digit (CHR ''x'')" by (simp, simp add: is_digit_def)
  ultimately have "''x'' \<noteq> int_string 1" by auto
  then have "\<forall>i \<in> set [None, Some (Part ''x'' False), None]. lp_no_reply ?s i"
    and "int (count_list [None, Some (Part ''x'' False), None] None) = lp_retries_left ?s - 1"
    by (auto simp: lp_no_reply_def)
  from lp_gives_up [OF this] show ?thesis by (simp add: numeral_2_eq_2)
qed

subsection \<open>The requests of a run\<close>

text \<open>
  When every request is answered, the requests are the numbers from 1 on, each sent once, and
  the number of tries is always back at three.
\<close>

theorem lp_numbers_requests:
  assumes "int n < 2 ^ 31 - 1"
  shows "run lp_step \<lparr>lp_sequence = 1, lp_retries_left = retries_allowed\<rparr>
      (map (\<lambda>k. Some (Part (int_string (int k)) False)) [1..<Suc n]) =
    Inr (Next \<lparr>lp_sequence = int n + 1, lp_retries_left = retries_allowed\<rparr>,
      map (\<lambda>k. LpSend (int_string (int k))) [2..<n + 2])"
  using assms
proof (induction n)
  case 0
  then show ?case by simp
next
  case (Suc n)
  let ?s = "\<lparr>lp_sequence = int n + 1, lp_retries_left = retries_allowed\<rparr>"
  let ?i = "Some (Part (int_string (int (Suc n))) False)"
  have st: "lp_step ?i ?s = Inr (Next (?s\<lparr>lp_sequence := int n + 2\<rparr>), [LpSend (int_string (int n + 2))])"
    using Suc.prems by (simp add: lp_step_def lp_request_def Let_def retries_allowed_def algebra_simps)
  have "[1..<Suc (Suc n)] = [1..<Suc n] @ [Suc n]" "[2..<Suc n + 2] = [2..<n + 2] @ [n + 2]" by simp_all
  then show ?case
    using Suc run_append_Next [of lp_step, where js = "[?i]"] st
    by (simp del: upt_Suc add: algebra_simps)
qed

theorem lp_numbers_requests_witness:
  "run lp_step \<lparr>lp_sequence = 1, lp_retries_left = retries_allowed\<rparr> [Some (Part (int_string 1) False)] =
    Inr (Next \<lparr>lp_sequence = 2, lp_retries_left = retries_allowed\<rparr>, [LpSend (int_string 2)])"
  using lp_numbers_requests [of 1] by (simp add: upt_rec)

end
