(* ===== verification/Freelance12.thy ===== *)
theory Freelance12
  imports Brokers Numerals
begin

text \<open>
  The first two freelance models. Model one (\<open>model-one-simple-retry-and-failover\<close>): a
  client that tries one server a few times, or several servers one after the other, and an echo
  server. Model two (\<open>model-two-brutal-shotgun-massacre\<close>): a client that sends a request to
  every server and takes the first answer with its number. The lemmas: which answer the client ends
  up with and how often it asks, what is sent, and the round trip.
\<close>

subsection \<open>Model one\<close>

definition MAX_RETRIES :: nat where
  "MAX_RETRIES = 3"

text \<open>
  One attempt: silence within a second, and a receive that fails, give the empty string. The network
  is a function from the number of the attempt to what the poll and the receive see.
\<close>

fun try_reqrep :: "recv_event option \<Rightarrow> string res" where
  "try_reqrep None = Inr []"
| "try_reqrep (Some RecvError) = Inl Exception"
| "try_reqrep (Some (NoPart _)) = Inr []"
| "try_reqrep (Some (Part reply _)) = Inr reply"

text \<open>The two loops; each returns the last reply and the endpoints that were tried.\<close>

function fl1_retry :: "(nat \<Rightarrow> recv_event option) \<Rightarrow> string \<Rightarrow> nat \<Rightarrow> string \<Rightarrow> (string \<times> string list) res" where
  "fl1_retry net endpoint attempt reply =
     (if attempt < MAX_RETRIES then
        rbind (try_reqrep (net attempt)) (\<lambda>reply.
          if reply \<noteq> [] then Inr (reply, [endpoint])
          else rbind (fl1_retry net endpoint (Suc attempt) reply) (\<lambda>(reply, tried). Inr (reply, endpoint # tried)))
      else Inr (reply, []))"
  by pat_completeness auto
termination
  by (relation "measure (\<lambda>(net, endpoint, attempt, reply). MAX_RETRIES - attempt)") auto

declare fl1_retry.simps [simp del]

fun fl1_failover :: "(nat \<Rightarrow> recv_event option) \<Rightarrow> nat \<Rightarrow> string list \<Rightarrow> string \<Rightarrow> (string \<times> string list) res" where
  "fl1_failover net k [] reply = Inr (reply, [])"
| "fl1_failover net k (endpoint # endpoints) reply =
     rbind (try_reqrep (net k)) (\<lambda>reply.
       if reply \<noteq> [] then Inr (reply, [endpoint])
       else rbind (fl1_failover net (Suc k) endpoints reply) (\<lambda>(reply, tried). Inr (reply, endpoint # tried)))"

definition flclient1 :: "(nat \<Rightarrow> recv_event option) \<Rightarrow> string list \<Rightarrow> (string \<times> string list) res" where
  "flclient1 net endpoints =
     (let endpoints = (if endpoints = [] then [''localhost:5555''] else endpoints)
      in if length endpoints = 1
         then rbind (deque_front endpoints) (\<lambda>endpoint. fl1_retry net endpoint 0 [])
         else fl1_failover net 0 endpoints [])"

definition flserver1_step :: "recv_event list \<Rightarrow> unit \<Rightarrow> (unit ctl \<times> part list list) res" where
  "flserver1_step es s =
     (case es of
        [] \<Rightarrow> Inl Blocked
      | RecvError # _ \<Rightarrow> Inl Exception
      | NoPart _ # _ \<Rightarrow> Inr (Halt s, [])
      | Part d _ # _ \<Rightarrow> Inr (Next s, [[(d, False)]]))"

subsection \<open>What model one answers\<close>

lemma fl1_retry_eq_failover:
  "fl1_retry net ep k reply = fl1_failover net k (replicate (MAX_RETRIES - k) ep) reply"
proof (induction net ep k reply rule: fl1_retry.induct)
  case (1 net ep k reply)
  show ?case
  proof (cases "k < MAX_RETRIES")
    case True
    then have "MAX_RETRIES - k = Suc (MAX_RETRIES - Suc k)" by simp
    with 1 True show ?thesis
      by (auto simp: fl1_retry.simps [of net ep k] intro!: rbind_cong)
  next
    case False
    then show ?thesis by (simp add: fl1_retry.simps)
  qed
qed

text \<open>The endpoints the loops go through, and the answers the network has for them.\<close>

definition fl1_plan :: "string list \<Rightarrow> string list" where
  "fl1_plan endpoints = (case endpoints of
      [] \<Rightarrow> replicate MAX_RETRIES ''localhost:5555''
    | [ep] \<Rightarrow> replicate MAX_RETRIES ep
    | _ \<Rightarrow> endpoints)"

lemma flclient1_plan: "flclient1 net endpoints = fl1_failover net 0 (fl1_plan endpoints) []"
proof -
  consider "endpoints = []" | ep where "endpoints = [ep]" | e f fs where "endpoints = e # f # fs"
    by (metis list.exhaust)
  then show ?thesis
    by cases (simp_all add: flclient1_def fl1_plan_def fl1_retry_eq_failover)
qed

lemma fl1_failover_answers:
  "\<forall>j < length eps. try_reqrep (net (k + j)) = Inr (answers ! j) \<Longrightarrow> length answers = length eps \<Longrightarrow>
    reply = [] \<Longrightarrow>
    fl1_failover net k eps reply =
      (case dropWhile (\<lambda>r. r = []) answers of
         [] \<Rightarrow> Inr ([], eps)
       | r # _ \<Rightarrow> Inr (r, take (Suc (length (takeWhile (\<lambda>r. r = []) answers))) eps))"
proof (induction eps arbitrary: k answers)
  case Nil
  then show ?case by simp
next
  case (Cons ep eps)
  then obtain r rs where ans: "answers = r # rs" by (cases answers) auto
  from Cons.prems(1) ans have r: "try_reqrep (net k) = Inr r" by force
  have tl: "\<forall>j < length eps. try_reqrep (net (Suc k + j)) = Inr (rs ! j)" "length rs = length eps"
    using Cons.prems(1,2) ans by (auto simp: nth_Cons_Suc [symmetric] simp del: nth_Cons_Suc)
  note ih = Cons.IH [OF tl Cons.prems(3)]
  show ?case
  proof (cases "dropWhile (\<lambda>r. r = []) rs")
    case Nil
    with ih r ans Cons.prems(3) show ?thesis
      by (cases "r = []") (auto simp del: dropWhile_eq_Nil_conv)
  next
    case (Cons a as)
    then have "\<not> (\<forall>x \<in> set rs. x = [])"
      using dropWhile_eq_Nil_conv [of "\<lambda>r. r = []" rs] by (simp del: dropWhile_eq_Nil_conv)
    with Cons ih r ans Cons.prems(3) show ?thesis by (cases "r = []") auto
  qed
qed

text \<open>
  The client ends up with the first answer that is not empty, having tried the endpoints up to
  and including the one that gave it, or with the empty string, having tried them all. A single
  endpoint, or the default one, is tried up to three times, several are tried once each.
\<close>

theorem flclient1_answer:
  assumes "\<forall>j < length (fl1_plan endpoints). try_reqrep (net j) = Inr (answers ! j)"
    and "length answers = length (fl1_plan endpoints)"
  shows "flclient1 net endpoints =
      (case dropWhile (\<lambda>r. r = []) answers of
         [] \<Rightarrow> Inr ([], fl1_plan endpoints)
       | r # _ \<Rightarrow> Inr (r, take (Suc (length (takeWhile (\<lambda>r. r = []) answers))) (fl1_plan endpoints)))"
  using fl1_failover_answers [of "fl1_plan endpoints" net 0 answers "[]"] assms by (simp add: flclient1_plan)

theorem flclient1_answer_witness:
  "flclient1 (\<lambda>k. if k = 1 then Some (Part ''Hello World'' False) else None) [''a:1'', ''b:2'', ''c:3''] =
    Inr (''Hello World'', [''a:1'', ''b:2''])"
proof -
  let ?net = "\<lambda>k. if k = (1::nat) then Some (Part ''Hello World'' False) else None"
  have "\<forall>j < length (fl1_plan [''a:1'', ''b:2'', ''c:3'']). try_reqrep (?net j) = Inr ([[], ''Hello World'', []] ! j)"
    and "length [[], ''Hello World'', []] = length (fl1_plan [''a:1'', ''b:2'', ''c:3''])"
    by (auto simp: fl1_plan_def less_Suc_eq)
  from flclient1_answer [OF this] show ?thesis by (simp add: fl1_plan_def)
qed

subsection \<open>Model two: the client\<close>

definition FL2_TIMEOUT :: time where
  "FL2_TIMEOUT = msecs 2500"

definition FL2_REQUESTS :: int where
  "FL2_REQUESTS = 10000"

record flclient2 =
  fc2_servers :: nat
  fc2_sequence :: "32 word"

definition flclient2_init :: flclient2 where
  "flclient2_init = \<lparr>fc2_servers = 0, fc2_sequence = 0\<rparr>"

definition flclient2_connect :: "flclient2 \<Rightarrow> flclient2" where
  "flclient2_connect c = c\<lparr>fc2_servers := fc2_servers c + 1\<rparr>"

text \<open>What is sent for a request: one copy for each server.\<close>

definition flclient2_blast :: "string \<Rightarrow> flclient2 \<Rightarrow> (flclient2 \<times> part list list) res" where
  "flclient2_blast request c =
     (let sequence = fc2_sequence c + 1;
          frames = [[], unsigned_string sequence]
      in rbind (flclient2_send_frames frames) (\<lambda>ps.
           Inr (c\<lparr>fc2_sequence := sequence\<rparr>, replicate (fc2_servers c) ps)))"

definition fl2_remaining_ms :: "time \<Rightarrow> time \<Rightarrow> int" where
  "fl2_remaining_ms end_time now =
     (let remaining = end_time - now in if remaining < 0 then 0 else trunc_div remaining (msecs 1))"

text \<open>
  The wait for a reply: each round sees what the poll reports and the clock at the end of the loop
  body. \<open>stoi\<close> throws on a text that is not a number or is too large.
\<close>

fun fl2_wait :: "time \<Rightarrow> 32 word \<Rightarrow> (recv_event list option \<times> time) list \<Rightarrow> msg \<Rightarrow> msg res" where
  "fl2_wait end_time sequence [] reply = Inl Blocked"
| "fl2_wait end_time sequence ((poll, now) # rounds) reply =
     (case poll of
        Some es \<Rightarrow>
          rbind (flclient2_recv_frames es) (\<lambda>(reply, _).
            rbind (assert_that (length reply = 3)) (\<lambda>_.
              rbind (deque_pop_front reply) (\<lambda>reply.
                rbind (deque_front reply) (\<lambda>f.
                  rbind (stoi f) (\<lambda>seq_no.
                    if word_of_int seq_no = sequence then Inr reply
                    else if now < end_time then fl2_wait end_time sequence rounds reply
                    else Inr reply)))))
      | None \<Rightarrow> if now < end_time then fl2_wait end_time sequence rounds reply else Inr reply)"

text \<open>One round of it: whether the wait is over, and the reply so far.\<close>

definition fl2_round :: "time \<Rightarrow> 32 word \<Rightarrow> recv_event list option \<Rightarrow> time \<Rightarrow> msg \<Rightarrow> (bool \<times> msg) res" where
  "fl2_round end_time sequence poll now reply =
     (case poll of
        Some es \<Rightarrow>
          rbind (flclient2_recv_frames es) (\<lambda>(reply, _).
            rbind (assert_that (length reply = 3)) (\<lambda>_.
              rbind (deque_pop_front reply) (\<lambda>reply.
                rbind (deque_front reply) (\<lambda>f.
                  rbind (stoi f) (\<lambda>seq_no. Inr (word_of_int seq_no = sequence \<or> \<not> now < end_time, reply))))))
      | None \<Rightarrow> Inr (\<not> now < end_time, reply))"

lemma fl2_wait_rounds:
  "fl2_wait T w ((poll, now) # rounds) reply =
     rbind (fl2_round T w poll now reply) (\<lambda>(over, reply). if over then Inr reply else fl2_wait T w rounds reply)"
proof (cases poll)
  case None
  then show ?thesis by (simp add: fl2_round_def)
next
  case (Some es)
  show ?thesis
  proof (cases "flclient2_recv_frames es")
    case (Inr x)
    obtain r q where x: "x = (r, q)" by fastforce
    show ?thesis
    proof (cases "length r = 3")
      case True
      then obtain d f b where "r = [d, f, b]" by (auto simp: length_Suc_conv numeral_3_eq_3)
      with Some Inr x show ?thesis by (cases "stoi f") (simp_all add: fl2_round_def)
    qed (simp add: Some Inr x fl2_round_def)
  qed (simp add: Some fl2_round_def)
qed

text \<open>The loop of the program over the results of its requests, and the averages it prints.\<close>

fun flclient2_loop :: "int \<Rightarrow> msg list \<Rightarrow> int option" where
  "flclient2_loop requests replies =
     (if requests = 0 then Some requests
      else case replies of
        [] \<Rightarrow> None
      | reply # replies \<Rightarrow>
          if reply = [] then Some requests else flclient2_loop (requests - 1) replies)"

definition flclient2_average :: "int \<Rightarrow> int \<Rightarrow> (int \<times> int) res" where
  "flclient2_average elapsed requests =
     (let received_count = FL2_REQUESTS - requests
      in if received_count = 0 then Inl Undefined
         else Inr (trunc_div (trunc_div elapsed (msecs 1)) received_count,
                   trunc_div (elapsed * 100) received_count))"

subsection \<open>Model two: the server\<close>

definition flserver2_step :: "recv_event list \<Rightarrow> unit \<Rightarrow> (unit ctl \<times> part list list) res" where
  "flserver2_step es s =
     rbind (flserver2_recv_frames es) (\<lambda>(request, _).
       if request = [] then Inr (Halt s, [])
       else rbind (assert_that (length request = 1)) (\<lambda>_.
              rbind (deque_front request) (\<lambda>f.
                rbind (flserver2_send_frames [f, ''OK'']) (\<lambda>ps. Inr (Next s, [ps])))))"

subsection \<open>What model two sends and accepts\<close>

lemma stoi_unsigned: "unat v < 2 ^ 31 \<Longrightarrow> stoi (unsigned_string v) = Inr (uint v)"
  using stoi_nat_string [of "unat v"] by (simp add: unsigned_string_def)

lemma stoi_unsigned_overflow: "2 ^ 31 \<le> unat v \<Longrightarrow> stoi (unsigned_string v) = Inl Exception"
  using stoi_nat_string_overflow [of "unat v"] by (simp add: unsigned_string_def)

lemma fl2_wait_message:
  assumes "unat v < 2 ^ 31"
  shows "fl2_wait T w ((Some (arrives [d, unsigned_string v, body]), now) # rounds) reply =
    (if v = w then Inr [unsigned_string v, body]
     else if now < T then fl2_wait T w rounds [unsigned_string v, body]
     else Inr [unsigned_string v, body])"
  by (simp add: stoi_unsigned [OF assms])

text \<open>
  What the client makes of the replies that arrive before the time is up, all of them answers to
  earlier requests: it drops each and goes on waiting, but at the end of its time it returns the last
  one of them as if it were the answer; only when nothing at all has come is the result empty.
\<close>

theorem fl2_returns_stale_reply:
  assumes "\<forall>v \<in> set vs. unat v < 2 ^ 31 \<and> v \<noteq> w" and "now < T" and "T \<le> late"
  shows "fl2_wait T w (map (\<lambda>v. (Some (arrives [[], unsigned_string v, ''OK'']), now)) vs @ [(None, late)]) reply =
    Inr (if vs = [] then reply else [unsigned_string (last vs), ''OK''])"
  using assms(1)
proof (induction vs arbitrary: reply)
  case Nil
  then show ?case using assms by simp
next
  case (Cons v vs)
  then have v: "unat v < 2 ^ 31" "v \<noteq> w" by simp_all
  have "fl2_wait T w (map (\<lambda>v. (Some (arrives [[], unsigned_string v, ''OK'']), now)) (v # vs) @ [(None, late)]) reply =
    fl2_wait T w (map (\<lambda>v. (Some (arrives [[], unsigned_string v, ''OK'']), now)) vs @ [(None, late)])
      [unsigned_string v, ''OK'']"
    using fl2_wait_message [OF v(1), of T w "[]" "''OK''" now _ reply] v(2) assms(2)
    by (simp del: fl2_wait.simps)
  with Cons show ?case by (simp del: fl2_wait.simps)
qed

theorem fl2_returns_stale_reply_witness:
  "fl2_wait (msecs 2500) 2 [(Some (arrives [[], unsigned_string 1, ''OK'']), 0), (None, msecs 2500)] [] =
    Inr [unsigned_string 1, ''OK'']"
  using fl2_returns_stale_reply [of "[1]" 2 0 "msecs 2500" "msecs 2500" "[]"] by (simp add: msecs_def)

text \<open>
  C39: the round of a request, with a server behind a REP socket. Every server is sent a copy of the
  same message, which is the sequence number alone, whatever the text of the request; the server
  answers with the number and OK; and the client takes this answer, unless the number has reached
  2^31, where the conversion throws.
\<close>

theorem fl2_round_trip:
  assumes Z: "zmq_contract Z"
  shows "\<exists>ps qs. let seq_no = unsigned_string (fc2_sequence c + 1) in
      flclient2_blast request c = Inr (c\<lparr>fc2_sequence := fc2_sequence c + 1\<rparr>, replicate (fc2_servers c) ps)
    \<and> map fst ps = [[], seq_no]
    \<and> flserver2_step (arrives (rep_in Z (map fst ps))) () = Inr (Next (), [qs])
    \<and> rep_out Z (map fst qs) = [[], seq_no, ''OK'']
    \<and> fl2_wait T (fc2_sequence c + 1) ((Some (arrives (rep_out Z (map fst qs))), now) # rounds) []
        = (if unat (fc2_sequence c + 1) < 2 ^ 31 then Inr [seq_no, ''OK''] else Inl Exception)"
proof -
  let ?w = "fc2_sequence c + 1"
  have blast: "flclient2_blast request c =
      Inr (c\<lparr>fc2_sequence := ?w\<rparr>, replicate (fc2_servers c) (parts_of [[], unsigned_string ?w]))"
    by (simp add: flclient2_blast_def Let_def del: parts_of.simps)
  have server: "flserver2_step (arrives [unsigned_string ?w]) () = Inr (Next (), [parts_of [unsigned_string ?w, ''OK'']])"
    by (simp add: flserver2_step_def del: parts_of.simps)
  have client: "fl2_wait T ?w ((Some (arrives [[], unsigned_string ?w, ''OK'']), now) # rounds) [] =
      (if unat ?w < 2 ^ 31 then Inr [unsigned_string ?w, ''OK''] else Inl Exception)"
  proof (cases "unat ?w < 2 ^ 31")
    case True
    then show ?thesis using fl2_wait_message [OF True] by simp
  next
    case False
    then show ?thesis using stoi_unsigned_overflow [of ?w] by simp
  qed
  show ?thesis unfolding Let_def
    by (rule exI [of _ "parts_of [[], unsigned_string ?w]"], rule exI [of _ "parts_of [unsigned_string ?w, ''OK'']"])
      (simp only: blast map_fst_parts_of zmq_contractD [OF Z] server client simp_thms)
qed

theorem fl2_round_trip_witness:
  "\<exists>ps. flclient2_blast ''random name'' \<lparr>fc2_servers = 2, fc2_sequence = 0\<rparr> =
      Inr (\<lparr>fc2_servers = 2, fc2_sequence = 1\<rparr>, [ps, ps]) \<and> map fst ps = [[], unsigned_string 1]"
  using fl2_round_trip [OF zmq_std_contract, of "\<lparr>fc2_servers = 2, fc2_sequence = 0\<rparr>" "''random name''" 0 0 "[]"]
  by (auto simp: Let_def numeral_2_eq_2 simp del: fl2_wait.simps)

end
