(* ===== verification/LastValue.thy ===== *)
theory LastValue
  imports Brokers Numerals "HOL-Library.Sublist"
begin

text \<open>
  The last value cache and its pathological publisher and subscriber (\<open>last-value-caching\<close>).
  The lemmas: the cache holds the last value of every topic, what a new subscriber gets, for which
  topics the buffer of the subscription event is large enough, and why the subscriber sees topics it
  did not ask for.
\<close>

subsection \<open>The cache\<close>

type_synonym lv_cache = "string \<Rightarrow> string option"

definition lvc_update :: "recv_event list \<Rightarrow> lv_cache \<Rightarrow> (lv_cache \<times> part list list) res" where
  "lvc_update es cache =
     rbind (recv_part es) (\<lambda>(topic, es).
       rbind (recv_part es) (\<lambda>(data, es).
         Inr (cache(topic \<mapsto> data), [[(topic, True), (data, False)]])))"

text \<open>
  A subscription event is copied into a zeroed buffer of eight bytes; the topic is the C string from
  the second byte on. A larger event, and a topic without a terminating zero, are undefined.
\<close>

definition lvc_event :: "frame \<Rightarrow> lv_cache \<Rightarrow> part list list res" where
  "lvc_event frame cache =
     (if length frame > 8 then Inl Undefined
      else let sub_data = frame @ replicate (8 - length frame) NUL
           in if sub_data ! 0 = NUL then Inr []
              else if NUL \<notin> set (tl sub_data) then Inl Undefined
              else let cached_topic = c_str (tl sub_data)
                   in (case cache cached_topic of
                         None \<Rightarrow> Inr []
                       | Some data \<Rightarrow> Inr [[(cached_topic, True), (data, False)]]))"

record lvc_in =
  lvc_rc :: int
  lvc_fe :: "recv_event list option"
  lvc_be :: "recv_event option"

definition lvc_step :: "lvc_in \<Rightarrow> lv_cache \<Rightarrow> (lv_cache ctl \<times> part list list) res" where
  "lvc_step i cache =
     (if lvc_rc i = -1 then Inr (Halt cache, [])
      else rbind (case lvc_fe i of None \<Rightarrow> Inr (cache, []) | Some es \<Rightarrow> lvc_update es cache) (\<lambda>(cache, o1).
             case lvc_be i of
               None \<Rightarrow> Inr (Next cache, o1)
             | Some RecvError \<Rightarrow> Inl Exception
             | Some (NoPart _) \<Rightarrow> Inr (Halt cache, o1)
             | Some (Part frame _) \<Rightarrow> rbind (lvc_event frame cache) (\<lambda>o2. Inr (Next cache, o1 @ o2))))"

subsection \<open>Publisher and subscriber\<close>

text \<open>Publishing one topic: each of the two sends may fail, and nothing is sent after a failure.\<close>

definition pathopub_publish :: "bool \<Rightarrow> bool \<Rightarrow> nat \<Rightarrow> string \<Rightarrow> bool \<times> part list" where
  "pathopub_publish ok1 ok2 topic_nbr data =
     (if \<not> ok1 then (False, [])
      else if \<not> ok2 then (False, [(nat_string topic_nbr, True)])
      else (True, [(nat_string topic_nbr, True), (data, False)]))"

fun pathopub_burst :: "(nat \<Rightarrow> bool \<times> bool) \<Rightarrow> nat list \<Rightarrow> bool \<times> part list list" where
  "pathopub_burst ok [] = (True, [])"
| "pathopub_burst ok (n # ns) =
     (let (res, ps) = pathopub_publish (fst (ok n)) (snd (ok n)) n ''Save Roger!''
      in if \<not> res then (False, [ps])
         else let (res, pss) = pathopub_burst ok ns in (res, ps # pss))"

definition pathopub_start :: "(nat \<Rightarrow> bool \<times> bool) \<Rightarrow> bool \<times> part list list" where
  "pathopub_start ok = pathopub_burst ok [1..<1001]"

text \<open>After the burst, one random topic at a time, from the draw and the results of its two sends.\<close>

definition pathopub_random_step :: "nat \<times> bool \<times> bool \<Rightarrow> unit \<Rightarrow> (unit ctl \<times> part list list) res" where
  "pathopub_random_step i s =
     (let (draw, ok1, ok2) = i; (res, ps) = pathopub_publish ok1 ok2 draw ''Off with his head!''
      in Inr (if res then Next s else Halt s, [ps]))"

definition pathopub_main :: "(nat \<Rightarrow> bool \<times> bool) \<Rightarrow> (nat \<times> bool \<times> bool) list \<Rightarrow> (unit ctl \<times> part list list) res" where
  "pathopub_main ok is =
     (let (res, pss) = pathopub_start ok
      in if \<not> res then Inr (Halt (), pss)
         else rbind (run pathopub_random_step () is) (\<lambda>(c, os). Inr (c, pss @ os)))"

definition pathosub_topic :: "nat \<Rightarrow> string" where
  "pathosub_topic n = nat_string n"

text \<open>One update at the subscriber: it stops when the topic is not its own; it prints the data.\<close>

definition pathosub_step :: "string \<Rightarrow> recv_event \<times> recv_event \<Rightarrow> unit \<Rightarrow> (unit ctl \<times> string list) res" where
  "pathosub_step sub_topic i s =
     (case fst i of
        RecvError \<Rightarrow> Inl Exception
      | NoPart _ \<Rightarrow> Inr (Halt s, [])
      | Part topic _ \<Rightarrow>
          (case snd i of
             RecvError \<Rightarrow> Inl Exception
           | NoPart _ \<Rightarrow> Inr (Halt s, [])
           | Part data _ \<Rightarrow> if topic \<noteq> sub_topic then Inr (Halt s, []) else Inr (Next s, [data])))"

subsection \<open>What the cache holds\<close>

text \<open>The updates among the inputs of a run, in order, and the table of their last values.\<close>

definition lvc_updates :: "lvc_in \<Rightarrow> (string \<times> string) list" where
  "lvc_updates i =
     (if lvc_rc i = -1 then []
      else case lvc_fe i of
        None \<Rightarrow> []
      | Some es \<Rightarrow>
          (case recv_part es of
             Inl _ \<Rightarrow> []
           | Inr (topic, es) \<Rightarrow> (case recv_part es of Inl _ \<Rightarrow> [] | Inr (data, _) \<Rightarrow> [(topic, data)])))"

definition last_values :: "(string \<times> string) list \<Rightarrow> lv_cache" where
  "last_values us = map_of (rev us)"

lemma last_values_snoc: "last_values (us @ [(t, d)]) = (last_values us)(t \<mapsto> d)"
  by (auto simp: last_values_def)

lemma lvc_step_cache:
  assumes "lvc_step i (last_values us) = Inr (c, os)"
  shows "ctl_state c = last_values (us @ lvc_updates i)"
proof (cases "lvc_rc i = -1")
  case True
  with assms show ?thesis by (auto simp: lvc_step_def lvc_updates_def)
next
  case False
  let ?u = "case lvc_fe i of None \<Rightarrow> Inr (last_values us, []) | Some es \<Rightarrow> lvc_update es (last_values us)"
  from assms False obtain cache o1 where u: "?u = Inr (cache, o1)" by (auto simp: lvc_step_def)
  have "cache = last_values (us @ lvc_updates i)"
    using u False by (auto simp: lvc_update_def lvc_updates_def last_values_snoc split: option.splits)
  moreover have "ctl_state c = cache"
    using assms False u by (auto simp: lvc_step_def split: option.splits recv_event.splits)
  ultimately show ?thesis by simp
qed

lemma lvc_run_cache:
  "run lvc_step (last_values us) is = Inr (c, os) \<Longrightarrow>
    \<exists>k \<le> length is. ctl_state c = last_values (us @ concat (map lvc_updates (take k is)))
      \<and> (\<forall>s. c = Next s \<longrightarrow> k = length is)"
proof (induction "is" arbitrary: us c os)
  case Nil
  then show ?case by auto
next
  case (Cons i "is")
  from Cons.prems obtain d ps where st: "lvc_step i (last_values us) = Inr (d, ps)"
    by (auto split: sum.splits)
  note law = lvc_step_cache [OF st]
  show ?case
  proof (cases d)
    case (Next s1)
    with Cons.prems st law obtain qs where "run lvc_step (last_values (us @ lvc_updates i)) is = Inr (c, qs)"
      by (auto split: sum.splits)
    from Cons.IH [OF this] obtain k where "k \<le> length is"
      "ctl_state c = last_values (us @ lvc_updates i @ concat (map lvc_updates (take k is)))"
      "\<forall>s. c = Next s \<longrightarrow> k = length is" by auto
    then show ?thesis by (intro exI [of _ "Suc k"]) simp
  next
    case (Halt s1)
    with Cons.prems st law show ?thesis by (intro exI [of _ 1]) auto
  qed
qed

lemma lvc_event_subscribe:
  assumes "b \<noteq> NUL" and "NUL \<notin> set t"
  shows "lvc_event (b # t) cache =
    (if length t > 6 then Inl Undefined
     else case cache t of None \<Rightarrow> Inr [] | Some data \<Rightarrow> Inr [[(t, True), (data, False)]])"
proof (cases "length t > 6")
  case True
  with assms show ?thesis
    by (cases "length t = 7") (auto simp: lvc_event_def Let_def)
next
  case False
  then have "replicate (8 - length (b # t)) NUL = NUL # replicate (6 - length t) NUL"
    by (cases "7 - length t") (auto simp: Suc_diff_le)
  with assms False show ?thesis
    by (simp add: lvc_event_def Let_def c_str_terminated)
qed

text \<open>
  C40: after any history of updates, a new subscriber to a topic of at most six characters is sent
  the last value published under it, or nothing when there is none; for a longer topic the copy of
  the event overruns its buffer, or its text is not terminated.
\<close>

theorem lvc_last_value:
  assumes "run lvc_step Map.empty is = Inr (Next cache, os)" and "b \<noteq> NUL" and "NUL \<notin> set t"
  shows "lvc_event (b # t) cache =
    (if length t > 6 then Inl Undefined
     else case map_of (rev (concat (map lvc_updates is))) t of
            None \<Rightarrow> Inr []
          | Some data \<Rightarrow> Inr [[(t, True), (data, False)]])"
proof -
  have "run lvc_step (last_values []) is = Inr (Next cache, os)"
    using assms(1) by (simp add: last_values_def)
  from lvc_run_cache [OF this] have "cache = map_of (rev (concat (map lvc_updates is)))"
    by (auto simp: last_values_def)
  with lvc_event_subscribe [OF assms(2,3), of cache] show ?thesis by simp
qed

theorem lvc_last_value_witness:
  "\<exists>cache. lvc_event (CHR 0x01 # ''42'') cache = Inr [[(''42'', True), (''b'', False)]] \<and>
      cache = [''42'' \<mapsto> ''a'', ''42'' \<mapsto> ''b'']"
proof -
  let ?i = "\<lambda>d. \<lparr>lvc_rc = 1, lvc_fe = Some (arrives [''42'', d]), lvc_be = None\<rparr>"
  have "\<exists>os. run lvc_step Map.empty [?i ''a'', ?i ''b''] = Inr (Next [''42'' \<mapsto> ''a'', ''42'' \<mapsto> ''b''], os)"
    by (simp add: lvc_step_def lvc_update_def)
  then obtain os where r: "run lvc_step Map.empty [?i ''a'', ?i ''b''] = Inr (Next [''42'' \<mapsto> ''a'', ''42'' \<mapsto> ''b''], os)"
    by blast
  have "CHR 0x01 \<noteq> NUL" "NUL \<notin> set ''42''" by (simp_all add: NUL_def)
  from lvc_last_value [OF r this] show ?thesis by (simp add: lvc_updates_def)
qed

subsection \<open>Topics the subscriber did not ask for\<close>

lemma read_digits_ge: "\<forall>c \<in> set ys. is_digit c \<Longrightarrow> acc * 10 ^ length ys \<le> fst (read_digits acc ys)"
proof (induction ys arbitrary: acc)
  case Nil
  then show ?case by simp
next
  case (Cons y ys)
  then have "(10 * acc + digit_val y) * 10 ^ length ys \<le> fst (read_digits acc (y # ys))" by simp
  moreover have "acc * 10 ^ length (y # ys) \<le> (10 * acc + digit_val y) * 10 ^ length ys" by simp
  ultimately show ?case by linarith
qed

lemma nat_string_prefix_ge:
  assumes "prefix (nat_string n) (nat_string m)" and "m \<noteq> n"
  shows "10 * n \<le> m"
proof -
  obtain ys where ys: "nat_string m = nat_string n @ ys" using assms(1) by (auto simp: prefix_def)
  with assms(2) have "ys \<noteq> []" using nat_string_inj by auto
  then have len: "(10::nat) ^ 1 \<le> 10 ^ length ys" by (intro power_increasing) (cases ys; simp)+
  have digits: "\<forall>c \<in> set (nat_string k). is_digit c" for k using nat_string_digits by fastforce
  with ys have "\<forall>c \<in> set ys. is_digit c" by (metis Un_iff set_append)
  from read_digits_ge [OF this, of n] have "n * 10 ^ length ys \<le> fst (read_digits n ys)" .
  also have "fst (read_digits n ys) = fst (read_digits 0 (nat_string m))"
    using digits [of n] by (simp add: ys read_digits_append fst_read_digits_nat_string)
  also have "\<dots> = m" by (simp add: fst_read_digits_nat_string)
  finally have "n * 10 ^ length ys \<le> m" .
  moreover have "n * 10 \<le> n * 10 ^ length ys" using len by (intro mult_le_mono2) simp
  ultimately show ?thesis by linarith
qed

lemma nat_string_times_ten: "0 < n \<Longrightarrow> nat_string (10 * n) = nat_string n @ [digit_char 0]"
  by (subst nat_string.simps) simp

lemma pathopub_burst_ok:
  "pathopub_burst (\<lambda>_. (True, True)) ns = (True, map (\<lambda>n. [(nat_string n, True), (''Save Roger!'', False)]) ns)"
  by (induction ns) (simp_all add: pathopub_publish_def)

lemma pathopub_main_ok:
  "pathopub_main (\<lambda>_. (True, True)) (map (\<lambda>d. (d, True, True)) draws) = Inr (Next (),
    map (\<lambda>n. [(nat_string n, True), (''Save Roger!'', False)]) [1..<1001]
    @ map (\<lambda>n. [(nat_string n, True), (''Off with his head!'', False)]) draws)"
proof -
  have "run pathopub_random_step () (map (\<lambda>d. (d, True, True)) draws) =
      Inr (Next (), map (\<lambda>n. [(nat_string n, True), (''Off with his head!'', False)]) draws)"
    by (induction draws) (simp_all add: pathopub_random_step_def pathopub_publish_def)
  then show ?thesis by (simp add: pathopub_main_def pathopub_start_def pathopub_burst_ok del: upt_rec_numeral)
qed

text \<open>The published messages that a subscription lets through, as its socket reads them.\<close>

definition let_through :: "(string \<Rightarrow> string \<Rightarrow> bool) \<Rightarrow> string \<Rightarrow> part list list \<Rightarrow> (recv_event \<times> recv_event) list" where
  "let_through delivers sub_topic pss =
     map (\<lambda>ps. (Part (fst (ps ! 0)) True, Part (fst (ps ! 1)) False)) (filter (\<lambda>ps. delivers sub_topic (fst (ps ! 0))) pss)"

lemma let_through_topics:
  "let_through delivers t (map (\<lambda>n. [(nat_string n, True), (data, False)]) ns) =
    map (\<lambda>n. (Part (nat_string n) True, Part data False)) (filter (\<lambda>n. delivers t (nat_string n)) ns)"
  by (simp add: let_through_def filter_map o_def)

lemma let_through_append: "let_through delivers t (xs @ ys) = let_through delivers t xs @ let_through delivers t ys"
  by (simp add: let_through_def)

lemma pathosub_own: "run (pathosub_step t) () (map (\<lambda>n. (Part t True, Part data False)) ns) = Inr (Next (), map (\<lambda>_. data) ns)"
  by (induction ns) (simp_all add: pathosub_step_def)

lemma pathosub_own_run:
  "run (pathosub_step t) () ((Part t True, Part data False) # is) =
    rbind (run (pathosub_step t) () is) (\<lambda>(c, os). Inr (c, data # os))"
  by (cases "run (pathosub_step t) () is") (auto simp: pathosub_step_def)

lemma pathosub_foreign: "t' \<noteq> t \<Longrightarrow> run (pathosub_step t) () ((Part t' True, Part data False) # is) = Inr (Halt (), [])"
  by (simp add: pathosub_step_def)

text \<open>Up to a thousand, the topics that start with a given one are that one and, up to 100, larger ones.\<close>

lemma topics_from_101:
  assumes "100 < n" and "\<forall>m \<in> set ms. m \<le> 1000"
  shows "filter (\<lambda>m. prefix (nat_string n) (nat_string m)) ms = filter ((=) n) ms"
proof (rule filter_cong [OF refl])
  fix m
  assume "m \<in> set ms"
  then have "m < 10 * n" using assms by fastforce
  then show "prefix (nat_string n) (nat_string m) \<longleftrightarrow> n = m" using nat_string_prefix_ge [of n m] by auto
qed

lemma topics_to_100:
  assumes "1 \<le> n" and "n \<le> 100"
  shows "\<exists>m ms. m \<noteq> n \<and> filter (\<lambda>m. prefix (nat_string n) (nat_string m)) [1..<1001] = n # m # ms"
proof -
  let ?P = "\<lambda>m. prefix (nat_string n) (nat_string m)"
  have parts: "[1..<1001] = [1..<n] @ n # [Suc n..<1001]"
    using assms upt_add_eq_append [of 1 n "1001 - n"] upt_conv_Cons [of n 1001] by (simp del: upt_rec_numeral)
  have "filter ?P [1..<n] = []"
  proof (rule filter_False, rule ballI)
    fix m
    assume "m \<in> set [1..<n]"
    then show "\<not> ?P m" using nat_string_prefix_ge [of n m] by auto
  qed
  moreover have "10 * n \<in> set (filter ?P [Suc n..<1001])"
    using assms nat_string_times_ten [of n] by (auto simp del: upt_rec_numeral)
  then obtain m ms where ms: "filter ?P [Suc n..<1001] = m # ms" by (cases "filter ?P [Suc n..<1001]") auto
  moreover have "m \<in> set (filter ?P [Suc n..<1001])" by (simp only: ms) simp
  then have "m \<noteq> n" by auto
  ultimately show ?thesis unfolding parts by (simp del: upt_rec_numeral)
qed

text \<open>
  The publisher's thousand topics are numbers in text, and a subscription is delivered every topic
  that starts with it (what the socket library documents). So a subscriber to one of the topics 1 to
  100 prints the first text of its topic and stops at the next message, which is not of its topic; a
  subscriber to a topic from 101 on goes on for ever, and prints one text for the burst and one for
  each time its topic was drawn.
\<close>

theorem pathosub_stops:
  assumes "\<And>sub topic. delivers sub topic \<longleftrightarrow> prefix sub topic" and "1 \<le> n" and "n \<le> 1000"
    and draws: "\<forall>d \<in> set draws. 1 \<le> d \<and> d \<le> 1000"
  shows "\<exists>pss. pathopub_main (\<lambda>_. (True, True)) (map (\<lambda>d. (d, True, True)) draws) = Inr (Next (), pss)
    \<and> run (pathosub_step (pathosub_topic n)) () (let_through delivers (pathosub_topic n) pss) =
        (if n \<le> 100 then Inr (Halt (), [''Save Roger!''])
         else Inr (Next (), ''Save Roger!'' # replicate (count_list draws n) ''Off with his head!''))"
proof -
  let ?pss = "map (\<lambda>n. [(nat_string n, True), (''Save Roger!'', False)]) [1..<1001]
    @ map (\<lambda>n. [(nat_string n, True), (''Off with his head!'', False)]) draws"
  let ?in = "\<lambda>data. map (\<lambda>m. (Part (nat_string m) True, Part data False))"
  have deliv: "delivers = prefix" using assms(1) by blast
  have thr: "let_through delivers (pathosub_topic n) ?pss =
      ?in ''Save Roger!'' (filter (\<lambda>m. prefix (nat_string n) (nat_string m)) [1..<1001])
      @ ?in ''Off with his head!'' (filter (\<lambda>m. prefix (nat_string n) (nat_string m)) draws)"
    by (simp only: let_through_append let_through_topics pathosub_topic_def deliv)
  have "run (pathosub_step (pathosub_topic n)) () (let_through delivers (pathosub_topic n) ?pss) =
      (if n \<le> 100 then Inr (Halt (), [''Save Roger!''])
       else Inr (Next (), ''Save Roger!'' # replicate (count_list draws n) ''Off with his head!''))"
  proof (cases "n \<le> 100")
    case True
    with topics_to_100 [OF assms(2)] obtain m ms where
      m: "m \<noteq> n" "filter (\<lambda>m. prefix (nat_string n) (nat_string m)) [1..<1001] = n # m # ms" by blast
    from m(1) have "nat_string m \<noteq> nat_string n" using nat_string_inj by blast
    then show ?thesis
      unfolding thr m(2) using True by (simp add: pathosub_topic_def pathosub_own_run pathosub_foreign del: run.simps)
  next
    case False
    have "filter ((=) n) [1..<1001] = [n]"
      using assms(2,3) upt_add_eq_append [of 1 n "1001 - n"] upt_conv_Cons [of n 1001] by (simp del: upt_rec_numeral)
    moreover have "filter ((=) n) draws = replicate (count_list draws n) n" by (induction draws) auto
    ultimately have "let_through delivers (pathosub_topic n) ?pss =
        (Part (nat_string n) True, Part ''Save Roger!'' False) # ?in ''Off with his head!'' (replicate (count_list draws n) n)"
      unfolding thr using False draws by (simp add: topics_from_101 del: upt_rec_numeral map_replicate upt_Suc)
    moreover have "?in ''Off with his head!'' (replicate k n) = map (\<lambda>_. (Part (nat_string n) True, Part ''Off with his head!'' False)) (replicate k n)"
      for k by simp
    ultimately show ?thesis
      using False by (simp add: pathosub_own_run pathosub_topic_def del: run.simps map_replicate)
        (simp only: pathosub_own, simp)
  qed
  with pathopub_main_ok show ?thesis by blast
qed

theorem pathosub_stops_witness:
  "\<exists>pss. pathopub_main (\<lambda>_. (True, True)) [(107, True, True), (700, True, True)] = Inr (Next (), pss)
    \<and> run (pathosub_step (pathosub_topic 107)) () (let_through prefix (pathosub_topic 107) pss) =
        Inr (Next (), [''Save Roger!'', ''Off with his head!''])"
  using pathosub_stops [of prefix 107 "[107, 700]"] by simp

end
