(* ===== verification/RTBrokers.thy ===== *)
theory RTBrokers
  imports Brokers Numerals
begin

text \<open>
  The two demonstrations of a ROUTER broker that hands out work on demand for five seconds and then
  dismisses its workers (\<open>router-broker-and-dealer-workers/rtdealer.cpp\<close>,
  \<open>router-broker-and-req-workers/rtreq.cpp\<close>). They differ in the texts and in the sockets of
  the workers. The lemmas: how many workers are dismissed when the broker stops, that each message is
  answered to its sender, and that a worker stops exactly when it is dismissed.
\<close>

definition total_workers :: "32 word" where
  "total_workers = 10"

text \<open>
  The condition of the loop is tested before the first message and after every message; a broker
  with work to do starts with no worker fired.
\<close>

definition rtd_broker_step :: "time \<Rightarrow> recv_event list \<times> time \<Rightarrow> 32 word \<Rightarrow> (32 word ctl \<times> part list list) res" where
  "rtd_broker_step end_time i workers_fired =
     (let (es, now) = i
      in rbind (recv_part es) (\<lambda>(ident, es).
           rbind (recv_part es) (\<lambda>(delim, es).
             rbind (recv_part es) (\<lambda>(reply, es).
               let (reply, workers_fired) =
                     (if now < end_time then (''Work harder'', workers_fired) else (''Fired!'', workers_fired + 1));
                   os = [[(ident, True), ([], True), (reply, False)]]
               in if workers_fired < total_workers then Inr (Next workers_fired, os)
                  else Inr (Halt workers_fired, os)))))"

definition rtr_broker_step :: "time \<Rightarrow> recv_event list \<times> time \<Rightarrow> 32 word \<Rightarrow> (32 word ctl \<times> part list list) res" where
  "rtr_broker_step end_time i workers_fired =
     (let (es, now) = i
      in rbind (recv_part es) (\<lambda>(key, es).
           rbind (recv_part es) (\<lambda>(delim, es).
             rbind (recv_part es) (\<lambda>(reply, es).
               let (reply, workers_fired) =
                     (if now < end_time then (''Work harder!'', workers_fired)
                      else (''You'' @ [CHR 0x27] @ ''re fired!'', workers_fired + 1));
                   os = [[(key, True), ([], True), (reply, False)]]
               in if workers_fired < total_workers then Inr (Next workers_fired, os)
                  else Inr (Halt workers_fired, os)))))"

text \<open>
  One round of a worker: it reports, takes its orders, and works for a random number of milliseconds
  unless it is dismissed.
\<close>

datatype rt_act = RtSend "part list" | RtSleep int

definition rtd_worker_step :: "recv_event list \<times> int \<Rightarrow> 32 word \<Rightarrow> (32 word ctl \<times> rt_act list) res" where
  "rtd_worker_step i total_done =
     (let (es, draw) = i; os = [RtSend [([], True), (''Hi Boss'', False)]]
      in rbind (recv_part es) (\<lambda>(delim, es).
           rbind (recv_part es) (\<lambda>(workload, es).
             if workload = ''Fired!'' then Inr (Halt total_done, os)
             else Inr (Next (total_done + 1), os @ [RtSleep draw]))))"

definition rtr_worker_step :: "recv_event list \<times> int \<Rightarrow> 32 word \<Rightarrow> (32 word ctl \<times> rt_act list) res" where
  "rtr_worker_step i task_count =
     (let (es, draw) = i; os = [RtSend [(''Hi Boss'', False)]]
      in rbind (recv_part es) (\<lambda>(rep_str, es).
           if rep_str = ''You'' @ [CHR 0x27] @ ''re fired!'' then Inr (Halt task_count, os)
           else Inr (Next (task_count + 1), os @ [RtSleep draw])))"

subsection \<open>One contract for both brokers\<close>

text \<open>How many of the messages sent dismiss a worker, with the given words.\<close>

definition dismissals :: "string \<Rightarrow> part list list \<Rightarrow> nat" where
  "dismissals words os = length (filter (\<lambda>ps. map fst ps = [fst (ps ! 0), [], words]) os)"

text \<open>
  A dismissing broker answers each message it gets to the sender, and stops when it has dismissed ten
  workers; \<open>dismissal\<close> is the text that dismisses.
\<close>

locale dismissing_broker =
  fixes step :: "recv_event list \<times> time \<Rightarrow> 32 word \<Rightarrow> (32 word ctl \<times> part list list) res"
    and dismissal :: string
  assumes step_answer: "step i n = Inr (c, os) \<Longrightarrow>
      \<exists>sender es' answer. recv_part (fst i) = Inr (sender, es') \<and> os = [[(sender, True), ([], True), (answer, False)]]
        \<and> ctl_state c = (if answer = dismissal then n + 1 else n)
        \<and> c = (if ctl_state c < 10 then Next (ctl_state c) else Halt (ctl_state c))"
begin

lemma step_dismissals:
  assumes "step i n = Inr (c, os)" and "n < 10"
  shows "unat (ctl_state c) = unat n + dismissals dismissal os \<and> unat (ctl_state c) \<le> 10
    \<and> (\<forall>m. c = Next m \<longrightarrow> m < 10) \<and> (\<forall>m. c = Halt m \<longrightarrow> m = 10)"
proof -
  from step_answer [OF assms(1)] obtain sender answer where
    os: "os = [[(sender, True), ([], True), (answer, False)]]"
    and m: "ctl_state c = (if answer = dismissal then n + 1 else n)"
    and c: "c = (if ctl_state c < 10 then Next (ctl_state c) else Halt (ctl_state c))" by blast
  have "unat n < 10" using assms(2) by (simp add: word_less_nat_alt)
  then have u: "unat (n + 1) = unat n + 1" by (simp add: unat_word_ariths)
  have le: "unat (ctl_state c) = unat n + dismissals dismissal os" using m os u by (simp add: dismissals_def)
  have "ctl_state c = 10" if "\<not> ctl_state c < 10"
    using that \<open>unat n < 10\<close> le os by (simp add: word_less_nat_alt dismissals_def word_unat_eq_iff split: if_splits)
  with c have "(\<forall>m. c = Next m \<longrightarrow> m < 10) \<and> (\<forall>m. c = Halt m \<longrightarrow> m = 10)"
    by (cases c) (auto split: if_splits)
  moreover have "unat (ctl_state c) \<le> 10" using le \<open>unat n < 10\<close> os by (simp add: dismissals_def)
  ultimately show ?thesis using le by blast
qed

lemma dismissals_append: "dismissals dismissal (os @ os') = dismissals dismissal os + dismissals dismissal os'"
  by (simp add: dismissals_def)

lemma run_dismissals:
  "run step n is = Inr (c, os) \<Longrightarrow> n < 10 \<Longrightarrow>
    unat (ctl_state c) = unat n + dismissals dismissal os
    \<and> (\<forall>m. c = Next m \<longrightarrow> m < 10) \<and> (\<forall>m. c = Halt m \<longrightarrow> m = 10)"
proof (induction "is" arbitrary: n c os)
  case Nil
  then show ?case by (auto simp: dismissals_def)
next
  case (Cons i "is")
  then obtain d ps where st: "step i n = Inr (d, ps)" by (auto split: sum.splits)
  note law = step_dismissals [OF st Cons.prems(2)]
  show ?case
  proof (cases d)
    case (Next m)
    with Cons.prems(1) st obtain qs where r: "run step m is = Inr (c, qs)" and os: "os = ps @ qs"
      by (auto split: sum.splits)
    from Next law have "m < 10" by simp
    from Cons.IH [OF r this] law Next os show ?thesis by (simp add: dismissals_append)
  next
    case (Halt m)
    with st Cons.prems(1) have "c = d" "os = ps" by auto
    with law show ?thesis by blast
  qed
qed

lemma run_answers:
  "run step n is = Inr (c, os) \<Longrightarrow>
    length os \<le> length is \<and>
    (\<forall>k < length os. \<exists>sender es'. recv_part (fst (is ! k)) = Inr (sender, es') \<and> fst (os ! k ! 0) = sender)"
proof (induction "is" arbitrary: n c os)
  case Nil
  then show ?case by simp
next
  case (Cons i "is")
  then obtain d ps where st: "step i n = Inr (d, ps)" by (auto split: sum.splits)
  from step_answer [OF st] obtain sender es' answer where
    ps: "recv_part (fst i) = Inr (sender, es')" "ps = [[(sender, True), ([], True), (answer, False)]]" by blast
  show ?case
  proof (cases d)
    case (Next m)
    with Cons.prems(1) st obtain qs where r: "run step m is = Inr (c, qs)" and os: "os = ps @ qs"
      by (auto split: sum.splits)
    from Cons.IH [OF r] ps os show ?thesis by (auto simp: nth_Cons split: nat.splits)
  next
    case (Halt m)
    with st Cons.prems(1) ps show ?thesis by auto
  qed
qed

end

lemma rtd_broker_answer:
  assumes "rtd_broker_step T i n = Inr (c, os)"
  shows "\<exists>sender es' answer. recv_part (fst i) = Inr (sender, es') \<and> os = [[(sender, True), ([], True), (answer, False)]]
        \<and> ctl_state c = (if answer = ''Fired!'' then n + 1 else n)
        \<and> c = (if ctl_state c < 10 then Next (ctl_state c) else Halt (ctl_state c))"
proof -
  obtain es now where i: "i = (es, now)" by fastforce
  obtain sender es1 where 1: "recv_part es = Inr (sender, es1)"
    using assms i by (cases "recv_part es") (auto simp: rtd_broker_step_def)
  obtain delim es2 where 2: "recv_part es1 = Inr (delim, es2)"
    using assms i 1 by (cases "recv_part es1") (auto simp: rtd_broker_step_def)
  obtain reply es3 where 3: "recv_part es2 = Inr (reply, es3)"
    using assms i 1 2 by (cases "recv_part es2") (auto simp: rtd_broker_step_def)
  note eq = assms [unfolded i rtd_broker_step_def Let_def prod.case 1 2 3 rbind.simps total_workers_def]
  show ?thesis
  proof (cases "now < T")
    case True
    with eq have "os = [[(sender, True), ([], True), (''Work harder'', False)]]" "c = (if n < 10 then Next n else Halt n)"
      by (auto split: if_splits)
    with 1 i show ?thesis by (intro exI [of _ sender] exI [of _ es1] exI [of _ "''Work harder''"]) simp
  next
    case False
    with eq have "os = [[(sender, True), ([], True), (''Fired!'', False)]]"
      "c = (if n + 1 < 10 then Next (n + 1) else Halt (n + 1))"
      by (auto split: if_splits)
    with 1 i show ?thesis by (intro exI [of _ sender] exI [of _ es1] exI [of _ "''Fired!''"]) simp
  qed
qed

lemma rtr_broker_answer:
  assumes "rtr_broker_step T i n = Inr (c, os)"
  shows "\<exists>sender es' answer. recv_part (fst i) = Inr (sender, es') \<and> os = [[(sender, True), ([], True), (answer, False)]]
        \<and> ctl_state c = (if answer = ''You'' @ [CHR 0x27] @ ''re fired!'' then n + 1 else n)
        \<and> c = (if ctl_state c < 10 then Next (ctl_state c) else Halt (ctl_state c))"
proof -
  obtain es now where i: "i = (es, now)" by fastforce
  obtain sender es1 where 1: "recv_part es = Inr (sender, es1)"
    using assms i by (cases "recv_part es") (auto simp: rtr_broker_step_def)
  obtain delim es2 where 2: "recv_part es1 = Inr (delim, es2)"
    using assms i 1 by (cases "recv_part es1") (auto simp: rtr_broker_step_def)
  obtain reply es3 where 3: "recv_part es2 = Inr (reply, es3)"
    using assms i 1 2 by (cases "recv_part es2") (auto simp: rtr_broker_step_def)
  note eq = assms [unfolded i rtr_broker_step_def Let_def prod.case 1 2 3 rbind.simps total_workers_def]
  show ?thesis
  proof (cases "now < T")
    case True
    with eq have "os = [[(sender, True), ([], True), (''Work harder!'', False)]]" "c = (if n < 10 then Next n else Halt n)"
      by (auto split: if_splits)
    with 1 i show ?thesis by (intro exI [of _ sender] exI [of _ es1] exI [of _ "''Work harder!''"]) simp
  next
    case False
    with eq have "os = [[(sender, True), ([], True), (''You'' @ [CHR 0x27] @ ''re fired!'', False)]]"
      "c = (if n + 1 < 10 then Next (n + 1) else Halt (n + 1))"
      by (auto split: if_splits)
    with 1 i show ?thesis by (intro exI [of _ sender] exI [of _ es1] exI [of _ "''You'' @ [CHR 0x27] @ ''re fired!''"]) simp
  qed
qed

interpretation rtd: dismissing_broker "rtd_broker_step T" "''Fired!''" for T
  by unfold_locales (rule rtd_broker_answer)

interpretation rtr: dismissing_broker "rtr_broker_step T" "''You'' @ [CHR 0x27] @ ''re fired!''" for T
  by unfold_locales (rule rtr_broker_answer)

subsection \<open>Dismissing ten workers\<close>

text \<open>
  Both brokers stop exactly when they have sent ten dismissals, never more, and each message
  they send goes to the sender of the message it answers.
\<close>

theorem rt_brokers_dismiss_ten:
  assumes "run (rtd_broker_step T) 0 is = Inr (c, os)" and "run (rtr_broker_step T) 0 js = Inr (d, ps)"
  shows "(\<forall>n. c = Halt n \<longrightarrow> dismissals ''Fired!'' os = 10) \<and> (\<forall>n. c = Next n \<longrightarrow> dismissals ''Fired!'' os < 10)
    \<and> (\<forall>k < length os. \<exists>sender es. recv_part (fst (is ! k)) = Inr (sender, es) \<and> fst (os ! k ! 0) = sender)
    \<and> (\<forall>n. d = Halt n \<longrightarrow> dismissals (''You'' @ [CHR 0x27] @ ''re fired!'') ps = 10)
    \<and> (\<forall>n. d = Next n \<longrightarrow> dismissals (''You'' @ [CHR 0x27] @ ''re fired!'') ps < 10)
    \<and> (\<forall>k < length ps. \<exists>sender es. recv_part (fst (js ! k)) = Inr (sender, es) \<and> fst (ps ! k ! 0) = sender)"
proof -
  have lt: "(0 :: 32 word) < 10" by simp
  note r1 = rtd.run_dismissals [OF assms(1) lt] and r2 = rtr.run_dismissals [OF assms(2) lt]
  have c: "dismissals ''Fired!'' os = unat (ctl_state c)"
    "dismissals (''You'' @ [CHR 0x27] @ ''re fired!'') ps = unat (ctl_state d)"
    using r1 r2 by simp_all
  have "unat m < 10" if "m < (10 :: 32 word)" for m using that by (simp add: word_less_nat_alt)
  with r1 r2 show ?thesis unfolding c
    using rtd.run_answers [OF assms(1)] rtr.run_answers [OF assms(2)] by auto
qed

theorem rt_brokers_dismiss_ten_witness:
  "\<exists>os. run (rtd_broker_step 0) 0 [(arrives [''w'', [], ''Hi Boss''], 1)] = Inr (Next 1, os)
    \<and> dismissals ''Fired!'' os < 10"
proof -
  have r: "run (rtd_broker_step 0) 0 [(arrives [''w'', [], ''Hi Boss''], 1)] =
      Inr (Next 1, [[(''w'', True), ([], True), (''Fired!'', False)]])"
    by (simp add: rtd_broker_step_def total_workers_def)
  have r2: "run (rtr_broker_step 0) 0 [] = Inr (Next 0, [])" by simp
  from rt_brokers_dismiss_ten [OF r r2] r show ?thesis by blast
qed

lemma rtd_broker_reply:
  "rtd_broker_step T (arrives (w # d # r # fs), now) n =
    (let m = if now < T then n else n + 1
     in Inr (if m < 10 then Next m else Halt m,
          [[(w, True), ([], True), (if now < T then ''Work harder'' else ''Fired!'', False)]]))"
  by (simp add: rtd_broker_step_def Let_def total_workers_def)

lemma rtr_broker_reply:
  "rtr_broker_step T (arrives (w # d # r # fs), now) n =
    (let m = if now < T then n else n + 1
     in Inr (if m < 10 then Next m else Halt m,
          [[(w, True), ([], True), (if now < T then ''Work harder!'' else ''You'' @ [CHR 0x27] @ ''re fired!'', False)]]))"
  by (simp add: rtr_broker_step_def Let_def total_workers_def)

text \<open>
  A worker that asks for work is told to work or dismissed by what the broker's clock shows, and
  it stops if and only if it is dismissed: the words the broker sends are the words the worker
  compares with, through the envelopes of DEALER and of REQ.
\<close>

theorem rt_worker_stops:
  assumes Z: "zmq_contract Z"
  shows "(\<exists>c qs d os. rtd_broker_step T (arrives (router_in Z w [[], ''Hi Boss'']), now) n = Inr (c, [qs])
        \<and> router_out Z (map fst qs) = (w, map fst (tl qs))
        \<and> rtd_worker_step (arrives (map fst (tl qs)), draw) m = Inr (d, RtSend [([], True), (''Hi Boss'', False)] # os)
        \<and> ((\<exists>k. d = Halt k) \<longleftrightarrow> T \<le> now))
    \<and> (\<exists>c qs d os. rtr_broker_step T (arrives (router_in Z w (req_out Z [''Hi Boss''])), now) n = Inr (c, [qs])
        \<and> router_out Z (map fst qs) = (w, map fst (tl qs))
        \<and> rtr_worker_step (arrives (req_in Z (map fst (tl qs))), draw) m = Inr (d, RtSend [(''Hi Boss'', False)] # os)
        \<and> ((\<exists>k. d = Halt k) \<longleftrightarrow> T \<le> now))"
  by (cases "now < T")
    (simp_all add: zmq_contractD [OF Z] rtd_broker_reply rtr_broker_reply rtd_worker_step_def
      rtr_worker_step_def Let_def)

theorem rt_worker_stops_witness:
  "\<exists>c qs. rtd_broker_step 5 (arrives [''w'', [], ''Hi Boss''], 7) 0 = Inr (c, [qs])
    \<and> router_out zmq_std (map fst qs) = (''w'', map fst (tl qs))"
proof -
  from rt_worker_stops [OF zmq_std_contract, of 5 "''w''" 7 0 0 0]
  show ?thesis by (auto simp: zmq_std_def)
qed

end
