(* ===== verification/Pipeline.thy ===== *)
theory Pipeline
  imports Brokers Numerals
begin

text \<open>
  Programs whose messages carry numbers as text: the ventilator, worker and sink of
  \<open>divide-and-conquer\<close>, and the weather server and client of
  \<open>getting-the-message-out\<close>. The lemmas: what is printed into the buffers is what is read
  back, the totals do not overflow, the sink ends the work after its hundredth result, and the
  average the weather client prints.
\<close>

subsection \<open>Ventilator, worker, sink\<close>

text \<open>The first message of the ventilator has two bytes, of which only the first is written.\<close>

definition taskvent_start :: "char \<Rightarrow> part list" where
  "taskvent_start junk = [([CHR ''0'', junk], False)]"

definition taskvent_message :: "int \<Rightarrow> part list res" where
  "taskvent_message workload =
     (let s = int_string workload
      in if length s + 1 > 10 then Inl Undefined
         else Inr [(s @ replicate (10 - length s) NUL, False)])"

text \<open>The loop over the hundred random workloads, with the sum as an unsigned.\<close>

fun taskvent_loop :: "int list \<Rightarrow> 32 word \<Rightarrow> (part list list \<times> 32 word) res" where
  "taskvent_loop [] total_ms = Inr ([], total_ms)"
| "taskvent_loop (workload # ws) total_ms =
     (let total_ms = total_ms + of_int workload
      in rbind (taskvent_message workload) (\<lambda>ps.
           rbind (taskvent_loop ws total_ms) (\<lambda>(pss, total_ms). Inr (ps # pss, total_ms))))"

datatype tw_act = TwSleep int | TwSend "part list"

text \<open>
  One round of a worker: a task, when there is one, and the control socket. A text that is not a
  number leaves 0 in the workload, an empty one leaves it uninitialised.
\<close>

definition taskwork_step :: "recv_event list option \<times> bool \<Rightarrow> unit \<Rightarrow> (unit ctl \<times> tw_act list) res" where
  "taskwork_step i s =
     (let (task, control) = i
      in rbind (case task of
                  None \<Rightarrow> Inr []
                | Some es \<Rightarrow> rbind (recv_part es) (\<lambda>(str, _).
                    if \<not> stores_int str then Inl Undefined
                    else let workload = fst (extract_int str)
                         in Inr [TwSleep workload, TwSend [([], False)]]))
           (\<lambda>os. if control then Inr (Halt s, os) else Inr (Next s, os)))"

function tasksink_loop :: "nat \<Rightarrow> recv_event list \<Rightarrow> (string \<times> recv_event list) res" where
  "tasksink_loop task_nbr es =
     (if task_nbr < 100 then
        rbind (recv_part es) (\<lambda>(_, es).
          let mark = (if (task_nbr div 10) * 10 = task_nbr then CHR '':'' else CHR ''.'')
          in rbind (tasksink_loop (Suc task_nbr) es) (\<lambda>(marks, es). Inr (mark # marks, es)))
      else Inr ([], es))"
  by pat_completeness auto
termination
  by (relation "measure (\<lambda>(n, es). 100 - n)") auto

declare tasksink_loop.simps [simp del]

definition tasksink :: "recv_event list \<Rightarrow> (string \<times> part list) res" where
  "tasksink es =
     rbind (recv_part es) (\<lambda>(_, es).
       rbind (tasksink_loop 0 es) (\<lambda>(marks, es). Inr (marks, [(''KILL'', False)])))"

subsection \<open>Weather server and client\<close>

text \<open>
  \<open>snprintf\<close> writes at most 19 characters and a zero; the rest of the twenty bytes of the
  message is not written (\<open>junk\<close>).
\<close>

definition wuserver_message :: "string \<Rightarrow> int \<Rightarrow> int \<Rightarrow> int \<Rightarrow> frame" where
  "wuserver_message junk code temperature relhumidity =
     (let text = pad_left 3 (int_string code) @ '' '' @ int_string temperature @ '' '' @ int_string relhumidity
      in take 20 (take 19 text @ NUL # junk))"

text \<open>
  The client reads the message as a C string: without a zero byte it reads past the message, and
  when the code is not a number, or nothing follows it, the temperature is never assigned.
\<close>

definition wuclient_temperature :: "frame \<Rightarrow> int res" where
  "wuclient_temperature update =
     (if NUL \<notin> set update then Inl Undefined
      else case snd (extract_int (c_str update)) of
             None \<Rightarrow> Inl Undefined
           | Some rest \<Rightarrow> if \<not> stores_int rest then Inl Undefined else Inr (fst (extract_int rest)))"

function wuclient_loop :: "nat \<Rightarrow> int \<Rightarrow> recv_event list \<Rightarrow> int res" where
  "wuclient_loop update_nbr total_temp es =
     (if update_nbr < 100 then
        rbind (recv_part es) (\<lambda>(update, es).
          rbind (wuclient_temperature update) (\<lambda>temperature.
            if clamp32 (total_temp + temperature) \<noteq> total_temp + temperature then Inl Undefined
            else wuclient_loop (Suc update_nbr) (total_temp + temperature) es))
      else Inr (trunc_div total_temp (int update_nbr)))"
  by pat_completeness auto
termination
  by (relation "measure (\<lambda>(n, t, es). 100 - n)") auto

declare wuclient_loop.simps [simp del]

definition wuclient :: "recv_event list \<Rightarrow> int res" where
  "wuclient es = wuclient_loop 0 0 es"

subsection \<open>Numbers in the buffers\<close>

lemma NUL_not_digit [simp]: "\<not> is_digit NUL" "\<not> is_space NUL"
  by (simp_all add: NUL_def is_digit_def is_space_def)

lemma starts_digit_NUL [simp]: "\<not> starts_digit (NUL # s)" "\<not> starts_digit (CHR '' '' # s)"
  by (simp_all add: starts_digit_def is_digit_def NUL_def)

lemma starts_digit_NULs [simp]: "\<not> starts_digit (replicate k NUL)"
  by (cases k) simp_all

lemma int_string_len: "- 10 < i \<Longrightarrow> i < 1000 \<Longrightarrow> length (int_string i) \<le> 3"
proof (cases "i < 0")
  case True
  moreover assume "- 10 < i"
  ultimately have "nat (- i) < 10 ^ 1" by simp
  from nat_string_len [OF this] True show ?thesis by (simp add: int_string_def)
next
  case False
  moreover assume "i < 1000"
  ultimately have "nat i < 10 ^ 3" by simp
  from nat_string_len [OF this] False show ?thesis by (simp add: int_string_def)
qed

lemma taskvent_message_parsed:
  assumes "1 \<le> w" and "w \<le> 100"
  shows "\<exists>m. taskvent_message w = Inr [(m, False)] \<and> length m = 10 \<and> fst (extract_int m) = w \<and> stores_int m"
proof -
  have len: "length (int_string w) \<le> 3" using int_string_len [of w] assms by simp
  let ?m = "int_string w @ replicate (10 - length (int_string w)) NUL"
  have "extract_int ?m = (w, Some (replicate (10 - length (int_string w)) NUL))"
    by (rule extract_int_string) (use assms in simp_all)
  with extract_int_stores [OF this] len show ?thesis by (simp add: taskvent_message_def Let_def)
qed

lemma taskvent_loop_sends:
  "\<forall>w \<in> set ws. 1 \<le> w \<and> w \<le> 100 \<Longrightarrow>
    \<exists>ms. taskvent_loop ws t = Inr (map (\<lambda>m. [(m, False)]) ms, t + of_int (sum_list ws))
      \<and> length ms = length ws \<and> (\<forall>k < length ws. length (ms ! k) = 10 \<and> fst (extract_int (ms ! k)) = ws ! k \<and> stores_int (ms ! k))"
proof (induction ws arbitrary: t)
  case Nil
  then show ?case by simp
next
  case (Cons w ws)
  from Cons.prems obtain m where m: "taskvent_message w = Inr [(m, False)]" "length m = 10" "fst (extract_int m) = w" "stores_int m"
    using taskvent_message_parsed [of w] by auto
  have "\<forall>w \<in> set ws. 1 \<le> w \<and> w \<le> 100" using Cons.prems by simp
  from Cons.IH [OF this, of "t + of_int w"] obtain ms where ms: "taskvent_loop ws (t + of_int w) =
      Inr (map (\<lambda>m. [(m, False)]) ms, t + of_int w + of_int (sum_list ws))"
    "length ms = length ws" "\<forall>k < length ws. length (ms ! k) = 10 \<and> fst (extract_int (ms ! k)) = ws ! k \<and> stores_int (ms ! k)"
    by blast
  have "taskvent_loop (w # ws) t = Inr (map (\<lambda>m. [(m, False)]) (m # ms), t + of_int (sum_list (w # ws)))"
    using m(1) ms(1) by (simp add: Let_def add.assoc)
  moreover have "length ((m # ms) ! k) = 10 \<and> fst (extract_int ((m # ms) ! k)) = (w # ws) ! k \<and> stores_int ((m # ms) ! k)"
    if "k < length (w # ws)" for k
    using that m(2-4) ms(3) by (cases k) simp_all
  moreover have "length (m # ms) = length (w # ws)" using ms(2) by simp
  ultimately show ?case by blast
qed

text \<open>
  Whatever workloads are drawn, the ventilator sends each as a message of ten bytes from which a
  worker reads back that very number, sleeps for it, and reports with an empty message; and the total
  cost it prints is the sum of the workloads, without wrap-around.
\<close>

theorem pipeline_workloads:
  assumes "\<forall>w \<in> set ws. 1 \<le> w \<and> w \<le> 100" and "length ws = 100"
  shows "\<exists>ms total. taskvent_loop ws 0 = Inr (map (\<lambda>m. [(m, False)]) ms, total)
    \<and> uint total = sum_list ws \<and> length ms = 100
    \<and> (\<forall>k < 100. length (ms ! k) = 10 \<and>
        taskwork_step (Some (arrives [ms ! k]), False) () = Inr (Next (), [TwSleep (ws ! k), TwSend [([], False)]]))"
proof -
  have "sum_list ws \<le> 100 * int (length ws)" and "0 \<le> sum_list ws"
    using assms(1) by (induction ws) auto
  then have "uint (of_int (sum_list ws) :: 32 word) = sum_list ws"
    using assms(2) by (simp add: uint_word_of_int)
  moreover from taskvent_loop_sends [OF assms(1), of 0] obtain ms where "taskvent_loop ws 0 = Inr (map (\<lambda>m. [(m, False)]) ms, of_int (sum_list ws))"
    "length ms = 100" "\<forall>k < 100. length (ms ! k) = 10 \<and> fst (extract_int (ms ! k)) = ws ! k \<and> stores_int (ms ! k)"
    using assms(2) by auto
  ultimately show ?thesis by (intro exI [of _ ms]) (simp add: taskwork_step_def)
qed

theorem pipeline_workloads_witness:
  "\<exists>ms total. taskvent_loop (replicate 100 7) 0 = Inr (map (\<lambda>m. [(m, False)]) ms, total) \<and> uint total = 700"
proof -
  have "\<forall>w \<in> set (replicate 100 (7::int)). 1 \<le> w \<and> w \<le> 100" "length (replicate 100 (7::int)) = 100"
    by simp_all
  from pipeline_workloads [OF this] show ?thesis by (auto simp: sum_list_replicate)
qed

subsection \<open>The sink\<close>

lemma tasksink_loop_results:
  "n + length fs = 100 \<Longrightarrow>
    tasksink_loop n (map (\<lambda>f. Part f False) fs @ es) =
      Inr (map (\<lambda>k. if (k div 10) * 10 = k then CHR '':'' else CHR ''.'') [n..<100], es)"
proof (induction fs arbitrary: n)
  case Nil
  then show ?case by (simp add: tasksink_loop.simps)
next
  case (Cons f fs)
  then have "n < 100" "Suc n + length fs = 100" by simp_all
  with Cons.IH [of "Suc n"] show ?case
    by (simp add: tasksink_loop.simps [of n] upt_conv_Cons)
qed

lemma tasksink_loop_short:
  "n + length fs < 100 \<Longrightarrow> tasksink_loop n (map (\<lambda>f. Part f False) fs) = Inl Blocked"
proof (induction fs arbitrary: n)
  case Nil
  then show ?case by (simp add: tasksink_loop.simps)
next
  case (Cons f fs)
  then have "n < 100" "Suc n + length fs < 100" by simp_all
  with Cons.IH [of "Suc n"] show ?case by (simp add: tasksink_loop.simps [of n])
qed

lemma tasksink_done:
  assumes "length rs = 100"
  shows "tasksink (map (\<lambda>f. Part f False) (start # rs)) =
    Inr (map (\<lambda>k. if (k div 10) * 10 = k then CHR '':'' else CHR ''.'') [0..<100], [(''KILL'', False)])"
  using tasksink_loop_results [of 0 rs "[]"] assms by (simp add: tasksink_def del: upt_rec_numeral)

text \<open>
  The sink tells the workers to stop when it has seen the start message and a hundred results,
  and waits for ever when there are fewer.
\<close>

lemma tasksink_sees:
  assumes "length fs \<le> 101"
  shows "if length fs = 101 then \<exists>marks. tasksink (map (\<lambda>f. Part f False) fs) = Inr (marks, [(''KILL'', False)]) \<and> length marks = 100
    else tasksink (map (\<lambda>f. Part f False) fs) = Inl Blocked"
proof (cases "length fs = 101")
  case True
  then obtain start rs where "fs = start # rs" "length rs = 100" by (cases fs) auto
  with tasksink_done [of rs start] True show ?thesis by (simp del: upt_rec_numeral)
next
  case False
  have "tasksink (map (\<lambda>f. Part f False) fs) = Inl Blocked"
  proof (cases fs)
    case Nil
    then show ?thesis by (simp add: tasksink_def)
  next
    case (Cons f gs)
    with False assms have "0 + length gs < 100" by simp
    from tasksink_loop_short [OF this] Cons show ?thesis by (simp add: tasksink_def)
  qed
  with False show ?thesis by simp
qed

subsection \<open>The weather reports\<close>

lemma int_string_no_NUL: "NUL \<notin> set (int_string i)"
proof -
  have "c \<noteq> NUL" if "c \<in> set (nat_string n)" for c n
    using nat_string_digits [OF that] digit_char_props(1) NUL_not_digit by metis
  then show ?thesis by (auto simp: int_string_def NUL_def)
qed

lemma read_digits_zeros: "read_digits 0 (replicate k (CHR ''0'') @ s) = read_digits 0 s"
  by (induction k) (simp_all add: is_digit_def digit_val_def)

lemma extract_padded:
  assumes "0 \<le> i" and "i < 1000" and "\<not> starts_digit rest"
  shows "extract_int (pad_left 3 (int_string i) @ rest) = (i, Some rest)"
proof -
  let ?z = "replicate (3 - length (nat_string (nat i))) (CHR ''0'')"
  let ?s = "?z @ nat_string (nat i) @ rest"
  have s: "pad_left 3 (int_string i) @ rest = ?s" using assms(1) by (simp add: pad_left_def int_string_def)
  obtain d ds where h: "nat_string (nat i) = digit_char d # ds" "d < 10" using nat_string_hd by blast
  obtain c cs where c: "?s = c # cs" "is_digit c"
  proof (cases "3 - length (nat_string (nat i))")
    case 0
    with h that show thesis by simp
  next
    case (Suc k)
    with that show thesis by (simp add: is_digit_def)
  qed
  then have nsp: "\<not> is_space c" "c \<noteq> CHR ''-''" "c \<noteq> CHR ''+''"
    by (auto simp: is_digit_def is_space_def)
  have "read_number ?s = Some (int (fst (read_digits 0 ?s)), snd (read_digits 0 ?s))"
    unfolding c(1) using nsp c(2) by (simp add: read_number_def starts_digit_def Let_def split_def)
  also have "read_digits 0 ?s = (nat i, rest)"
    by (simp add: read_digits_zeros read_digits_nat_string [OF assms(3)])
  finally show ?thesis using assms(1,2) unfolding s by (simp add: extract_int_def clamp32_def)
qed

lemma extract_int_space: "extract_int (CHR '' '' # s) = extract_int s"
  by (simp add: extract_int_def read_number_space is_space_def)

lemma wuserver_message_read:
  assumes "1 \<le> code" "code \<le> 999" and "-5 \<le> t" "t \<le> 90" and "0 \<le> h" "h \<le> 100" and junk: "length junk = 19"
  shows "wuclient_temperature (wuserver_message junk code t h) = Inr t \<and> length (wuserver_message junk code t h) = 20"
proof -
  let ?text = "pad_left 3 (int_string code) @ '' '' @ int_string t @ '' '' @ int_string h"
  have "length (pad_left 3 (int_string code)) = 3"
    using int_string_len [of code] assms(1,2) by (simp add: pad_left_def)
  then have len: "length ?text \<le> 11"
    using int_string_len [of t] int_string_len [of h] assms by simp
  have msg: "wuserver_message junk code t h = ?text @ NUL # take (19 - length ?text) junk"
    unfolding wuserver_message_def Let_def using len junk by (simp add: take_Cons' add.assoc)
  have no: "NUL \<notin> set ?text" using int_string_no_NUL by (auto simp: pad_left_def NUL_def)
  have "c_str (wuserver_message junk code t h) = ?text" unfolding msg by (rule c_str_terminated [OF no])
  moreover have "extract_int ?text = (code, Some ('' '' @ int_string t @ '' '' @ int_string h))"
    using extract_padded [of code "'' '' @ int_string t @ '' '' @ int_string h"] assms(1,2) by simp
  moreover have "extract_int ('' '' @ int_string t @ '' '' @ int_string h) = (t, Some ('' '' @ int_string h))"
    using extract_int_string [of t "'' '' @ int_string h"] assms(3,4) by (simp add: extract_int_space)
  moreover from this have "stores_int ('' '' @ int_string t @ '' '' @ int_string h)" by (rule extract_int_stores)
  ultimately have "wuclient_temperature (wuserver_message junk code t h) = Inr t"
    unfolding wuclient_temperature_def using msg by simp
  moreover have "length (wuserver_message junk code t h) = 20" unfolding msg using len junk by simp
  ultimately show ?thesis by simp
qed

text \<open>A report the server can send: the ranges of its three distributions.\<close>

type_synonym wu_report = "string \<times> int \<times> int \<times> int"

definition wu_valid :: "wu_report \<Rightarrow> bool" where
  "wu_valid r = (case r of (junk, code, t, h) \<Rightarrow>
     length junk = 19 \<and> 1 \<le> code \<and> code \<le> 999 \<and> -5 \<le> t \<and> t \<le> 90 \<and> 0 \<le> h \<and> h \<le> 100)"

definition wu_frame :: "wu_report \<Rightarrow> frame" where
  "wu_frame r = (case r of (junk, code, t, h) \<Rightarrow> wuserver_message junk code t h)"

definition wu_temp :: "wu_report \<Rightarrow> int" where
  "wu_temp r = fst (snd (snd r))"

lemma wu_frame_read: "wu_valid r \<Longrightarrow> wuclient_temperature (wu_frame r) = Inr (wu_temp r)"
  using wuserver_message_read by (cases r) (simp add: wu_valid_def wu_frame_def wu_temp_def)

lemma wu_temp_range: "wu_valid r \<Longrightarrow> -5 \<le> wu_temp r \<and> wu_temp r \<le> 90"
  by (cases r) (simp add: wu_valid_def wu_temp_def)

lemma wuclient_loop_reports:
  "n + length rs = 100 \<Longrightarrow> \<forall>r \<in> set rs. wu_valid r \<Longrightarrow> -5 * int n \<le> tot \<Longrightarrow> tot \<le> 90 * int n \<Longrightarrow>
    wuclient_loop n tot (map (\<lambda>r. Part (wu_frame r) False) rs) =
      Inr (trunc_div (tot + sum_list (map wu_temp rs)) 100)
    \<and> -500 \<le> tot + sum_list (map wu_temp rs) \<and> tot + sum_list (map wu_temp rs) \<le> 9000"
proof (induction rs arbitrary: n tot)
  case Nil
  then show ?case by (simp add: wuclient_loop.simps)
next
  case (Cons r rs)
  then have n: "n < 100" "Suc n + length rs = 100" and r: "wu_valid r" "\<forall>r \<in> set rs. wu_valid r" by simp_all
  let ?t = "tot + wu_temp r"
  have b: "-5 * int (Suc n) \<le> ?t" "?t \<le> 90 * int (Suc n)"
    using Cons.prems(3,4) wu_temp_range [OF r(1)] by simp_all
  with n(1) have "clamp32 ?t = ?t" by (simp add: clamp32_def)
  with n(1) r(1) Cons.IH [OF n(2) r(2) b] show ?case
    by (simp add: wuclient_loop.simps [of n] wu_frame_read add.assoc)
qed

text \<open>
  The client prints the average, rounded towards zero, of the temperatures the server has drawn,
  whatever the server leaves in the unwritten bytes of its messages: the report fits its buffer, its
  numbers are read back, leading zeros of the code included, and the sum does not overflow. The
  average is between -5 and 90 degrees.
\<close>

theorem weather_average:
  assumes "length rs = 100" and "\<forall>r \<in> set rs. wu_valid r"
  shows "wuclient (map (\<lambda>r. Part (wu_frame r) False) rs) = Inr (trunc_div (sum_list (map wu_temp rs)) 100)
    \<and> -5 \<le> trunc_div (sum_list (map wu_temp rs)) 100 \<and> trunc_div (sum_list (map wu_temp rs)) 100 \<le> 90"
proof -
  let ?t = "sum_list (map wu_temp rs)"
  from wuclient_loop_reports [of 0 rs 0] assms
  have r: "wuclient (map (\<lambda>r. Part (wu_frame r) False) rs) = Inr (trunc_div ?t 100)" and b: "-500 \<le> ?t" "?t \<le> 9000"
    by (simp_all add: wuclient_def)
  have "-5 \<le> trunc_div ?t 100 \<and> trunc_div ?t 100 \<le> 90"
  proof (cases "?t < 0")
    case True
    then have eq: "trunc_div ?t 100 = - (- ?t div 100)" by (simp add: trunc_div_neg)
    have "0 \<le> - ?t div 100" "- ?t div 100 \<le> 5" using True b(1) by linarith+
    then show ?thesis unfolding eq by linarith
  next
    case False
    then have eq: "trunc_div ?t 100 = ?t div 100" by (simp add: trunc_div_nonneg)
    have "0 \<le> ?t div 100" "?t div 100 \<le> 90" using False b(2) by linarith+
    then show ?thesis unfolding eq by linarith
  qed
  with r show ?thesis by simp
qed

theorem weather_average_witness:
  "wuclient (replicate 100 (Part (wu_frame (replicate 19 (CHR ''?''), 7, -3, 50)) False)) = Inr (-3)"
proof -
  let ?r = "(replicate 19 (CHR ''?''), 7, -3, 50) :: wu_report"
  have "length (replicate 100 ?r) = 100" "\<forall>r \<in> set (replicate 100 ?r). wu_valid r"
    by (simp_all add: wu_valid_def)
  from weather_average [OF this] show ?thesis
    by (simp add: wu_temp_def sum_list_replicate trunc_div_def Let_def)
qed

end
