(* ===== verification/Proxies.thy ===== *)
theory Proxies
  imports Brokers Numerals
begin

text \<open>
  Programs that pass messages on, and the small clients and servers around them: the request-reply
  broker and its client and worker (\<open>extended-request-reply\<close>), the weather proxy
  (\<open>transport-bridging\<close>), the round-trip demonstrator (\<open>round-trip-demonstrator\<close>), the
  first client and server (\<open>ask-and-ye-shall-receive\<close>) and the workers of the multithreaded
  server (\<open>multithreading-with-zeromq\<close>). The lemmas: what goes in comes out, part for part, and
  the round trip through the identities the demonstrator rewrites.
\<close>

subsection \<open>Forwarding brokers\<close>

definition rrb_step :: "poll_in \<Rightarrow> unit \<Rightarrow> (unit ctl \<times> sent list) res" where
  "rrb_step i s =
     rbind (case poll_fe i of
              None \<Rightarrow> Inr []
            | Some es \<Rightarrow> rbind (forward_parts es) (\<lambda>(ps, _). Inr [(Backend, ps)])) (\<lambda>o1.
       rbind (case poll_be i of
                None \<Rightarrow> Inr []
              | Some es \<Rightarrow> rbind (forward_parts es) (\<lambda>(ps, _). Inr [(Frontend, ps)])) (\<lambda>o2.
         Inr (Next s, o1 @ o2)))"

definition wuproxy_step :: "recv_event list \<Rightarrow> unit \<Rightarrow> (unit ctl \<times> part list list) res" where
  "wuproxy_step es s = rbind (forward_parts es) (\<lambda>(ps, _). Inr (Next s, [ps]))"

subsection \<open>Clients and servers\<close>

text \<open>
  A client that sends Hello and waits for the reply, a number of times; the reply's text is only
  printed.
\<close>

fun hello_loop :: "nat \<Rightarrow> recv_event list \<Rightarrow> (part list list \<times> string list) res" where
  "hello_loop 0 es = Inr ([], [])"
| "hello_loop (Suc n) es =
     rbind (recv_part es) (\<lambda>(str, es).
       rbind (hello_loop n es) (\<lambda>(pss, strs). Inr ([(''Hello'', False)] # pss, str # strs)))"

definition hwclient :: "recv_event list \<Rightarrow> (part list list \<times> string list) res" where
  "hwclient es = hello_loop 10 es"

text \<open>The loop of \<open>rrclient\<close> compares an unsigned counter with a signed number of requests.\<close>

definition rrclient :: "int \<Rightarrow> recv_event list \<Rightarrow> (part list list \<times> string list) res" where
  "rrclient req_count es = hello_loop (nat (uint (word_of_int req_count :: 32 word))) es"

definition hwserver_step :: "recv_event list \<Rightarrow> unit \<Rightarrow> (unit ctl \<times> part list list) res" where
  "hwserver_step es s = rbind (recv_part es) (\<lambda>_. Inr (Next s, [[(''World'', False)]]))"

definition rrworker_step :: "recv_event list \<Rightarrow> unit \<Rightarrow> (unit ctl \<times> part list list) res" where
  "rrworker_step es s = rbind (recv_part es) (\<lambda>_. Inr (Next s, [[(''World'', False)]]))"

text \<open>The workers of the multithreaded server send the terminating zero of their literal too.\<close>

definition mtserver_worker_step :: "recv_event list \<Rightarrow> unit \<Rightarrow> (unit ctl \<times> part list list) res" where
  "mtserver_worker_step es s = rbind (recv_part es) (\<lambda>_. Inr (Next s, [[(''World'' @ [NUL], False)]]))"

subsection \<open>The round-trip demonstrator\<close>

definition client_id :: string where
  "client_id = ''Client''"

definition worker_id :: string where
  "worker_id = ''Worker''"

definition tripping_rewrite :: "string \<Rightarrow> recv_event list \<Rightarrow> part list res" where
  "tripping_rewrite ident es =
     rbind (tripping_recv_frames es) (\<lambda>(frames, _).
       rbind (deque_pop_front frames) (\<lambda>frames. tripping_send_frames (ident # frames)))"

definition tripping_broker_step :: "poll_in \<Rightarrow> unit \<Rightarrow> (unit ctl \<times> sent list) res" where
  "tripping_broker_step i s =
     rbind (case poll_fe i of
              None \<Rightarrow> Inr []
            | Some es \<Rightarrow> rbind (tripping_rewrite worker_id es) (\<lambda>ps. Inr [(Backend, ps)])) (\<lambda>o1.
       rbind (case poll_be i of
                None \<Rightarrow> Inr []
              | Some es \<Rightarrow> rbind (tripping_rewrite client_id es) (\<lambda>ps. Inr [(Frontend, ps)])) (\<lambda>o2.
         Inr (Next s, o1 @ o2)))"

definition tripping_worker_step :: "recv_event list \<Rightarrow> unit \<Rightarrow> (unit ctl \<times> part list list) res" where
  "tripping_worker_step es s = rbind (recv_part es) (\<lambda>(echo, _). Inr (Next s, [[(echo, False)]]))"

text \<open>
  The two tests of the client: requests and replies alternate, or all requests go out before the
  first reply is read. The result is what is sent.
\<close>

fun tripping_sync :: "nat \<Rightarrow> nat \<Rightarrow> recv_event list \<Rightarrow> part list list res" where
  "tripping_sync i 0 es = Inr []"
| "tripping_sync i (Suc n) es =
     rbind (recv_part es) (\<lambda>(_, es).
       rbind (tripping_sync (Suc i) n es) (\<lambda>pss. Inr ([(nat_string i, False)] # pss)))"

fun recv_parts_n :: "nat \<Rightarrow> recv_event list \<Rightarrow> recv_event list res" where
  "recv_parts_n 0 es = Inr es"
| "recv_parts_n (Suc n) es = rbind (recv_part es) (\<lambda>(_, es). recv_parts_n n es)"

definition tripping_async :: "nat \<Rightarrow> recv_event list \<Rightarrow> part list list res" where
  "tripping_async n es = rbind (recv_parts_n n es) (\<lambda>_. Inr (map (\<lambda>i. [(nat_string i, False)]) [0..<n]))"

text \<open>Calls per second: the product is a 32-bit \<open>size_t\<close>.\<close>

definition tripping_rate :: "time \<Rightarrow> nat \<Rightarrow> int res" where
  "tripping_rate elapsed call_count =
     (let ms = trunc_div elapsed (msecs 1)
      in if ms = 0 then Inl Undefined else Inr (trunc_div (int call_count * 1000 mod 2 ^ 32) ms))"

subsection \<open>What comes out\<close>

lemma forward_arrives: "fs \<noteq> [] \<Longrightarrow> forward_parts (arrives fs) = Inr (parts_of fs, [])"
  using recv_unchecked_parts [of fs "[]" "[]"] by (simp add: forward_eq_recv_send arrives_def)

text \<open>
  The forwarding loops are transparent: whatever messages wait on either side, the broker passes
  each on to the other side with the same parts in the same order and with the same boundaries, and
  so does the weather proxy from its publisher to its subscribers.
\<close>

theorem proxies_transparent:
  assumes "fs \<noteq> []" and "gs \<noteq> []"
  shows "rrb_step \<lparr>poll_be = Some (arrives gs), poll_fe = Some (arrives fs)\<rparr> () =
      Inr (Next (), [(Backend, parts_of fs), (Frontend, parts_of gs)])
    \<and> (\<exists>ps. wuproxy_step (arrives fs) () = Inr (Next (), [ps]) \<and> wire ps = arrives fs)"
  using assms by (simp add: rrb_step_def wuproxy_step_def forward_arrives) (simp add: arrives_def)

theorem proxies_transparent_witness:
  "rrb_step \<lparr>poll_be = Some (arrives [''c'', [], ''World'']), poll_fe = Some (arrives [''c'', [], ''Hello''])\<rparr> () =
    Inr (Next (), [(Backend, parts_of [''c'', [], ''Hello'']), (Frontend, parts_of [''c'', [], ''World''])])"
  using proxies_transparent [of "[''c'', [], ''Hello'']" "[''c'', [], ''World'']"] by simp

text \<open>
  A message of the demonstrator's client makes the whole round: the broker addresses it to the
  worker in place of the client, the worker echoes it, the broker addresses the echo to the client
  in place of the worker, and the client gets its own message back.
\<close>

theorem tripping_round_trip:
  assumes Z: "zmq_contract Z"
  shows "\<exists>ps qs rs.
      tripping_broker_step \<lparr>poll_be = None, poll_fe = Some (arrives (router_in Z client_id [v]))\<rparr> () =
        Inr (Next (), [(Backend, ps)])
    \<and> router_out Z (map fst ps) = (worker_id, [v])
    \<and> tripping_worker_step (arrives [v]) () = Inr (Next (), [qs])
    \<and> tripping_broker_step \<lparr>poll_be = Some (arrives (router_in Z worker_id (map fst qs))), poll_fe = None\<rparr> () =
        Inr (Next (), [(Frontend, rs)])
    \<and> router_out Z (map fst rs) = (client_id, [v])"
  by (simp add: tripping_broker_step_def tripping_rewrite_def tripping_worker_step_def zmq_contractD [OF Z])

theorem tripping_round_trip_witness:
  "\<exists>ps. tripping_broker_step \<lparr>poll_be = None, poll_fe = Some (arrives [client_id, ''42''])\<rparr> () =
      Inr (Next (), [(Backend, ps)]) \<and> map fst ps = [worker_id, ''42'']"
proof -
  from tripping_round_trip [OF zmq_std_contract, of "''42''"]
  show ?thesis by (auto simp: zmq_std_def tripping_broker_step_def tripping_rewrite_def)
qed

end
