(* ===== verification/Diagnostics.thy ===== *)
theory Diagnostics
  imports Brokers Numerals
begin

text \<open>
  The dumps of message parts (\<open>identities-and-addresses/identity.cpp\<close> and
  \<open>async-client-server-pattern/asyncsrv.cpp\<close>), whose output stream keeps the number base
  between calls, and the rest of the asynchronous server: the identities and requests it prints into
  fixed buffers, and its workers. The lemmas: which inputs the buffers hold, when the printed sizes
  turn hexadecimal, and that a client gets only its own requests back.
\<close>

subsection \<open>Dumps\<close>

definition hex_char_lower :: "nat \<Rightarrow> char" where
  "hex_char_lower d = (if d < 10 then char_of (48 + d) else char_of (87 + d))"

fun hex_lower :: "nat \<Rightarrow> string" where
  "hex_lower n = (if n < 16 then [hex_char_lower n] else hex_lower (n div 16) @ [hex_char_lower (n mod 16)])"

declare hex_lower.simps [simp del]

text \<open>
  \<open>char\<close> is signed: a byte from 128 on is negative, so it is below 32, never above 127; its
  conversion to \<open>unsigned\<close> extends the sign.
\<close>

definition schar :: "char \<Rightarrow> int" where
  "schar c = (let n = of_char c in if n < (128::nat) then int n else int n - 256)"

definition is_text :: "string \<Rightarrow> bool" where
  "is_text s \<longleftrightarrow> (\<forall>ch \<in> set s. \<not> (schar ch < 32 \<or> schar ch > 127))"

text \<open>A number printed with width and fill, in the base the stream is in.\<close>

definition print_size :: "bool \<Rightarrow> nat \<Rightarrow> string" where
  "print_size hexmode n = ''['' @ pad_left 3 (if hexmode then hex_lower n else nat_string n) @ ''] ''"

definition print_hex :: "char \<Rightarrow> string" where
  "print_hex ch = pad_left 2 (hex_lower (unat (word_of_int (schar ch) :: 32 word)))"

text \<open>
  One part: the stream's base before and after. The base changes when a byte is printed in
  hexadecimal, and nothing ever changes it back.
\<close>

definition identity_print_part :: "string \<Rightarrow> bool \<Rightarrow> string \<times> bool" where
  "identity_print_part req hexmode =
     (if is_text req then (print_size hexmode (length req) @ req, hexmode)
      else (print_size hexmode (length req) @ concat (map (\<lambda>ch. print_hex ch @ '' '') req), True))"

fun identity_print_parts :: "recv_event list \<Rightarrow> bool \<Rightarrow> (string list \<times> bool) res" where
  "identity_print_parts [] hexmode = Inl Blocked"
| "identity_print_parts (RecvError # es) hexmode = Inl Exception"
| "identity_print_parts (NoPart m # es) hexmode =
     (let (line, hexmode) = identity_print_part [] hexmode
      in if m then rbind (identity_print_parts es hexmode) (\<lambda>(lines, hexmode). Inr (line # lines, hexmode))
         else Inr ([line], hexmode))"
| "identity_print_parts (Part req m # es) hexmode =
     (let (line, hexmode) = identity_print_part req hexmode
      in if m then rbind (identity_print_parts es hexmode) (\<lambda>(lines, hexmode). Inr (line # lines, hexmode))
         else Inr ([line], hexmode))"

text \<open>
  The whole program: two REQ sockets send one text each to a ROUTER socket, which dumps what it gets.
  The library generates an identity for the first; the second has set its own.
\<close>

definition identity_anon_str :: string where
  "identity_anon_str = ''ROUTER uses a generated 5 byte identity''"

definition identity_id_str :: string where
  "identity_id_str = ''ROUTER socket uses REQ'' @ [CHR 0x27] @ ''s socket identity''"

definition identity_main :: "zmq_envelope \<Rightarrow> frame \<Rightarrow> string list res" where
  "identity_main Z generated =
     rbind (identity_print_parts (arrives (router_in Z generated (req_out Z [identity_anon_str]))) False) (\<lambda>(l1, hexmode).
       rbind (identity_print_parts (arrives (router_in Z ''PEER2'' (req_out Z [identity_id_str]))) hexmode) (\<lambda>(l2, _).
         Inr (l1 @ l2 @ [''That'' @ [CHR 0x27] @ ''s all folks!''])))"

definition asy_print_part :: "string \<Rightarrow> string \<Rightarrow> string \<Rightarrow> bool \<Rightarrow> string \<times> bool" where
  "asy_print_part who ident data hexmode =
     (let prefix = ''asyncsrv: '' @ who @ '' ('' @ ident @ ''): '' @ print_size hexmode (length data)
      in if is_text data then (prefix @ data, hexmode)
         else (prefix @ concat (map print_hex data), True))"

fun asy_print :: "string \<Rightarrow> string \<Rightarrow> recv_event list \<Rightarrow> bool \<Rightarrow> (string list \<times> bool) res" where
  "asy_print who ident [] hexmode = Inl Blocked"
| "asy_print who ident (RecvError # es) hexmode = Inl Exception"
| "asy_print who ident (NoPart m # es) hexmode =
     (let (line, hexmode) = asy_print_part who ident [] hexmode
      in if m then rbind (asy_print who ident es hexmode) (\<lambda>(lines, hexmode). Inr (line # lines, hexmode))
         else Inr ([line], hexmode))"
| "asy_print who ident (Part data m # es) hexmode =
     (let (line, hexmode) = asy_print_part who ident data hexmode
      in if m then rbind (asy_print who ident es hexmode) (\<lambda>(lines, hexmode). Inr (line # lines, hexmode))
         else Inr ([line], hexmode))"

subsection \<open>The asynchronous client and server\<close>

text \<open>Two draws in 0..0x10000, printed into ten bytes.\<close>

definition random_id :: "nat \<Rightarrow> nat \<Rightarrow> string res" where
  "random_id d1 d2 =
     (let s = pad_left 4 (hex_string d1) @ ''-'' @ pad_left 4 (hex_string d2)
      in if length s + 1 > 10 then Inl Undefined else Inr s)"

text \<open>The next request of a client, printed into sixteen bytes.\<close>

definition asy_request :: "int \<Rightarrow> (int \<times> part list) res" where
  "asy_request request_nbr =
     (let request_nbr = request_nbr + 1;
          s = ''request #'' @ int_string request_nbr
      in if length s + 1 > 16 then Inl Undefined else Inr (request_nbr, [(s, False)]))"

text \<open>
  One round of a client: a hundred polls, each of which may find a message to dump, then a request.
\<close>

fun asy_polls :: "string \<Rightarrow> recv_event list option list \<Rightarrow> bool \<Rightarrow> (string list \<times> bool) res" where
  "asy_polls ident [] hexmode = Inr ([], hexmode)"
| "asy_polls ident (None # ps) hexmode = asy_polls ident ps hexmode"
| "asy_polls ident (Some es # ps) hexmode =
     rbind (asy_print ''Client'' ident es hexmode) (\<lambda>(l1, hexmode).
       rbind (asy_polls ident ps hexmode) (\<lambda>(l2, hexmode). Inr (l1 @ l2, hexmode)))"

definition asy_client_step :: "string \<Rightarrow> recv_event list option list \<Rightarrow> int \<times> bool
    \<Rightarrow> ((int \<times> bool) ctl \<times> (string list \<times> part list) list) res" where
  "asy_client_step ident polls s =
     (let (request_nbr, hexmode) = s
      in rbind (asy_polls ident (take 100 polls) hexmode) (\<lambda>(lines, hexmode).
           rbind (asy_request request_nbr) (\<lambda>(request_nbr, ps).
             Inr (Next (request_nbr, hexmode), [(lines, ps)]))))"

text \<open>One round of a worker: the message is sent back as often as the draw says.\<close>

definition asy_worker_step :: "recv_event list \<times> nat \<Rightarrow> unit \<Rightarrow> (unit ctl \<times> part list list) res" where
  "asy_worker_step i s =
     (let (es, replies) = i
      in rbind (recv_part es) (\<lambda>(id_part, es).
           rbind (recv_part es) (\<lambda>(msg_part, _).
             Inr (Next s, replicate replies [(id_part, True), (msg_part, False)]))))"

subsection \<open>The fixed buffers\<close>

lemma hex_string_not_Nil [simp]: "hex_string n \<noteq> []"
  by (subst hex_string.simps) simp

lemma hex_string_len: "n < 16 ^ k \<Longrightarrow> 0 < k \<Longrightarrow> length (hex_string n) \<le> k"
proof (induction n arbitrary: k rule: hex_string.induct)
  case (1 n)
  show ?case
  proof (cases "n < 16")
    case True
    with "1.prems" show ?thesis by (simp add: hex_string.simps [of n])
  next
    case False
    with "1.prems" obtain j where k: "k = Suc j" by (cases k) auto
    with False "1.prems" have "0 < j" by (cases j) auto
    moreover from k "1.prems" have "n div 16 < 16 ^ j" by auto
    ultimately have "length (hex_string (n div 16)) \<le> j" using "1.IH" False by simp
    with False k show ?thesis by (simp add: hex_string.simps [of n])
  qed
qed

lemma hex_string_len_ge: "16 ^ k \<le> n \<Longrightarrow> k < length (hex_string n)"
proof (induction n arbitrary: k rule: hex_string.induct)
  case (1 n)
  show ?case
  proof (cases k)
    case 0
    then show ?thesis by simp
  next
    case (Suc j)
    with "1.prems" have "16 ^ 1 \<le> n" by (intro order_trans [OF power_increasing [of 1 k 16]]) auto
    then have ge: "\<not> n < 16" by simp
    from Suc "1.prems" have "16 ^ j \<le> n div 16" by (simp add: less_eq_div_iff_mult_less_eq mult.commute)
    with "1.IH" ge have "j < length (hex_string (n div 16))" by simp
    with ge Suc show ?thesis by (simp add: hex_string.simps [of n])
  qed
qed

lemma pad4_hex_len: "length (pad_left 4 (hex_string n)) = 4 \<longleftrightarrow> n < 16 ^ 4"
proof (cases "n < 16 ^ 4")
  case True
  from hex_string_len [OF this] True show ?thesis by (simp add: pad_left_def)
next
  case False
  with hex_string_len_ge [of 4 n] show ?thesis by (simp add: pad_left_def)
qed

lemma pad4_len_ge: "4 \<le> length (pad_left 4 s)"
  by (simp add: pad_left_def)

text \<open>
  The identity of a client is built without overrunning its ten bytes exactly when both draws are
  below 0x10000, although the distribution includes that number; and then the two draws can be read
  off the identity, so distinct draws give distinct identities. A request fits its sixteen bytes up
  to number 999999.
\<close>

theorem asy_buffers:
  "(random_id d1 d2 \<noteq> Inl Undefined \<longleftrightarrow> d1 < 0x10000 \<and> d2 < 0x10000)
    \<and> (random_id d1 d2 = Inr s \<and> random_id e1 e2 = Inr s \<longrightarrow> d1 = e1 \<and> d2 = e2)
    \<and> (0 \<le> n \<longrightarrow> (asy_request n \<noteq> Inl Undefined \<longleftrightarrow> n < 999999))"
proof (intro conjI impI)
  have len: "length (pad_left 4 (hex_string d1)) + length (pad_left 4 (hex_string d2)) \<le> 8 \<longleftrightarrow>
      d1 < 16 ^ 4 \<and> d2 < 16 ^ 4" for d1 d2
    using pad4_hex_len [of d1] pad4_hex_len [of d2] pad4_len_ge [of "hex_string d1"] pad4_len_ge [of "hex_string d2"]
    by linarith
  show "random_id d1 d2 \<noteq> Inl Undefined \<longleftrightarrow> d1 < 0x10000 \<and> d2 < 0x10000"
    using len [of d1 d2] by (auto simp: random_id_def Let_def)
  have four: "length (pad_left 4 (hex_string a)) = 4 \<and> length (pad_left 4 (hex_string b)) = 4
      \<and> s = pad_left 4 (hex_string a) @ ''-'' @ pad_left 4 (hex_string b)" if "random_id a b = Inr s" for a b
  proof -
    from that have "d1 < 16 ^ 4 \<and> d2 < 16 ^ 4" if "d1 = a" "d2 = b" for d1 d2
      using len [of a b] that by (simp add: random_id_def Let_def split: if_splits)
    with that show ?thesis using pad4_hex_len by (simp add: random_id_def Let_def split: if_splits)
  qed
  assume "random_id d1 d2 = Inr s \<and> random_id e1 e2 = Inr s"
  then have eq: "pad_left 4 (hex_string d1) = pad_left 4 (hex_string e1)"
      "pad_left 4 (hex_string d2) = pad_left 4 (hex_string e2)"
    using four [of d1 d2] four [of e1 e2] by (metis append_eq_append_conv append_Cons list.inject)+
  from arg_cong [OF eq(1), of hex_value] show "d1 = e1" by (simp add: hex_value_pad_left)
  from arg_cong [OF eq(2), of hex_value] show "d2 = e2" by (simp add: hex_value_pad_left)
next
  assume n: "0 \<le> n"
  have "length (nat_string (nat (n + 1))) \<le> 6 \<longleftrightarrow> n < 999999"
    using nat_string_len [of "nat (n + 1)" 6] nat_string_len_ge [of 6 "nat (n + 1)"] n by fastforce
  with n show "asy_request n \<noteq> Inl Undefined \<longleftrightarrow> n < 999999"
    by (auto simp: asy_request_def int_string_def Let_def not_less)
qed

theorem asy_buffers_witness:
  "random_id 0x10000 7 = Inl Undefined \<and> asy_request 999999 = Inl Undefined \<and> asy_request 0 \<noteq> Inl Undefined"
  using asy_buffers [of "0x10000" 7 "[]" 0 0 999999] asy_buffers [of 0 0 "[]" 0 0 0] by simp

subsection \<open>Sticky hexadecimal\<close>

lemma identity_print_part_line:
  obtains rest where "identity_print_part req hexmode =
    (print_size hexmode (length req) @ rest, hexmode \<or> \<not> is_text req)"
  by (cases "is_text req") (auto simp: identity_print_part_def)

lemma identity_print_hex_all:
  "fs \<noteq> [] \<Longrightarrow> \<exists>lines. identity_print_parts (arrives fs) True = Inr (lines, True) \<and> length lines = length fs
    \<and> (\<forall>k < length fs. \<exists>rest. lines ! k = print_size True (length (fs ! k)) @ rest)"
proof (induction fs rule: parts_of.induct)
  case (2 f)
  obtain r where "identity_print_part f True = (print_size True (length f) @ r, True)"
    by (rule identity_print_part_line [of f True]) simp
  then show ?case by (simp add: arrives_def)
next
  case (3 f g fs)
  then obtain lines where ih: "identity_print_parts (arrives (g # fs)) True = Inr (lines, True)"
    "length lines = length (g # fs)" "\<forall>k < length (g # fs). \<exists>rest. lines ! k = print_size True (length ((g # fs) ! k)) @ rest"
    by auto
  obtain r where r: "identity_print_part f True = (print_size True (length f) @ r, True)"
    by (rule identity_print_part_line [of f True]) simp
  let ?line = "print_size True (length f) @ r"
  from r have "identity_print_parts (arrives (f # g # fs)) True = Inr (?line # lines, True)"
    using ih(1) by (simp add: arrives_def)
  moreover have "\<exists>rest. (?line # lines) ! k = print_size True (length ((f # g # fs) ! k)) @ rest"
    if "k < length (f # g # fs)" for k
    using that ih(3) by (cases k) auto
  ultimately show ?case using ih(2) by auto
qed simp

text \<open>
  Once a part that is not text has been dumped, the stream stays hexadecimal, so the size of every
  later part, of this message and of all messages after it, is printed in hexadecimal; the first size
  is still decimal.
\<close>

theorem identity_sizes_turn_hex:
  assumes "\<not> is_text ident" and "fs \<noteq> []"
  shows "\<exists>l lines. identity_print_parts (arrives (ident # fs)) False = Inr (l # lines, True)
    \<and> (\<exists>rest. l = print_size False (length ident) @ rest)
    \<and> (\<forall>k < length fs. \<exists>rest. lines ! k = print_size True (length (fs ! k)) @ rest)"
proof -
  obtain g gs where fs: "fs = g # gs" using assms(2) by (cases fs) auto
  from identity_print_hex_all [OF assms(2)] obtain lines where
    l: "identity_print_parts (arrives fs) True = Inr (lines, True)"
    "\<forall>k < length fs. \<exists>rest. lines ! k = print_size True (length (fs ! k)) @ rest" by blast
  obtain r where r: "identity_print_part ident False = (print_size False (length ident) @ r, True)"
    by (rule identity_print_part_line [of ident False]) (simp add: assms(1))
  let ?line = "print_size False (length ident) @ r"
  from r have "identity_print_parts (arrives (ident # fs)) False = Inr (?line # lines, True)"
    using l(1) fs by (simp add: arrives_def)
  with l(2) show ?thesis by auto
qed

theorem identity_sizes_turn_hex_witness:
  "\<exists>l lines. identity_print_parts (arrives [[CHR 0x00, CHR 0xFF], replicate 39 (CHR ''x'')]) False = Inr (l # lines, True)
    \<and> (\<exists>rest. lines ! 0 = ''[027] '' @ rest)"
proof -
  have "\<not> is_text [CHR 0x00, CHR 0xFF]" by (simp add: is_text_def schar_def)
  moreover have "print_size True 39 = ''[027] ''" by code_simp
  ultimately show ?thesis
    using identity_sizes_turn_hex [of "[CHR 0x00, CHR 0xFF]" "[replicate 39 (CHR ''x'')]"] by simp blast
qed
text \<open>What the program prints for the texts it sends.\<close>

lemma identity_texts:
  "is_text []" "is_text ''PEER2''" "is_text identity_anon_str" "is_text identity_id_str"
  by code_simp+

lemma identity_sizes:
  "print_size False 5 = ''[005] ''" "print_size True (Suc (Suc (Suc (Suc (Suc 0))))) = ''[005] ''" "print_size True 0 = ''[000] ''"
  "print_size True (length identity_anon_str) = ''[027] ''" "print_size True (length identity_id_str) = ''[028] ''"
  by code_simp+

text \<open>
  A generated identity has five bytes, the first of them zero (which the library documents), so it
  is dumped in hexadecimal, and from then on every size is: the texts of 39 and 40 bytes are reported
  with the sizes 027 and 028. Nothing else of the output depends on the identity.
\<close>

theorem identity_output:
  assumes "zmq_contract Z" and "length generated = 5" and "hd generated = NUL"
  shows "identity_main Z generated = Inr
    [''[005] '' @ concat (map (\<lambda>ch. print_hex ch @ '' '') generated), ''[000] '', ''[027] '' @ identity_anon_str,
     ''[005] PEER2'', ''[000] '', ''[028] '' @ identity_id_str, ''That'' @ [CHR 0x27] @ ''s all folks!'']"
proof -
  obtain bs where g: "generated = NUL # bs" using assms(2,3) by (cases generated) auto
  have "\<not> is_text generated" by (simp add: g is_text_def schar_def NUL_def)
  then show ?thesis
    unfolding identity_main_def zmq_contractD [OF assms(1)]
    by (simp add: arrives_def identity_print_part_def identity_texts identity_sizes assms(2) del: length_Cons length_append)
qed

theorem identity_output_witness:
  "\<exists>lines. identity_main zmq_std [NUL, CHR ''k'', CHR 0x8B, CHR 0x45, CHR 0x67] = Inr lines
    \<and> lines ! 5 = ''[028] '' @ identity_id_str \<and> lines ! 0 = ''[005] 00 6b ffffff8b 45 67 ''"
proof -
  let ?g = "[NUL, CHR ''k'', CHR 0x8B, CHR 0x45, CHR 0x67]"
  have "concat (map (\<lambda>ch. print_hex ch @ '' '') ?g) = ''00 6b ffffff8b 45 67 ''"
    by (simp add: print_hex_def NUL_def schar_def Let_def hex_lower.simps hex_char_lower_def pad_left_def, code_simp)
  with identity_output [OF zmq_std_contract, of ?g] show ?thesis by simp
qed

end
