(* ===== verification/PubSub.thy ===== *)
theory PubSub
  imports Brokers Numerals "HOL-Library.Sublist"
begin

text \<open>
  The publishers and subscribers: coordinated start (\<open>node-coordination\<close>), envelopes
  (\<open>pub-sub-message-envelopes\<close>), the espresso tracer
  (\<open>pub-sub-tracing-espresso-pattern\<close>) and the state flow of the peering brokers
  (\<open>prototyping-the-state-flow\<close>). The lemmas: what a subscriber counts when it misses the first
  updates, what a prefix subscription lets through, and that the states of a peer are read in step.
\<close>

subsection \<open>Coordinated start\<close>

definition SUBSCRIBERS_EXPECTED :: nat where
  "SUBSCRIBERS_EXPECTED = 10"

function syncpub_synchronise :: "nat \<Rightarrow> recv_event list \<Rightarrow> (part list list \<times> recv_event list) res" where
  "syncpub_synchronise subscribers es =
     (if subscribers < SUBSCRIBERS_EXPECTED then
        rbind (recv_part es) (\<lambda>(_, es).
          rbind (syncpub_synchronise (Suc subscribers) es) (\<lambda>(pss, es). Inr ([([], False)] # pss, es)))
      else Inr ([], es))"
  by pat_completeness auto
termination
  by (relation "measure (\<lambda>(n, es). SUBSCRIBERS_EXPECTED - n)") auto

declare syncpub_synchronise.simps [simp del]

function syncpub_updates :: "nat \<Rightarrow> part list list" where
  "syncpub_updates update_nbr =
     (if update_nbr < 1000000 then [(''Rhubarb'', False)] # syncpub_updates (Suc update_nbr) else [])"
  by pat_completeness auto
termination
  by (relation "measure (\<lambda>n. 1000000 - n)") auto

declare syncpub_updates.simps [simp del]

text \<open>The replies of the synchronisation service, and everything that is published.\<close>

definition syncpub :: "recv_event list \<Rightarrow> (part list list \<times> part list list) res" where
  "syncpub es =
     rbind (syncpub_synchronise 0 es) (\<lambda>(replies, _).
       Inr (replies, syncpub_updates 0 @ [[(''END'', False)]]))"

text \<open>The count is an \<open>int\<close>; a failed receive leaves an empty message, which counts.\<close>

fun syncsub_loop :: "int \<Rightarrow> recv_event list \<Rightarrow> int res" where
  "syncsub_loop update_nbr [] = Inl Blocked"
| "syncsub_loop update_nbr (e # es) =
     rbind (recv_part [e]) (\<lambda>(str, _).
       if str = ''END'' then Inr update_nbr
       else if clamp32 (update_nbr + 1) \<noteq> update_nbr + 1 then Inl Undefined
       else syncsub_loop (update_nbr + 1) es)"

definition syncsub :: "recv_event list \<Rightarrow> recv_event list \<Rightarrow> part list \<times> int res" where
  "syncsub sync_es sub_es =
     ([([], False)], rbind (recv_part sync_es) (\<lambda>_. syncsub_loop 0 sub_es))"

subsection \<open>Envelopes\<close>

definition psenvpub_round :: "part list list" where
  "psenvpub_round =
     [[(''A'', True), (''We don'' @ [CHR 0x27] @ ''t want to see this'', False)],
      [(''B'', True), (''We would like to see this'', False)]]"

definition psenvsub_step :: "recv_event list \<Rightarrow> (string \<times> recv_event list) res" where
  "psenvsub_step es =
     rbind (recv_part es) (\<lambda>(key, es).
       rbind (recv_part es) (\<lambda>(data, es).
         Inr (''['' @ key @ ''] '' @ data, es)))"

subsection \<open>Espresso\<close>

text \<open>
  One update of the publisher, from the random letter and the result of the send; the counter is an
  \<open>unsigned long\<close> (32 bits on the compiler the projects are set up for).
\<close>

definition espresso_content :: "char \<Rightarrow> 32 word \<Rightarrow> string" where
  "espresso_content letter counter = [letter] @ ''-'' @ unsigned_string counter"

definition espresso_publisher_step :: "char \<times> int \<Rightarrow> 32 word \<Rightarrow> (32 word ctl \<times> part list list) res" where
  "espresso_publisher_step i counter =
     (let (letter, sent) = i; counter = counter + 1
      in if sent = -1 then Inr (Halt counter, [])
         else Inr (Next counter, [[(espresso_content letter counter, False)]]))"

text \<open>One turn of the subscriber's loop, which it leaves at a count of five.\<close>

definition espresso_subscriber_step :: "recv_event \<Rightarrow> nat \<Rightarrow> (nat ctl \<times> unit list) res" where
  "espresso_subscriber_step e received =
     (case e of
        RecvError \<Rightarrow> Inl Exception
      | NoPart _ \<Rightarrow> Inr (Halt received, [])
      | Part _ _ \<Rightarrow> Inr (if Suc received < 5 then Next (Suc received) else Halt (Suc received), []))"

definition espresso_listener_step :: "recv_event \<Rightarrow> unit \<Rightarrow> (unit ctl \<times> string list) res" where
  "espresso_listener_step e s =
     (case e of
        RecvError \<Rightarrow> Inl Exception
      | NoPart _ \<Rightarrow> Inr (Halt s, [])
      | Part frame _ \<Rightarrow> Inr (Next s, [''espresso: listener: '' @ frame]))"

subsection \<open>The state flow\<close>

definition peering1_endpoint :: "string \<Rightarrow> int \<Rightarrow> string" where
  "peering1_endpoint peer peer_port = ''tcp://'' @ peer @ '':'' @ int_string peer_port"

fun peering1_remote :: "bool \<Rightarrow> string list \<Rightarrow> bool" where
  "peering1_remote remote_peers [] = remote_peers"
| "peering1_remote remote_peers (peer # peers) =
     peering1_remote (if peer \<noteq> ''localhost'' then True else remote_peers) peers"

text \<open>The name a broker publishes under; \<open>host_name\<close> is what the operating system reports.\<close>

definition peering1_self :: "string \<Rightarrow> string list \<Rightarrow> int \<Rightarrow> string" where
  "peering1_self host_name peers state_port =
     (if peering1_remote False peers then host_name else ''localhost'') @ '':'' @ int_string state_port"

datatype p1_act = P1Print string | P1Send "part list"

text \<open>One round: what the poll returns, what it reports for the subscription, the random number.\<close>

definition peering1_step ::
  "string \<Rightarrow> int \<times> recv_event list option \<times> int \<Rightarrow> unit \<Rightarrow> (unit ctl \<times> p1_act list) res" where
  "peering1_step self i s =
     (let (rc, statefe, draw) = i
      in if rc = -1 then Inr (Halt s, [])
         else case statefe of
           Some es \<Rightarrow>
             rbind (recv_part es) (\<lambda>(peer_name, es).
               rbind (recv_part es) (\<lambda>(avail, es).
                 Inr (Next s, [P1Print (''peering1: ('' @ self @ ''): '' @ peer_name @ '' - '' @ avail @
                                        '' workers available.'')])))
         | None \<Rightarrow> Inr (Next s, [P1Send [(self, True), (int_string draw, False)]]))"

subsection \<open>What a subscriber counts\<close>

lemma syncpub_synchronise_requests:
  "n + length reqs = SUBSCRIBERS_EXPECTED \<Longrightarrow>
    syncpub_synchronise n (map (\<lambda>f. Part f False) reqs @ es) = Inr (map (\<lambda>_. [([], False)]) reqs, es)"
proof (induction reqs arbitrary: n)
  case Nil
  then show ?case by (simp add: syncpub_synchronise.simps)
next
  case (Cons f reqs)
  then have "n < SUBSCRIBERS_EXPECTED" "Suc n + length reqs = SUBSCRIBERS_EXPECTED" by simp_all
  with Cons.IH [of "Suc n"] show ?case by (simp add: syncpub_synchronise.simps [of n])
qed

lemma syncpub_updates_eq: "n + m = 1000000 \<Longrightarrow> syncpub_updates n = replicate m [(''Rhubarb'', False)]"
proof (induction m arbitrary: n)
  case 0
  then show ?case by (simp add: syncpub_updates.simps)
next
  case (Suc m)
  then have "n < 1000000" "Suc n + m = 1000000" by simp_all
  with Suc.IH [of "Suc n"] show ?case by (simp add: syncpub_updates.simps [of n])
qed

lemma syncsub_loop_updates:
  "0 \<le> n \<Longrightarrow> n + int m < 2 ^ 31 \<Longrightarrow> f \<noteq> ''END'' \<Longrightarrow>
    syncsub_loop n (replicate m (Part f False) @ es) = syncsub_loop (n + int m) es"
proof (induction m arbitrary: n)
  case 0
  then show ?case by simp
next
  case (Suc m)
  then have "clamp32 (n + 1) = n + 1" by (simp add: clamp32_def)
  moreover have "syncsub_loop (n + 1) (replicate m (Part f False) @ es) = syncsub_loop (n + 1 + int m) es"
    by (rule Suc.IH) (use Suc.prems in simp_all)
  ultimately show ?case using Suc.prems(3) by (simp add: algebra_simps)
qed

lemma concat_wire_single: "concat (map wire (replicate m [(f, False)])) = replicate m (Part f False)"
  by (induction m) simp_all

text \<open>
  Once ten subscribers have asked, the publisher sends a million updates and the end mark; a
  subscriber whose subscription reaches the publisher only after some of them (which the
  synchronisation does not exclude: it uses another connection) reports exactly how many it got.
\<close>

theorem syncsub_count:
  assumes "length reqs = SUBSCRIBERS_EXPECTED" and "missed \<le> 1000000"
  shows "\<exists>replies pubs. syncpub (map (\<lambda>f. Part f False) reqs) = Inr (replies, pubs)
    \<and> length replies = 10 \<and> length pubs = 1000001
    \<and> snd (syncsub [Part [] False] (concat (map wire (drop missed pubs)))) = Inr (1000000 - int missed)"
proof -
  obtain N :: nat where N: "N = 1000000" by blast
  let ?pubs = "replicate N [(''Rhubarb'', False)] @ [[(''END'', False)]]"
  have up: "syncpub_updates 0 = replicate N [(''Rhubarb'', False)]"
    by (rule syncpub_updates_eq) (simp add: N)
  from syncpub_synchronise_requests [of 0 reqs "[]"] assms(1)
  have "syncpub (map (\<lambda>f. Part f False) reqs) = Inr (map (\<lambda>_. [([], False)]) reqs, ?pubs)"
    by (simp add: syncpub_def up)
  moreover have "concat (map wire (drop missed ?pubs)) = replicate (N - missed) (Part ''Rhubarb'' False) @ [Part ''END'' False]"
    using assms(2) N by (simp only: drop_append length_replicate drop_replicate map_append concat_append concat_wire_single) simp
  moreover have "syncsub_loop 0 (replicate (N - missed) (Part ''Rhubarb'' False) @ [Part ''END'' False]) = Inr (int (N - missed))"
    using syncsub_loop_updates [of 0 "N - missed" "''Rhubarb''" "[Part ''END'' False]"] N by simp
  ultimately show ?thesis
    using assms N by (intro exI [of _ "map (\<lambda>_. [([], False)]) reqs"] exI [of _ ?pubs])
      (simp add: syncsub_def SUBSCRIBERS_EXPECTED_def)
qed

subsection \<open>Prefix subscriptions\<close>

lemma psenvsub_round:
  assumes "\<And>sub topic. delivers sub topic \<longleftrightarrow> prefix sub topic"
  shows "map (\<lambda>ps. psenvsub_step (wire ps)) (filter (\<lambda>ps. delivers ''B'' (fst (hd ps))) psenvpub_round)
    = [Inr (''[B] We would like to see this'', [])]"
  by (simp add: psenvpub_round_def psenvsub_step_def assms)

lemma espresso_subscriber_parts:
  "n < 5 \<Longrightarrow> run espresso_subscriber_step n (map (\<lambda>f. Part f False) fs) =
    Inr (if n + length fs < 5 then Next (n + length fs) else Halt 5, [])"
proof (induction fs arbitrary: n)
  case Nil
  then show ?case by simp
next
  case (Cons f fs)
  then show ?case
    by (cases "Suc n < 5") (auto simp: espresso_subscriber_step_def)
qed

lemma espresso_publisher_sent:
  "r \<noteq> -1 \<Longrightarrow> espresso_publisher_step (l, r) n = Inr (Next (n + 1), [[(espresso_content l (n + 1), False)]])"
  by (simp add: espresso_publisher_step_def Let_def)

lemma espresso_publisher_run:
  "\<forall>i \<in> set is. snd i \<noteq> -1 \<Longrightarrow>
    \<exists>c os. run espresso_publisher_step n is = Inr (Next c, os)
      \<and> map (hd \<circ> fst \<circ> hd) os = map fst is \<and> (\<forall>ps \<in> set os. fst (hd ps) \<noteq> [])"
proof (induction "is" arbitrary: n)
  case Nil
  then show ?case by simp
next
  case (Cons i "is")
  obtain l r where i: "i = (l, r)" by (cases i) auto
  with Cons.prems have step: "espresso_publisher_step i n = Inr (Next (n + 1), [[(espresso_content l (n + 1), False)]])"
    by (simp add: espresso_publisher_sent)
  from Cons.prems have "\<forall>i \<in> set is. snd i \<noteq> -1" by simp
  from Cons.IH [OF this, of "n + 1"] obtain c os where
    "run espresso_publisher_step (n + 1) is = Inr (Next c, os)"
    and m: "map (hd \<circ> fst \<circ> hd) os = map fst is" "\<forall>ps \<in> set os. fst (hd ps) \<noteq> []" by blast
  note run_Cons_Next [OF step this(1)]
  moreover have "hd (fst (hd [(espresso_content l (n + 1), False)])) = fst i"
    "espresso_content l (n + 1) \<noteq> []" by (simp_all add: espresso_content_def i)
  ultimately show ?case using m by (intro exI conjI) (assumption, auto simp: o_def)
qed

text \<open>
  The subscriber of the espresso tracer ends exactly when five of the random letters were among its
  two subscriptions.
\<close>

theorem espresso_subscriber:
  assumes "\<And>sub topic. delivers sub topic \<longleftrightarrow> prefix sub topic" and "\<forall>i \<in> set is. snd i \<noteq> -1"
  shows "\<exists>c os. run espresso_publisher_step 0 is = Inr (Next c, os)
    \<and> run espresso_subscriber_step 0 (map (\<lambda>f. Part f False)
          (filter (\<lambda>f. delivers ''A'' f \<or> delivers ''B'' f) (map (fst \<circ> hd) os)))
      = (let n = length (filter (\<lambda>l. l \<in> {CHR ''A'', CHR ''B''}) (map fst is))
         in Inr (if n < 5 then Next n else Halt 5, []))"
proof -
  from espresso_publisher_run [OF assms(2), of 0] obtain c os where
    r: "run espresso_publisher_step 0 is = Inr (Next c, os)"
    and m: "map (hd \<circ> fst \<circ> hd) os = map fst is" and ne: "\<forall>ps \<in> set os. fst (hd ps) \<noteq> []" by blast
  have "filter (\<lambda>f. delivers ''A'' f \<or> delivers ''B'' f) (map (fst \<circ> hd) os)
    = filter (\<lambda>f. hd f \<in> {CHR ''A'', CHR ''B''}) (map (fst \<circ> hd) os)"
  proof (rule filter_cong [OF refl])
    fix f
    assume "f \<in> set (map (fst \<circ> hd) os)"
    with ne obtain x xs where "f = x # xs" by (cases f) auto
    then show "(delivers ''A'' f \<or> delivers ''B'' f) = (hd f \<in> {CHR ''A'', CHR ''B''})"
      by (auto simp: assms(1))
  qed
  moreover have "length (filter (\<lambda>f. hd f \<in> {CHR ''A'', CHR ''B''}) (map (fst \<circ> hd) os))
    = length (filter (\<lambda>l. l \<in> {CHR ''A'', CHR ''B''}) (map fst is))"
    unfolding m [symmetric] by (simp add: filter_map o_def)
  ultimately show ?thesis
    by (intro exI [of _ c] exI [of _ os] conjI r) (simp add: espresso_subscriber_parts Let_def)
qed

subsection \<open>States are read in step\<close>

lemma peering1_remote_iff: "peering1_remote r peers \<longleftrightarrow> r \<or> (\<exists>p \<in> set peers. p \<noteq> ''localhost'')"
  by (induction peers arbitrary: r) auto

lemma peering1_self_local:
  "peering1_self host peers port = (if set peers \<subseteq> {''localhost''} then ''localhost'' else host) @ '':'' @ int_string port"
  by (auto simp: peering1_self_def peering1_remote_iff)

text \<open>
  Every state a broker publishes is read by its peer as one pair of name and number, so that after
  any number of rounds the peer has printed the drawn numbers, in order, under the name of the
  broker, and has left nothing unread.
\<close>

theorem peering1_states:
  "\<exists>os. run (peering1_step a) () (map (\<lambda>n. (0, None, n)) draws) = Inr (Next (), map P1Send os)
    \<and> run (peering1_step b) () (map (\<lambda>ps. (1, Some (wire ps), 0)) os) =
        Inr (Next (), map (\<lambda>n. P1Print (''peering1: ('' @ b @ ''): '' @ a @ '' - '' @ int_string n @
                                  '' workers available.'')) draws)"
proof (induction draws)
  case Nil
  then show ?case by simp
next
  case (Cons n draws)
  then obtain os where "run (peering1_step a) () (map (\<lambda>n. (0, None, n)) draws) = Inr (Next (), map P1Send os)"
    "run (peering1_step b) () (map (\<lambda>ps. (1, Some (wire ps), 0)) os) =
        Inr (Next (), map (\<lambda>n. P1Print (''peering1: ('' @ b @ ''): '' @ a @ '' - '' @ int_string n @
                                  '' workers available.'')) draws)" by blast
  note this [simp]
  have "peering1_step a (0, None, n) () = Inr (Next (), [P1Send [(a, True), (int_string n, False)]])"
    by (simp add: peering1_step_def)
  moreover have "peering1_step b (1, Some (wire [(a, True), (int_string n, False)]), 0) () =
      Inr (Next (), [P1Print (''peering1: ('' @ b @ ''): '' @ a @ '' - '' @ int_string n @ '' workers available.'')])"
    by (simp add: peering1_step_def)
  ultimately show ?case
    by (intro exI [of _ "[(a, True), (int_string n, False)] # os"]) simp
qed

end
