(* ===== verification/Readers.thy ===== *)
theory Readers
  imports Brokers
begin

text \<open>
  Three receive loops: the one that a signal ends (\<open>handling-interrupt-signals\<close>), and the two
  that serve a task and an update socket, by polling and by draining each without waiting
  (\<open>handling-multiple-sockets\<close>). The lemmas: no error ends the first loop and a signal does;
  the second gives both sockets their turn; the third does not, because its result variable is
  compared where it should be assigned.
\<close>

subsection \<open>A loop that a signal ends\<close>

datatype int_act = IntReceived frame | IntError | IntByUser

text \<open>
  One iteration: what the receive yields, whether the handler has run by the time the flag is tested,
  and whether it runs between that test and the next. Exceptions are caught inside the loop.
\<close>

definition interrupt_step :: "recv_event \<times> bool \<times> bool \<Rightarrow> bool \<Rightarrow> (bool ctl \<times> int_act list) res" where
  "interrupt_step i interrupted =
     (if interrupted then Inr (Halt interrupted, [])
      else let (e, before, after) = i;
               o1 = (case e of Part d _ \<Rightarrow> [IntReceived d] | NoPart _ \<Rightarrow> [] | RecvError \<Rightarrow> [IntError]);
               o2 = (if before then [IntByUser] else [])
           in Inr (Next (before \<or> after), o1 @ o2))"

lemma interrupt_run:
  "\<exists>c os. run interrupt_step False is = Inr (c, os)
    \<and> ((\<exists>s. c = Halt s) \<longleftrightarrow> (\<exists>i \<in> set (butlast is). fst (snd i) \<or> snd (snd i)))"
proof (induction "is")
  case Nil
  then show ?case by simp
next
  case (Cons i "is")
  obtain e b a where i: "i = (e, b, a)" by (cases i) auto
  then obtain o1 where step: "interrupt_step i False = Inr (Next (b \<or> a), o1)"
    by (simp add: interrupt_step_def Let_def)
  show ?case
  proof (cases "b \<or> a")
    case True
    show ?thesis
    proof (cases "is")
      case Nil
      with step True show ?thesis by simp
    next
      case (Cons j js)
      have "interrupt_step j True = Inr (Halt True, [])" by (simp add: interrupt_step_def)
      with Cons step True i show ?thesis by auto
    qed
  next
    case False
    with step have step': "interrupt_step i False = Inr (Next False, o1)" by simp
    from Cons.IH obtain c os where "run interrupt_step False is = Inr (c, os)"
      and h: "(\<exists>s. c = Halt s) \<longleftrightarrow> (\<exists>i \<in> set (butlast is). fst (snd i) \<or> snd (snd i))" by blast
    from run_Cons_Next [OF step' this(1)] h False i show ?thesis
      by (cases "is") auto
  qed
qed

subsection \<open>Two sockets, polled\<close>

datatype ms_act = MsTask frame | MsUpdate frame

definition mspoller_step ::
  "recv_event list option \<times> recv_event list option \<Rightarrow> unit \<Rightarrow> (unit ctl \<times> ms_act list) res" where
  "mspoller_step i s =
     (let (receiver, subscriber) = i
      in rbind (case receiver of None \<Rightarrow> Inr [] | Some es \<Rightarrow> res_map (\<lambda>(d, _). [MsTask d]) (recv_part es)) (\<lambda>o1.
           rbind (case subscriber of None \<Rightarrow> Inr [] | Some es \<Rightarrow> res_map (\<lambda>(d, _). [MsUpdate d]) (recv_part es)) (\<lambda>o2.
             Inr (Next s, o1 @ o2))))"

text \<open>Whatever the other socket does, a message that is ready is taken in the same round.\<close>

lemma mspoller_serves_both:
  "mspoller_step (Some (Part d m # es), Some (Part u n # fs)) s = Inr (Next s, [MsTask d, MsUpdate u])"
  "mspoller_step (Some (Part d m # es), None) s = Inr (Next s, [MsTask d])"
  "mspoller_step (None, Some (Part u n # fs)) s = Inr (Next s, [MsUpdate u])"
  by (simp_all add: mspoller_step_def)

subsection \<open>Two sockets, drained without waiting\<close>

text \<open>
  One of the two inner loops. The variable \<open>rc\<close> is never assigned: the condition compares the
  value it happens to have (a parameter) with the result of the receive, and the loop goes on while
  it is true. \<open>ev k\<close> is what the \<open>k\<close>-th receive on the socket yields (\<open>NoPart\<close>:
  nothing there); the result is what was handed to the processing, and the receives made.
\<close>

partial_function (option) msreader_drain ::
  "bool \<Rightarrow> (nat \<Rightarrow> recv_event) \<Rightarrow> nat \<Rightarrow> frame list \<Rightarrow> (frame list \<times> nat) res option" where
  "msreader_drain rc ev k processed =
     (case ev k of
        RecvError \<Rightarrow> Some (Inl Exception)
      | Part d _ \<Rightarrow>
          (let processed = (if (rc = True) = True then processed @ [d] else processed)
           in if rc = True then msreader_drain rc ev (Suc k) processed else Some (Inr (processed, Suc k)))
      | NoPart _ \<Rightarrow>
          (let processed = (if (rc = False) = True then processed @ [[]] else processed)
           in if rc = True then msreader_drain rc ev (Suc k) processed else Some (Inr (processed, Suc k))))"

text \<open>One round of the outer loop: tasks, then updates; \<open>None\<close> when it does not come round.\<close>

definition msreader_round ::
  "bool \<Rightarrow> (nat \<Rightarrow> recv_event) \<Rightarrow> (nat \<Rightarrow> recv_event) \<Rightarrow> nat \<times> nat
    \<Rightarrow> ((nat \<times> nat) \<times> frame list \<times> frame list) res option" where
  "msreader_round rc tasks updates ks =
     (case msreader_drain rc tasks (fst ks) [] of
        None \<Rightarrow> None
      | Some (Inl e) \<Rightarrow> Some (Inl e)
      | Some (Inr (ts, i)) \<Rightarrow>
          (case msreader_drain rc updates (snd ks) [] of
             None \<Rightarrow> None
           | Some (Inl e) \<Rightarrow> Some (Inl e)
           | Some (Inr (us, j)) \<Rightarrow> Some (Inr ((i, j), ts, us))))"

lemma msreader_drain_returns:
  "msreader_drain rc ev k processed = Some r \<Longrightarrow> rc \<longrightarrow> (\<exists>k. ev k = RecvError)"
proof (erule msreader_drain.raw_induct [where P = "\<lambda>rc ev k processed r. rc \<longrightarrow> (\<exists>k. ev k = RecvError)", rotated])
  fix drain rc ev k processed r
  assume IH: "\<And>rc ev k processed r. drain rc ev k processed = Some r \<Longrightarrow> rc \<longrightarrow> (\<exists>k. ev k = RecvError)"
    and eq: "(case ev k of
        RecvError \<Rightarrow> Some (Inl Exception)
      | Part d _ \<Rightarrow>
          (let processed = (if (rc = True) = True then processed @ [d] else processed)
           in if rc = True then drain rc ev (Suc k) processed else Some (Inr (processed, Suc k)))
      | NoPart _ \<Rightarrow>
          (let processed = (if (rc = False) = True then processed @ [[]] else processed)
           in if rc = True then drain rc ev (Suc k) processed else Some (Inr (processed, Suc k)))) = Some r"
  show "rc \<longrightarrow> (\<exists>k. ev k = RecvError)"
  proof (intro impI)
    assume rc
    show "\<exists>k. ev k = RecvError"
    proof (cases "ev k")
      case RecvError
      then show ?thesis by blast
    next
      case (Part d m)
      with eq \<open>rc\<close> have "drain rc ev (Suc k) (processed @ [d]) = Some r" by (simp add: Let_def)
      from IH [OF this] \<open>rc\<close> show ?thesis by blast
    next
      case (NoPart m)
      with eq \<open>rc\<close> have "drain rc ev (Suc k) processed = Some r" by (simp add: Let_def)
      from IH [OF this] \<open>rc\<close> show ?thesis by blast
    qed
  qed
qed

lemma msreader_drain_for_ever:
  assumes "\<And>k. ev k \<noteq> RecvError"
  shows "msreader_drain True ev k processed = None"
  using msreader_drain_returns [of True ev k processed] assms
  by (cases "msreader_drain True ev k processed") auto

definition not_processed :: "recv_event \<Rightarrow> frame list" where
  "not_processed e = (case e of Part _ _ \<Rightarrow> [] | _ \<Rightarrow> [[]])"

lemma msreader_drain_once:
  assumes "ev k \<noteq> RecvError"
  shows "msreader_drain False ev k [] = Some (Inr (not_processed (ev k), Suc k))"
  using assms by (cases "ev k") (simp_all add: msreader_drain.simps [of False ev k] not_processed_def)

text \<open>
  As long as no receive fails, a round of the reader either never ends, so that the updates are
  never read, or takes at most one message from each socket, hands no received message to the
  processing, and hands it an empty one exactly when nothing was received; which of the two is
  decided by the value the unassigned variable happens to have.
\<close>

theorem msreader_never_processes:
  assumes "\<And>k. tasks k \<noteq> RecvError" and "\<And>k. updates k \<noteq> RecvError"
  shows "msreader_round rc tasks updates (i, j) =
    (if rc then None
     else Some (Inr ((Suc i, Suc j),
            (case tasks i of Part _ _ \<Rightarrow> [] | _ \<Rightarrow> [[]]), (case updates j of Part _ _ \<Rightarrow> [] | _ \<Rightarrow> [[]]))))"
proof (cases rc)
  case True
  have "msreader_drain True tasks i [] = None" by (rule msreader_drain_for_ever) (rule assms(1))
  with True show ?thesis by (simp add: msreader_round_def)
next
  case False
  then show ?thesis
    using assms by (simp add: msreader_round_def msreader_drain_once not_processed_def)
qed

theorem msreader_never_processes_witness:
  "msreader_round False (\<lambda>_. Part ''task'' False) (\<lambda>_. NoPart False) (0, 0) = Some (Inr ((1, 1), [], [[]]))
    \<and> msreader_round True (\<lambda>_. Part ''task'' False) (\<lambda>_. NoPart False) (0, 0) = None"
  using msreader_never_processes [of "\<lambda>_. Part ''task'' False" "\<lambda>_. NoPart False" False 0 0]
    msreader_never_processes [of "\<lambda>_. Part ''task'' False" "\<lambda>_. NoPart False" True 0 0]
  by simp

end
