(* ===== verification/Sockets.thy ===== *)
theory Sockets
  imports LBBroker
begin

text \<open>
  The sockets of a system of threads: for each peer of a ROUTER socket the messages under way, in
  order, and what sending and receiving do to them. The threads of the programs take their numbers as
  identities, in hexadecimal; a row of sockets holds the messages of the first \<open>k\<close> of them.
\<close>

subsection \<open>Sending and receiving\<close>

definition enqueue :: "'p \<Rightarrow> msg \<Rightarrow> ('p \<Rightarrow> msg list) \<Rightarrow> ('p \<Rightarrow> msg list)" where
  "enqueue p m Q = Q(p := Q p @ [m])"

text \<open>What a ROUTER socket does with the messages it is given: each goes to the peer it names.\<close>

fun router_sends :: "zmq_envelope \<Rightarrow> part list list \<Rightarrow> (frame \<Rightarrow> msg list) \<Rightarrow> (frame \<Rightarrow> msg list)" where
  "router_sends Z [] Q = Q"
| "router_sends Z (ps # pss) Q =
     (let (p, m) = router_out Z (map fst ps) in router_sends Z pss (enqueue p m Q))"

definition sent_on :: "port \<Rightarrow> sent list \<Rightarrow> part list list" where
  "sent_on p os = map snd (filter (\<lambda>o'. fst o' = p) os)"

text \<open>
  What a poll and the receive after it take from a socket: the oldest message of some peer, or
  nothing, when the messages sent have not arrived yet.
\<close>

inductive takes :: "('p \<Rightarrow> msg list) \<Rightarrow> ('p \<times> msg) option \<Rightarrow> ('p \<Rightarrow> msg list) \<Rightarrow> bool" where
  takes_none: "takes Q None Q"
| takes_some: "Q p = m # ms \<Longrightarrow> takes Q (Some (p, m)) (Q(p := ms))"

lemma takes_Some: "takes Q (Some (p, m)) Q' \<longleftrightarrow> (\<exists>ms. Q p = m # ms \<and> Q' = Q(p := ms))"
  by (auto simp: takes.simps)

text \<open>The same for a socket with one peer; and what of the messages given to a ROUTER is for that peer.\<close>

inductive takes_first :: "msg list \<Rightarrow> msg option \<Rightarrow> msg list \<Rightarrow> bool" where
  takes_first_none: "takes_first ms None ms"
| takes_first_some: "takes_first (m # ms) (Some m) ms"

definition addressed :: "zmq_envelope \<Rightarrow> frame \<Rightarrow> part list list \<Rightarrow> msg list" where
  "addressed Z p pss = map snd (filter (\<lambda>(q, m). q = p) (map (\<lambda>ps. router_out Z (map fst ps)) pss))"

text \<open>A message lost on the way, of any peer, at any place in the row.\<close>

inductive loses :: "(frame \<Rightarrow> msg list) \<Rightarrow> (frame \<Rightarrow> msg list) \<Rightarrow> bool" where
  "Q p = ms @ m # ns \<Longrightarrow> loses Q (Q(p := ms @ ns))"

text \<open>Rows with messages of certain peers and of a certain form only.\<close>

definition rows_ok :: "(msg \<Rightarrow> bool) \<Rightarrow> frame set \<Rightarrow> (frame \<Rightarrow> msg list) \<Rightarrow> bool" where
  "rows_ok P ids Q \<longleftrightarrow> (\<forall>p. \<forall>m \<in> set (Q p). p \<in> ids \<and> P m)"

lemma rows_ok_upd: "rows_ok P ids Q \<Longrightarrow> (\<And>m. m \<in> set ms \<Longrightarrow> p \<in> ids \<and> P m) \<Longrightarrow> rows_ok P ids (Q(p := ms))"
  by (simp add: rows_ok_def)

lemma rows_ok_subset: "rows_ok P ids Q \<Longrightarrow> set ms \<subseteq> set (Q p) \<Longrightarrow> rows_ok P ids (Q(p := ms))"
  by (rule rows_ok_upd) (auto simp: rows_ok_def)

lemma rows_ok_enqueue: "rows_ok P ids Q \<Longrightarrow> p \<in> ids \<Longrightarrow> P m \<Longrightarrow> rows_ok P ids (enqueue p m Q)"
  unfolding enqueue_def by (rule rows_ok_upd) (auto simp: rows_ok_def)

lemma rows_okD: "rows_ok P ids Q \<Longrightarrow> Q p = m # ms \<Longrightarrow> p \<in> ids \<and> P m"
  unfolding rows_ok_def by (metis list.set_intros(1))

lemma rows_ok_mono: "rows_ok P ids Q \<Longrightarrow> ids \<subseteq> ids' \<Longrightarrow> rows_ok P ids' Q"
  by (auto simp: rows_ok_def)

lemma takes_rows: "takes Q r Q' \<Longrightarrow> rows_ok P ids Q \<Longrightarrow> rows_ok P ids Q'"
  by (erule takes.cases) (auto intro: rows_ok_subset)

lemma takes_member: "takes Q (Some (p, m)) Q' \<Longrightarrow> rows_ok P ids Q \<Longrightarrow> p \<in> ids \<and> P m"
  by (auto simp: takes_Some dest: rows_okD)

lemma loses_rows: "loses R Q \<Longrightarrow> rows_ok P ids R \<Longrightarrow> rows_ok P ids Q"
proof (erule loses.cases)
  fix T p ms m ns
  assume "R = T" "Q = T(p := ms @ ns)" "T p = ms @ m # ns" and "rows_ok P ids R"
  then show "rows_ok P ids Q" using rows_ok_subset [of P ids T "ms @ ns" p] by auto
qed

subsection \<open>Rows of sockets\<close>

text \<open>Messages under way, one row of sockets at a time, from what each thread's token says.\<close>

definition at_ids :: "nat \<Rightarrow> (nat \<Rightarrow> msg list) \<Rightarrow> frame \<Rightarrow> msg list" where
  "at_ids k f p = (if hex_value p < k \<and> p = lbb_id (hex_value p) then f (hex_value p) else [])"

lemma hex_value_id [simp]: "hex_value (lbb_id n) = n"
  by (simp add: lbb_id_def hex_value_pad_left)

lemma lbb_id_inject [simp]: "lbb_id m = lbb_id n \<longleftrightarrow> m = n"
  by (metis hex_value_id)

lemma lbb_id_words [simp]: "lbb_id n \<noteq> ''READY''" "lbb_id n \<noteq> ''KILL''" "''READY'' \<noteq> lbb_id n" "''KILL'' \<noteq> lbb_id n"
  using lbb_id_neq [of "CHR ''R''" "''READY''" n] lbb_id_neq [of "CHR ''K''" "''KILL''" n] by auto

lemma at_ids_id [simp]: "n < k \<Longrightarrow> at_ids k f (lbb_id n) = f n"
  by (simp add: at_ids_def)

lemma at_ids_upd [simp]: "n < k \<Longrightarrow> (at_ids k f)(lbb_id n := x) = at_ids k (f(n := x))"
  by (rule ext) (auto simp: at_ids_def)

lemma at_ids_cong: "(\<And>n. n < k \<Longrightarrow> f n = g n) \<Longrightarrow> at_ids k f = at_ids k g"
  by (rule ext) (simp add: at_ids_def)

lemma enqueue_at_ids [simp]: "n < k \<Longrightarrow> enqueue (lbb_id n) m (at_ids k f) = at_ids k (f(n := f n @ [m]))"
  by (simp add: enqueue_def)

lemma at_ids_Cons: "at_ids k f p = m # ms \<Longrightarrow> \<exists>n < k. p = lbb_id n \<and> f n = m # ms"
  by (auto simp: at_ids_def split: if_splits)

lemma takes_at_ids:
  "takes (at_ids k f) r Q \<longleftrightarrow> r = None \<and> Q = at_ids k f
    \<or> (\<exists>n < k. \<exists>m ms. f n = m # ms \<and> r = Some (lbb_id n, m) \<and> Q = at_ids k (f(n := ms)))"
  (is "_ \<longleftrightarrow> ?none \<or> ?some")
proof
  show "takes (at_ids k f) r Q \<Longrightarrow> ?none \<or> ?some"
  proof (erule takes.cases)
    fix p m ms Q'
    assume "at_ids k f = Q'" "r = Some (p, m)" "Q = Q'(p := ms)" "Q' p = m # ms"
    then show ?thesis using at_ids_Cons [of k f p m ms] by auto
  qed auto
  show "?none \<or> ?some \<Longrightarrow> takes (at_ids k f) r Q"
  proof (elim disjE exE conjE)
    assume "r = None" "Q = at_ids k f"
    then show ?thesis using takes_none [of "at_ids k f"] by simp
  next
    fix n m ms
    assume "n < k" "f n = m # ms" "r = Some (lbb_id n, m)" "Q = at_ids k (f(n := ms))"
    then show ?thesis using takes_some [of "at_ids k f" "lbb_id n" m ms] by simp
  qed
qed

lemma takes_at_idsI:
  "n < k \<Longrightarrow> f n = m # ms \<Longrightarrow> takes (at_ids k f) (Some (lbb_id n, m)) (at_ids k (f(n := ms)))"
  unfolding takes_at_ids by blast

lemma at_ids_same:
  "(\<And>i. i < k \<Longrightarrow> f (g i) = f (h i)) \<Longrightarrow> at_ids k (f \<circ> g) = at_ids k (f \<circ> h)"
  by (rule at_ids_cong) simp

lemma sent_on_simps [simp]:
  "sent_on p [] = []" "sent_on p ((q, ps) # os) = (if q = p then ps # sent_on p os else sent_on p os)"
  "sent_on p (os @ os') = sent_on p os @ sent_on p os'"
  by (simp_all add: sent_on_def)

lemma upd_same: "f x = y \<Longrightarrow> f(x := y) = f"
  by auto

lemma at_ids_nil: "at_ids k (\<lambda>_. []) = (\<lambda>_. [])"
  by (rule ext) (simp add: at_ids_def)

end
