(* ===== verification/Systems.thy ===== *)
theory Systems
  imports Prelude
begin

text \<open>
  Systems of several threads as step relations: reachable states are those the reflexive transitive
  closure gives, a run of \<open>n\<close> steps is the \<open>n\<close>-th power of the relation. Three
  interfaces: a relation with an invariant; one whose every step raises a bounded rank, so that all
  runs end; and a relation that another, more abstract one simulates in both directions through a
  function from abstract to concrete states.
\<close>

definition stuck :: "('s \<Rightarrow> 's \<Rightarrow> bool) \<Rightarrow> 's \<Rightarrow> bool" where
  "stuck step s \<longleftrightarrow> (\<forall>t. \<not> step s t)"

lemma stuckD: "stuck step s \<Longrightarrow> step s t \<Longrightarrow> P"
  by (simp add: stuck_def)

text \<open>Moving one of \<open>k\<close> tokens changes a sum of ranks by its own.\<close>

lemma sum_upd_at: "(n::nat) < k \<Longrightarrow> (\<Sum>i < k. f i ((g(n := x)) i)) + f n (g n) = (\<Sum>i < k. f i (g i)) + (f n x :: nat)"
proof -
  assume "(n::nat) < k"
  then have "(\<Sum>i < k. h i) = h n + (\<Sum>i \<in> {..<k} - {n}. h i)" for h :: "nat \<Rightarrow> nat"
    by (intro sum.remove) simp_all
  then show ?thesis by (simp add: add.commute)
qed

lemma sum_change_at:
  fixes g h :: "nat \<Rightarrow> 'm::comm_monoid_add"
  assumes "n < k" and "\<And>i. i < k \<Longrightarrow> i \<noteq> n \<Longrightarrow> g i = h i"
  shows "(\<Sum>i < k. g i) + h n = (\<Sum>i < k. h i) + g n"
proof -
  have "(\<Sum>i < k. f i) = f n + (\<Sum>i \<in> {..<k} - {n}. f i)" for f :: "nat \<Rightarrow> 'm"
    using assms(1) by (intro sum.remove) simp_all
  moreover have "(\<Sum>i \<in> {..<k} - {n}. g i) = (\<Sum>i \<in> {..<k} - {n}. h i)"
    using assms(2) by (intro sum.cong) auto
  ultimately show ?thesis by (simp add: ac_simps)
qed

lemmas sum_upd = sum_upd_at [where f = "\<lambda>_. f" for f]

locale invariant_system =
  fixes start :: 's and step :: "'s \<Rightarrow> 's \<Rightarrow> bool" and inv :: "'s \<Rightarrow> bool"
  assumes inv_start: "inv start"
    and inv_step: "inv s \<Longrightarrow> step s t \<Longrightarrow> inv t"
begin

lemma inv_steps: "step\<^sup>*\<^sup>* s t \<Longrightarrow> inv s \<Longrightarrow> inv t"
  by (induction rule: rtranclp_induct) (auto dest: inv_step)

lemma inv_reachable: "step\<^sup>*\<^sup>* start t \<Longrightarrow> inv t"
  by (rule inv_steps [OF _ inv_start])

end

locale terminating_system = invariant_system +
  fixes rank :: "'a \<Rightarrow> nat" and bound :: nat
  assumes rank_step: "inv s \<Longrightarrow> step s t \<Longrightarrow> rank s < rank t"
    and rank_bound: "inv s \<Longrightarrow> rank s \<le> bound"
begin

lemma rank_run: "(step ^^ n) s t \<Longrightarrow> inv s \<Longrightarrow> inv t \<and> rank s + n \<le> rank t"
proof (induction n arbitrary: t)
  case 0
  then show ?case by simp
next
  case (Suc n)
  then obtain u where u: "(step ^^ n) s u" "step u t" by auto
  with Suc have "inv u" "rank s + n \<le> rank u" by auto
  with inv_step [OF _ u(2)] rank_step [OF _ u(2)] show ?case by fastforce
qed

text \<open>No run is longer than the bound, and every run can be continued to one that is stuck.\<close>

lemma run_bounded: "(step ^^ n) start t \<Longrightarrow> n \<le> bound"
  using rank_run [OF _ inv_start] rank_bound by fastforce

lemma reaches_stuck: "inv s \<Longrightarrow> \<exists>t. step\<^sup>*\<^sup>* s t \<and> stuck step t"
proof (induction "bound - rank s" arbitrary: s rule: less_induct)
  case less
  show ?case
  proof (cases "stuck step s")
    case True
    then show ?thesis by blast
  next
    case False
    then obtain t where t: "step s t" by (auto simp: stuck_def)
    have "inv t" by (rule inv_step [OF less.prems t])
    moreover have "bound - rank t < bound - rank s"
      using rank_step [OF less.prems t] rank_bound [OF \<open>inv t\<close>] by simp
    ultimately obtain u where "step\<^sup>*\<^sup>* t u" "stuck step u" using less.hyps by blast
    with t show ?thesis by (meson converse_rtranclp_into_rtranclp)
  qed
qed

end

text \<open>
  \<open>conc\<close> makes a concrete state from an abstract one; the two laws say that, where the abstract
  invariant holds, the steps are the same.
\<close>

locale token_refinement = abs: invariant_system astart astep ainv
  for astart :: 'a and astep :: "'a \<Rightarrow> 'a \<Rightarrow> bool" and ainv :: "'a \<Rightarrow> bool" +
  fixes cstep :: "'c \<Rightarrow> 'c \<Rightarrow> bool" and conc :: "'a \<Rightarrow> 'c"
  assumes step_forth: "ainv a \<Longrightarrow> cstep (conc a) t \<Longrightarrow> \<exists>b. astep a b \<and> t = conc b"
    and step_back: "ainv a \<Longrightarrow> astep a b \<Longrightarrow> cstep (conc a) (conc b)"
begin

lemma run_forth: "(cstep ^^ n) (conc a) t \<Longrightarrow> ainv a \<Longrightarrow> \<exists>b. (astep ^^ n) a b \<and> ainv b \<and> t = conc b"
proof (induction n arbitrary: t)
  case 0
  then show ?case by auto
next
  case (Suc n)
  then obtain u where u: "(cstep ^^ n) (conc a) u" "cstep u t" by auto
  with Suc obtain b where b: "(astep ^^ n) a b" "ainv b" "u = conc b" by blast
  with u(2) step_forth obtain c where c: "astep b c" "t = conc c" by blast
  with b abs.inv_step show ?case by (metis relpowp_Suc_I)
qed

lemma run_back: "(astep ^^ n) a b \<Longrightarrow> ainv a \<Longrightarrow> (cstep ^^ n) (conc a) (conc b)"
proof (induction n arbitrary: b)
  case 0
  then show ?case by auto
next
  case (Suc n)
  then obtain c where c: "(astep ^^ n) a c" "astep c b" by auto
  with Suc.prems have "ainv c" using abs.inv_steps relpowp_imp_rtranclp by metis
  with Suc c step_back show ?case by (metis relpowp_Suc_I)
qed

lemma reach_forth: "cstep\<^sup>*\<^sup>* (conc a) t \<Longrightarrow> ainv a \<Longrightarrow> \<exists>b. astep\<^sup>*\<^sup>* a b \<and> ainv b \<and> t = conc b"
  by (metis rtranclp_imp_relpowp run_forth relpowp_imp_rtranclp)

lemma reach_back: "astep\<^sup>*\<^sup>* a b \<Longrightarrow> ainv a \<Longrightarrow> cstep\<^sup>*\<^sup>* (conc a) (conc b)"
  by (metis rtranclp_imp_relpowp run_back relpowp_imp_rtranclp)

lemma reachable_iff: "cstep\<^sup>*\<^sup>* (conc astart) t \<longleftrightarrow> (\<exists>b. astep\<^sup>*\<^sup>* astart b \<and> t = conc b)"
  using reach_forth reach_back abs.inv_start by blast

lemma stuck_iff: "ainv a \<Longrightarrow> stuck cstep (conc a) \<longleftrightarrow> stuck astep a"
  unfolding stuck_def using step_forth step_back by metis

end

end
