(* ===== verification/LBTokens.thy ===== *)
theory LBTokens
  imports Systems
begin

text \<open>
  A machine that moves tokens: what the threads of the load balancing broker do, without their
  messages. It keeps an invariant, every step raises a bounded rank, and when it can do nothing more
  every client has been served. \<open>LBSystem\<close> shows that the program is this machine.
\<close>

text \<open>\<open>client_count\<close> and \<open>worker_count\<close> of \<open>main\<close>; the threads get the numbers below.\<close>

definition lbb_clients :: nat where
  "lbb_clients = 10"

definition lbb_workers :: nat where
  "lbb_workers = 3"

subsection \<open>The token machine\<close>

text \<open>
  Where a client's request is, and what a worker is doing: a request, or its reply, is on the way to or
  from a worker when the client is \<open>CBusy\<close> or \<open>CBack\<close> with the number of the worker, and the
  worker \<open>WBusy\<close> or \<open>WBack\<close> with the number of the client.
\<close>

datatype client_token = CNew | CAsked | CBusy nat | CBack nat | CAnswered | CEnd

datatype worker_token = WNew | WReady | WIdle | WBusy nat | WBack nat | WKilled | WEnd

datatype main_token = TLoop | TJoin | TKilled

record tok =
  tok_main :: main_token
  tok_queue :: "nat list"
  tok_client :: "nat \<Rightarrow> client_token"
  tok_worker :: "nat \<Rightarrow> worker_token"

definition tok_init :: tok where
  "tok_init = \<lparr>tok_main = TLoop, tok_queue = [], tok_client = (\<lambda>_. CNew), tok_worker = (\<lambda>_. WNew)\<rparr>"

definition answered :: "client_token \<Rightarrow> bool" where
  "answered c \<longleftrightarrow> c = CAnswered \<or> c = CEnd"

text \<open>The number of replies \<open>main\<close> still waits for.\<close>

definition missing :: "(nat \<Rightarrow> client_token) \<Rightarrow> nat" where
  "missing cl = card {n. n < lbb_clients \<and> \<not> answered (cl n)}"

definition awaiting :: "worker_token \<Rightarrow> bool" where
  "awaiting w \<longleftrightarrow> w = WReady \<or> (\<exists>n. w = WBack n)"

text \<open>
  The back end of one round of the broker, and its front end, with the queue before the round. A
  message that was sent may not have arrived yet, so either may find nothing.
\<close>

inductive tok_back :: "tok \<Rightarrow> tok \<Rightarrow> bool" where
  back_none: "tok_back a a"
| back_ready: "m < lbb_workers \<Longrightarrow> tok_worker a m = WReady \<Longrightarrow>
    tok_back a (a\<lparr>tok_queue := tok_queue a @ [m], tok_worker := (tok_worker a)(m := WIdle)\<rparr>)"
| back_reply: "m < lbb_workers \<Longrightarrow> tok_worker a m = WBack n \<Longrightarrow>
    tok_back a (a\<lparr>tok_queue := tok_queue a @ [m], tok_client := (tok_client a)(n := CAnswered),
      tok_worker := (tok_worker a)(m := WIdle)\<rparr>)"

inductive tok_front :: "nat list \<Rightarrow> tok \<Rightarrow> tok \<Rightarrow> bool" where
  front_unpolled: "tok_front [] a a"
| front_none: "q \<noteq> [] \<Longrightarrow> tok_front q a a"
| front_request: "q \<noteq> [] \<Longrightarrow> n < lbb_clients \<Longrightarrow> tok_client a n = CAsked \<Longrightarrow> tok_queue a = m # ms \<Longrightarrow>
    tok_front q a (a\<lparr>tok_queue := ms, tok_client := (tok_client a)(n := CBusy m),
      tok_worker := (tok_worker a)(m := WBusy n)\<rparr>)"

inductive tok_step :: "tok \<Rightarrow> tok \<Rightarrow> bool" where
  tok_asks: "n < lbb_clients \<Longrightarrow> tok_client a n = CNew \<Longrightarrow>
    tok_step a (a\<lparr>tok_client := (tok_client a)(n := CAsked)\<rparr>)"
| tok_ends: "n < lbb_clients \<Longrightarrow> tok_client a n = CAnswered \<Longrightarrow>
    tok_step a (a\<lparr>tok_client := (tok_client a)(n := CEnd)\<rparr>)"
| tok_ready: "m < lbb_workers \<Longrightarrow> tok_worker a m = WNew \<Longrightarrow>
    tok_step a (a\<lparr>tok_worker := (tok_worker a)(m := WReady)\<rparr>)"
| tok_works: "m < lbb_workers \<Longrightarrow> tok_worker a m = WBusy n \<Longrightarrow>
    tok_step a (a\<lparr>tok_client := (tok_client a)(n := CBack m), tok_worker := (tok_worker a)(m := WBack n)\<rparr>)"
| tok_stops: "m < lbb_workers \<Longrightarrow> tok_worker a m = WKilled \<Longrightarrow>
    tok_step a (a\<lparr>tok_worker := (tok_worker a)(m := WEnd)\<rparr>)"
| tok_round: "tok_main a = TLoop \<Longrightarrow> tok_back a b \<Longrightarrow> missing (tok_client b) \<noteq> 0 \<Longrightarrow>
    tok_front (tok_queue a) b c \<Longrightarrow> c \<noteq> a \<Longrightarrow> tok_step a c"
| tok_last: "tok_main a = TLoop \<Longrightarrow> tok_back a b \<Longrightarrow> missing (tok_client b) = 0 \<Longrightarrow>
    tok_step a (b\<lparr>tok_main := TJoin\<rparr>)"
| tok_kills: "tok_main a = TJoin \<Longrightarrow> \<forall>n < lbb_clients. tok_client a n = CEnd \<Longrightarrow>
    tok_step a (a\<lparr>tok_main := TKilled, tok_queue := [],
      tok_worker := (\<lambda>m. if m \<in> set (tok_queue a) then WKilled else tok_worker a m)\<rparr>)"

subsection \<open>The machine keeps its books\<close>

text \<open>
  The queue holds the idle workers, once each, and clients and workers agree on who works for whom.
\<close>

definition tok_core :: "tok \<Rightarrow> bool" where
  "tok_core a \<longleftrightarrow> distinct (tok_queue a)
     \<and> (\<forall>m. m \<in> set (tok_queue a) \<longleftrightarrow> m < lbb_workers \<and> tok_worker a m = WIdle)
     \<and> (\<forall>m n. m < lbb_workers \<and> tok_worker a m = WBusy n \<longleftrightarrow> n < lbb_clients \<and> tok_client a n = CBusy m)
     \<and> (\<forall>m n. m < lbb_workers \<and> tok_worker a m = WBack n \<longleftrightarrow> n < lbb_clients \<and> tok_client a n = CBack m)"

definition tok_inv :: "tok \<Rightarrow> bool" where
  "tok_inv a \<longleftrightarrow> tok_core a \<and> (tok_main a = TLoop \<longleftrightarrow> missing (tok_client a) \<noteq> 0)
     \<and> (tok_main a = TKilled \<longrightarrow> (\<forall>n < lbb_clients. tok_client a n = CEnd)
          \<and> (\<forall>m < lbb_workers. tok_worker a m \<noteq> WIdle))
     \<and> (tok_main a \<noteq> TKilled \<longrightarrow> (\<forall>m < lbb_workers. tok_worker a m \<noteq> WKilled \<and> tok_worker a m \<noteq> WEnd))"

lemma tok_coreD:
  assumes "tok_core a"
  shows "distinct (tok_queue a)"
    "m \<in> set (tok_queue a) \<longleftrightarrow> m < lbb_workers \<and> tok_worker a m = WIdle"
    "m < lbb_workers \<Longrightarrow> tok_worker a m = WBusy n \<Longrightarrow> n < lbb_clients \<and> tok_client a n = CBusy m"
    "m < lbb_workers \<Longrightarrow> tok_worker a m = WBack n \<Longrightarrow> n < lbb_clients \<and> tok_client a n = CBack m"
    "n < lbb_clients \<Longrightarrow> tok_client a n = CBusy m \<Longrightarrow> m < lbb_workers \<and> tok_worker a m = WBusy n"
    "n < lbb_clients \<Longrightarrow> tok_client a n = CBack m \<Longrightarrow> m < lbb_workers \<and> tok_worker a m = WBack n"
  using assms unfolding tok_core_def by blast+

lemma tok_coreI:
  assumes "distinct (tok_queue a)"
    and "\<And>m. m \<in> set (tok_queue a) \<longleftrightarrow> m < lbb_workers \<and> tok_worker a m = WIdle"
    and "\<And>m n. m < lbb_workers \<and> tok_worker a m = WBusy n \<longleftrightarrow> n < lbb_clients \<and> tok_client a n = CBusy m"
    and "\<And>m n. m < lbb_workers \<and> tok_worker a m = WBack n \<longleftrightarrow> n < lbb_clients \<and> tok_client a n = CBack m"
  shows "tok_core a"
  using assms unfolding tok_core_def by blast

lemma tok_core_init: "tok_core tok_init"
  by (simp add: tok_core_def tok_init_def)

lemma tok_core_main [simp]: "tok_core (a\<lparr>tok_main := x\<rparr>) = tok_core a"
  by (simp add: tok_core_def)

text \<open>A move of one client, of one worker, and of both and the queue.\<close>

lemma tok_core_client:
  assumes "tok_core a" and "tok_client a n \<in> {CNew, CAsked, CAnswered, CEnd}" and "c \<in> {CNew, CAsked, CAnswered, CEnd}"
  shows "tok_core (a\<lparr>tok_client := (tok_client a)(n := c)\<rparr>)" (is "tok_core ?b")
proof -
  have c: "c \<noteq> CBusy m" "c \<noteq> CBack m" "tok_client a n \<noteq> CBusy m" "tok_client a n \<noteq> CBack m" for m
    using assms(2,3) by auto
  have "tok_client ?b k = CBusy m \<longleftrightarrow> tok_client a k = CBusy m" "tok_client ?b k = CBack m \<longleftrightarrow> tok_client a k = CBack m" for k m
    using c by simp_all
  then show ?thesis using assms(1) unfolding tok_core_def by simp
qed

lemma tok_core_worker:
  assumes "tok_core a" and "tok_worker a m \<in> {WNew, WReady, WKilled, WEnd}" and "w \<in> {WNew, WReady, WKilled, WEnd}"
  shows "tok_core (a\<lparr>tok_worker := (tok_worker a)(m := w)\<rparr>)" (is "tok_core ?b")
proof -
  have w: "w \<noteq> WIdle" "w \<noteq> WBusy n" "w \<noteq> WBack n"
    "tok_worker a m \<noteq> WIdle" "tok_worker a m \<noteq> WBusy n" "tok_worker a m \<noteq> WBack n" for n
    using assms(2,3) by auto
  have "tok_worker ?b k = WIdle \<longleftrightarrow> tok_worker a k = WIdle" "tok_worker ?b k = WBusy n \<longleftrightarrow> tok_worker a k = WBusy n"
    "tok_worker ?b k = WBack n \<longleftrightarrow> tok_worker a k = WBack n" for k n
    using w by simp_all
  then show ?thesis using assms(1) unfolding tok_core_def by simp
qed

lemma tok_core_pair:
  assumes core: "tok_core a" and m: "m < lbb_workers" and n: "n < lbb_clients"
    and only_n: "\<And>k. k < lbb_clients \<Longrightarrow> tok_client a k = CBusy m \<or> tok_client a k = CBack m \<Longrightarrow> k = n"
    and only_m: "\<And>k. k < lbb_workers \<Longrightarrow> tok_worker a k = WBusy n \<or> tok_worker a k = WBack n \<Longrightarrow> k = m"
    and wc: "w = WBusy n \<and> c = CBusy m \<or> w = WBack n \<and> c = CBack m \<or> w = WIdle \<and> c = CAnswered"
    and q: "distinct q" "m \<in> set q \<longleftrightarrow> w = WIdle" "\<And>k. k \<noteq> m \<Longrightarrow> k \<in> set q \<longleftrightarrow> k \<in> set (tok_queue a)"
  shows "tok_core (a\<lparr>tok_queue := q, tok_client := (tok_client a)(n := c), tok_worker := (tok_worker a)(m := w)\<rparr>)"
    (is "tok_core ?b")
proof (rule tok_coreI)
  show "distinct (tok_queue ?b)" using q(1) by simp
  show "k \<in> set (tok_queue ?b) \<longleftrightarrow> k < lbb_workers \<and> tok_worker ?b k = WIdle" for k
    using q(2,3) m tok_coreD(2) [OF core] by simp
  show "k < lbb_workers \<and> tok_worker ?b k = WBusy j \<longleftrightarrow> j < lbb_clients \<and> tok_client ?b j = CBusy k" for k j
  proof (cases "k = m"; cases "j = n")
    assume "k = m" "j = n"
    then show ?thesis using m n wc by auto
  next
    assume "k = m" "j \<noteq> n"
    then show ?thesis using wc only_n [of j] by auto
  next
    assume "k \<noteq> m" "j = n"
    then show ?thesis using wc only_m [of k] by auto
  next
    assume "k \<noteq> m" "j \<noteq> n"
    then show ?thesis using tok_coreD(3) [OF core, of k j] tok_coreD(5) [OF core, of j k] by auto
  qed
  show "k < lbb_workers \<and> tok_worker ?b k = WBack j \<longleftrightarrow> j < lbb_clients \<and> tok_client ?b j = CBack k" for k j
  proof (cases "k = m"; cases "j = n")
    assume "k = m" "j = n"
    then show ?thesis using m n wc by auto
  next
    assume "k = m" "j \<noteq> n"
    then show ?thesis using wc only_n [of j] by auto
  next
    assume "k \<noteq> m" "j = n"
    then show ?thesis using wc only_m [of k] by auto
  next
    assume "k \<noteq> m" "j \<noteq> n"
    then show ?thesis using tok_coreD(4) [OF core, of k j] tok_coreD(6) [OF core, of j k] by auto
  qed
qed

lemma tok_core_back: "tok_back a b \<Longrightarrow> tok_core a \<Longrightarrow> tok_core b"
proof (induction rule: tok_back.induct)
  case (back_none a)
  then show ?case by simp
next
  case (back_ready m a)
  have q: "m \<notin> set (tok_queue a)" using back_ready by (simp add: tok_coreD(2))
  show ?case
  proof (rule tok_coreI)
    show "distinct (tok_queue (a\<lparr>tok_queue := tok_queue a @ [m], tok_worker := (tok_worker a)(m := WIdle)\<rparr>))"
      using q tok_coreD(1) [OF back_ready.prems] by simp
  next
    fix k
    show "k \<in> set (tok_queue (a\<lparr>tok_queue := tok_queue a @ [m], tok_worker := (tok_worker a)(m := WIdle)\<rparr>))
      \<longleftrightarrow> k < lbb_workers \<and> tok_worker (a\<lparr>tok_queue := tok_queue a @ [m], tok_worker := (tok_worker a)(m := WIdle)\<rparr>) k = WIdle"
      using back_ready by (auto simp: tok_coreD(2))
  next
    fix k n
    have "tok_worker a m \<noteq> WBusy n" "tok_worker a m \<noteq> WBack n" using back_ready.hyps(2) by auto
    with back_ready.prems show
      "k < lbb_workers \<and> tok_worker (a\<lparr>tok_queue := tok_queue a @ [m], tok_worker := (tok_worker a)(m := WIdle)\<rparr>) k = WBusy n
        \<longleftrightarrow> n < lbb_clients \<and> tok_client (a\<lparr>tok_queue := tok_queue a @ [m], tok_worker := (tok_worker a)(m := WIdle)\<rparr>) n = CBusy k"
      "k < lbb_workers \<and> tok_worker (a\<lparr>tok_queue := tok_queue a @ [m], tok_worker := (tok_worker a)(m := WIdle)\<rparr>) k = WBack n
        \<longleftrightarrow> n < lbb_clients \<and> tok_client (a\<lparr>tok_queue := tok_queue a @ [m], tok_worker := (tok_worker a)(m := WIdle)\<rparr>) n = CBack k"
      unfolding tok_core_def by auto
  qed
next
  case (back_reply m a n)
  note core = back_reply.prems
  have m: "m \<notin> set (tok_queue a)" using back_reply by (simp add: tok_coreD(2))
  have n: "n < lbb_clients" "tok_client a n = CBack m" using tok_coreD(4) [OF core back_reply.hyps] by simp_all
  have "tok_core (a\<lparr>tok_queue := tok_queue a @ [m], tok_client := (tok_client a)(n := CAnswered),
      tok_worker := (tok_worker a)(m := WIdle)\<rparr>)"
  proof (rule tok_core_pair [OF core back_reply.hyps(1) n(1)])
    show "k = n" if "k < lbb_clients" "tok_client a k = CBusy m \<or> tok_client a k = CBack m" for k
      using that tok_coreD(5,6) [OF core that(1), of m] back_reply.hyps(2) by auto
    show "k = m" if "k < lbb_workers" "tok_worker a k = WBusy n \<or> tok_worker a k = WBack n" for k
      using that tok_coreD(3,4) [OF core that(1), of n] n(2) by auto
  qed (use m tok_coreD(1) [OF core] in auto)
  then show ?case by simp
qed

lemma tok_core_front: "tok_front q a b \<Longrightarrow> tok_core a \<Longrightarrow> tok_core b"
proof (induction rule: tok_front.induct)
  case (front_request q n a m ms)
  note core = front_request.prems
  have m: "m < lbb_workers" "tok_worker a m = WIdle" using front_request.hyps(4) tok_coreD(2) [OF core, of m] by simp_all
  show ?case
  proof (rule tok_core_pair [OF core m(1) front_request.hyps(2)])
    show "k = n" if "k < lbb_clients" "tok_client a k = CBusy m \<or> tok_client a k = CBack m" for k
      using that tok_coreD(5,6) [OF core that(1), of m] m(2) by auto
    show "k = m" if "k < lbb_workers" "tok_worker a k = WBusy n \<or> tok_worker a k = WBack n" for k
      using that tok_coreD(3,4) [OF core that(1), of n] front_request.hyps(3) by auto
  qed (use front_request.hyps(4) tok_coreD(1) [OF core] in auto)
qed simp_all

lemma tok_core_works:
  assumes core: "tok_core a" and w: "m < lbb_workers" "tok_worker a m = WBusy n"
  shows "tok_core (a\<lparr>tok_client := (tok_client a)(n := CBack m), tok_worker := (tok_worker a)(m := WBack n)\<rparr>)"
proof -
  have n: "n < lbb_clients" "tok_client a n = CBusy m" using tok_coreD(3) [OF core w] by simp_all
  have "tok_core (a\<lparr>tok_queue := tok_queue a, tok_client := (tok_client a)(n := CBack m),
      tok_worker := (tok_worker a)(m := WBack n)\<rparr>)"
  proof (rule tok_core_pair [OF core w(1) n(1)])
    show "k = n" if "k < lbb_clients" "tok_client a k = CBusy m \<or> tok_client a k = CBack m" for k
      using that tok_coreD(5,6) [OF core that(1), of m] w(2) by auto
    show "k = m" if "k < lbb_workers" "tok_worker a k = WBusy n \<or> tok_worker a k = WBack n" for k
      using that tok_coreD(3,4) [OF core that(1), of n] n(2) by auto
  qed (use w tok_coreD(1,2) [OF core] in auto)
  then show ?thesis by simp
qed

subsection \<open>The invariant of the machine\<close>

lemma missing_cong: "(\<And>n. n < lbb_clients \<Longrightarrow> answered (f n) = answered (g n)) \<Longrightarrow> missing f = missing g"
  unfolding missing_def by (rule arg_cong [of _ _ card]) auto

lemma missing_zero: "missing f = 0 \<longleftrightarrow> (\<forall>n < lbb_clients. answered (f n))"
  by (auto simp: missing_def)

lemma missing_upd:
  assumes "n < lbb_clients" and "\<not> answered (f n)" and "answered c"
  shows "missing f = Suc (missing (f(n := c)))"
proof -
  have "{k. k < lbb_clients \<and> \<not> answered (f k)} = insert n {k. k < lbb_clients \<and> \<not> answered ((f(n := c)) k)}"
    using assms by auto
  then show ?thesis using assms(3) by (simp add: missing_def card_insert_if)
qed

lemma missing_init: "missing (\<lambda>_. CNew) = lbb_clients"
  by (simp add: missing_def answered_def)

lemma missing_same: "answered (f n) = answered c \<Longrightarrow> missing (f(n := c)) = missing f"
  by (rule missing_cong) simp

lemma tok_back_frame: "tok_back a b \<Longrightarrow> tok_main b = tok_main a"
  by (induction rule: tok_back.induct) simp_all

lemma tok_front_frame: "tok_front q a b \<Longrightarrow> tok_main b = tok_main a \<and> missing (tok_client b) = missing (tok_client a)"
proof (induction rule: tok_front.induct)
  case (front_request q n a m ms)
  then have "missing ((tok_client a)(n := CBusy m)) = missing (tok_client a)"
    by (intro missing_same) (simp add: answered_def)
  then show ?case by (simp del: fun_upd_apply)
qed simp_all

lemma tok_back_alive:
  "tok_back a b \<Longrightarrow> \<forall>m < lbb_workers. tok_worker a m \<noteq> WKilled \<and> tok_worker a m \<noteq> WEnd \<Longrightarrow>
    \<forall>m < lbb_workers. tok_worker b m \<noteq> WKilled \<and> tok_worker b m \<noteq> WEnd"
  by (induction rule: tok_back.induct) auto

lemma tok_front_alive:
  "tok_front q a b \<Longrightarrow> \<forall>m < lbb_workers. tok_worker a m \<noteq> WKilled \<and> tok_worker a m \<noteq> WEnd \<Longrightarrow>
    \<forall>m < lbb_workers. tok_worker b m \<noteq> WKilled \<and> tok_worker b m \<noteq> WEnd"
  by (induction rule: tok_front.induct) auto

lemma tok_inv_init: "tok_inv tok_init"
  by (simp add: tok_inv_def tok_core_init) (simp add: tok_init_def missing_init lbb_clients_def)

lemma tok_inv_step: "tok_inv a \<Longrightarrow> tok_step a b \<Longrightarrow> tok_inv b"
proof (erule tok_step.cases)
  fix n a'
  assume inv: "tok_inv a" and e: "a = a'" "b = a'\<lparr>tok_client := (tok_client a')(n := CAsked)\<rparr>"
    and n: "n < lbb_clients" "tok_client a' n = CNew"
  have core: "tok_core b" unfolding e(2) by (rule tok_core_client) (use inv n e in \<open>simp_all add: tok_inv_def\<close>)
  have "missing (tok_client b) = missing (tok_client a)"
    using e n by (intro missing_cong) (auto simp: answered_def)
  with inv core e n show "tok_inv b" by (auto simp: tok_inv_def)
next
  fix n a'
  assume inv: "tok_inv a" and e: "a = a'" "b = a'\<lparr>tok_client := (tok_client a')(n := CEnd)\<rparr>"
    and n: "n < lbb_clients" "tok_client a' n = CAnswered"
  have core: "tok_core b" unfolding e(2) by (rule tok_core_client) (use inv n e in \<open>simp_all add: tok_inv_def\<close>)
  have "missing (tok_client b) = missing (tok_client a)"
    using e n by (intro missing_cong) (auto simp: answered_def)
  with inv core e n show "tok_inv b" by (auto simp: tok_inv_def)
next
  fix m a'
  assume inv: "tok_inv a" and e: "a = a'" "b = a'\<lparr>tok_worker := (tok_worker a')(m := WReady)\<rparr>"
    and m: "m < lbb_workers" "tok_worker a' m = WNew"
  have core: "tok_core b" unfolding e(2) by (rule tok_core_worker) (use inv m e in \<open>simp_all add: tok_inv_def\<close>)
  with inv e m show "tok_inv b" by (auto simp: tok_inv_def)
next
  fix m n a'
  assume inv: "tok_inv a" and e: "a = a'"
      "b = a'\<lparr>tok_client := (tok_client a')(n := CBack m), tok_worker := (tok_worker a')(m := WBack n)\<rparr>"
    and m: "m < lbb_workers" "tok_worker a' m = WBusy n"
  have core: "tok_core a'" using inv e by (simp add: tok_inv_def)
  then have n: "n < lbb_clients" "tok_client a' n = CBusy m" using tok_coreD(3) [OF _ m] by simp_all
  have "missing (tok_client b) = missing (tok_client a)"
    using e n by (intro missing_cong) (auto simp: answered_def)
  moreover have "tok_main a \<noteq> TKilled" using inv n e by (auto simp: tok_inv_def)
  ultimately show "tok_inv b" using inv e tok_core_works [OF core m] by (auto simp: tok_inv_def)
next
  fix m a'
  assume inv: "tok_inv a" and e: "a = a'" "b = a'\<lparr>tok_worker := (tok_worker a')(m := WEnd)\<rparr>"
    and m: "m < lbb_workers" "tok_worker a' m = WKilled"
  have core: "tok_core b" unfolding e(2) by (rule tok_core_worker) (use inv m e in \<open>simp_all add: tok_inv_def\<close>)
  with inv e m show "tok_inv b" by (auto simp: tok_inv_def)
next
  fix a' b' c'
  assume inv: "tok_inv a" and e: "a = a'" "b = c'" and loop: "tok_main a' = TLoop" and bk: "tok_back a' b'"
    and left: "missing (tok_client b') \<noteq> 0" and front: "tok_front (tok_queue a') b' c'"
  have "tok_core c'" by (rule tok_core_front [OF front tok_core_back [OF bk]]) (use inv e in \<open>simp add: tok_inv_def\<close>)
  moreover have "tok_main c' = TLoop" "missing (tok_client c') \<noteq> 0"
    using loop left tok_back_frame [OF bk] tok_front_frame [OF front] by simp_all
  moreover have "\<forall>m < lbb_workers. tok_worker c' m \<noteq> WKilled \<and> tok_worker c' m \<noteq> WEnd"
    by (rule tok_front_alive [OF front tok_back_alive [OF bk]]) (use inv e loop in \<open>simp add: tok_inv_def\<close>)
  ultimately show "tok_inv b" using e by (simp add: tok_inv_def)
next
  fix a' b'
  assume inv: "tok_inv a" and e: "a = a'" "b = b'\<lparr>tok_main := TJoin\<rparr>" and loop: "tok_main a' = TLoop"
    and bk: "tok_back a' b'" and left: "missing (tok_client b') = 0"
  have "tok_core b'" by (rule tok_core_back [OF bk]) (use inv e in \<open>simp add: tok_inv_def\<close>)
  moreover have "\<forall>m < lbb_workers. tok_worker b' m \<noteq> WKilled \<and> tok_worker b' m \<noteq> WEnd"
    by (rule tok_back_alive [OF bk]) (use inv e loop in \<open>simp add: tok_inv_def\<close>)
  ultimately show "tok_inv b" using e left by (simp add: tok_inv_def)
next
  fix a'
  assume inv: "tok_inv a" and e: "a = a'" "b = a'\<lparr>tok_main := TKilled, tok_queue := [],
      tok_worker := (\<lambda>m. if m \<in> set (tok_queue a') then WKilled else tok_worker a' m)\<rparr>"
    and join: "tok_main a' = TJoin" and ended: "\<forall>n < lbb_clients. tok_client a' n = CEnd"
  have core: "tok_core a'" using inv e by (simp add: tok_inv_def)
  have q: "m \<in> set (tok_queue a') \<longleftrightarrow> m < lbb_workers \<and> tok_worker a' m = WIdle" for m
    by (rule tok_coreD(2) [OF core])
  have "tok_core b"
    by (rule tok_coreI) (use e q core ended in \<open>auto simp: tok_core_def\<close>)
  moreover have "missing (tok_client b) = 0" using e ended by (simp add: missing_zero answered_def)
  moreover have "\<forall>m < lbb_workers. tok_worker b m \<noteq> WIdle" using e q by auto
  ultimately show "tok_inv b" using e ended by (simp add: tok_inv_def)
qed

interpretation tok: invariant_system tok_init tok_step tok_inv
  by unfold_locales (fact tok_inv_init, fact tok_inv_step)

subsection \<open>Every run ends\<close>

fun client_rank :: "client_token \<Rightarrow> nat" where
  "client_rank CNew = 0"
| "client_rank CAsked = 1"
| "client_rank (CBusy m) = 2"
| "client_rank (CBack m) = 3"
| "client_rank CAnswered = 4"
| "client_rank CEnd = 5"

fun worker_rank :: "worker_token \<Rightarrow> nat" where
  "worker_rank WNew = 0"
| "worker_rank WReady = 1"
| "worker_rank WKilled = 3"
| "worker_rank WEnd = 4"
| "worker_rank _ = 2"

definition tok_rank :: "tok \<Rightarrow> nat" where
  "tok_rank a = (\<Sum>n < lbb_clients. client_rank (tok_client a n)) + (\<Sum>m < lbb_workers. worker_rank (tok_worker a m))
     + (if tok_main a = TKilled then 1 else 0)"

lemma client_rank_le: "client_rank c \<le> 5"
  by (cases c) simp_all

lemma worker_rank_le: "worker_rank w \<le> 4"
  by (cases w) simp_all

lemma tok_rank_bound: "tok_rank a \<le> 5 * lbb_clients + 4 * lbb_workers + 1"
proof -
  have "(\<Sum>n < lbb_clients. client_rank (tok_client a n)) \<le> (\<Sum>n < lbb_clients. 5)"
    by (rule sum_mono) (rule client_rank_le)
  moreover have "(\<Sum>m < lbb_workers. worker_rank (tok_worker a m)) \<le> (\<Sum>m < lbb_workers. 4)"
    by (rule sum_mono) (rule worker_rank_le)
  ultimately show ?thesis by (simp add: tok_rank_def)
qed

lemma tok_rank_client:
  "n < lbb_clients \<Longrightarrow> tok_rank (a\<lparr>tok_client := (tok_client a)(n := c)\<rparr>) + client_rank (tok_client a n)
    = tok_rank a + client_rank c"
  using sum_upd [of n lbb_clients client_rank "tok_client a" c] by (simp add: tok_rank_def)

lemma tok_rank_worker:
  "m < lbb_workers \<Longrightarrow> tok_rank (a\<lparr>tok_worker := (tok_worker a)(m := w)\<rparr>) + worker_rank (tok_worker a m)
    = tok_rank a + worker_rank w"
  using sum_upd [of m lbb_workers worker_rank "tok_worker a" w] by (simp add: tok_rank_def)

lemma tok_rank_queue [simp]: "tok_rank (a\<lparr>tok_queue := q\<rparr>) = tok_rank a"
  by (simp add: tok_rank_def)

lemma tok_rank_both:
  assumes "n < lbb_clients" and "m < lbb_workers"
  shows "tok_rank (a\<lparr>tok_queue := q, tok_client := (tok_client a)(n := c), tok_worker := (tok_worker a)(m := w)\<rparr>)
      + client_rank (tok_client a n) + worker_rank (tok_worker a m)
    = tok_rank a + client_rank c + worker_rank w"
  using tok_rank_client [OF assms(1), of "a\<lparr>tok_queue := q\<rparr>" c]
    tok_rank_worker [OF assms(2), of "a\<lparr>tok_queue := q, tok_client := (tok_client a)(n := c)\<rparr>" w]
  by simp

lemma tok_rank_back: "tok_back a b \<Longrightarrow> tok_core a \<Longrightarrow> b = a \<or> tok_rank a < tok_rank b"
proof (induction rule: tok_back.induct)
  case (back_ready m a)
  then show ?case using tok_rank_worker [of m "a\<lparr>tok_queue := tok_queue a @ [m]\<rparr>" WIdle] by simp
next
  case (back_reply m a n)
  then have "n < lbb_clients" "tok_client a n = CBack m" using tok_coreD(4) by blast+
  with back_reply.hyps tok_rank_both [of n m, where a = a and q = "tok_queue a @ [m]" and c = "CAnswered" and w = "WIdle"] show ?case by simp
qed simp

lemma tok_rank_front: "tok_front q a b \<Longrightarrow> tok_core a \<Longrightarrow> b = a \<or> tok_rank a < tok_rank b"
proof (induction rule: tok_front.induct)
  case (front_request q n a m ms)
  then have "m < lbb_workers" "tok_worker a m = WIdle" using tok_coreD(2) [of a m] by simp_all
  with front_request.hyps tok_rank_both [of n m, where a = a and q = "ms" and c = "CBusy m" and w = "WBusy n"] show ?case by simp
qed simp_all

lemma tok_rank_step: "tok_inv a \<Longrightarrow> tok_step a b \<Longrightarrow> tok_rank a < tok_rank b"
proof (erule tok_step.cases)
  fix n a'
  assume "a = a'" "b = a'\<lparr>tok_client := (tok_client a')(n := CAsked)\<rparr>" "n < lbb_clients" "tok_client a' n = CNew"
  then show ?thesis using tok_rank_client [of n a' CAsked] by simp
next
  fix n a'
  assume "a = a'" "b = a'\<lparr>tok_client := (tok_client a')(n := CEnd)\<rparr>" "n < lbb_clients" "tok_client a' n = CAnswered"
  then show ?thesis using tok_rank_client [of n a' CEnd] by simp
next
  fix m a'
  assume "a = a'" "b = a'\<lparr>tok_worker := (tok_worker a')(m := WReady)\<rparr>" "m < lbb_workers" "tok_worker a' m = WNew"
  then show ?thesis using tok_rank_worker [of m a' WReady] by simp
next
  fix m n a'
  assume inv: "tok_inv a" and e: "a = a'"
      "b = a'\<lparr>tok_client := (tok_client a')(n := CBack m), tok_worker := (tok_worker a')(m := WBack n)\<rparr>"
    and m: "m < lbb_workers" "tok_worker a' m = WBusy n"
  then have "n < lbb_clients" "tok_client a' n = CBusy m" using tok_coreD(3) [of a' m n] by (auto simp: tok_inv_def)
  with e m show ?thesis using tok_rank_both [of n m, where a = a' and q = "tok_queue a'" and c = "CBack m" and w = "WBack n"] by simp
next
  fix m a'
  assume "a = a'" "b = a'\<lparr>tok_worker := (tok_worker a')(m := WEnd)\<rparr>" "m < lbb_workers" "tok_worker a' m = WKilled"
  then show ?thesis using tok_rank_worker [of m a' WEnd] by simp
next
  fix a' b' c'
  assume inv: "tok_inv a" and e: "a = a'" "b = c'" "c' \<noteq> a'" and bk: "tok_back a' b'" and front: "tok_front (tok_queue a') b' c'"
  have core: "tok_core a'" using inv e by (simp add: tok_inv_def)
  from tok_rank_back [OF bk core] tok_rank_front [OF front tok_core_back [OF bk core]] e show ?thesis by auto
next
  fix a' b'
  assume inv: "tok_inv a" and e: "a = a'" "b = b'\<lparr>tok_main := TJoin\<rparr>" and loop: "tok_main a' = TLoop"
    and bk: "tok_back a' b'" and left: "missing (tok_client b') = 0"
  have "b' \<noteq> a'" using inv e loop left by (auto simp: tok_inv_def)
  then have "tok_rank a < tok_rank b'" using tok_rank_back [OF bk] inv e by (simp add: tok_inv_def)
  moreover have "tok_rank b = tok_rank b'" using tok_back_frame [OF bk] loop e by (simp add: tok_rank_def)
  ultimately show ?thesis by simp
next
  fix a'
  assume inv: "tok_inv a" and e: "a = a'" "b = a'\<lparr>tok_main := TKilled, tok_queue := [],
      tok_worker := (\<lambda>m. if m \<in> set (tok_queue a') then WKilled else tok_worker a' m)\<rparr>"
    and join: "tok_main a' = TJoin"
  have "worker_rank (tok_worker a' m) \<le> worker_rank (tok_worker b m)" for m
    using inv e by (auto simp: tok_inv_def tok_coreD(2))
  then have "(\<Sum>m < lbb_workers. worker_rank (tok_worker a' m)) \<le> (\<Sum>m < lbb_workers. worker_rank (tok_worker b m))"
    by (intro sum_mono)
  with e join show ?thesis by (simp add: tok_rank_def)
qed

interpretation tok: terminating_system tok_init tok_step tok_inv tok_rank "5 * lbb_clients + 4 * lbb_workers + 1"
  by unfold_locales (use tok_rank_step tok_rank_bound in auto)

subsection \<open>How a run ends\<close>

lemma tok_back_exists: "\<exists>b. tok_back a b \<and> (b \<noteq> a \<longleftrightarrow> (\<exists>m < lbb_workers. awaiting (tok_worker a m)))"
proof (cases "\<exists>m < lbb_workers. awaiting (tok_worker a m)")
  case False
  then show ?thesis using back_none [of a] by blast
next
  case True
  then obtain m where m: "m < lbb_workers" "awaiting (tok_worker a m)" by blast
  have ne: "a\<lparr>tok_queue := tok_queue a @ [m], tok_worker := f\<rparr> \<noteq> a"
    "a\<lparr>tok_queue := tok_queue a @ [m], tok_client := g, tok_worker := f\<rparr> \<noteq> a" for f g
    by (metis append_self_conv list.distinct(1) tok.select_convs(2) tok.surjective tok.update_convs)+
  from m(2) consider "tok_worker a m = WReady" | n where "tok_worker a m = WBack n" by (auto simp: awaiting_def)
  then show ?thesis
  proof cases
    case 1
    from back_ready [OF m(1) this] ne(1) True show ?thesis by blast
  next
    case (2 n)
    from back_reply [OF m(1) this] ne(2) True show ?thesis by blast
  qed
qed

text \<open>As long as replies are missing something can happen: a worker moves, or a client does.\<close>

lemma tok_worker_moves:
  assumes loop: "tok_main a = TLoop" and m: "m < lbb_workers"
    and w: "tok_worker a m \<notin> {WIdle, WEnd}"
  shows "\<exists>b. tok_step a b"
proof (cases "awaiting (tok_worker a m)")
  case True
  then obtain b where b: "tok_back a b" "b \<noteq> a" using tok_back_exists m by blast
  have "tok_front (tok_queue a) b b"
    by (cases "tok_queue a = []") (simp_all add: front_unpolled front_none)
  with b tok_round [OF loop b(1)] tok_last [OF loop b(1)] show ?thesis by blast
next
  case False
  then consider "tok_worker a m = WNew" | n where "tok_worker a m = WBusy n" | "tok_worker a m = WKilled"
    using w by (cases "tok_worker a m") (auto simp: awaiting_def)
  then show ?thesis using tok_ready [OF m] tok_works [OF m] tok_stops [OF m] by cases blast+
qed

lemma tok_client_moves:
  assumes inv: "tok_inv a" and loop: "tok_main a = TLoop"
    and idle: "\<And>m. m < lbb_workers \<Longrightarrow> tok_worker a m = WIdle"
  shows "\<exists>b. tok_step a b"
proof -
  have core: "tok_core a" and left: "missing (tok_client a) \<noteq> 0" using inv loop by (simp_all add: tok_inv_def)
  then obtain n where n: "n < lbb_clients" "\<not> answered (tok_client a n)" by (auto simp: missing_zero)
  have "tok_client a n \<noteq> CBusy m" "tok_client a n \<noteq> CBack m" for m
    using tok_coreD(5,6) [OF core n(1), of m] idle by fastforce+
  with n consider "tok_client a n = CNew" | "tok_client a n = CAsked"
    by (cases "tok_client a n") (auto simp: answered_def)
  then show ?thesis
  proof cases
    case 1
    from tok_asks [OF n(1) this] show ?thesis by blast
  next
    case 2
    have "0 < lbb_workers" by (simp add: lbb_workers_def)
    then have "0 \<in> set (tok_queue a)" using tok_coreD(2) [OF core] idle by blast
    then obtain k ks where k: "tok_queue a = k # ks" by (cases "tok_queue a") auto
    let ?b = "a\<lparr>tok_queue := ks, tok_client := (tok_client a)(n := CBusy k), tok_worker := (tok_worker a)(k := WBusy n)\<rparr>"
    have "tok_front (tok_queue a) a ?b" using front_request [OF _ n(1) 2 k] k by simp
    moreover have "tok_client ?b n \<noteq> tok_client a n" using 2 by simp
    then have "?b \<noteq> a" by metis
    ultimately show ?thesis using tok_round [OF loop back_none left] by blast
  qed
qed

lemma tok_loop_moves: "tok_inv a \<Longrightarrow> tok_main a = TLoop \<Longrightarrow> \<exists>b. tok_step a b"
proof (cases "\<forall>m < lbb_workers. tok_worker a m = WIdle")
  case False
  moreover assume "tok_inv a" and loop: "tok_main a = TLoop"
  moreover from this have "tok_worker a m \<noteq> WEnd" if "m < lbb_workers" for m using that by (simp add: tok_inv_def)
  ultimately show ?thesis using tok_worker_moves [OF loop] by blast
qed (use tok_client_moves in blast)

text \<open>A machine that can do nothing more has served everybody.\<close>

lemma tok_stuck:
  assumes inv: "tok_inv a" and st: "stuck tok_step a"
  shows "tok_main a = TKilled \<and> (\<forall>n < lbb_clients. tok_client a n = CEnd)
    \<and> (\<forall>m < lbb_workers. tok_worker a m = WEnd \<or> tok_worker a m = WReady)"
proof -
  note no = stuckD [OF st]
  have core: "tok_core a" using inv by (simp add: tok_inv_def)
  have loop: "tok_main a \<noteq> TLoop" using tok_loop_moves [OF inv] no by blast
  then have "answered (tok_client a n)" if "n < lbb_clients" for n
    using inv that by (auto simp: tok_inv_def missing_zero)
  then have ends: "\<forall>n < lbb_clients. tok_client a n = CEnd" using no [OF tok_ends] by (auto simp: answered_def)
  then have killed: "tok_main a = TKilled" using loop no [OF tok_kills] by (cases "tok_main a") auto
  have "tok_worker a m = WEnd \<or> tok_worker a m = WReady" if m: "m < lbb_workers" for m
    using inv killed m ends no [OF tok_ready [OF m]] no [OF tok_stops [OF m]] no [OF tok_works [OF m]] tok_coreD(4) [OF core m]
    by (cases "tok_worker a m") (auto simp: tok_inv_def)
  with killed ends show ?thesis by blast
qed

end
