(* ===== verification/LBSystem.thy ===== *)
theory LBSystem
  imports Sockets LBTokens
begin

text \<open>
  The load balancing broker with its ten client threads and three worker threads, as one system
  (\<open>load-balancing-message-broker/lbbroker.cpp\<close>). The sockets keep, for each peer, the messages
  under way in both directions, in order; the threads run the functions of \<open>LBBroker\<close> on them, in
  any interleaving. The system is shown to be the same as a small machine that moves tokens, from
  which the rest follows: no thread ever fails an assertion, every run ends, and how it ends.
\<close>

subsection \<open>Threads and sockets\<close>

text \<open>The thread of a client: not started, waiting for its reply, or at its end, with the reply.\<close>

datatype lbs_client = CliNew | CliWaiting | CliEnd frame

datatype lbs_worker = WkNew | WkRunning | WkEnd

text \<open>\<open>main\<close>: in its loop, joining the client threads, or joining the worker threads.\<close>

datatype lbs_main = MainLoop lbb | MainJoin lbb | MainKilled

record lbs =
  lbs_main :: lbs_main
  lbs_client :: "nat \<Rightarrow> lbs_client"
  lbs_worker :: "nat \<Rightarrow> lbs_worker"
  lbs_fe_in :: "frame \<Rightarrow> msg list"
  lbs_fe_out :: "frame \<Rightarrow> msg list"
  lbs_be_in :: "frame \<Rightarrow> msg list"
  lbs_be_out :: "frame \<Rightarrow> msg list"
  lbs_fault :: "fault option"

definition lbs_init :: lbs where
  "lbs_init = \<lparr>lbs_main = MainLoop lbb_init, lbs_client = (\<lambda>_. CliNew), lbs_worker = (\<lambda>_. WkNew),
     lbs_fe_in = (\<lambda>_. []), lbs_fe_out = (\<lambda>_. []), lbs_be_in = (\<lambda>_. []), lbs_be_out = (\<lambda>_. []),
     lbs_fault = None\<rparr>"

definition polled :: "zmq_envelope \<Rightarrow> (frame \<times> msg) option \<Rightarrow> recv_event list option" where
  "polled Z r = map_option (\<lambda>(p, m). arrives (router_in Z p m)) r"

text \<open>
  The steps. \<open>main\<close> polls the back end, and the front end too when it has a worker, and waits for
  at least one to be ready; a break leaves the message that waits at the front end where it is. It
  goes on to send KILL when all clients have ended.
\<close>

inductive lbs_step :: "zmq_envelope \<Rightarrow> lbs \<Rightarrow> lbs \<Rightarrow> bool" for Z where
  client_sends: "n < lbb_clients \<Longrightarrow> lbs_client s n = CliNew \<Longrightarrow>
    lbs_step Z s (s\<lparr>lbs_client := (lbs_client s)(n := CliWaiting),
      lbs_fe_in := enqueue (lbb_id n) (req_out Z (map fst lbb_client_request)) (lbs_fe_in s)\<rparr>)"
| client_ends: "n < lbb_clients \<Longrightarrow> lbs_client s n = CliWaiting \<Longrightarrow> lbs_fe_out s (lbb_id n) = m # ms \<Longrightarrow>
    recv_part (arrives (req_in Z m)) = Inr (rep, es) \<Longrightarrow>
    lbs_step Z s (s\<lparr>lbs_client := (lbs_client s)(n := CliEnd rep),
      lbs_fe_out := (lbs_fe_out s)(lbb_id n := ms)\<rparr>)"
| worker_ready: "n < lbb_workers \<Longrightarrow> lbs_worker s n = WkNew \<Longrightarrow>
    lbs_step Z s (s\<lparr>lbs_worker := (lbs_worker s)(n := WkRunning),
      lbs_be_in := enqueue (lbb_id n) (req_out Z (map fst lbb_worker_ready)) (lbs_be_in s)\<rparr>)"
| worker_works: "n < lbb_workers \<Longrightarrow> lbs_worker s n = WkRunning \<Longrightarrow> lbs_be_out s (lbb_id n) = m # ms \<Longrightarrow>
    lbb_worker_step (arrives (req_in Z m)) () = Inr (c, os) \<Longrightarrow>
    lbs_step Z s (s\<lparr>lbs_worker := (lbs_worker s)(n := (case c of Next _ \<Rightarrow> WkRunning | Halt _ \<Rightarrow> WkEnd)),
      lbs_be_out := (lbs_be_out s)(lbb_id n := ms),
      lbs_be_in := fold (\<lambda>ps. enqueue (lbb_id n) (req_out Z (map fst ps))) os (lbs_be_in s)\<rparr>)"
| worker_fails: "n < lbb_workers \<Longrightarrow> lbs_worker s n = WkRunning \<Longrightarrow> lbs_be_out s (lbb_id n) = m # ms \<Longrightarrow>
    lbb_worker_step (arrives (req_in Z m)) () = Inl e \<Longrightarrow> lbs_step Z s (s\<lparr>lbs_fault := Some e\<rparr>)"
| main_loops: "lbs_main s = MainLoop b \<Longrightarrow> takes (lbs_be_in s) rb be \<Longrightarrow>
    (if lbb_queue b = [] then rf = None \<and> fe = lbs_fe_in s else takes (lbs_fe_in s) rf fe) \<Longrightarrow>
    rb \<noteq> None \<or> rf \<noteq> None \<Longrightarrow>
    lbb_step \<lparr>poll_be = polled Z rb, poll_fe = polled Z rf\<rparr> b = Inr (c, os) \<Longrightarrow>
    lbs_step Z s (s\<lparr>lbs_main := (case c of Next b' \<Rightarrow> MainLoop b' | Halt b' \<Rightarrow> MainJoin b'),
      lbs_be_in := be, lbs_fe_in := (case c of Next _ \<Rightarrow> fe | Halt _ \<Rightarrow> lbs_fe_in s),
      lbs_fe_out := router_sends Z (sent_on Frontend os) (lbs_fe_out s),
      lbs_be_out := router_sends Z (sent_on Backend os) (lbs_be_out s)\<rparr>)"
| main_fails: "lbs_main s = MainLoop b \<Longrightarrow> takes (lbs_be_in s) rb be \<Longrightarrow>
    (if lbb_queue b = [] then rf = None \<and> fe = lbs_fe_in s else takes (lbs_fe_in s) rf fe) \<Longrightarrow>
    rb \<noteq> None \<or> rf \<noteq> None \<Longrightarrow>
    lbb_step \<lparr>poll_be = polled Z rb, poll_fe = polled Z rf\<rparr> b = Inl e \<Longrightarrow>
    lbs_step Z s (s\<lparr>lbs_fault := Some e\<rparr>)"
| main_kills: "lbs_main s = MainJoin b \<Longrightarrow> \<forall>n < lbb_clients. \<exists>rep. lbs_client s n = CliEnd rep \<Longrightarrow>
    lbs_step Z s (s\<lparr>lbs_main := MainKilled,
      lbs_be_out := router_sends Z (sent_on Backend (lbb_shutdown (lbb_queue b))) (lbs_be_out s)\<rparr>)"

text \<open>The program returns when \<open>main\<close> has joined the workers too.\<close>

definition lbs_returned :: "lbs \<Rightarrow> bool" where
  "lbs_returned s \<longleftrightarrow> lbs_main s = MainKilled \<and> (\<forall>n < lbb_workers. lbs_worker s n = WkEnd)"

subsection \<open>The program a machine stands for\<close>

text \<open>The messages under way, from what each thread's token says.\<close>

fun asked_msgs :: "client_token \<Rightarrow> msg list" where
  "asked_msgs CAsked = [[[], ''HELLO'']]"
| "asked_msgs _ = []"

fun answer_msgs :: "client_token \<Rightarrow> msg list" where
  "answer_msgs CAnswered = [[[], ''OK'']]"
| "answer_msgs _ = []"

fun report_msgs :: "worker_token \<Rightarrow> msg list" where
  "report_msgs WReady = [[[], ''READY'']]"
| "report_msgs (WBack n) = [[[], lbb_id n, [], ''OK'']]"
| "report_msgs _ = []"

fun order_msgs :: "worker_token \<Rightarrow> msg list" where
  "order_msgs (WBusy n) = [[[], lbb_id n, [], ''HELLO'']]"
| "order_msgs WKilled = [[[], ''KILL'']]"
| "order_msgs _ = []"

fun client_thread :: "client_token \<Rightarrow> lbs_client" where
  "client_thread CNew = CliNew"
| "client_thread CEnd = CliEnd ''OK''"
| "client_thread _ = CliWaiting"

fun worker_thread :: "worker_token \<Rightarrow> lbs_worker" where
  "worker_thread WNew = WkNew"
| "worker_thread WEnd = WkEnd"
| "worker_thread _ = WkRunning"

definition broker_of :: "tok \<Rightarrow> lbb" where
  "broker_of a = \<lparr>lbb_queue = map lbb_id (tok_queue a), lbb_client_count = int (missing (tok_client a))\<rparr>"

fun main_thread :: "main_token \<Rightarrow> lbb \<Rightarrow> lbs_main" where
  "main_thread TLoop b = MainLoop b"
| "main_thread TJoin b = MainJoin b"
| "main_thread TKilled b = MainKilled"

definition lbs_of :: "tok \<Rightarrow> lbs" where
  "lbs_of a = \<lparr>lbs_main = main_thread (tok_main a) (broker_of a),
     lbs_client = client_thread \<circ> tok_client a, lbs_worker = worker_thread \<circ> tok_worker a,
     lbs_fe_in = at_ids lbb_clients (asked_msgs \<circ> tok_client a),
     lbs_fe_out = at_ids lbb_clients (answer_msgs \<circ> tok_client a),
     lbs_be_in = at_ids lbb_workers (report_msgs \<circ> tok_worker a),
     lbs_be_out = at_ids lbb_workers (order_msgs \<circ> tok_worker a), lbs_fault = None\<rparr>"

lemma lbs_of_simps [simp]:
  "lbs_main (lbs_of a) = main_thread (tok_main a) (broker_of a)"
  "lbs_client (lbs_of a) = client_thread \<circ> tok_client a" "lbs_worker (lbs_of a) = worker_thread \<circ> tok_worker a"
  "lbs_fe_in (lbs_of a) = at_ids lbb_clients (asked_msgs \<circ> tok_client a)"
  "lbs_fe_out (lbs_of a) = at_ids lbb_clients (answer_msgs \<circ> tok_client a)"
  "lbs_be_in (lbs_of a) = at_ids lbb_workers (report_msgs \<circ> tok_worker a)"
  "lbs_be_out (lbs_of a) = at_ids lbb_workers (order_msgs \<circ> tok_worker a)" "lbs_fault (lbs_of a) = None"
  by (simp_all add: lbs_of_def)

lemma broker_of_simps [simp]:
  "lbb_queue (broker_of a) = map lbb_id (tok_queue a)"
  "lbb_client_count (broker_of a) = int (missing (tok_client a))"
  by (simp_all add: broker_of_def)

subsection \<open>One round of the broker is one round of the machine\<close>

definition back_result :: "zmq_envelope \<Rightarrow> lbb \<Rightarrow> (frame \<times> msg) option \<Rightarrow> (lbb ctl \<times> sent list) res" where
  "back_result Z b rb = (case polled Z rb of None \<Rightarrow> Inr (Next b, []) | Some es \<Rightarrow> lbb_backend es b)"

text \<open>What the back end part of a round does to broker, sockets and threads.\<close>

definition back_ok :: "zmq_envelope \<Rightarrow> tok \<Rightarrow> tok \<Rightarrow> (frame \<times> msg) option \<Rightarrow> (frame \<Rightarrow> msg list) \<Rightarrow> sent list \<Rightarrow> bool" where
  "back_ok Z a b rb be os \<longleftrightarrow> be = lbs_be_in (lbs_of b) \<and> (rb = None \<longleftrightarrow> b = a)
     \<and> back_result Z (broker_of a) rb =
         Inr (if missing (tok_client b) = 0 then Halt (broker_of b) else Next (broker_of b), os)
     \<and> router_sends Z (sent_on Frontend os) (lbs_fe_out (lbs_of a)) = lbs_fe_out (lbs_of b) \<and> sent_on Backend os = []
     \<and> lbs_fe_in (lbs_of b) = lbs_fe_in (lbs_of a) \<and> lbs_be_out (lbs_of b) = lbs_be_out (lbs_of a)
     \<and> lbs_client (lbs_of b) = lbs_client (lbs_of a) \<and> lbs_worker (lbs_of b) = lbs_worker (lbs_of a)
     \<and> tok_main b = tok_main a"

lemma back_ok_none: "missing (tok_client a) \<noteq> 0 \<Longrightarrow> back_ok Z a a None (lbs_be_in (lbs_of a)) []"
  by (simp add: back_ok_def back_result_def polled_def)

lemma queue_longer: "a\<lparr>tok_queue := tok_queue a @ [m], tok_worker := f\<rparr> \<noteq> a"
    "a\<lparr>tok_queue := tok_queue a @ [m], tok_client := g, tok_worker := f\<rparr> \<noteq> a"
  by (metis append_self_conv list.distinct(1) tok.select_convs(2) tok.surjective tok.update_convs)+

lemma back_ok_ready:
  assumes Z: "zmq_contract Z" and left: "missing (tok_client a) \<noteq> 0"
    and m: "m < lbb_workers" "tok_worker a m = WReady"
  shows "back_ok Z a (a\<lparr>tok_queue := tok_queue a @ [m], tok_worker := (tok_worker a)(m := WIdle)\<rparr>)
    (Some (lbb_id m, [[], ''READY''])) (at_ids lbb_workers ((report_msgs \<circ> tok_worker a)(m := []))) []"
    (is "back_ok Z a ?b _ _ _")
proof -
  have "back_result Z (broker_of a) (Some (lbb_id m, [[], ''READY''])) = Inr (Next (broker_of ?b), [])"
    by (simp add: back_result_def polled_def zmq_contractD [OF Z] lbb_backend_def Let_def broker_of_def)
  moreover have "at_ids lbb_workers ((report_msgs \<circ> tok_worker a)(m := [])) = lbs_be_in (lbs_of ?b)"
    by simp (rule at_ids_cong, simp)
  moreover have "lbs_be_out (lbs_of ?b) = lbs_be_out (lbs_of a)"
    using m by simp (rule at_ids_same, simp)
  moreover have "lbs_worker (lbs_of ?b) = lbs_worker (lbs_of a)" using m by (auto simp: fun_eq_iff)
  ultimately show ?thesis using left queue_longer(1) by (simp add: back_ok_def)
qed

lemma back_ok_reply:
  assumes Z: "zmq_contract Z" and m: "m < lbb_workers" "tok_worker a m = WBack n"
    and n: "n < lbb_clients" "tok_client a n = CBack m"
  shows "\<exists>os. back_ok Z a (a\<lparr>tok_queue := tok_queue a @ [m], tok_client := (tok_client a)(n := CAnswered),
      tok_worker := (tok_worker a)(m := WIdle)\<rparr>)
    (Some (lbb_id m, [[], lbb_id n, [], ''OK''])) (at_ids lbb_workers ((report_msgs \<circ> tok_worker a)(m := []))) os"
    (is "\<exists>os. back_ok Z a ?b _ _ os")
proof
  let ?os = "[(Frontend, [(lbb_id n, True), ([], True), (''OK'', False)])]"
  have left: "missing (tok_client a) = Suc (missing ((tok_client a)(n := CAnswered)))"
    by (rule missing_upd) (simp_all add: n answered_def)
  have "back_result Z (broker_of a) (Some (lbb_id m, [[], lbb_id n, [], ''OK''])) =
      Inr (if missing (tok_client ?b) = 0 then Halt (broker_of ?b) else Next (broker_of ?b), ?os)"
    by (simp add: back_result_def polled_def zmq_contractD [OF Z] lbb_backend_def Let_def broker_of_def left)
  moreover have "at_ids lbb_workers ((report_msgs \<circ> tok_worker a)(m := [])) = lbs_be_in (lbs_of ?b)"
    by simp (rule at_ids_cong, simp)
  moreover have "lbs_be_out (lbs_of ?b) = lbs_be_out (lbs_of a)"
    using m by simp (rule at_ids_same, simp)
  moreover have "lbs_fe_in (lbs_of ?b) = lbs_fe_in (lbs_of a)"
    using n by simp (rule at_ids_same, simp)
  moreover have "lbs_worker (lbs_of ?b) = lbs_worker (lbs_of a)" "lbs_client (lbs_of ?b) = lbs_client (lbs_of a)"
    using m n by (auto simp: fun_eq_iff)
  moreover have "router_sends Z (sent_on Frontend ?os) (lbs_fe_out (lbs_of a)) = lbs_fe_out (lbs_of ?b)"
    using n by (simp add: zmq_contractD [OF Z]) (rule at_ids_cong, simp)
  ultimately show "back_ok Z a ?b (Some (lbb_id m, [[], lbb_id n, [], ''OK'']))
      (at_ids lbb_workers ((report_msgs \<circ> tok_worker a)(m := []))) ?os"
    using queue_longer(2) by (simp add: back_ok_def)
qed

lemma back_forth:
  assumes Z: "zmq_contract Z" and core: "tok_core a" and left: "missing (tok_client a) \<noteq> 0"
    and t: "takes (lbs_be_in (lbs_of a)) rb be"
  shows "\<exists>b os. tok_back a b \<and> back_ok Z a b rb be os"
  using t unfolding lbs_of_simps takes_at_ids
proof (elim disjE exE conjE)
  assume r: "rb = None" "be = at_ids lbb_workers (report_msgs \<circ> tok_worker a)"
  with back_none [of a] back_ok_none [OF left, of Z] r show ?thesis by auto
next
  fix m msg ms
  assume m: "m < lbb_workers" and w: "(report_msgs \<circ> tok_worker a) m = msg # ms" and r: "rb = Some (lbb_id m, msg)"
    and be: "be = at_ids lbb_workers ((report_msgs \<circ> tok_worker a)(m := ms))"
  show ?thesis
  proof (cases "tok_worker a m")
    case WReady
    with w r be back_ready [OF m] back_ok_ready [OF Z left m] show ?thesis by auto
  next
    case (WBack n)
    from tok_coreD(4) [OF core m this] have "n < lbb_clients" "tok_client a n = CBack m" by simp_all
    with WBack w r be back_reply [OF m] back_ok_reply [OF Z m] show ?thesis by fastforce
  qed (use w in simp_all)
qed

lemma back_back:
  assumes Z: "zmq_contract Z" and core: "tok_core a" and left: "missing (tok_client a) \<noteq> 0" and b: "tok_back a b"
  shows "\<exists>rb be os. takes (lbs_be_in (lbs_of a)) rb be \<and> back_ok Z a b rb be os"
  using b
proof cases
  case back_none
  from takes_none [of "lbs_be_in (lbs_of a)"] back_none(1) back_ok_none [OF left, of Z] show ?thesis
    by (metis lbs_of_simps(6))
next
  case (back_ready m)
  have "(report_msgs \<circ> tok_worker a) m = [[], ''READY''] # []" using back_ready by simp
  from takes_at_idsI [where f = "report_msgs \<circ> tok_worker a", OF back_ready(2) this] back_ok_ready [OF Z left back_ready(2,3)] back_ready(1)
  show ?thesis by (metis lbs_of_simps(6))
next
  case (back_reply m n)
  from tok_coreD(4) [OF core back_reply(2,3)] have n: "n < lbb_clients" "tok_client a n = CBack m" by simp_all
  have "(report_msgs \<circ> tok_worker a) m = [[], lbb_id n, [], ''OK''] # []" using back_reply by simp
  from takes_at_idsI [where f = "report_msgs \<circ> tok_worker a", OF back_reply(2) this] back_ok_reply [OF Z back_reply(2,3) n] back_reply(1)
  show ?thesis by (metis lbs_of_simps(6))
qed

definition front_result :: "zmq_envelope \<Rightarrow> bool \<Rightarrow> lbb \<Rightarrow> (frame \<times> msg) option \<Rightarrow> (lbb \<times> sent list) res" where
  "front_result Z free b rf =
     (case if free then None else polled Z rf of None \<Rightarrow> Inr (b, []) | Some es \<Rightarrow> lbb_frontend es b)"

definition front_ok :: "zmq_envelope \<Rightarrow> bool \<Rightarrow> tok \<Rightarrow> tok \<Rightarrow> (frame \<times> msg) option \<Rightarrow> (frame \<Rightarrow> msg list) \<Rightarrow> sent list \<Rightarrow> bool" where
  "front_ok Z free b c rf fe os \<longleftrightarrow> fe = lbs_fe_in (lbs_of c) \<and> (rf = None \<longleftrightarrow> c = b)
     \<and> front_result Z free (broker_of b) rf = Inr (broker_of c, os)
     \<and> router_sends Z (sent_on Backend os) (lbs_be_out (lbs_of b)) = lbs_be_out (lbs_of c) \<and> sent_on Frontend os = []
     \<and> lbs_be_in (lbs_of c) = lbs_be_in (lbs_of b) \<and> lbs_fe_out (lbs_of c) = lbs_fe_out (lbs_of b)
     \<and> lbs_client (lbs_of c) = lbs_client (lbs_of b) \<and> lbs_worker (lbs_of c) = lbs_worker (lbs_of b)
     \<and> tok_main c = tok_main b"

lemma front_ok_none: "front_ok Z free b b None (lbs_fe_in (lbs_of b)) []"
  by (simp add: front_ok_def front_result_def polled_def)

lemma front_ok_request:
  assumes Z: "zmq_contract Z" and core: "tok_core b"
    and n: "n < lbb_clients" "tok_client b n = CAsked" and q: "tok_queue b = m # ms"
  shows "\<exists>os. front_ok Z False b (b\<lparr>tok_queue := ms, tok_client := (tok_client b)(n := CBusy m),
      tok_worker := (tok_worker b)(m := WBusy n)\<rparr>)
    (Some (lbb_id n, [[], ''HELLO''])) (at_ids lbb_clients ((asked_msgs \<circ> tok_client b)(n := []))) os"
    (is "\<exists>os. front_ok Z False b ?c _ _ os")
proof
  let ?os = "[(Backend, [(lbb_id m, True), ([], True), (lbb_id n, True), ([], True), (''HELLO'', False)])]"
  have m: "m < lbb_workers" "tok_worker b m = WIdle" using q tok_coreD(2) [OF core, of m] by simp_all
  have same: "missing ((tok_client b)(n := CBusy m)) = missing (tok_client b)"
    by (rule missing_same) (simp add: n answered_def)
  have "front_result Z False (broker_of b) (Some (lbb_id n, [[], ''HELLO''])) = Inr (broker_of ?c, ?os)"
    by (simp add: front_result_def polled_def zmq_contractD [OF Z] lbb_frontend_def broker_of_def q same del: fun_upd_apply)
  moreover have "at_ids lbb_clients ((asked_msgs \<circ> tok_client b)(n := [])) = lbs_fe_in (lbs_of ?c)"
    by simp (rule at_ids_cong, simp)
  moreover have "lbs_fe_out (lbs_of ?c) = lbs_fe_out (lbs_of b)"
    using n by simp (rule at_ids_same, simp)
  moreover have "lbs_be_in (lbs_of ?c) = lbs_be_in (lbs_of b)"
    using m by simp (rule at_ids_same, simp)
  moreover have "lbs_worker (lbs_of ?c) = lbs_worker (lbs_of b)" "lbs_client (lbs_of ?c) = lbs_client (lbs_of b)"
    using m n by (auto simp: fun_eq_iff)
  moreover have "router_sends Z (sent_on Backend ?os) (lbs_be_out (lbs_of b)) = lbs_be_out (lbs_of ?c)"
    using m by (simp add: zmq_contractD [OF Z]) (rule at_ids_cong, simp)
  moreover have "?c \<noteq> b"
    using q by (metis not_Cons_self2 tok.select_convs(2) tok.surjective tok.update_convs)
  ultimately show "front_ok Z False b ?c (Some (lbb_id n, [[], ''HELLO'']))
      (at_ids lbb_clients ((asked_msgs \<circ> tok_client b)(n := []))) ?os"
    by (simp add: front_ok_def)
qed

lemma asked_msgs_Nil: "asked_msgs c = [] \<longleftrightarrow> c \<noteq> CAsked"
  by (cases c) simp_all

lemma front_forth:
  assumes Z: "zmq_contract Z" and core: "tok_core b" and q: "q \<noteq> [] \<longrightarrow> tok_queue b \<noteq> []"
    and t: "if q = [] then rf = None \<and> fe = lbs_fe_in (lbs_of b) else takes (lbs_fe_in (lbs_of b)) rf fe"
  shows "\<exists>c os. tok_front q b c \<and> front_ok Z (q = []) b c rf fe os"
proof (cases "q = []")
  case True
  with t front_unpolled front_ok_none [of Z True b] show ?thesis by auto
next
  case False
  with q obtain m ms where m: "tok_queue b = m # ms" by (cases "tok_queue b") auto
  from t False show ?thesis unfolding lbs_of_simps takes_at_ids if_not_P [OF False]
  proof (elim disjE exE conjE)
    assume r: "rf = None" "fe = at_ids lbb_clients (asked_msgs \<circ> tok_client b)"

    with front_none [OF False] front_ok_none [of Z False b] r False show ?thesis by auto
  next
    fix n msg ns
    assume n: "n < lbb_clients" and w: "(asked_msgs \<circ> tok_client b) n = msg # ns" and r: "rf = Some (lbb_id n, msg)"
      and fe: "fe = at_ids lbb_clients ((asked_msgs \<circ> tok_client b)(n := ns))"
    then have c: "tok_client b n = CAsked" using asked_msgs_Nil [of "tok_client b n"] by auto
    with w have "msg = [[], ''HELLO'']" "ns = []" by simp_all
    with r fe front_request [OF False n c m] front_ok_request [OF Z core n c m] False show ?thesis by auto
  qed
qed

lemma front_back:
  assumes Z: "zmq_contract Z" and core: "tok_core b" and f: "tok_front q b c"
  shows "\<exists>rf fe os. (if q = [] then rf = None \<and> fe = lbs_fe_in (lbs_of b) else takes (lbs_fe_in (lbs_of b)) rf fe)
    \<and> front_ok Z (q = []) b c rf fe os"
  using f
proof cases
  case front_unpolled
  with front_ok_none [of Z True b] show ?thesis by auto
next
  case front_none
  from takes_none [of "lbs_fe_in (lbs_of b)"] front_none(1,2) front_ok_none [of Z False b] show ?thesis
    by (metis lbs_of_simps(4))
next
  case (front_request n m ms)
  have "(asked_msgs \<circ> tok_client b) n = [[], ''HELLO''] # []" using front_request by simp
  note t = takes_at_idsI [where f = "asked_msgs \<circ> tok_client b", OF front_request(3) this]
  obtain os where ok: "front_ok Z False b c (Some (lbb_id n, [[], ''HELLO'']))
      (at_ids lbb_clients ((asked_msgs \<circ> tok_client b)(n := []))) os"
    using front_ok_request [OF Z core front_request(3-5)] unfolding front_request(1) by blast
  have q: "(q = []) = False" using front_request(2) by simp
  show ?thesis unfolding lbs_of_simps q if_False by (intro exI conjI) (rule t, rule ok)
qed

text \<open>The two parts make one call of \<open>lbb_step\<close>.\<close>

lemma lbb_step_parts:
  assumes bk: "back_result Z b rb = Inr (c, o1)"
  shows "lbb_step \<lparr>poll_be = polled Z rb, poll_fe = polled Z rf\<rparr> b =
    (case c of Halt s1 \<Rightarrow> Inr (Halt s1, o1)
     | Next s1 \<Rightarrow> rbind (front_result Z (lbb_queue b = []) s1 rf) (\<lambda>(s2, o2). Inr (Next s2, o1 @ o2)))"
  using bk by (cases c; cases "lbb_queue b = []") (simp_all add: lbb_step_def back_result_def front_result_def)

lemma lbb_step_fault_parts:
  assumes "back_result Z b rb = Inr (c, o1)" and "\<forall>s1. c = Next s1 \<longrightarrow> (\<exists>r. front_result Z (lbb_queue b = []) s1 rf = Inr r)"
  shows "lbb_step \<lparr>poll_be = polled Z rb, poll_fe = polled Z rf\<rparr> b \<noteq> Inl e"
  using assms(2) unfolding lbb_step_parts [OF assms(1)] by (cases c) auto

subsection \<open>The program and the machine take the same steps\<close>

lemma lbs_of_client:
  assumes "answered c = answered (tok_client a n)"
  shows "lbs_of (a\<lparr>tok_client := (tok_client a)(n := c)\<rparr>) =
    (lbs_of a)\<lparr>lbs_client := (client_thread \<circ> tok_client a)(n := client_thread c),
      lbs_fe_in := at_ids lbb_clients ((asked_msgs \<circ> tok_client a)(n := asked_msgs c)),
      lbs_fe_out := at_ids lbb_clients ((answer_msgs \<circ> tok_client a)(n := answer_msgs c))\<rparr>"
  using assms by (simp add: lbs_of_def fun_upd_comp missing_same broker_of_def del: fun_upd_apply)

lemma lbs_of_worker:
  "lbs_of (a\<lparr>tok_worker := (tok_worker a)(m := w)\<rparr>) =
    (lbs_of a)\<lparr>lbs_worker := (worker_thread \<circ> tok_worker a)(m := worker_thread w),
      lbs_be_in := at_ids lbb_workers ((report_msgs \<circ> tok_worker a)(m := report_msgs w)),
      lbs_be_out := at_ids lbb_workers ((order_msgs \<circ> tok_worker a)(m := order_msgs w))\<rparr>"
  by (simp add: lbs_of_def fun_upd_comp broker_of_def del: fun_upd_apply)

lemma lbs_of_asks:
  assumes Z: "zmq_contract Z" and n: "n < lbb_clients" "tok_client a n = CNew"
  shows "(lbs_of a)\<lparr>lbs_client := (lbs_client (lbs_of a))(n := CliWaiting),
      lbs_fe_in := enqueue (lbb_id n) (req_out Z (map fst lbb_client_request)) (lbs_fe_in (lbs_of a))\<rparr>
    = lbs_of (a\<lparr>tok_client := (tok_client a)(n := CAsked)\<rparr>)"
proof -
  have "answered CAsked = answered (tok_client a n)" by (simp add: n answered_def)
  from lbs_of_client [OF this] show ?thesis
    by (simp add: n upd_same zmq_contractD [OF Z] lbb_client_request_def del: fun_upd_apply)
qed

lemma lbs_of_ends:
  assumes n: "n < lbb_clients" "tok_client a n = CAnswered"
  shows "(lbs_of a)\<lparr>lbs_client := (lbs_client (lbs_of a))(n := CliEnd ''OK''),
      lbs_fe_out := (lbs_fe_out (lbs_of a))(lbb_id n := [])\<rparr>
    = lbs_of (a\<lparr>tok_client := (tok_client a)(n := CEnd)\<rparr>)"
proof -
  have "answered CEnd = answered (tok_client a n)" by (simp add: n answered_def)
  from lbs_of_client [OF this] show ?thesis by (simp add: n upd_same del: fun_upd_apply)
qed

lemma lbs_of_ready:
  assumes Z: "zmq_contract Z" and m: "m < lbb_workers" "tok_worker a m = WNew"
  shows "(lbs_of a)\<lparr>lbs_worker := (lbs_worker (lbs_of a))(m := WkRunning),
      lbs_be_in := enqueue (lbb_id m) (req_out Z (map fst lbb_worker_ready)) (lbs_be_in (lbs_of a))\<rparr>
    = lbs_of (a\<lparr>tok_worker := (tok_worker a)(m := WReady)\<rparr>)"
  unfolding lbs_of_worker by (simp add: m upd_same zmq_contractD [OF Z] lbb_worker_ready_def del: fun_upd_apply)

lemma lbs_of_works:
  assumes Z: "zmq_contract Z" and m: "m < lbb_workers" "tok_worker a m = WBusy n" and n: "tok_client a n = CBusy m"
  shows "lbb_worker_step (arrives (req_in Z [[], lbb_id n, [], ''HELLO''])) () =
      Inr (Next (), [[(lbb_id n, True), ([], True), (''OK'', False)]])"
    and "(lbs_of a)\<lparr>lbs_worker := (lbs_worker (lbs_of a))(m := WkRunning),
      lbs_be_out := (lbs_be_out (lbs_of a))(lbb_id m := []),
      lbs_be_in := enqueue (lbb_id m) (req_out Z [lbb_id n, [], ''OK'']) (lbs_be_in (lbs_of a))\<rparr>
    = lbs_of (a\<lparr>tok_client := (tok_client a)(n := CBack m), tok_worker := (tok_worker a)(m := WBack n)\<rparr>)"
proof -
  show "lbb_worker_step (arrives (req_in Z [[], lbb_id n, [], ''HELLO''])) () =
      Inr (Next (), [[(lbb_id n, True), ([], True), (''OK'', False)]])"
    by (simp add: zmq_contractD [OF Z] lbb_worker_step_def)
  let ?b = "a\<lparr>tok_client := (tok_client a)(n := CBack m)\<rparr>"
  have "answered (CBack m) = answered (tok_client a n)" by (simp add: n answered_def)
  from lbs_of_client [OF this] have b: "lbs_of ?b = lbs_of a"
    by (simp add: n upd_same del: fun_upd_apply)
  have "lbs_of (?b\<lparr>tok_worker := (tok_worker ?b)(m := WBack n)\<rparr>) =
    (lbs_of a)\<lparr>lbs_worker := (lbs_worker (lbs_of a))(m := WkRunning),
      lbs_be_out := (lbs_be_out (lbs_of a))(lbb_id m := []),
      lbs_be_in := enqueue (lbb_id m) (req_out Z [lbb_id n, [], ''OK'']) (lbs_be_in (lbs_of a))\<rparr>"
    unfolding lbs_of_worker b by (simp add: m upd_same zmq_contractD [OF Z] del: fun_upd_apply)
  then show "(lbs_of a)\<lparr>lbs_worker := (lbs_worker (lbs_of a))(m := WkRunning),
      lbs_be_out := (lbs_be_out (lbs_of a))(lbb_id m := []),
      lbs_be_in := enqueue (lbb_id m) (req_out Z [lbb_id n, [], ''OK'']) (lbs_be_in (lbs_of a))\<rparr>
    = lbs_of (a\<lparr>tok_client := (tok_client a)(n := CBack m), tok_worker := (tok_worker a)(m := WBack n)\<rparr>)"
    by simp
qed

lemma lbs_of_stops:
  assumes Z: "zmq_contract Z" and m: "m < lbb_workers" "tok_worker a m = WKilled"
  shows "lbb_worker_step (arrives (req_in Z [[], ''KILL''])) () = Inr (Halt (), [])"
    and "(lbs_of a)\<lparr>lbs_worker := (lbs_worker (lbs_of a))(m := WkEnd),
      lbs_be_out := (lbs_be_out (lbs_of a))(lbb_id m := []), lbs_be_in := lbs_be_in (lbs_of a)\<rparr>
    = lbs_of (a\<lparr>tok_worker := (tok_worker a)(m := WEnd)\<rparr>)"
  unfolding lbs_of_worker
  by (simp_all add: m upd_same zmq_contractD [OF Z] lbb_worker_step_def del: fun_upd_apply)

lemma shutdown_sent: "sent_on Backend (lbb_shutdown q) = map (\<lambda>w. [(w, True), ([], True), (''KILL'', False)]) q"
  by (induction q) simp_all

lemma router_sends_kills:
  assumes Z: "zmq_contract Z"
  shows "distinct q \<Longrightarrow> \<forall>m \<in> set q. m < k \<Longrightarrow>
    router_sends Z (map (\<lambda>w. [(w, True), ([], True), (''KILL'', False)]) (map lbb_id q)) (at_ids k f)
      = at_ids k (\<lambda>m. if m \<in> set q then f m @ [[[], ''KILL'']] else f m)"
proof (induction q arbitrary: f)
  case Nil
  then show ?case by simp
next
  case (Cons w q)
  have "router_sends Z (map (\<lambda>w. [(w, True), ([], True), (''KILL'', False)]) (map lbb_id (w # q))) (at_ids k f)
    = router_sends Z (map (\<lambda>w. [(w, True), ([], True), (''KILL'', False)]) (map lbb_id q))
        (at_ids k (f(w := f w @ [[[], ''KILL'']])))"
    using Cons.prems by (simp add: zmq_contractD [OF Z])
  also have "\<dots> = at_ids k (\<lambda>m. if m \<in> set q then (f(w := f w @ [[[], ''KILL'']])) m @ [[[], ''KILL'']]
      else (f(w := f w @ [[[], ''KILL'']])) m)"
    by (rule Cons.IH) (use Cons.prems in simp_all)
  also have "\<dots> = at_ids k (\<lambda>m. if m \<in> set (w # q) then f m @ [[[], ''KILL'']] else f m)"
    by (rule at_ids_cong) (use Cons.prems in auto)
  finally show ?case .
qed

lemma lbs_of_kills:
  assumes Z: "zmq_contract Z" and core: "tok_core a"
  shows "(lbs_of a)\<lparr>lbs_main := MainKilled,
      lbs_be_out := router_sends Z (sent_on Backend (lbb_shutdown (lbb_queue (broker_of a)))) (lbs_be_out (lbs_of a))\<rparr>
    = lbs_of (a\<lparr>tok_main := TKilled, tok_queue := [],
        tok_worker := (\<lambda>m. if m \<in> set (tok_queue a) then WKilled else tok_worker a m)\<rparr>)" (is "?l = lbs_of ?b")
proof -
  have q: "m < lbb_workers \<and> tok_worker a m = WIdle" if "m \<in> set (tok_queue a)" for m
    using that tok_coreD(2) [OF core] by blast
  have "router_sends Z (sent_on Backend (lbb_shutdown (lbb_queue (broker_of a)))) (lbs_be_out (lbs_of a))
    = at_ids lbb_workers (\<lambda>m. if m \<in> set (tok_queue a) then (order_msgs \<circ> tok_worker a) m @ [[[], ''KILL'']]
        else (order_msgs \<circ> tok_worker a) m)"
    unfolding shutdown_sent broker_of_simps lbs_of_simps
    by (rule router_sends_kills [OF Z tok_coreD(1) [OF core]]) (use q in blast)
  also have "\<dots> = lbs_be_out (lbs_of ?b)"
    unfolding lbs_of_simps by (rule at_ids_cong) (use q in auto)
  finally have out: "router_sends Z (sent_on Backend (lbb_shutdown (lbb_queue (broker_of a)))) (lbs_be_out (lbs_of a))
    = lbs_be_out (lbs_of ?b)" .
  have "lbs_be_in (lbs_of ?b) = lbs_be_in (lbs_of a)"
    unfolding lbs_of_simps by (rule at_ids_cong) (use q in auto)
  moreover have "lbs_worker (lbs_of ?b) = lbs_worker (lbs_of a)" using q by (auto simp: fun_eq_iff)
  ultimately show ?thesis unfolding out by (intro lbs.equality) simp_all
qed

text \<open>A round of \<open>main\<close>, with the break and without it.\<close>

definition lbs_round :: "zmq_envelope \<Rightarrow> lbs \<Rightarrow> lbb ctl \<Rightarrow> sent list \<Rightarrow> (frame \<Rightarrow> msg list) \<Rightarrow> (frame \<Rightarrow> msg list) \<Rightarrow> lbs" where
  "lbs_round Z s c os be fe = s\<lparr>lbs_main := (case c of Next b' \<Rightarrow> MainLoop b' | Halt b' \<Rightarrow> MainJoin b'),
      lbs_be_in := be, lbs_fe_in := (case c of Next _ \<Rightarrow> fe | Halt _ \<Rightarrow> lbs_fe_in s),
      lbs_fe_out := router_sends Z (sent_on Frontend os) (lbs_fe_out s),
      lbs_be_out := router_sends Z (sent_on Backend os) (lbs_be_out s)\<rparr>"

lemma broker_of_main [simp]: "broker_of (a\<lparr>tok_main := x\<rparr>) = broker_of a"
  by (simp add: broker_of_def)

lemma queue_free: "lbb_queue (broker_of a) = [] \<longleftrightarrow> tok_queue a = []"
  by simp

lemma round_last:
  assumes bk: "back_ok Z a b rb be os" and "missing (tok_client b) = 0"
  shows "lbb_step \<lparr>poll_be = polled Z rb, poll_fe = polled Z rf\<rparr> (broker_of a) = Inr (Halt (broker_of b), os)"
    and "lbs_round Z (lbs_of a) (Halt (broker_of b)) os be fe = lbs_of (b\<lparr>tok_main := TJoin\<rparr>)"
proof -
  have "back_result Z (broker_of a) rb = Inr (Halt (broker_of b), os)" using assms by (simp add: back_ok_def)
  from lbb_step_parts [OF this, of rf]
  show "lbb_step \<lparr>poll_be = polled Z rb, poll_fe = polled Z rf\<rparr> (broker_of a) = Inr (Halt (broker_of b), os)" by simp
  show "lbs_round Z (lbs_of a) (Halt (broker_of b)) os be fe = lbs_of (b\<lparr>tok_main := TJoin\<rparr>)"
    unfolding lbs_round_def using bk
    by (intro lbs.equality) (simp_all add: back_ok_def del: lbs_of_simps(2-7), simp_all)
qed

lemma round_next:
  assumes bk: "back_ok Z a b rb be o1" and left: "missing (tok_client b) \<noteq> 0"
    and fr: "front_ok Z (tok_queue a = []) b c rf fe o2" and loop: "tok_main a = TLoop"
  shows "lbb_step \<lparr>poll_be = polled Z rb, poll_fe = polled Z rf\<rparr> (broker_of a) = Inr (Next (broker_of c), o1 @ o2)"
    and "lbs_round Z (lbs_of a) (Next (broker_of c)) (o1 @ o2) be fe = lbs_of c"
proof -
  have "back_result Z (broker_of a) rb = Inr (Next (broker_of b), o1)" using bk left by (simp add: back_ok_def)
  from lbb_step_parts [OF this, of rf]
  show "lbb_step \<lparr>poll_be = polled Z rb, poll_fe = polled Z rf\<rparr> (broker_of a) = Inr (Next (broker_of c), o1 @ o2)"
    using fr by (simp add: front_ok_def)
  show "lbs_round Z (lbs_of a) (Next (broker_of c)) (o1 @ o2) be fe = lbs_of c"
    unfolding lbs_round_def using bk fr loop
    by (intro lbs.equality) (simp_all add: back_ok_def front_ok_def del: lbs_of_simps(2-7))
qed

text \<open>Every step of the program is one of the machine; the rules for a failed assertion never apply.\<close>

lemma lbs_step_main:
  assumes Z: "zmq_contract Z" and inv: "tok_inv a" and b: "lbs_main (lbs_of a) = MainLoop b"
    and be: "takes (lbs_be_in (lbs_of a)) rb be"
    and fe: "if lbb_queue b = [] then rf = None \<and> fe = lbs_fe_in (lbs_of a) else takes (lbs_fe_in (lbs_of a)) rf fe"
    and some: "rb \<noteq> None \<or> rf \<noteq> None"
  shows "\<exists>c os a'. lbb_step \<lparr>poll_be = polled Z rb, poll_fe = polled Z rf\<rparr> b = Inr (c, os)
    \<and> lbs_round Z (lbs_of a) c os be fe = lbs_of a' \<and> tok_step a a'"
proof -
  have loop: "tok_main a = TLoop" and b: "b = broker_of a"
    using b by (cases "tok_main a"; simp)+
  have core: "tok_core a" and left: "missing (tok_client a) \<noteq> 0" using inv loop by (simp_all add: tok_inv_def)
  from back_forth [OF Z core left be] obtain a1 o1 where a1: "tok_back a a1" and bk: "back_ok Z a a1 rb be o1" by blast
  show ?thesis
  proof (cases "missing (tok_client a1) = 0")
    case True
    from round_last [OF bk True] tok_last [OF loop a1 True] show ?thesis unfolding b by blast
  next
    case False
    have q: "tok_queue a \<noteq> [] \<longrightarrow> tok_queue a1 \<noteq> []" using a1 by (auto elim: tok_back.cases)
    have "lbs_fe_in (lbs_of a1) = lbs_fe_in (lbs_of a)" using bk by (simp add: back_ok_def del: lbs_of_simps)
    then have "if tok_queue a = [] then rf = None \<and> fe = lbs_fe_in (lbs_of a1) else takes (lbs_fe_in (lbs_of a1)) rf fe"
      using fe unfolding b queue_free by (simp only:)
    from front_forth [OF Z tok_core_back [OF a1 core] q this] obtain a2 o2 where
      a2: "tok_front (tok_queue a) a1 a2" and fr: "front_ok Z (tok_queue a = []) a1 a2 rf fe o2" by blast
    have "a2 \<noteq> a"
      using some bk fr tok_rank_back [OF a1 core] tok_rank_front [OF a2 tok_core_back [OF a1 core]]
      by (fastforce simp: back_ok_def front_ok_def)
    from round_next [OF bk False fr loop] tok_round [OF loop a1 False a2 this] show ?thesis unfolding b by blast
  qed
qed

lemma lbs_step_forth:
  assumes Z: "zmq_contract Z" and inv: "tok_inv a" and st: "lbs_step Z (lbs_of a) t"
  shows "\<exists>b. tok_step a b \<and> t = lbs_of b"
  using st
proof cases
  case (client_sends n)
  then have n: "n < lbb_clients" "tok_client a n = CNew" by (cases "tok_client a n"; simp)+
  from tok_asks [OF n] lbs_of_asks [OF Z n] client_sends(1) show ?thesis by metis
next
  case (client_ends n m ms rep es)
  then have n: "n < lbb_clients" "tok_client a n = CAnswered" by (cases "tok_client a n"; simp)+
  have "m = [[], ''OK'']" "ms = []" using client_ends(4) n by simp_all
  with client_ends(5) have "rep = ''OK''" by (simp add: zmq_contractD [OF Z])
  with tok_ends [OF n] lbs_of_ends [OF n] client_ends(1) \<open>ms = []\<close> show ?thesis by metis
next
  case (worker_ready m)
  then have m: "m < lbb_workers" "tok_worker a m = WNew" by (cases "tok_worker a m"; simp)+
  from tok_ready [OF m] lbs_of_ready [OF Z m] worker_ready(1) show ?thesis by metis
next
  case (worker_works m msg ms c os)
  have core: "tok_core a" using inv by (simp add: tok_inv_def)
  show ?thesis
  proof (cases "tok_worker a m")
    case (WBusy n)
    note w = worker_works(2) WBusy
    have n: "tok_client a n = CBusy m" using tok_coreD(3) [OF core w] by simp
    have "msg = [[], lbb_id n, [], ''HELLO'']" "ms = []" using worker_works(2,4) WBusy by simp_all
    with worker_works(5) lbs_of_works(1) [OF Z w n]
    have "c = Next ()" "os = [[(lbb_id n, True), ([], True), (''OK'', False)]]" by simp_all
    with worker_works(1) tok_works [OF w] lbs_of_works(2) [OF Z w n] \<open>ms = []\<close> show ?thesis by auto
  next
    case WKilled
    note w = worker_works(2) WKilled
    have "msg = [[], ''KILL'']" "ms = []" using worker_works(2,4) WKilled by simp_all
    with worker_works(5) lbs_of_stops(1) [OF Z w] have "c = Halt ()" "os = []" by simp_all
    with worker_works(1) tok_stops [OF w] lbs_of_stops(2) [OF Z w] \<open>ms = []\<close> show ?thesis by auto
  qed (use worker_works in simp_all)
next
  case (worker_fails m msg ms e)
  have core: "tok_core a" using inv by (simp add: tok_inv_def)
  show ?thesis
  proof (cases "tok_worker a m")
    case (WBusy n)
    note w = worker_fails(2) WBusy
    have n: "tok_client a n = CBusy m" using tok_coreD(3) [OF core w] by simp
    have "msg = [[], lbb_id n, [], ''HELLO'']" using worker_fails(2,4) WBusy by simp
    with worker_fails(5) lbs_of_works(1) [OF Z w n] show ?thesis by simp
  next
    case WKilled
    note w = worker_fails(2) WKilled
    have "msg = [[], ''KILL'']" using worker_fails(2,4) WKilled by simp
    with worker_fails(5) lbs_of_stops(1) [OF Z w] show ?thesis by simp
  qed (use worker_fails in simp_all)
next
  case (main_loops b rb be rf fe c os)
  from lbs_step_main [OF Z inv main_loops(2-5)] main_loops(1,6) show ?thesis
    unfolding lbs_round_def by auto
next
  case (main_fails b rb be rf fe e)
  from lbs_step_main [OF Z inv main_fails(2-5)] main_fails(6) show ?thesis by auto
next
  case (main_kills b)
  then have "tok_main a = TJoin" "b = broker_of a" by (cases "tok_main a"; simp)+
  moreover have "\<forall>n < lbb_clients. tok_client a n = CEnd"
  proof (intro allI impI)
    fix n assume "n < lbb_clients"
    with main_kills(3) obtain rep where "client_thread (tok_client a n) = CliEnd rep" by auto
    then show "tok_client a n = CEnd" by (cases "tok_client a n") simp_all
  qed
  moreover have "tok_core a" using inv by (simp add: tok_inv_def)
  ultimately show ?thesis
    unfolding main_kills(1) by (intro exI conjI) (rule tok_kills, assumption+, simp only: lbs_of_kills [OF Z])
qed

text \<open>Every step of the machine is one of the program.\<close>

lemma lbs_step_round:
  assumes Z: "zmq_contract Z" and inv: "tok_inv a" and loop: "tok_main a = TLoop" and bk: "tok_back a b"
  shows "missing (tok_client b) = 0 \<Longrightarrow> lbs_step Z (lbs_of a) (lbs_of (b\<lparr>tok_main := TJoin\<rparr>))"
    and "missing (tok_client b) \<noteq> 0 \<Longrightarrow> tok_front (tok_queue a) b c \<Longrightarrow> c \<noteq> a \<Longrightarrow> lbs_step Z (lbs_of a) (lbs_of c)"
proof -
  have core: "tok_core a" and left: "missing (tok_client a) \<noteq> 0" using inv loop by (simp_all add: tok_inv_def)
  have main: "lbs_main (lbs_of a) = MainLoop (broker_of a)" by (simp add: loop)
  obtain rb be o1 where t: "takes (lbs_be_in (lbs_of a)) rb be" and ok: "back_ok Z a b rb be o1"
    using back_back [OF Z core left bk] by blast
  have same: "lbs_fe_in (lbs_of b) = lbs_fe_in (lbs_of a)" using ok by (simp add: back_ok_def del: lbs_of_simps)
  {
    assume last: "missing (tok_client b) = 0"
    then have "rb \<noteq> None" using ok left by (auto simp: back_ok_def)
    moreover have "if lbb_queue (broker_of a) = [] then None = None \<and> lbs_fe_in (lbs_of a) = lbs_fe_in (lbs_of a)
        else takes (lbs_fe_in (lbs_of a)) None (lbs_fe_in (lbs_of a))"
      by (simp add: takes_none del: lbs_of_simps)
    ultimately show "lbs_step Z (lbs_of a) (lbs_of (b\<lparr>tok_main := TJoin\<rparr>))"
      unfolding round_last(2) [OF ok last, of "lbs_fe_in (lbs_of a)", symmetric]
      by (intro main_loops [OF main t _ _ round_last(1) [OF ok last], folded lbs_round_def]) blast+
  }
  {
    assume left': "missing (tok_client b) \<noteq> 0" and fr: "tok_front (tok_queue a) b c" and ne: "c \<noteq> a"
    obtain rf fe o2 where f: "if tok_queue a = [] then rf = None \<and> fe = lbs_fe_in (lbs_of b) else takes (lbs_fe_in (lbs_of b)) rf fe"
      and fok: "front_ok Z (tok_queue a = []) b c rf fe o2"
      using front_back [OF Z tok_core_back [OF bk core] fr] by blast
    have "rb \<noteq> None \<or> rf \<noteq> None" using ne ok fok by (auto simp: back_ok_def front_ok_def)
    then show "lbs_step Z (lbs_of a) (lbs_of c)"
      unfolding round_next(2) [OF ok left' fok loop, symmetric]
      by (rule main_loops [OF main t f [unfolded same, folded queue_free] _ round_next(1) [OF ok left' fok loop],
          folded lbs_round_def])
  }
qed

lemma lbs_step_back:
  assumes Z: "zmq_contract Z" and inv: "tok_inv a" and st: "tok_step a b"
  shows "lbs_step Z (lbs_of a) (lbs_of b)"
  using st
proof cases
  case (tok_asks n)
  have "lbs_client (lbs_of a) n = CliNew" by (simp add: tok_asks)
  from client_sends [OF tok_asks(2) this, of Z] show ?thesis unfolding lbs_of_asks [OF Z tok_asks(2,3)] tok_asks(1) .
next
  case (tok_ends n)
  have "lbs_client (lbs_of a) n = CliWaiting" "lbs_fe_out (lbs_of a) (lbb_id n) = [[], ''OK''] # []"
    "recv_part (arrives (req_in Z [[], ''OK''])) = Inr (''OK'', arrives [])"
    using tok_ends by (simp_all add: zmq_contractD [OF Z])
  from client_ends [OF tok_ends(2) this] show ?thesis unfolding lbs_of_ends [OF tok_ends(2,3)] tok_ends(1) .
next
  case (tok_ready m)
  have "lbs_worker (lbs_of a) m = WkNew" by (simp add: tok_ready)
  from worker_ready [OF tok_ready(2) this, of Z] show ?thesis unfolding lbs_of_ready [OF Z tok_ready(2,3)] tok_ready(1) .
next
  case (tok_works m n)
  have n: "tok_client a n = CBusy m" using tok_coreD(3) [OF _ tok_works(2,3)] inv by (simp add: tok_inv_def)
  have "lbs_worker (lbs_of a) m = WkRunning" "lbs_be_out (lbs_of a) (lbb_id m) = [[], lbb_id n, [], ''HELLO''] # []"
    using tok_works by simp_all
  from worker_works [OF tok_works(2) this lbs_of_works(1) [OF Z tok_works(2,3) n]] show ?thesis
    using lbs_of_works(2) [OF Z tok_works(2,3) n] by (simp add: tok_works(1))
next
  case (tok_stops m)
  have "lbs_worker (lbs_of a) m = WkRunning" "lbs_be_out (lbs_of a) (lbb_id m) = [[], ''KILL''] # []"
    using tok_stops by simp_all
  from worker_works [OF tok_stops(2) this lbs_of_stops(1) [OF Z tok_stops(2,3)]] show ?thesis
    using lbs_of_stops(2) [OF Z tok_stops(2,3)] by (simp add: tok_stops(1))
next
  case (tok_round b')
  from lbs_step_round(2) [OF Z inv tok_round(1-5)] show ?thesis .
next
  case (tok_last b')
  from lbs_step_round(1) [OF Z inv tok_last(2-4)] show ?thesis unfolding tok_last(1) .
next
  case tok_kills
  have "lbs_main (lbs_of a) = MainJoin (broker_of a)" "\<forall>n < lbb_clients. \<exists>rep. lbs_client (lbs_of a) n = CliEnd rep"
    using tok_kills by simp_all
  from main_kills [OF this, of Z] show ?thesis
    unfolding tok_kills(1) using lbs_of_kills [OF Z, of a] inv by (simp only: tok_inv_def)
qed

lemma lbs_refinement: "zmq_contract Z \<Longrightarrow> token_refinement tok_init tok_step tok_inv (lbs_step Z) lbs_of"
  by unfold_locales (fact lbs_step_forth, fact lbs_step_back)

interpretation lbs_std: token_refinement tok_init tok_step tok_inv "lbs_step zmq_std" lbs_of
  by (rule lbs_refinement [OF zmq_std_contract])

lemma lbs_of_init: "lbs_of tok_init = lbs_init"
  by (simp add: lbs_of_def lbs_init_def tok_init_def broker_of_def lbb_init_def missing_init lbb_clients_def at_ids_nil comp_def)

subsection \<open>What the program does\<close>

text \<open>
  C4: the program, all its threads and sockets, is the token machine: the states it can reach are
  the states the machine can reach, with the messages under way that the tokens stand for.
\<close>

theorem lbs_refines_tokens:
  assumes Z: "zmq_contract Z"
  shows "(lbs_step Z)\<^sup>*\<^sup>* lbs_init t \<longleftrightarrow> (\<exists>a. tok_step\<^sup>*\<^sup>* tok_init a \<and> t = lbs_of a)"
  using token_refinement.reachable_iff [OF lbs_refinement [OF Z]] unfolding lbs_of_init .

theorem lbs_refines_tokens_witness:
  "(lbs_step zmq_std)\<^sup>*\<^sup>* lbs_init (lbs_of (tok_init\<lparr>tok_client := (\<lambda>_. CNew)(0 := CAsked)\<rparr>))"
proof -
  have "tok_step tok_init (tok_init\<lparr>tok_client := (tok_client tok_init)(0 := CAsked)\<rparr>)"
    by (rule tok_asks) (simp_all add: tok_init_def lbb_clients_def)
  then have "tok_step\<^sup>*\<^sup>* tok_init (tok_init\<lparr>tok_client := (\<lambda>_. CNew)(0 := CAsked)\<rparr>)"
    by (simp add: tok_init_def r_into_rtranclp)
  with lbs_refines_tokens [OF zmq_std_contract] show ?thesis by blast
qed

text \<open>A state the program can reach, with the machine's state.\<close>

lemma lbs_reachable:
  assumes "zmq_contract Z" and "(lbs_step Z)\<^sup>*\<^sup>* lbs_init s"
  obtains a where "s = lbs_of a" "tok_inv a" "tok_step\<^sup>*\<^sup>* tok_init a"
  using token_refinement.reach_forth [OF lbs_refinement [OF assms(1)], of tok_init s] assms(2) tok_inv_init
    tok.inv_reachable unfolding lbs_of_init by blast

text \<open>
  C9: in no interleaving of the threads does any of them fail an assertion or take from an empty
  queue; a client that has a reply has got OK, and no thread can get a message it has no branch for.
\<close>

theorem lbs_no_fault:
  assumes Z: "zmq_contract Z" and r: "(lbs_step Z)\<^sup>*\<^sup>* lbs_init s"
  shows "lbs_fault s = None \<and> (\<forall>n rep. n < lbb_clients \<and> lbs_client s n = CliEnd rep \<longrightarrow> rep = ''OK'')"
proof -
  obtain a where a: "s = lbs_of a" using lbs_reachable [OF Z r] .
  have "rep = ''OK''" if "client_thread c = CliEnd rep" for c rep using that by (cases c) auto
  then show ?thesis unfolding a by auto
qed

text \<open>
  C6: every run of the program ends, after at most 63 steps of its threads and of \<open>main\<close>, and as
  long as something can still happen the run can be continued to a state where nothing can.
\<close>

theorem lbs_terminates:
  assumes Z: "zmq_contract Z" and r: "((lbs_step Z) ^^ n) lbs_init s"
  shows "n \<le> 63 \<and> (\<exists>k t. n + k \<le> 63 \<and> ((lbs_step Z) ^^ k) s t \<and> stuck (lbs_step Z) t)"
proof -
  note ref = lbs_refinement [OF Z]
  obtain a where a: "(tok_step ^^ n) tok_init a" "tok_inv a" "s = lbs_of a"
    using token_refinement.run_forth [OF ref] r tok_inv_init unfolding lbs_of_init [symmetric] by blast
  obtain b where b: "tok_step\<^sup>*\<^sup>* a b" "stuck tok_step b" using tok.reaches_stuck [OF a(2)] by blast
  obtain k where k: "(tok_step ^^ k) a b" using rtranclp_imp_relpowp [OF b(1)] by blast
  have nk: "(tok_step ^^ (n + k)) tok_init b" using a(1) k by (auto simp: relpowp_add)
  have "tok_inv b" using tok.inv_steps [OF b(1) a(2)] .
  then have "stuck (lbs_step Z) (lbs_of b)" using b(2) token_refinement.stuck_iff [OF ref] by blast
  moreover have "((lbs_step Z) ^^ k) s (lbs_of b)"
    using token_refinement.run_back [OF ref k a(2)] unfolding a(3) .
  moreover have "n \<le> 63" "n + k \<le> 63"
    using tok.run_bounded [OF a(1)] tok.run_bounded [OF nk] by (simp_all add: lbb_clients_def lbb_workers_def)
  ultimately show ?thesis by blast
qed

theorem lbs_terminates_witness:
  "\<exists>k t. k \<le> 63 \<and> ((lbs_step zmq_std) ^^ k) lbs_init t \<and> stuck (lbs_step zmq_std) t"
  using lbs_terminates [OF zmq_std_contract, of 0 lbs_init] by simp

lemma lbs_reaches_stuck:
  assumes Z: "zmq_contract Z"
  obtains s where "(lbs_step Z)\<^sup>*\<^sup>* lbs_init s" "stuck (lbs_step Z) s"
proof -
  note ref = lbs_refinement [OF Z]
  obtain b where b: "tok_step\<^sup>*\<^sup>* tok_init b" "stuck tok_step b" using tok.reaches_stuck [OF tok_inv_init] by blast
  have "stuck (lbs_step Z) (lbs_of b)"
    using token_refinement.stuck_iff [OF ref tok.inv_reachable [OF b(1)]] b(2) by blast
  moreover have "(lbs_step Z)\<^sup>*\<^sup>* lbs_init (lbs_of b)"
    using token_refinement.reachable_iff [OF ref] b(1) unfolding lbs_of_init by blast
  ultimately show thesis by (rule that [rotated])
qed

text \<open>
  C5: when nothing more can happen, \<open>main\<close> has sent its KILLs, every client has got OK, and the
  worker threads have ended, except those whose READY came too late: theirs is still in the socket,
  unread, and they wait for a message that nobody sends. The program returns exactly when there is
  no such worker.
\<close>

theorem lbs_serves_all:
  assumes Z: "zmq_contract Z" and r: "(lbs_step Z)\<^sup>*\<^sup>* lbs_init s" and st: "stuck (lbs_step Z) s"
  shows "lbs_main s = MainKilled \<and> (\<forall>n < lbb_clients. lbs_client s n = CliEnd ''OK'')
    \<and> (\<forall>m < lbb_workers. lbs_worker s m = (if lbs_be_in s (lbb_id m) = [] then WkEnd else WkRunning)
         \<and> lbs_be_in s (lbb_id m) \<in> {[], [[[], ''READY'']]} \<and> lbs_be_out s (lbb_id m) = [])
    \<and> (lbs_returned s \<longleftrightarrow> (\<forall>m < lbb_workers. lbs_be_in s (lbb_id m) = []))"
proof -
  obtain a where a: "s = lbs_of a" "tok_inv a" using lbs_reachable [OF Z r] by metis
  have "stuck tok_step a" using st token_refinement.stuck_iff [OF lbs_refinement [OF Z] a(2)] unfolding a(1) by simp
  note end_state = tok_stuck [OF a(2) this]
  have main: "lbs_main s = MainKilled" and clients: "\<forall>n < lbb_clients. lbs_client s n = CliEnd ''OK''"
    using end_state unfolding a(1) by simp_all
  have workers: "lbs_worker s m = (if lbs_be_in s (lbb_id m) = [] then WkEnd else WkRunning)
      \<and> lbs_be_in s (lbb_id m) \<in> {[], [[[], ''READY'']]} \<and> lbs_be_out s (lbb_id m) = []" if m: "m < lbb_workers" for m
  proof -
    from end_state m consider "tok_worker a m = WEnd" | "tok_worker a m = WReady" by blast
    then show ?thesis unfolding a(1) using m by cases simp_all
  qed
  then have "lbs_worker s m = WkEnd \<longleftrightarrow> lbs_be_in s (lbb_id m) = []" if "m < lbb_workers" for m
    using that by (metis lbs_worker.distinct(5))
  then have "lbs_returned s \<longleftrightarrow> (\<forall>m < lbb_workers. lbs_be_in s (lbb_id m) = [])"
    using main by (simp add: lbs_returned_def)
  with main clients workers show ?thesis by blast
qed

theorem lbs_serves_all_witness:
  "\<exists>s. (lbs_step zmq_std)\<^sup>*\<^sup>* lbs_init s \<and> stuck (lbs_step zmq_std) s \<and> lbs_main s = MainKilled
    \<and> lbs_client s 0 = CliEnd ''OK'' \<and> lbs_client s 9 = CliEnd ''OK''"
proof -
  obtain s where s: "(lbs_step zmq_std)\<^sup>*\<^sup>* lbs_init s" "stuck (lbs_step zmq_std) s"
    using lbs_reaches_stuck [OF zmq_std_contract] .
  from s lbs_serves_all [OF zmq_std_contract s] show ?thesis by (intro exI [of _ s]) (simp add: lbb_clients_def)
qed

subsection \<open>A run that does not return\<close>

text \<open>
  Worker 0 serves all the clients, one after the other, and the others start when it has been told to
  stop. The machine with the first \<open>k\<close> clients served, the next one at \<open>c\<close>, and worker 0 at \<open>w\<close>:
\<close>

definition one_by_one :: "nat \<Rightarrow> client_token \<Rightarrow> nat list \<Rightarrow> worker_token \<Rightarrow> tok" where
  "one_by_one k c q w = \<lparr>tok_main = TLoop, tok_queue = q,
     tok_client = (\<lambda>n. if n < k then CEnd else CNew)(k := c), tok_worker = (\<lambda>_. WNew)(0 := w)\<rparr>"

lemma one_by_one_simps [simp]:
  "tok_main (one_by_one k c q w) = TLoop" "tok_queue (one_by_one k c q w) = q"
  "tok_client (one_by_one k c q w) k = c" "tok_worker (one_by_one k c q w) 0 = w"
  "(one_by_one k c q w)\<lparr>tok_queue := q'\<rparr> = one_by_one k c q' w"
  "(one_by_one k c q w)\<lparr>tok_client := (tok_client (one_by_one k c0 q0 w0))(k := c')\<rparr> = one_by_one k c' q w"
  "(one_by_one k c q w)\<lparr>tok_worker := (tok_worker (one_by_one k c0 q0 w0))(0 := w')\<rparr> = one_by_one k c q w'"
  by (simp_all add: one_by_one_def)

lemma one_by_one_neq [simp]: "one_by_one k c q w = one_by_one k c' q' w' \<longleftrightarrow> c = c' \<and> q = q' \<and> w = w'"
  by (auto simp: one_by_one_def dest: fun_cong [of _ _ k] fun_cong [of _ _ 0])

lemma one_by_one_missing: "missing (tok_client (one_by_one k c q w)) =
    lbb_clients - (if answered c \<and> k < lbb_clients then Suc k else k)"
proof -
  have "{n. n < lbb_clients \<and> \<not> answered (tok_client (one_by_one k c q w) n)} =
      {if answered c then Suc k else k..<lbb_clients}"
    by (auto simp: one_by_one_def answered_def)
  then show ?thesis by (simp add: missing_def)
qed

lemma one_by_one_next: "one_by_one k CEnd q w = one_by_one (Suc k) CNew q w"
  by (auto simp: one_by_one_def less_Suc_eq)

text \<open>A client's request on its way to the worker and back; the last of the replies breaks the loop.\<close>

lemma one_by_one_asked:
  assumes k: "k < lbb_clients"
  shows "tok_step\<^sup>*\<^sup>* (one_by_one k CNew [0] WIdle) (one_by_one k (CBack 0) [] (WBack k))"
proof -
  let ?s = "one_by_one k"
  have zero: "0 < lbb_workers" by (simp add: lbb_workers_def)
  have "tok_step\<^sup>*\<^sup>* (?s CNew [0] WIdle) (?s CAsked [0] WIdle)"
    using tok_asks [of k "?s CNew [0] WIdle"] k by (simp add: r_into_rtranclp)
  also have "tok_step (?s CAsked [0] WIdle) (?s (CBusy 0) [] (WBusy k))"
  proof (rule tok_round [OF _ back_none])
    show "tok_front (tok_queue (?s CAsked [0] WIdle)) (?s CAsked [0] WIdle) (?s (CBusy 0) [] (WBusy k))"
      using front_request [of "[0]" k "?s CAsked [0] WIdle" 0 "[]"] k by simp
  qed (use k in \<open>simp_all add: one_by_one_missing answered_def\<close>)
  also (rtranclp.rtrancl_into_rtrancl) have "tok_step (?s (CBusy 0) [] (WBusy k)) (?s (CBack 0) [] (WBack k))"
    using tok_works [of 0 "?s (CBusy 0) [] (WBusy k)" k] zero by simp
  finally (rtranclp.rtrancl_into_rtrancl) show ?thesis .
qed

lemma one_by_one_back: "tok_back (one_by_one k (CBack 0) [] (WBack k)) (one_by_one k CAnswered [0] WIdle)"
  using back_reply [of 0 "one_by_one k (CBack 0) [] (WBack k)" k] by (simp add: lbb_workers_def)

lemma one_by_one_served:
  assumes k: "Suc k < lbb_clients"
  shows "tok_step\<^sup>*\<^sup>* (one_by_one k CNew [0] WIdle) (one_by_one (Suc k) CNew [0] WIdle)"
proof -
  let ?s = "one_by_one k"
  have "tok_step\<^sup>*\<^sup>* (?s CNew [0] WIdle) (?s (CBack 0) [] (WBack k))" by (rule one_by_one_asked) (use k in simp)
  also have "tok_step (?s (CBack 0) [] (WBack k)) (?s CAnswered [0] WIdle)"
  proof (rule tok_round [OF _ one_by_one_back])
    show "tok_front (tok_queue (?s (CBack 0) [] (WBack k))) (?s CAnswered [0] WIdle) (?s CAnswered [0] WIdle)"
      using front_unpolled by simp
  qed (use k in \<open>simp_all add: one_by_one_missing answered_def\<close>)
  also (rtranclp.rtrancl_into_rtrancl) have "tok_step (?s CAnswered [0] WIdle) (?s CEnd [0] WIdle)"
    using tok_ends [of k "?s CAnswered [0] WIdle"] k by simp
  finally (rtranclp.rtrancl_into_rtrancl) show ?thesis by (simp only: one_by_one_next)
qed

lemma one_by_one_all:
  "k < lbb_clients \<Longrightarrow> tok_step\<^sup>*\<^sup>* (one_by_one 0 CNew [0] WIdle) (one_by_one k CNew [0] WIdle)"
proof (induction k)
  case (Suc k)
  from Suc.IH Suc.prems one_by_one_served [OF Suc.prems] show ?case by (metis Suc_lessD rtranclp_trans)
qed simp

lemma one_by_one_init: "tok_step\<^sup>*\<^sup>* tok_init (one_by_one 0 CNew [0] WIdle)"
proof -
  have zero: "0 < lbb_workers" by (simp add: lbb_workers_def)
  have init: "tok_init = one_by_one 0 CNew [] WNew" by (auto simp: tok_init_def one_by_one_def)
  have "tok_step\<^sup>*\<^sup>* tok_init (one_by_one 0 CNew [] WReady)"
    unfolding init using tok_ready [of 0 "one_by_one 0 CNew [] WNew"] zero by (simp add: r_into_rtranclp)
  also have "tok_step (one_by_one 0 CNew [] WReady) (one_by_one 0 CNew [0] WIdle)"
  proof (rule tok_round)
    show "tok_back (one_by_one 0 CNew [] WReady) (one_by_one 0 CNew [0] WIdle)"
      using back_ready [of 0 "one_by_one 0 CNew [] WReady"] zero by simp
    show "tok_front (tok_queue (one_by_one 0 CNew [] WReady)) (one_by_one 0 CNew [0] WIdle) (one_by_one 0 CNew [0] WIdle)"
      using front_unpolled by simp
  qed (simp_all add: one_by_one_missing answered_def lbb_clients_def)
  finally (rtranclp.rtrancl_into_rtrancl) show ?thesis .
qed

text \<open>After the tenth reply: \<open>main\<close> joins the last client and sends KILL to worker 0.\<close>

lemma one_by_one_killed: "\<exists>a. tok_step\<^sup>*\<^sup>* tok_init a \<and> tok_main a = TKilled \<and> tok_worker a 1 = WNew"
proof -
  have nine: "9 < lbb_clients" "Suc 9 = lbb_clients" by (simp_all add: lbb_clients_def)
  let ?a = "one_by_one 9 (CBack 0) [] (WBack 9)" and ?b = "one_by_one 9 CAnswered [0] WIdle"
  let ?c = "(?b\<lparr>tok_main := TJoin\<rparr>)\<lparr>tok_client := (tok_client (?b\<lparr>tok_main := TJoin\<rparr>))(9 := CEnd)\<rparr>"
  let ?d = "?c\<lparr>tok_main := TKilled, tok_queue := [],
      tok_worker := (\<lambda>m. if m \<in> set (tok_queue ?c) then WKilled else tok_worker ?c m)\<rparr>"
  have "tok_step\<^sup>*\<^sup>* tok_init ?a"
    using one_by_one_init one_by_one_all [OF nine(1)] one_by_one_asked [OF nine(1)] by (meson rtranclp_trans)
  also have "tok_step ?a (?b\<lparr>tok_main := TJoin\<rparr>)"
    by (rule tok_last [OF _ one_by_one_back]) (simp_all add: one_by_one_missing answered_def lbb_clients_def)
  also (rtranclp.rtrancl_into_rtrancl) have "tok_step (?b\<lparr>tok_main := TJoin\<rparr>) ?c"
    by (rule tok_ends [OF nine(1)]) simp
  also (rtranclp.rtrancl_into_rtrancl) have "tok_step ?c ?d"
    by (rule tok_kills) (auto simp: one_by_one_def lbb_clients_def)
  finally (rtranclp.rtrancl_into_rtrancl) have "tok_step\<^sup>*\<^sup>* tok_init ?d" .
  moreover have "tok_main ?d = TKilled" by simp
  moreover have "tok_worker ?d 1 = WNew" by (simp add: one_by_one_def)
  ultimately show ?thesis by blast
qed

lemma tok_late_worker:
  "tok_step a b \<Longrightarrow> tok_main a = TKilled \<and> tok_worker a m \<in> {WNew, WReady} \<Longrightarrow>
    tok_main b = TKilled \<and> tok_worker b m \<in> {WNew, WReady}"
  by (induction rule: tok_step.induct) auto

theorem lbs_no_fault_witness:
  "lbs_fault (lbs_of (one_by_one 9 CNew [0] WIdle)) = None
    \<and> lbs_client (lbs_of (one_by_one 9 CNew [0] WIdle)) 8 = CliEnd ''OK''"
proof -
  have "tok_step\<^sup>*\<^sup>* tok_init (one_by_one 9 CNew [0] WIdle)"
    using one_by_one_init one_by_one_all [of 9] by (simp add: lbb_clients_def rtranclp_trans)
  then have "(lbs_step zmq_std)\<^sup>*\<^sup>* lbs_init (lbs_of (one_by_one 9 CNew [0] WIdle))"
    using token_refinement.reachable_iff [OF lbs_refinement [OF zmq_std_contract]] unfolding lbs_of_init by blast
  note this [THEN lbs_no_fault [OF zmq_std_contract]]
  moreover have "lbs_client (lbs_of (one_by_one 9 CNew [0] WIdle)) 8 = CliEnd ''OK''"
    by (simp add: one_by_one_def)
  ultimately show ?thesis by blast
qed

text \<open>
  C7: the program need not return. A worker thread that has not sent its READY, or whose READY has
  not been read, when the tenth reply goes out is never told to stop, and \<open>main\<close>, which joins the
  workers, waits for it for ever.
\<close>

theorem lbs_may_hang:
  assumes Z: "zmq_contract Z"
  shows "\<exists>s. (lbs_step Z)\<^sup>*\<^sup>* lbs_init s \<and> stuck (lbs_step Z) s \<and> lbs_worker s 1 = WkRunning \<and> \<not> lbs_returned s"
proof -
  note ref = lbs_refinement [OF Z]
  obtain a where a: "tok_step\<^sup>*\<^sup>* tok_init a" "tok_main a = TKilled" "tok_worker a 1 = WNew"
    using one_by_one_killed by blast
  have inv: "tok_inv a" by (rule tok.inv_reachable [OF a(1)])
  obtain b where b: "tok_step\<^sup>*\<^sup>* a b" "stuck tok_step b" using tok.reaches_stuck [OF inv] by blast
  have "tok_main b = TKilled \<and> tok_worker b 1 \<in> {WNew, WReady}"
    using b(1)
  proof (induction rule: rtranclp_induct)
    case base
    with a show ?case by simp
  next
    case (step y z)
    with tok_late_worker show ?case by blast
  qed
  moreover have "tok_worker b 1 \<noteq> WNew" using stuckD [OF b(2) tok_ready [of 1 b]] by (auto simp: lbb_workers_def)
  ultimately have late: "tok_worker b 1 = WReady" by blast
  have "stuck (lbs_step Z) (lbs_of b)"
    using token_refinement.stuck_iff [OF ref tok.inv_steps [OF b(1) inv]] b(2) by blast
  moreover have "(lbs_step Z)\<^sup>*\<^sup>* lbs_init (lbs_of b)"
    using token_refinement.reachable_iff [OF ref] rtranclp_trans [OF a(1) b(1)] unfolding lbs_of_init by blast
  moreover have "lbs_worker (lbs_of b) 1 = WkRunning" "\<not> lbs_returned (lbs_of b)"
    using late by (auto simp: lbs_returned_def lbb_workers_def intro!: exI [of _ 1])
  ultimately show ?thesis by blast
qed

theorem lbs_may_hang_witness:
  "\<exists>s. (lbs_step zmq_std)\<^sup>*\<^sup>* lbs_init s \<and> stuck (lbs_step zmq_std) s \<and> \<not> lbs_returned s"
  using lbs_may_hang [OF zmq_std_contract] by blast

end
