(* ===== verification/RTSystem.thy ===== *)
theory RTSystem
  imports RTBrokers Sockets Systems
begin

text \<open>
  The two programs of \<open>RTBrokers\<close> as systems: the broker in \<open>main\<close> and its ten worker threads, with
  the messages under way between them, in any interleaving. A record gives what differs between the
  programs, so both are one step relation; a locale states what the proofs need of that record, and
  both programs satisfy it. The system is shown to be a machine of ten tokens and a clock.
\<close>

subsection \<open>Threads and sockets\<close>

definition rt_workers :: nat where
  "rt_workers = 10"

definition rt_id :: "nat \<Rightarrow> string" where
  "rt_id num = pad_left 4 (hex_string num)"

text \<open>
  A worker about to report (or still working on its last order), waiting for an order, or at its end,
  with the number of orders it has carried out.
\<close>

datatype rts_worker = RtStart "32 word" | RtWaiting "32 word" | RtDone "32 word"

datatype rts_main = RtLoop "32 word" | RtJoin "32 word"

record rts =
  rts_main :: rts_main
  rts_clock :: time
  rts_worker :: "nat \<Rightarrow> rts_worker"
  rts_in :: "frame \<Rightarrow> msg list"
  rts_out :: "frame \<Rightarrow> msg list"
  rts_fault :: "fault option"

definition rts_init :: "time \<Rightarrow> rts" where
  "rts_init now = \<lparr>rts_main = RtLoop 0, rts_clock = now, rts_worker = (\<lambda>_. RtStart 0),
     rts_in = (\<lambda>_. []), rts_out = (\<lambda>_. []), rts_fault = None\<rparr>"

text \<open>A program: its broker, the message of a worker on the wire, and what a worker does with an answer.\<close>

record rt_program =
  rt_broker :: "time \<Rightarrow> recv_event list \<times> time \<Rightarrow> 32 word \<Rightarrow> (32 word ctl \<times> part list list) res"
  rt_report :: msg
  rt_work :: "msg \<Rightarrow> int \<Rightarrow> 32 word \<Rightarrow> (32 word ctl \<times> rt_act list) res"

definition rtd_program :: rt_program where
  "rtd_program = \<lparr>rt_broker = rtd_broker_step, rt_report = [[], ''Hi Boss''],
     rt_work = (\<lambda>m draw. rtd_worker_step (arrives m, draw))\<rparr>"

definition rtr_program :: "zmq_envelope \<Rightarrow> rt_program" where
  "rtr_program Z = \<lparr>rt_broker = rtr_broker_step, rt_report = req_out Z [''Hi Boss''],
     rt_work = (\<lambda>m draw. rtr_worker_step (arrives (req_in Z m), draw))\<rparr>"

text \<open>
  The steps. The broker reads the clock for each answer, and the clock does not go back; the sleep of
  a worker is part of the time before its next report.
\<close>

inductive rts_step :: "zmq_envelope \<Rightarrow> rt_program \<Rightarrow> time \<Rightarrow> rts \<Rightarrow> rts \<Rightarrow> bool" for Z P T where
  rts_reports: "n < rt_workers \<Longrightarrow> rts_worker s n = RtStart k \<Longrightarrow>
    rts_step Z P T s (s\<lparr>rts_worker := (rts_worker s)(n := RtWaiting k),
      rts_in := enqueue (rt_id n) (rt_report P) (rts_in s)\<rparr>)"
| rts_works: "n < rt_workers \<Longrightarrow> rts_worker s n = RtWaiting k \<Longrightarrow> rts_out s (rt_id n) = m # ms \<Longrightarrow>
    1 \<le> draw \<Longrightarrow> draw \<le> 500 \<Longrightarrow> rt_work P m draw k = Inr (c, os) \<Longrightarrow>
    rts_step Z P T s (s\<lparr>rts_worker := (rts_worker s)(n := (case c of Next i \<Rightarrow> RtStart i | Halt i \<Rightarrow> RtDone i)),
      rts_out := (rts_out s)(rt_id n := ms)\<rparr>)"
| rts_work_fails: "n < rt_workers \<Longrightarrow> rts_worker s n = RtWaiting k \<Longrightarrow> rts_out s (rt_id n) = m # ms \<Longrightarrow>
    rt_work P m draw k = Inl e \<Longrightarrow> rts_step Z P T s (s\<lparr>rts_fault := Some e\<rparr>)"
| rts_answers: "rts_main s = RtLoop j \<Longrightarrow> takes (rts_in s) (Some (p, m)) rest \<Longrightarrow> rts_clock s \<le> now \<Longrightarrow>
    rt_broker P T (arrives (router_in Z p m), now) j = Inr (c, os) \<Longrightarrow>
    rts_step Z P T s (s\<lparr>rts_main := (case c of Next i \<Rightarrow> RtLoop i | Halt i \<Rightarrow> RtJoin i), rts_clock := now,
      rts_in := rest, rts_out := router_sends Z os (rts_out s)\<rparr>)"
| rts_answer_fails: "rts_main s = RtLoop j \<Longrightarrow> takes (rts_in s) (Some (p, m)) rest \<Longrightarrow> rts_clock s \<le> now \<Longrightarrow>
    rt_broker P T (arrives (router_in Z p m), now) j = Inl e \<Longrightarrow>
    rts_step Z P T s (s\<lparr>rts_fault := Some e\<rparr>)"

text \<open>\<open>main\<close> returns when it has joined the workers.\<close>

definition rts_returned :: "rts \<Rightarrow> bool" where
  "rts_returned s \<longleftrightarrow> (\<exists>j. rts_main s = RtJoin j) \<and> (\<forall>n < rt_workers. \<exists>k. rts_worker s n = RtDone k)"

subsection \<open>Ten tokens and a clock\<close>

text \<open>
  A worker about to report, its report under way, the order to work under way, its dismissal under
  way, and its end.
\<close>

datatype rt_token = RStart "32 word" | RAsked "32 word" | RTold "32 word" | RFired "32 word" | REnd "32 word"

record rtm =
  rtm_clock :: time
  rtm_worker :: "nat \<Rightarrow> rt_token"

definition rtm_init :: "time \<Rightarrow> rtm" where
  "rtm_init now = \<lparr>rtm_clock = now, rtm_worker = (\<lambda>_. RStart 0)\<rparr>"

inductive rtm_step :: "time \<Rightarrow> rtm \<Rightarrow> rtm \<Rightarrow> bool" for T where
  rtm_asks: "n < rt_workers \<Longrightarrow> rtm_worker a n = RStart k \<Longrightarrow>
    rtm_step T a (a\<lparr>rtm_worker := (rtm_worker a)(n := RAsked k)\<rparr>)"
| rtm_told: "n < rt_workers \<Longrightarrow> rtm_worker a n = RAsked k \<Longrightarrow> rtm_clock a \<le> now \<Longrightarrow>
    rtm_step T a (a\<lparr>rtm_clock := now, rtm_worker := (rtm_worker a)(n := (if now < T then RTold k else RFired k))\<rparr>)"
| rtm_works: "n < rt_workers \<Longrightarrow> rtm_worker a n = RTold k \<Longrightarrow>
    rtm_step T a (a\<lparr>rtm_worker := (rtm_worker a)(n := RStart (k + 1))\<rparr>)"
| rtm_ends: "n < rt_workers \<Longrightarrow> rtm_worker a n = RFired k \<Longrightarrow>
    rtm_step T a (a\<lparr>rtm_worker := (rtm_worker a)(n := REnd k)\<rparr>)"

definition rt_fired :: "rt_token \<Rightarrow> bool" where
  "rt_fired w \<longleftrightarrow> (\<exists>k. w = RFired k \<or> w = REnd k)"

definition fired_count :: "(nat \<Rightarrow> rt_token) \<Rightarrow> nat" where
  "fired_count w = card {n. n < rt_workers \<and> rt_fired (w n)}"

lemma rt_fired_simps [simp]:
  "\<not> rt_fired (RStart k)" "\<not> rt_fired (RAsked k)" "\<not> rt_fired (RTold k)" "rt_fired (RFired k)" "rt_fired (REnd k)"
  by (simp_all add: rt_fired_def)

lemma fired_count_le: "fired_count w \<le> rt_workers"
proof -
  have "card {n. n < rt_workers \<and> rt_fired (w n)} \<le> card {..<rt_workers}" by (intro card_mono) auto
  then show ?thesis by (simp add: fired_count_def)
qed

lemma fired_count_upd: "n < rt_workers \<Longrightarrow> \<not> rt_fired (w n) \<Longrightarrow> rt_fired x \<Longrightarrow>
    fired_count (w(n := x)) = Suc (fired_count w)"
proof -
  assume "n < rt_workers" "\<not> rt_fired (w n)" "rt_fired x"
  then have "{i. i < rt_workers \<and> rt_fired ((w(n := x)) i)} = insert n {i. i < rt_workers \<and> rt_fired (w i)}" by auto
  then show ?thesis using \<open>\<not> rt_fired (w n)\<close> by (simp add: fired_count_def card_insert_if)
qed

lemma fired_count_same: "rt_fired x = rt_fired (w n) \<Longrightarrow> fired_count (w(n := x)) = fired_count w"
proof -
  assume "rt_fired x = rt_fired (w n)"
  then have "{i. i < rt_workers \<and> rt_fired ((w(n := x)) i)} = {i. i < rt_workers \<and> rt_fired (w i)}" by auto
  then show ?thesis by (simp add: fired_count_def)
qed

lemma fired_count_all: "fired_count w = rt_workers \<longleftrightarrow> (\<forall>n < rt_workers. rt_fired (w n))"
proof
  assume "fired_count w = rt_workers"
  then have "{n. n < rt_workers \<and> rt_fired (w n)} = {..<rt_workers}"
    by (intro card_subset_eq) (auto simp: fired_count_def)
  then show "\<forall>n < rt_workers. rt_fired (w n)" by blast
next
  assume "\<forall>n < rt_workers. rt_fired (w n)"
  then have "{n. n < rt_workers \<and> rt_fired (w n)} = {..<rt_workers}" by auto
  then show "fired_count w = rt_workers" by (simp add: fired_count_def)
qed

text \<open>Each step keeps true what is true of every state; after the end of the five seconds it raises a rank.\<close>

interpretation rtm: invariant_system "rtm_init now" "rtm_step T" "\<lambda>_. True" for now T
  by unfold_locales simp_all

fun rt_rank :: "rt_token \<Rightarrow> nat" where
  "rt_rank (RTold k) = 0"
| "rt_rank (RStart k) = 1"
| "rt_rank (RAsked k) = 2"
| "rt_rank (RFired k) = 3"
| "rt_rank (REnd k) = 4"

definition rtm_rank :: "rtm \<Rightarrow> nat" where
  "rtm_rank a = (\<Sum>n < rt_workers. rt_rank (rtm_worker a n))"

lemma rt_rank_le: "rt_rank w \<le> 4"
  by (cases w) simp_all

lemma rtm_rank_bound: "rtm_rank a \<le> 4 * rt_workers"
proof -
  have "(\<Sum>n < rt_workers. rt_rank (rtm_worker a n)) \<le> (\<Sum>n < rt_workers. 4)" by (rule sum_mono) (rule rt_rank_le)
  then show ?thesis by (simp add: rtm_rank_def)
qed

lemma rtm_rank_upd:
  "n < rt_workers \<Longrightarrow> rtm_rank (a\<lparr>rtm_worker := (rtm_worker a)(n := w)\<rparr>) + rt_rank (rtm_worker a n) = rtm_rank a + rt_rank w"
  unfolding rtm_rank_def using sum_upd [of n rt_workers rt_rank "rtm_worker a" w] by simp

lemma rtm_rank_clock [simp]: "rtm_rank (a\<lparr>rtm_clock := t\<rparr>) = rtm_rank a"
  by (simp add: rtm_rank_def)

lemma rtm_step_clock: "rtm_step T a b \<Longrightarrow> rtm_clock a \<le> rtm_clock b"
  by (induction rule: rtm_step.induct) simp_all

lemma rtm_rank_step: "rtm_step T a b \<Longrightarrow> T \<le> rtm_clock a \<Longrightarrow> rtm_rank a < rtm_rank b"
proof (induction rule: rtm_step.induct)
  case (rtm_asks n a k)
  then show ?case using rtm_rank_upd [of n a "RAsked k"] by simp
next
  case (rtm_told n a k now)
  then show ?case using rtm_rank_upd [of n "a\<lparr>rtm_clock := now\<rparr>" "RFired k"] by simp
next
  case (rtm_works n a k)
  then show ?case using rtm_rank_upd [of n a "RStart (k + 1)"] by simp
next
  case (rtm_ends n a k)
  then show ?case using rtm_rank_upd [of n a "REnd k"] by simp
qed

interpretation rtm_late: terminating_system "rtm_init T" "rtm_step T" "\<lambda>a. T \<le> rtm_clock a" rtm_rank "4 * rt_workers" for T
  by unfold_locales (use rtm_rank_step rtm_rank_bound rtm_step_clock in \<open>auto simp: rtm_init_def intro: order_trans\<close>)

lemma rtm_stuck: "stuck (rtm_step T) a \<Longrightarrow> n < rt_workers \<Longrightarrow> \<exists>k. rtm_worker a n = REnd k"
  using rtm_asks [of n a _ T] rtm_told [of n a _ "rtm_clock a" T] rtm_works [of n a _ T] rtm_ends [of n a _ T]
  by (cases "rtm_worker a n") (auto simp: stuck_def)

subsection \<open>What the proofs need of a program\<close>

text \<open>
  The broker answers a report to its sender with one of two messages, by the clock, and counts the
  dismissals up to ten; a worker goes on after one of them and ends after the other.
\<close>

locale rt_contract =
  fixes Z :: zmq_envelope and P :: rt_program and told :: msg and fired :: msg
  assumes broker_answers: "\<exists>ps. rt_broker P T (arrives (router_in Z p (rt_report P)), now) j =
        (let i = (if now < T then j else j + 1) in Inr (if i < 10 then Next i else Halt i, [ps]))
      \<and> router_out Z (map fst ps) = (p, if now < T then told else fired)"
    and works_on: "\<exists>os. rt_work P told draw k = Inr (Next (k + 1), os)"
    and works_no_more: "\<exists>os. rt_work P fired draw k = Inr (Halt k, os)"

lemma rtd_contract: "zmq_contract Z \<Longrightarrow> rt_contract Z rtd_program [[], ''Work harder''] [[], ''Fired!'']"
proof unfold_locales
  fix T p now j
  assume Z: "zmq_contract Z"
  show "\<exists>ps. rt_broker rtd_program T (arrives (router_in Z p (rt_report rtd_program)), now) j =
        (let i = (if now < T then j else j + 1) in Inr (if i < 10 then Next i else Halt i, [ps]))
      \<and> router_out Z (map fst ps) = (p, if now < T then [[], ''Work harder''] else [[], ''Fired!''])"
    by (rule exI [of _ "[(p, True), ([], True), (if now < T then ''Work harder'' else ''Fired!'', False)]"])
      (simp add: rtd_program_def zmq_contractD [OF Z] rtd_broker_reply Let_def)
qed (simp_all add: rtd_program_def rtd_worker_step_def)

lemma rtr_contract: "zmq_contract Z \<Longrightarrow>
    rt_contract Z (rtr_program Z) [[], ''Work harder!''] [[], ''You'' @ [CHR 0x27] @ ''re fired!'']"
proof unfold_locales
  fix T p now j
  assume Z: "zmq_contract Z"
  show "\<exists>ps. rt_broker (rtr_program Z) T (arrives (router_in Z p (rt_report (rtr_program Z))), now) j =
        (let i = (if now < T then j else j + 1) in Inr (if i < 10 then Next i else Halt i, [ps]))
      \<and> router_out Z (map fst ps) =
          (p, if now < T then [[], ''Work harder!''] else [[], ''You'' @ [CHR 0x27] @ ''re fired!''])"
    by (rule exI [of _ "[(p, True), ([], True),
          (if now < T then ''Work harder!'' else ''You'' @ [CHR 0x27] @ ''re fired!'', False)]"])
      (simp add: rtr_program_def zmq_contractD [OF Z] rtr_broker_reply Let_def)
qed (simp_all add: rtr_program_def rtr_worker_step_def zmq_contractD)

subsection \<open>The program the tokens stand for\<close>

fun rt_thread :: "rt_token \<Rightarrow> rts_worker" where
  "rt_thread (RStart k) = RtStart k"
| "rt_thread (RAsked k) = RtWaiting k"
| "rt_thread (RTold k) = RtWaiting k"
| "rt_thread (RFired k) = RtWaiting k"
| "rt_thread (REnd k) = RtDone k"

fun rt_asked_msgs :: "msg \<Rightarrow> rt_token \<Rightarrow> msg list" where
  "rt_asked_msgs m (RAsked k) = [m]"
| "rt_asked_msgs m _ = []"

fun rt_order_msgs :: "msg \<Rightarrow> msg \<Rightarrow> rt_token \<Rightarrow> msg list" where
  "rt_order_msgs told fired (RTold k) = [told]"
| "rt_order_msgs told fired (RFired k) = [fired]"
| "rt_order_msgs told fired _ = []"

definition rt_main_of :: "nat \<Rightarrow> rts_main" where
  "rt_main_of j = (if j < 10 then RtLoop (of_nat j) else RtJoin (of_nat j))"

definition rts_of :: "rt_program \<Rightarrow> msg \<Rightarrow> msg \<Rightarrow> rtm \<Rightarrow> rts" where
  "rts_of P told fired a = \<lparr>rts_main = rt_main_of (fired_count (rtm_worker a)), rts_clock = rtm_clock a,
     rts_worker = rt_thread \<circ> rtm_worker a,
     rts_in = at_ids rt_workers (rt_asked_msgs (rt_report P) \<circ> rtm_worker a),
     rts_out = at_ids rt_workers (rt_order_msgs told fired \<circ> rtm_worker a), rts_fault = None\<rparr>"

lemma rts_of_simps [simp]:
  "rts_main (rts_of P told fired a) = rt_main_of (fired_count (rtm_worker a))"
  "rts_clock (rts_of P told fired a) = rtm_clock a"
  "rts_worker (rts_of P told fired a) = rt_thread \<circ> rtm_worker a"
  "rts_in (rts_of P told fired a) = at_ids rt_workers (rt_asked_msgs (rt_report P) \<circ> rtm_worker a)"
  "rts_out (rts_of P told fired a) = at_ids rt_workers (rt_order_msgs told fired \<circ> rtm_worker a)"
  "rts_fault (rts_of P told fired a) = None"
  by (simp_all add: rts_of_def)

lemma rt_id_lbb [simp]: "rt_id n = lbb_id n"
  by (simp add: rt_id_def lbb_id_def)

lemma rts_of_init: "rts_of P told fired (rtm_init now) = rts_init now"
  by (simp add: rts_of_def rts_init_def rtm_init_def rt_main_of_def fired_count_def at_ids_nil comp_def)

lemma rts_of_worker:
  assumes "rt_fired w = rt_fired (rtm_worker a n)"
  shows "rts_of P told fired (a\<lparr>rtm_worker := (rtm_worker a)(n := w)\<rparr>) =
    (rts_of P told fired a)\<lparr>rts_worker := (rt_thread \<circ> rtm_worker a)(n := rt_thread w),
      rts_in := at_ids rt_workers ((rt_asked_msgs (rt_report P) \<circ> rtm_worker a)(n := rt_asked_msgs (rt_report P) w)),
      rts_out := at_ids rt_workers ((rt_order_msgs told fired \<circ> rtm_worker a)(n := rt_order_msgs told fired w))\<rparr>"
  using assms by (simp add: rts_of_def fun_upd_comp fired_count_same del: fun_upd_apply)

context rt_contract
begin

lemma of_asks:
  assumes n: "n < rt_workers" "rtm_worker a n = RStart k"
  shows "(rts_of P told fired a)\<lparr>rts_worker := (rts_worker (rts_of P told fired a))(n := RtWaiting k),
      rts_in := enqueue (rt_id n) (rt_report P) (rts_in (rts_of P told fired a))\<rparr>
    = rts_of P told fired (a\<lparr>rtm_worker := (rtm_worker a)(n := RAsked k)\<rparr>)"
proof -
  have "rt_fired (RAsked k) = rt_fired (rtm_worker a n)" by (simp add: n)
  from rts_of_worker [OF this] show ?thesis by (simp add: n upd_same del: fun_upd_apply)
qed

lemma of_works:
  assumes n: "n < rt_workers" "rtm_worker a n = RTold k"
  shows "(rts_of P told fired a)\<lparr>rts_worker := (rts_worker (rts_of P told fired a))(n := RtStart (k + 1)),
      rts_out := (rts_out (rts_of P told fired a))(rt_id n := [])\<rparr>
    = rts_of P told fired (a\<lparr>rtm_worker := (rtm_worker a)(n := RStart (k + 1))\<rparr>)"
proof -
  have "rt_fired (RStart (k + 1)) = rt_fired (rtm_worker a n)" by (simp add: n)
  from rts_of_worker [OF this] show ?thesis by (simp add: n upd_same del: fun_upd_apply)
qed

lemma of_ends:
  assumes n: "n < rt_workers" "rtm_worker a n = RFired k"
  shows "(rts_of P told fired a)\<lparr>rts_worker := (rts_worker (rts_of P told fired a))(n := RtDone k),
      rts_out := (rts_out (rts_of P told fired a))(rt_id n := [])\<rparr>
    = rts_of P told fired (a\<lparr>rtm_worker := (rtm_worker a)(n := REnd k)\<rparr>)"
proof -
  have "rt_fired (REnd k) = rt_fired (rtm_worker a n)" by (simp add: n)
  from rts_of_worker [OF this] show ?thesis by (simp add: n upd_same del: fun_upd_apply)
qed

text \<open>The answer to a report: the loop goes on as long as someone is left to dismiss.\<close>

lemma fired_left: "n < rt_workers \<Longrightarrow> \<not> rt_fired (w n) \<Longrightarrow> fired_count w < 10"
  using fired_count_all [of w] fired_count_le [of w] by (fastforce simp: rt_workers_def)

lemma fired_word: "j \<le> 10 \<Longrightarrow> (of_nat j :: 32 word) < 10 \<longleftrightarrow> j < 10"
  by (simp add: word_less_nat_alt unat_of_nat)

lemma of_told:
  assumes n: "n < rt_workers" "rtm_worker a n = RAsked k"
  shows "\<exists>c os. rt_broker P T (arrives (router_in Z (rt_id n) (rt_report P)), now) (of_nat (fired_count (rtm_worker a))) = Inr (c, os)
      \<and> (rts_of P told fired a)\<lparr>rts_main := (case c of Next i \<Rightarrow> RtLoop i | Halt i \<Rightarrow> RtJoin i), rts_clock := now,
            rts_in := (rts_in (rts_of P told fired a))(rt_id n := []), rts_out := router_sends Z os (rts_out (rts_of P told fired a))\<rparr>
        = rts_of P told fired (a\<lparr>rtm_clock := now, rtm_worker := (rtm_worker a)(n := (if now < T then RTold k else RFired k))\<rparr>)"
    (is "\<exists>c os. ?r = Inr (c, os) \<and> ?s c os = rts_of P told fired ?b")
proof -
  define j where "j = fired_count (rtm_worker a)"
  define j' where "j' = (if now < T then j else Suc j)"
  have j: "j < 10" using fired_left [OF n(1), of "rtm_worker a"] n(2) by (simp add: j_def)
  have count: "fired_count (rtm_worker ?b) = j'"
    using n by (simp add: j_def j'_def fired_count_same fired_count_upd del: fun_upd_apply)
  let ?c = "if j' < 10 then Next (of_nat j') else Halt (of_nat j')"
  obtain ps where ps: "?r = Inr (?c, [ps])" "router_out Z (map fst ps) = (rt_id n, if now < T then told else fired)"
    using broker_answers [where p = "rt_id n" and T = T and now = now and j = "of_nat j"] j fired_word [of j'] fired_word [of j]
    by (auto simp: j'_def j_def Let_def add.commute split: if_splits)
  have "?s ?c [ps] = rts_of P told fired ?b"
  proof (rule rts.equality)
    show "rts_main (?s ?c [ps]) = rts_main (rts_of P told fired ?b)"
      unfolding rts_of_simps count by (simp add: rt_main_of_def)
    show "rts_worker (?s ?c [ps]) = rts_worker (rts_of P told fired ?b)" using n by (auto simp: fun_eq_iff)
    show "rts_in (?s ?c [ps]) = rts_in (rts_of P told fired ?b)" using n by (auto intro!: at_ids_cong)
    show "rts_out (?s ?c [ps]) = rts_out (rts_of P told fired ?b)" using n ps(2) by (auto intro!: at_ids_cong)
  qed simp_all
  with ps(1) show ?thesis by blast
qed

lemma taken:
  assumes "takes (rts_in (rts_of P told fired a)) (Some (p, m)) rest"
  obtains n k where "n < rt_workers" "rtm_worker a n = RAsked k" "p = rt_id n" "m = rt_report P"
    "rest = (rts_in (rts_of P told fired a))(rt_id n := [])"
proof -
  obtain n ms where n: "n < rt_workers" "(rt_asked_msgs (rt_report P) \<circ> rtm_worker a) n = m # ms" "p = lbb_id n"
    "rest = at_ids rt_workers ((rt_asked_msgs (rt_report P) \<circ> rtm_worker a)(n := ms))"
    using assms unfolding rts_of_simps takes_at_ids by auto
  then obtain k where "rtm_worker a n = RAsked k" by (cases "rtm_worker a n") simp_all
  with n that show thesis by simp
qed

lemma step_forth:
  assumes "rts_step Z P T (rts_of P told fired a) t"
  shows "\<exists>b. rtm_step T a b \<and> t = rts_of P told fired b"
  using assms
proof cases
  case (rts_reports n k)
  then have n: "n < rt_workers" "rtm_worker a n = RStart k" by (cases "rtm_worker a n"; simp)+
  from rtm_asks [OF n] of_asks [OF n] rts_reports(1) show ?thesis by metis
next
  case (rts_works n k m ms draw c os)
  then consider "rtm_worker a n = RTold k" "m = told" "ms = []" | "rtm_worker a n = RFired k" "m = fired" "ms = []"
    by (cases "rtm_worker a n") simp_all
  then show ?thesis
  proof cases
    case 1
    with rts_works(7) works_on [of draw k] have "c = Next (k + 1)" by auto
    with rts_works(1) rtm_works [OF rts_works(2) 1(1)] of_works [OF rts_works(2) 1(1)] 1(3) show ?thesis by auto
  next
    case 2
    with rts_works(7) works_no_more [of draw k] have "c = Halt k" by auto
    with rts_works(1) rtm_ends [OF rts_works(2) 2(1)] of_ends [OF rts_works(2) 2(1)] 2(3) show ?thesis by auto
  qed
next
  case (rts_work_fails n k m ms draw e)
  then have "m = told \<or> m = fired" by (cases "rtm_worker a n") simp_all
  with rts_work_fails(5) works_on [of draw k] works_no_more [of draw k] show ?thesis by auto
next
  case (rts_answers j p m rest now c os)
  from taken [OF rts_answers(3)] obtain n k where n: "n < rt_workers" "rtm_worker a n = RAsked k"
    and p: "p = rt_id n" "m = rt_report P" "rest = (rts_in (rts_of P told fired a))(rt_id n := [])" by blast
  have "j = of_nat (fired_count (rtm_worker a))" using rts_answers(2) by (simp add: rt_main_of_def split: if_splits)
  with of_told [OF n, of T now] rts_answers(1,5) p rtm_told [OF n, of now T] rts_answers(4) show ?thesis by auto
next
  case (rts_answer_fails j p m rest now e)
  from taken [OF rts_answer_fails(3)] obtain n k where n: "n < rt_workers" "rtm_worker a n = RAsked k"
    and p: "p = rt_id n" "m = rt_report P" "rest = (rts_in (rts_of P told fired a))(rt_id n := [])" by blast
  have "j = of_nat (fired_count (rtm_worker a))" using rts_answer_fails(2) by (simp add: rt_main_of_def split: if_splits)
  with of_told [OF n, of T now] rts_answer_fails(5) p show ?thesis by auto
qed

lemma step_back:
  assumes "rtm_step T a b"
  shows "rts_step Z P T (rts_of P told fired a) (rts_of P told fired b)"
  using assms
proof cases
  case (rtm_asks n k)
  have "rts_worker (rts_of P told fired a) n = RtStart k" by (simp add: rtm_asks)
  from rts_reports [OF rtm_asks(2) this, of Z P T] show ?thesis unfolding of_asks [OF rtm_asks(2,3)] rtm_asks(1) .
next
  case (rtm_told n k now)
  obtain c os where c: "rt_broker P T (arrives (router_in Z (rt_id n) (rt_report P)), now)
        (of_nat (fired_count (rtm_worker a))) = Inr (c, os)"
      "(rts_of P told fired a)\<lparr>rts_main := (case c of Next i \<Rightarrow> RtLoop i | Halt i \<Rightarrow> RtJoin i), rts_clock := now,
            rts_in := (rts_in (rts_of P told fired a))(rt_id n := []), rts_out := router_sends Z os (rts_out (rts_of P told fired a))\<rparr>
        = rts_of P told fired b"
    using of_told [OF rtm_told(2,3), of T now] unfolding rtm_told(1) by blast
  have main: "rts_main (rts_of P told fired a) = RtLoop (of_nat (fired_count (rtm_worker a)))"
    using fired_left [OF rtm_told(2), of "rtm_worker a"] rtm_told(3) by (simp add: rt_main_of_def)
  have "(rt_asked_msgs (rt_report P) \<circ> rtm_worker a) n = [rt_report P]" by (simp add: rtm_told)
  then have "takes (rts_in (rts_of P told fired a)) (Some (rt_id n, rt_report P))
      ((rts_in (rts_of P told fired a))(rt_id n := []))"
    using takes_at_idsI [where f = "rt_asked_msgs (rt_report P) \<circ> rtm_worker a", OF rtm_told(2)] rtm_told(2)
    by (simp del: fun_upd_apply)
  from rts_answers [OF main this _ c(1)] show ?thesis using rtm_told(4) unfolding c(2) by simp
next
  case (rtm_works n k)
  obtain os where "rt_work P told 1 k = Inr (Next (k + 1), os)" using works_on by blast
  moreover have "rts_worker (rts_of P told fired a) n = RtWaiting k" "rts_out (rts_of P told fired a) (rt_id n) = [told]"
    using rtm_works by simp_all
  ultimately have "rts_step Z P T (rts_of P told fired a) ((rts_of P told fired a)\<lparr>
      rts_worker := (rts_worker (rts_of P told fired a))(n := (case Next (k + 1) of Next i \<Rightarrow> RtStart i | Halt i \<Rightarrow> RtDone i)),
      rts_out := (rts_out (rts_of P told fired a))(rt_id n := [])\<rparr>)"
    by (intro rts_works [OF rtm_works(2), where draw = 1]) simp_all
  with of_works [OF rtm_works(2,3)] show ?thesis by (simp add: rtm_works(1))
next
  case (rtm_ends n k)
  obtain os where "rt_work P fired 1 k = Inr (Halt k, os)" using works_no_more by blast
  moreover have "rts_worker (rts_of P told fired a) n = RtWaiting k" "rts_out (rts_of P told fired a) (rt_id n) = [fired]"
    using rtm_ends by simp_all
  ultimately have "rts_step Z P T (rts_of P told fired a) ((rts_of P told fired a)\<lparr>
      rts_worker := (rts_worker (rts_of P told fired a))(n := (case Halt k of Next i \<Rightarrow> RtStart i | Halt i \<Rightarrow> RtDone i)),
      rts_out := (rts_out (rts_of P told fired a))(rt_id n := [])\<rparr>)"
    by (intro rts_works [OF rtm_ends(2), where draw = 1]) simp_all
  with of_ends [OF rtm_ends(2,3)] show ?thesis by (simp add: rtm_ends(1))
qed

lemma refinement: "token_refinement (rtm_init now) (rtm_step T) (\<lambda>_. True) (rts_step Z P T) (rts_of P told fired)"
  by unfold_locales (use step_forth step_back in auto)

lemma reachable:
  assumes "(rts_step Z P T)\<^sup>*\<^sup>* (rts_init now) s"
  obtains a where "s = rts_of P told fired a"
  using token_refinement.reach_forth [OF refinement, of T "rtm_init now" s] assms unfolding rts_of_init by blast

lemma told_neq_fired: "told \<noteq> fired"
  using works_on [of 0 0] works_no_more [of 0 0] by auto

text \<open>The count of the broker is the number of workers that are dismissed.\<close>

lemma of_dismissed:
  "n < rt_workers \<Longrightarrow> rt_fired (rtm_worker a n) \<longleftrightarrow>
    (\<exists>k. rts_worker (rts_of P told fired a) n = RtDone k) \<or> rts_out (rts_of P told fired a) (rt_id n) = [fired]"
  using told_neq_fired by (cases "rtm_worker a n") simp_all

lemma of_counts:
  "(rts_main (rts_of P told fired a) = RtLoop j \<longrightarrow> unat j = fired_count (rtm_worker a) \<and> unat j < 10)
    \<and> (rts_main (rts_of P told fired a) = RtJoin j \<longrightarrow> j = 10 \<and> fired_count (rtm_worker a) = 10)"
proof -
  have le: "fired_count (rtm_worker a) \<le> 10" using fired_count_le [of "rtm_worker a"] by (simp add: rt_workers_def)
  show ?thesis
  proof (cases "fired_count (rtm_worker a) < 10")
    case True
    then show ?thesis by (auto simp: rt_main_of_def unat_of_nat)
  next
    case False
    with le have "fired_count (rtm_worker a) = 10" by simp
    then show ?thesis by (auto simp: rt_main_of_def)
  qed
qed

lemma counts_dismissed:
  assumes "(rts_step Z P T)\<^sup>*\<^sup>* (rts_init now) s"
  shows "rts_fault s = None
    \<and> (\<forall>j. rts_main s = RtLoop j \<longrightarrow> unat j < 10
        \<and> unat j = card {n. n < rt_workers \<and> ((\<exists>k. rts_worker s n = RtDone k) \<or> rts_out s (rt_id n) = [fired])})
    \<and> (\<forall>j. rts_main s = RtJoin j \<longrightarrow> j = 10
        \<and> (\<forall>n < rt_workers. (\<exists>k. rts_worker s n = RtDone k) \<or> rts_out s (rt_id n) = [fired]))"
proof -
  obtain a where a: "s = rts_of P told fired a" using reachable [OF assms] .
  let ?gone = "\<lambda>n. (\<exists>k. rts_worker s n = RtDone k) \<or> rts_out s (rt_id n) = [fired]"
  have "{n. n < rt_workers \<and> ?gone n} = {n. n < rt_workers \<and> rt_fired (rtm_worker a n)}"
    using of_dismissed unfolding a by blast
  then have card: "card {n. n < rt_workers \<and> ?gone n} = fired_count (rtm_worker a)" by (simp add: fired_count_def)
  have loop: "unat j < 10 \<and> unat j = card {n. n < rt_workers \<and> ?gone n}" if "rts_main s = RtLoop j" for j
    unfolding card using of_counts [of a j] that unfolding a by blast
  have join: "j = 10 \<and> (\<forall>n < rt_workers. ?gone n)" if "rts_main s = RtJoin j" for j
  proof -
    from that have "j = 10" "fired_count (rtm_worker a) = rt_workers"
      using of_counts [of a j] unfolding a rt_workers_def by blast+
    then show ?thesis using of_dismissed fired_count_all [of "rtm_worker a"] unfolding a by blast
  qed
  have "rts_fault s = None" by (simp add: a)
  with loop join show ?thesis by blast
qed

text \<open>When nothing more can happen everyone is dismissed; once the time is over this comes soon.\<close>

lemma stuck_returned: "stuck (rts_step Z P T) (rts_of P told fired a) \<Longrightarrow> rts_returned (rts_of P told fired a)"
proof -
  assume "stuck (rts_step Z P T) (rts_of P told fired a)"
  then have st: "stuck (rtm_step T) a" using token_refinement.stuck_iff [OF refinement] by blast
  have ended: "\<forall>n < rt_workers. \<exists>k. rtm_worker a n = REnd k" using rtm_stuck [OF st] by blast
  then have "rt_fired (rtm_worker a n)" if "n < rt_workers" for n using that by (force simp: rt_fired_def)
  then have "fired_count (rtm_worker a) = 10" using fired_count_all [of "rtm_worker a"] by (simp add: rt_workers_def)
  then have "rts_main (rts_of P told fired a) = RtJoin 10" by (simp add: rt_main_of_def)
  moreover have "\<exists>k. rts_worker (rts_of P told fired a) n = RtDone k" if n: "n < rt_workers" for n
  proof -
    obtain k where "rtm_worker a n = REnd k" using ended n by blast
    then show ?thesis by simp
  qed
  ultimately show ?thesis by (simp add: rts_returned_def del: rts_of_simps)
qed

lemma ends_late:
  assumes "(rts_step Z P T)\<^sup>*\<^sup>* (rts_init now) s" and late: "T \<le> rts_clock s" and run: "((rts_step Z P T) ^^ i) s t"
  shows "i \<le> 40 \<and> (\<exists>u. (rts_step Z P T)\<^sup>*\<^sup>* t u \<and> rts_returned u)"
proof -
  note ref = refinement [of now T]
  obtain a where a: "s = rts_of P told fired a" using reachable [OF assms(1)] .
  obtain b where b: "(rtm_step T ^^ i) a b" "t = rts_of P told fired b"
    using token_refinement.run_forth [OF ref] run unfolding a by blast
  have "T \<le> rtm_clock a" using late by (simp add: a)
  from rtm_late.rank_run [OF b(1) this] rtm_rank_bound [of b] have "T \<le> rtm_clock b" "i \<le> 40"
    by (simp_all add: rt_workers_def)
  moreover obtain c where "(rtm_step T)\<^sup>*\<^sup>* b c" "stuck (rtm_step T) c"
    using rtm_late.reaches_stuck [OF \<open>T \<le> rtm_clock b\<close>] by blast
  then have "(rts_step Z P T)\<^sup>*\<^sup>* t (rts_of P told fired c)" "stuck (rts_step Z P T) (rts_of P told fired c)"
    using token_refinement.reach_back [OF ref] token_refinement.stuck_iff [OF ref] unfolding b(2) by blast+
  ultimately show ?thesis using stuck_returned by blast
qed

end

interpretation rtd_std: rt_contract zmq_std rtd_program "[[], ''Work harder'']" "[[], ''Fired!'']"
  by (rule rtd_contract [OF zmq_std_contract])

interpretation rtr_std: rt_contract zmq_std "rtr_program zmq_std" "[[], ''Work harder!'']"
    "[[], ''You'' @ [CHR 0x27] @ ''re fired!'']"
  by (rule rtr_contract [OF zmq_std_contract])

subsection \<open>What the programs do\<close>

text \<open>
  C22: in both programs, and in every interleaving of their threads, nothing is out of order: the
  broker has counted exactly the workers it has dismissed, each of them once, and it leaves its loop
  when all ten are.
\<close>

theorem rts_dismisses_each_once:
  assumes Z: "zmq_contract Z"
    and P: "P = rtd_program \<and> words = ''Fired!'' \<or> P = rtr_program Z \<and> words = ''You'' @ [CHR 0x27] @ ''re fired!''"
    and r: "(rts_step Z P T)\<^sup>*\<^sup>* (rts_init now) s"
  shows "rts_fault s = None
    \<and> (\<forall>j. rts_main s = RtLoop j \<longrightarrow> unat j < 10
        \<and> unat j = card {n. n < rt_workers \<and> ((\<exists>k. rts_worker s n = RtDone k) \<or> rts_out s (rt_id n) = [[[], words]])})
    \<and> (\<forall>j. rts_main s = RtJoin j \<longrightarrow> j = 10
        \<and> (\<forall>n < rt_workers. (\<exists>k. rts_worker s n = RtDone k) \<or> rts_out s (rt_id n) = [[[], words]]))"
  using P
proof (elim disjE conjE)
  assume "P = rtd_program" and w: "words = ''Fired!''"
  with rt_contract.counts_dismissed [OF rtd_contract [OF Z]] r show ?thesis unfolding w by blast
next
  assume "P = rtr_program Z" and w: "words = ''You'' @ [CHR 0x27] @ ''re fired!''"
  with rt_contract.counts_dismissed [OF rtr_contract [OF Z]] r show ?thesis unfolding w by blast
qed

theorem rts_dismisses_each_once_witness:
  "rts_fault (rts_init 0) = None \<and> rts_main (rts_init 0) = RtLoop 0
    \<and> card {n. n < rt_workers \<and> ((\<exists>k. rts_worker (rts_init 0) n = RtDone k) \<or> rts_out (rts_init 0) (rt_id n) = [[[], ''Fired!'']])} = 0"
  using rts_dismisses_each_once [OF zmq_std_contract, of rtd_program "''Fired!''" 5 0 "rts_init 0"]
  by (simp add: rts_init_def)

text \<open>
  C23: both programs return. Once the five seconds are over, at most forty more steps of the threads
  are possible, and wherever they lead, the program can go on to the end, where \<open>main\<close> has joined
  all ten workers; it never comes to a halt anywhere else.
\<close>

theorem rts_returns:
  assumes Z: "zmq_contract Z" and P: "P = rtd_program \<or> P = rtr_program Z"
    and r: "(rts_step Z P T)\<^sup>*\<^sup>* (rts_init now) s"
  shows "(T \<le> rts_clock s \<and> ((rts_step Z P T) ^^ i) s t \<longrightarrow> i \<le> 40 \<and> (\<exists>u. (rts_step Z P T)\<^sup>*\<^sup>* t u \<and> rts_returned u))
    \<and> (stuck (rts_step Z P T) s \<longrightarrow> rts_returned s)"
proof -
  from P obtain told fired where "rt_contract Z P told fired"
    using rtd_contract [OF Z] rtr_contract [OF Z] by blast
  then have c: "rt_contract Z P told fired" .
  obtain a where "s = rts_of P told fired a" using rt_contract.reachable [OF c r] .
  then have "stuck (rts_step Z P T) s \<longrightarrow> rts_returned s" using rt_contract.stuck_returned [OF c] by simp
  with rt_contract.ends_late [OF c r] show ?thesis by blast
qed

theorem rts_returns_witness:
  "((rts_step zmq_std rtd_program 5) ^^ 0) (rts_init 7) (rts_init 7)
    \<and> (\<exists>u. (rts_step zmq_std rtd_program 5)\<^sup>*\<^sup>* (rts_init 7) u \<and> rts_returned u)"
proof -
  have "((rts_step zmq_std rtd_program 5) ^^ 0) (rts_init 7) (rts_init 7)" "5 \<le> rts_clock (rts_init 7)"
    by (simp_all add: rts_init_def)
  with rts_returns [OF zmq_std_contract disjI1 [OF refl] rtranclp.rtrancl_refl] show ?thesis by blast
qed

end
