(* ===== verification/Relay.thy ===== *)
theory Relay
  imports Sockets Systems
begin

text \<open>
  The relay of three threads (\<open>signaling-between-threads/mtrelay.cpp\<close>): each thread binds the end
  of its PAIR of sockets before it starts the thread that connects to it, and waits for that thread's
  signal before it sends its own. Detached threads run on their own, so the order of their steps is
  free; that a connect never comes before its bind, and that the relay ends, has to be proved.
\<close>

subsection \<open>The threads\<close>

definition end2 :: string where
  "end2 = ''inproc://step2''"

definition end3 :: string where
  "end3 = ''inproc://step3''"

lemma ends_differ [simp]: "end2 \<noteq> end3" "end3 \<noteq> end2"
  by (simp_all add: end2_def end3_def)

text \<open>The place of each thread in its function; a thread that catches an exception has \<open>Failed\<close>.\<close>

datatype relay_main = MainBind | MainStart | MainRecv | MainEnd

datatype relay_step1 = S1None | S1Connect | S1Send | S1End | S1Failed

datatype relay_step2 = S2None | S2Bind | S2Start | S2Recv | S2Connect | S2Send | S2End | S2Failed

record relay =
  rl_main :: relay_main
  rl_step1 :: relay_step1
  rl_step2 :: relay_step2
  rl_bound :: "string set"
  rl_sent :: "string \<Rightarrow> msg list"

definition relay_init :: relay where
  "relay_init = \<lparr>rl_main = MainBind, rl_step1 = S1None, rl_step2 = S2None, rl_bound = {}, rl_sent = (\<lambda>_. [])\<rparr>"

text \<open>A connect within the process throws when no socket is bound to the name.\<close>

inductive step1_step :: "relay \<Rightarrow> relay \<Rightarrow> bool" where
  step1_connects: "rl_step1 s = S1Connect \<Longrightarrow>
    step1_step s (s\<lparr>rl_step1 := (if end2 \<in> rl_bound s then S1Send else S1Failed)\<rparr>)"
| step1_sends: "rl_step1 s = S1Send \<Longrightarrow>
    step1_step s (s\<lparr>rl_step1 := S1End, rl_sent := enqueue end2 [[]] (rl_sent s)\<rparr>)"

inductive step2_step :: "relay \<Rightarrow> relay \<Rightarrow> bool" where
  step2_binds: "rl_step2 s = S2Bind \<Longrightarrow>
    step2_step s (s\<lparr>rl_step2 := S2Start, rl_bound := insert end2 (rl_bound s)\<rparr>)"
| step2_starts: "rl_step2 s = S2Start \<Longrightarrow> step2_step s (s\<lparr>rl_step1 := S1Connect, rl_step2 := S2Recv\<rparr>)"
| step2_receives: "rl_step2 s = S2Recv \<Longrightarrow> rl_sent s end2 = m # ms \<Longrightarrow>
    step2_step s (s\<lparr>rl_step2 := S2Connect, rl_sent := (rl_sent s)(end2 := ms)\<rparr>)"
| step2_connects: "rl_step2 s = S2Connect \<Longrightarrow>
    step2_step s (s\<lparr>rl_step2 := (if end3 \<in> rl_bound s then S2Send else S2Failed)\<rparr>)"
| step2_sends: "rl_step2 s = S2Send \<Longrightarrow>
    step2_step s (s\<lparr>rl_step2 := S2End, rl_sent := enqueue end3 [[]] (rl_sent s)\<rparr>)"

inductive main_step :: "relay \<Rightarrow> relay \<Rightarrow> bool" where
  main_binds: "rl_main s = MainBind \<Longrightarrow>
    main_step s (s\<lparr>rl_main := MainStart, rl_bound := insert end3 (rl_bound s)\<rparr>)"
| main_starts: "rl_main s = MainStart \<Longrightarrow> main_step s (s\<lparr>rl_main := MainRecv, rl_step2 := S2Bind\<rparr>)"
| main_receives: "rl_main s = MainRecv \<Longrightarrow> rl_sent s end3 = m # ms \<Longrightarrow>
    main_step s (s\<lparr>rl_main := MainEnd, rl_sent := (rl_sent s)(end3 := ms)\<rparr>)"

definition relay_step :: "relay \<Rightarrow> relay \<Rightarrow> bool" where
  "relay_step s t \<longleftrightarrow> main_step s t \<or> step1_step s t \<or> step2_step s t"

subsection \<open>The order of the steps\<close>

text \<open>What is bound and under way follows from the places of the threads.\<close>

definition relay_inv :: "relay \<Rightarrow> bool" where
  "relay_inv s \<longleftrightarrow>
     (rl_step2 s = S2None \<longleftrightarrow> rl_main s \<in> {MainBind, MainStart})
     \<and> (rl_step1 s = S1None \<longleftrightarrow> rl_step2 s \<in> {S2None, S2Bind, S2Start})
     \<and> rl_bound s = (if rl_main s = MainBind then {} else {end3})
         \<union> (if rl_step2 s \<in> {S2None, S2Bind} then {} else {end2})
     \<and> rl_sent s end2 = (if rl_step1 s = S1End \<and> rl_step2 s = S2Recv then [[[]]] else [])
     \<and> rl_sent s end3 = (if rl_step2 s = S2End \<and> rl_main s = MainRecv then [[[]]] else [])
     \<and> (rl_step2 s \<in> {S2Connect, S2Send, S2End} \<longrightarrow> rl_step1 s = S1End)
     \<and> (rl_main s = MainEnd \<longrightarrow> rl_step2 s = S2End)
     \<and> rl_step1 s \<noteq> S1Failed \<and> rl_step2 s \<noteq> S2Failed"

lemma relay_inv_init: "relay_inv relay_init"
  by (simp add: relay_inv_def relay_init_def)

lemma relay_inv_main: "main_step s t \<Longrightarrow> relay_inv s \<Longrightarrow> relay_inv t"
proof (induction rule: main_step.induct)
  case (main_binds s)
  then have "rl_step2 s = S2None" "rl_step1 s = S1None" by (simp_all add: relay_inv_def)
  with main_binds show ?case by (simp add: relay_inv_def)
next
  case (main_starts s)
  then have "rl_step2 s = S2None" "rl_step1 s = S1None" by (simp_all add: relay_inv_def)
  with main_starts show ?case by (simp add: relay_inv_def)
next
  case (main_receives s m ms)
  then have "rl_step2 s = S2End" "ms = []" by (auto simp: relay_inv_def split: if_splits)
  with main_receives show ?case by (simp add: relay_inv_def)
qed

lemma relay_inv_step1: "step1_step s t \<Longrightarrow> relay_inv s \<Longrightarrow> relay_inv t"
proof (induction rule: step1_step.induct)
  case (step1_connects s)
  then show ?case by (cases "rl_step2 s") (auto simp: relay_inv_def)
next
  case (step1_sends s)
  then show ?case by (cases "rl_step2 s") (auto simp: relay_inv_def enqueue_def)
qed

lemma relay_inv_step2: "step2_step s t \<Longrightarrow> relay_inv s \<Longrightarrow> relay_inv t"
proof (induction rule: step2_step.induct)
  case (step2_receives s m ms)
  then show ?case by (cases "rl_step1 s"; cases "rl_main s") (auto simp: relay_inv_def)
next
  case (step2_sends s)
  then show ?case by (cases "rl_main s") (auto simp: relay_inv_def enqueue_def)
qed (auto simp: relay_inv_def)

fun main_rank :: "relay_main \<Rightarrow> nat" where
  "main_rank MainBind = 0" | "main_rank MainStart = 1" | "main_rank MainRecv = 2" | "main_rank MainEnd = 3"

fun step1_rank :: "relay_step1 \<Rightarrow> nat" where
  "step1_rank S1None = 0" | "step1_rank S1Connect = 0" | "step1_rank S1Send = 1" | "step1_rank _ = 2"

fun step2_rank :: "relay_step2 \<Rightarrow> nat" where
  "step2_rank S2None = 0" | "step2_rank S2Bind = 0" | "step2_rank S2Start = 1" | "step2_rank S2Recv = 2"
| "step2_rank S2Connect = 3" | "step2_rank S2Send = 4" | "step2_rank _ = 5"

definition relay_rank :: "relay \<Rightarrow> nat" where
  "relay_rank s = main_rank (rl_main s) + step1_rank (rl_step1 s) + step2_rank (rl_step2 s)"

lemma relay_invD:
  assumes "relay_inv s"
  shows "rl_main s = MainStart \<Longrightarrow> rl_step2 s = S2None" "rl_step2 s = S2Start \<Longrightarrow> rl_step1 s = S1None"
    "rl_step1 s = S1Connect \<Longrightarrow> end2 \<in> rl_bound s" "rl_step2 s = S2Connect \<Longrightarrow> end3 \<in> rl_bound s"
    "rl_main s = MainEnd \<Longrightarrow> rl_step2 s = S2End" "rl_step2 s = S2End \<Longrightarrow> rl_step1 s = S1End"
    "rl_main s = MainRecv \<Longrightarrow> rl_step2 s \<noteq> S2None" "rl_step2 s = S2Recv \<Longrightarrow> rl_step1 s \<noteq> S1None"
    "rl_step1 s = S1End \<Longrightarrow> rl_step2 s = S2Recv \<Longrightarrow> rl_sent s end2 \<noteq> []"
    "rl_step2 s = S2End \<Longrightarrow> rl_main s = MainRecv \<Longrightarrow> rl_sent s end3 \<noteq> []"
    "rl_step1 s \<noteq> S1Failed" "rl_step2 s \<noteq> S2Failed"
  using assms by (auto simp: relay_inv_def)

lemma relay_rank_step: "relay_inv s \<Longrightarrow> relay_step s t \<Longrightarrow> relay_rank t = Suc (relay_rank s)"
  unfolding relay_step_def
proof (elim disjE)
  assume inv: "relay_inv s"
  note D = relay_invD [OF inv]
  show "main_step s t \<Longrightarrow> relay_rank t = Suc (relay_rank s)"
    by (erule main_step.cases) (use D in \<open>simp_all add: relay_rank_def\<close>)
  show "step1_step s t \<Longrightarrow> relay_rank t = Suc (relay_rank s)"
    by (erule step1_step.cases) (use D in \<open>simp_all add: relay_rank_def\<close>)
  show "step2_step s t \<Longrightarrow> relay_rank t = Suc (relay_rank s)"
    by (erule step2_step.cases) (use D in \<open>simp_all add: relay_rank_def\<close>)
qed

lemma main_rank_le: "main_rank x \<le> 3" by (cases x) simp_all

lemma step1_rank_le: "step1_rank x \<le> 2" by (cases x) simp_all

lemma step2_rank_le: "step2_rank x \<le> 5" by (cases x) simp_all

lemma relay_rank_bound: "relay_rank s \<le> 10"
  unfolding relay_rank_def
  using main_rank_le [of "rl_main s"] step1_rank_le [of "rl_step1 s"] step2_rank_le [of "rl_step2 s"] by linarith

lemma relay_inv_step: "relay_inv s \<Longrightarrow> relay_step s t \<Longrightarrow> relay_inv t"
  unfolding relay_step_def using relay_inv_main relay_inv_step1 relay_inv_step2 by blast

interpretation relay: terminating_system relay_init relay_step relay_inv relay_rank 10
  by unfold_locales (fact relay_inv_init, fact relay_inv_step, simp add: relay_rank_step, rule relay_rank_bound)

lemma relay_steps: "(relay_step ^^ n) relay_init t \<Longrightarrow> relay_inv t \<and> relay_rank t = n"
proof (induction n arbitrary: t)
  case 0
  then have "t = relay_init" by simp
  moreover have "relay_rank relay_init = 0" by (simp add: relay_rank_def relay_init_def)
  ultimately show ?case using relay_inv_init by simp
next
  case (Suc n)
  then obtain u where "(relay_step ^^ n) relay_init u" "relay_step u t" by auto
  with Suc.IH relay_inv_step relay_rank_step show ?case by blast
qed

text \<open>Some thread can always go on, until all three are at their end.\<close>

lemma relay_moves:
  assumes inv: "relay_inv s" and st: "stuck relay_step s"
  shows "rl_main s = MainEnd \<and> rl_step1 s = S1End \<and> rl_step2 s = S2End"
proof -
  have no: "\<not> main_step s t" "\<not> step1_step s t" "\<not> step2_step s t" for t
    using st by (simp_all add: stuck_def relay_step_def)
  have main: "rl_main s = MainEnd \<or> rl_main s = MainRecv \<and> rl_sent s end3 = []"
    using no(1) main_binds [of s] main_starts [of s] main_receives [of s] by (cases "rl_main s"; cases "rl_sent s end3") blast+
  note D = relay_invD [OF inv]
  have one: "rl_step1 s = S1None \<or> rl_step1 s = S1End"
    using no(2) step1_connects [of s] step1_sends [of s] D(11) by (cases "rl_step1 s") blast+
  have two: "rl_step2 s = S2None \<or> rl_step2 s = S2End \<or> rl_step2 s = S2Recv \<and> rl_sent s end2 = []"
    using no(3) step2_binds [of s] step2_starts [of s] step2_receives [of s] step2_connects [of s] step2_sends [of s] D(12)
    by (cases "rl_step2 s"; cases "rl_sent s end2") blast+
  have "rl_step2 s \<noteq> S2None" using main D(5,7) by auto
  moreover have "rl_step2 s = S2Recv \<Longrightarrow> False" using one two D(8,9) by auto
  ultimately have end_two: "rl_step2 s = S2End" using two by blast
  moreover have "rl_main s = MainEnd" using main D(10) end_two by blast
  ultimately show ?thesis using D(6) by blast
qed

text \<open>
  C25: however the three threads are interleaved, no connect comes before its bind, so that none of
  them takes an exception path; a run has at most ten steps, and one that cannot go on has exactly
  ten: both signals have been received in turn and every thread is at its end.
\<close>

theorem relay_ends:
  assumes r: "(relay_step ^^ n) relay_init s"
  shows "n \<le> 10 \<and> rl_step1 s \<noteq> S1Failed \<and> rl_step2 s \<noteq> S2Failed
    \<and> (stuck relay_step s \<longleftrightarrow> n = 10)
    \<and> (n = 10 \<longleftrightarrow> rl_main s = MainEnd \<and> rl_step1 s = S1End \<and> rl_step2 s = S2End)
    \<and> (rl_main s = MainEnd \<longrightarrow> n = 10)"
proof -
  note inv = relay_steps [OF r]
  have n: "n \<le> 10" and ok: "rl_step1 s \<noteq> S1Failed \<and> rl_step2 s \<noteq> S2Failed"
    using inv relay_rank_bound [of s] relay_invD(11,12) by auto
  have ten: "n = 10 \<longleftrightarrow> rl_main s = MainEnd \<and> rl_step1 s = S1End \<and> rl_step2 s = S2End"
  proof
    assume "n = 10"
    then have "relay_rank s = 10" using inv by simp
    then have "main_rank (rl_main s) = 3" "step1_rank (rl_step1 s) = 2" "step2_rank (rl_step2 s) = 5"
      using main_rank_le [of "rl_main s"] step1_rank_le [of "rl_step1 s"] step2_rank_le [of "rl_step2 s"]
      unfolding relay_rank_def by linarith+
    then show "rl_main s = MainEnd \<and> rl_step1 s = S1End \<and> rl_step2 s = S2End"
      using ok by (cases "rl_main s"; cases "rl_step1 s"; cases "rl_step2 s") simp_all
  qed (use inv in \<open>simp add: relay_rank_def\<close>)
  have "\<not> relay_step s t" if "n = 10" for t
    using that inv relay_rank_step [of s t] relay_rank_bound [of t] by fastforce
  then have "n = 10 \<longrightarrow> stuck relay_step s" by (simp add: stuck_def)
  then have "stuck relay_step s \<longleftrightarrow> n = 10" using relay_moves inv ten by blast
  moreover have "rl_main s = MainEnd \<longrightarrow> n = 10" using relay_invD(5,6) inv ten by blast
  ultimately show ?thesis using n ok ten by blast
qed

theorem relay_ends_witness:
  "\<exists>s. (relay_step ^^ 10) relay_init s \<and> stuck relay_step s \<and> rl_main s = MainEnd"
proof -
  obtain s where s: "relay_step\<^sup>*\<^sup>* relay_init s" "stuck relay_step s"
    using relay.reaches_stuck [OF relay_inv_init] by blast
  then obtain n where n: "(relay_step ^^ n) relay_init s" using rtranclp_imp_relpowp by metis
  from relay_ends [OF n] s(2) n show ?thesis by blast
qed

end
