(* ===== verification/HelloTokens.thy ===== *)
theory HelloTokens
  imports Systems
begin

text \<open>
  A machine that moves tokens: clients that ask and wait in turn, a bridge, and workers that answer
  one request at a time. It is what \<open>HelloNet\<close> shows the request-reply programs to be. It keeps an
  invariant, every step raises a bounded rank, and when it can do nothing more every client is done.
\<close>

text \<open>
  A client's token, with the number of requests still to be sent: none outstanding, or one on its way
  to the bridge, to a worker, back from the worker, and back from the bridge.
\<close>

datatype net_token = NIdle nat | NAsked nat | NOut nat nat | NBack nat nat | NAnswered nat

record net =
  net_client :: "nat \<Rightarrow> net_token"
  net_out :: "nat \<Rightarrow> nat list"
  net_back :: "nat \<Rightarrow> nat list"

definition net_init :: "(nat \<Rightarrow> nat) \<Rightarrow> net" where
  "net_init todo = \<lparr>net_client = (\<lambda>n. NIdle (todo n)), net_out = (\<lambda>_. []), net_back = (\<lambda>_. [])\<rparr>"

text \<open>One round of the bridge: at most one message each way, the first to a worker \<open>w\<close>.\<close>

inductive net_fe :: "nat \<Rightarrow> nat \<Rightarrow> net \<Rightarrow> nat option \<Rightarrow> net \<Rightarrow> bool" for N w where
  fe_none: "net_fe N w a None a"
| fe_some: "n < N \<Longrightarrow> net_client a n = NAsked k \<Longrightarrow>
    net_fe N w a (Some n) (a\<lparr>net_client := (net_client a)(n := NOut w k), net_out := (net_out a)(w := net_out a w @ [n])\<rparr>)"

inductive net_be :: "nat \<Rightarrow> net \<Rightarrow> (nat \<times> nat) option \<Rightarrow> net \<Rightarrow> bool" for W where
  be_none: "net_be W a None a"
| be_some: "w < W \<Longrightarrow> net_back a w = n # ns \<Longrightarrow> net_client a n = NBack w k \<Longrightarrow>
    net_be W a (Some (w, n)) (a\<lparr>net_client := (net_client a)(n := NAnswered k), net_back := (net_back a)(w := ns)\<rparr>)"

inductive net_step :: "nat \<Rightarrow> nat \<Rightarrow> net \<Rightarrow> net \<Rightarrow> bool" for N W where
  net_asks: "n < N \<Longrightarrow> net_client a n = NIdle (Suc k) \<Longrightarrow>
    net_step N W a (a\<lparr>net_client := (net_client a)(n := NAsked k)\<rparr>)"
| net_gets: "n < N \<Longrightarrow> net_client a n = NAnswered k \<Longrightarrow>
    net_step N W a (a\<lparr>net_client := (net_client a)(n := NIdle k)\<rparr>)"
| net_serves: "w < W \<Longrightarrow> net_out a w = n # ns \<Longrightarrow> net_client a n = NOut w k \<Longrightarrow>
    net_step N W a (a\<lparr>net_client := (net_client a)(n := NBack w k), net_out := (net_out a)(w := ns),
      net_back := (net_back a)(w := net_back a w @ [n])\<rparr>)"
| net_round: "w < W \<Longrightarrow> net_fe N w a x b \<Longrightarrow> net_be W b y c \<Longrightarrow> x \<noteq> None \<or> y \<noteq> None \<Longrightarrow> net_step N W a c"

subsection \<open>The machine keeps its books\<close>

fun net_left :: "net_token \<Rightarrow> nat" where
  "net_left (NIdle k) = k"
| "net_left (NAsked k) = Suc k"
| "net_left (NOut w k) = Suc k"
| "net_left (NBack w k) = Suc k"
| "net_left (NAnswered k) = Suc k"

text \<open>A queue holds a client exactly when its token is there, and once.\<close>

definition net_inv :: "nat \<Rightarrow> nat \<Rightarrow> (nat \<Rightarrow> nat) \<Rightarrow> net \<Rightarrow> bool" where
  "net_inv N W todo a \<longleftrightarrow> (\<forall>w. distinct (net_out a w)) \<and> (\<forall>w. distinct (net_back a w))
     \<and> (\<forall>w n. n \<in> set (net_out a w) \<longleftrightarrow> n < N \<and> (\<exists>k. net_client a n = NOut w k))
     \<and> (\<forall>w n. n \<in> set (net_back a w) \<longleftrightarrow> n < N \<and> (\<exists>k. net_client a n = NBack w k))
     \<and> (\<forall>n. net_left (net_client a n) \<le> todo n) \<and> (\<forall>n w k. net_client a n \<in> {NOut w k, NBack w k} \<longrightarrow> w < W)"

lemma net_invD:
  assumes "net_inv N W todo a"
  shows "distinct (net_out a w)" "distinct (net_back a w)"
    "n \<in> set (net_out a w) \<longleftrightarrow> n < N \<and> (\<exists>k. net_client a n = NOut w k)"
    "n \<in> set (net_back a w) \<longleftrightarrow> n < N \<and> (\<exists>k. net_client a n = NBack w k)"
    "net_left (net_client a n) \<le> todo n" "net_client a n = NOut w k \<Longrightarrow> w < W" "net_client a n = NBack w k \<Longrightarrow> w < W"
  using assms by (simp_all add: net_inv_def)

lemma net_inv_init: "net_inv N W todo (net_init todo)"
  by (simp add: net_inv_def net_init_def)

text \<open>A token that is in no queue before and after a step.\<close>

lemma net_inv_client:
  assumes inv: "net_inv N W todo a" and n: "net_client a n = c" and left: "net_left d \<le> net_left c"
    and c: "\<forall>w k. c \<noteq> NOut w k \<and> c \<noteq> NBack w k" and d: "\<forall>w k. d \<noteq> NOut w k \<and> d \<noteq> NBack w k"
  shows "net_inv N W todo (a\<lparr>net_client := (net_client a)(n := d)\<rparr>)"
  using net_invD [OF inv] n c d order_trans [OF left, of "todo n"] unfolding net_inv_def by (auto split: if_splits)

lemma net_inv_fe:
  assumes "net_fe N w a x b" and inv: "net_inv N W todo a" and w: "w < W"
  shows "net_inv N W todo b"
  using assms(1)
proof cases
  case fe_none
  with inv show ?thesis by simp
next
  case (fe_some n k)
  note D = net_invD [OF inv]
  have fresh: "n \<notin> set (net_out a w)" using D(3) [of n w] fe_some by simp
  have "distinct (net_out b v)" "distinct (net_back b v)" for v
    using D(1,2) fresh by (simp_all add: fe_some(2))
  moreover have "i \<in> set (net_out b v) \<longleftrightarrow> i < N \<and> (\<exists>k. net_client b i = NOut v k)" for i v
    using D(3) [of i v] fe_some w by (auto simp: fe_some(2))
  moreover have "i \<in> set (net_back b v) \<longleftrightarrow> i < N \<and> (\<exists>k. net_client b i = NBack v k)" for i v
    using D(4) [of i v] fe_some by (auto simp: fe_some(2))
  moreover have "net_left (net_client b i) \<le> todo i" for i
    using D(5) [of i] fe_some(4) by (auto simp: fe_some(2))
  moreover have "net_client b i \<in> {NOut v j, NBack v j} \<Longrightarrow> v < W" for i v j
    using D(6) [of i v j] D(7) [of i v j] w by (auto simp: fe_some(2) split: if_splits)
  ultimately show ?thesis unfolding net_inv_def by blast
qed

lemma net_inv_be:
  assumes "net_be W a y b" and inv: "net_inv N W todo a"
  shows "net_inv N W todo b"
  using assms(1)
proof cases
  case be_none
  with inv show ?thesis by simp
next
  case (be_some w n ns k)
  note D = net_invD [OF inv]
  have ns: "n \<notin> set ns" "distinct ns" "n < N" using D(2) [of w] D(4) [of n w] be_some by simp_all
  have "distinct (net_out b v)" "distinct (net_back b v)" for v
    using D(1,2) ns by (simp_all add: be_some(2))
  moreover have "i \<in> set (net_out b v) \<longleftrightarrow> i < N \<and> (\<exists>k. net_client b i = NOut v k)" for i v
    using D(3) [of i v] be_some by (auto simp: be_some(2))
  moreover have "i \<in> set (net_back b v) \<longleftrightarrow> i < N \<and> (\<exists>k. net_client b i = NBack v k)" for i v
    using D(4) [of i v] be_some ns by (auto simp: be_some(2))
  moreover have "net_left (net_client b i) \<le> todo i" for i
    using D(5) [of i] be_some(5) by (auto simp: be_some(2))
  moreover have "net_client b i \<in> {NOut v j, NBack v j} \<Longrightarrow> v < W" for i v j
    using D(6) [of i v j] D(7) [of i v j] by (auto simp: be_some(2) split: if_splits)
  ultimately show ?thesis unfolding net_inv_def by blast
qed

lemma net_inv_serves:
  assumes inv: "net_inv N W todo a" and s: "w < W" "net_out a w = n # ns" "net_client a n = NOut w k"
  shows "net_inv N W todo (a\<lparr>net_client := (net_client a)(n := NBack w k), net_out := (net_out a)(w := ns),
      net_back := (net_back a)(w := net_back a w @ [n])\<rparr>)" (is "net_inv N W todo ?b")
proof -
  note D = net_invD [OF inv]
  have ns: "n \<notin> set ns" "distinct ns" "n < N" "n \<notin> set (net_back a w)"
    using D(1) [of w] D(3) [of n w] D(4) [of n w] s by simp_all
  have "distinct (net_out ?b v)" "distinct (net_back ?b v)" for v
    using D(1,2) ns by simp_all
  moreover have "i \<in> set (net_out ?b v) \<longleftrightarrow> i < N \<and> (\<exists>k. net_client ?b i = NOut v k)" for i v
    using D(3) [of i v] s ns by auto
  moreover have "i \<in> set (net_back ?b v) \<longleftrightarrow> i < N \<and> (\<exists>k. net_client ?b i = NBack v k)" for i v
    using D(4) [of i v] s ns by auto
  moreover have "net_left (net_client ?b i) \<le> todo i" for i
    using D(5) [of i] s by auto
  moreover have "net_client ?b i \<in> {NOut v j, NBack v j} \<Longrightarrow> v < W" for i v j
    using D(6) [of i v j] D(7) [of i v j] s by (auto split: if_splits)
  ultimately show ?thesis unfolding net_inv_def by blast
qed

lemma net_inv_step: "net_step N W a b \<Longrightarrow> net_inv N W todo a \<Longrightarrow> net_inv N W todo b"
proof (induction rule: net_step.induct)
  case (net_asks n a k)
  from net_inv_client [OF net_asks(3,2), of "NAsked k"] show ?case by simp
next
  case (net_gets n a k)
  from net_inv_client [OF net_gets(3,2), of "NIdle k"] show ?case by simp
next
  case (net_serves w a n ns k)
  from net_inv_serves [OF net_serves(4,1,2,3)] show ?case .
next
  case (net_round w a x b y c)
  from net_inv_be [OF net_round(3) net_inv_fe [OF net_round(2,5,1)]] show ?case .
qed

subsection \<open>Every step is one of five for each request\<close>

fun net_rank :: "nat \<Rightarrow> net_token \<Rightarrow> nat" where
  "net_rank t (NIdle k) = 5 * (t - k)"
| "net_rank t (NAsked k) = 5 * (t - Suc k) + 1"
| "net_rank t (NOut w k) = 5 * (t - Suc k) + 2"
| "net_rank t (NBack w k) = 5 * (t - Suc k) + 3"
| "net_rank t (NAnswered k) = 5 * (t - Suc k) + 4"

definition net_total :: "nat \<Rightarrow> (nat \<Rightarrow> nat) \<Rightarrow> net \<Rightarrow> nat" where
  "net_total N todo a = (\<Sum>n < N. net_rank (todo n) (net_client a n))"

lemma net_rank_le: "net_left c \<le> t \<Longrightarrow> net_rank t c \<le> 5 * t"
  by (cases c) auto

lemma net_total_bound: "net_inv N W todo a \<Longrightarrow> net_total N todo a \<le> 5 * (\<Sum>n < N. todo n)"
proof -
  assume "net_inv N W todo a"
  from net_invD(5) [OF this] have "net_total N todo a \<le> (\<Sum>n < N. 5 * todo n)"
    unfolding net_total_def by (intro sum_mono net_rank_le)
  then show ?thesis by (simp add: sum_distrib_left)
qed

lemma net_total_upd:
  assumes "n < N" and "net_client b = (net_client a)(n := c)"
  shows "net_total N todo b + net_rank (todo n) (net_client a n) = net_total N todo a + net_rank (todo n) c"
  using sum_upd_at [OF assms(1), where f = "\<lambda>n. net_rank (todo n)" and g = "net_client a" and x = c]
  by (simp only: net_total_def assms(2))

lemma net_total_fe: "net_fe N w a x b \<Longrightarrow> net_total N todo b = net_total N todo a + (if x = None then 0 else 1)"
proof (induction rule: net_fe.induct)
  case (fe_some n a k)
  from net_total_upd [OF fe_some(1), of "a\<lparr>net_client := (net_client a)(n := NOut w k),
      net_out := (net_out a)(w := net_out a w @ [n])\<rparr>" a "NOut w k" todo] fe_some(2) show ?case by simp
qed simp

lemma net_total_be: "net_be W a y b \<Longrightarrow> net_inv N W todo a \<Longrightarrow>
    net_total N todo b = net_total N todo a + (if y = None then 0 else 1)"
proof (induction rule: net_be.induct)
  case (be_some w a n ns k)
  from net_invD(4) [OF be_some(4), of n w] be_some(2) have "n < N" by simp
  from net_total_upd [OF this, of "a\<lparr>net_client := (net_client a)(n := NAnswered k), net_back := (net_back a)(w := ns)\<rparr>"
      a "NAnswered k" todo] be_some(3) show ?case by simp
qed simp

lemma net_total_step: "net_step N W a b \<Longrightarrow> net_inv N W todo a \<Longrightarrow> net_total N todo a < net_total N todo b"
proof (induction rule: net_step.induct)
  case (net_asks n a k)
  from net_total_upd [OF net_asks(1), of "a\<lparr>net_client := (net_client a)(n := NAsked k)\<rparr>" a "NAsked k" todo]
    net_asks(2) net_invD(5) [OF net_asks(3), of n] show ?case by simp
next
  case (net_gets n a k)
  from net_total_upd [OF net_gets(1), of "a\<lparr>net_client := (net_client a)(n := NIdle k)\<rparr>" a "NIdle k" todo]
    net_gets(2) net_invD(5) [OF net_gets(3), of n] show ?case by simp
next
  case (net_serves w a n ns k)
  from net_invD(3) [OF net_serves(4), of n w] net_serves(2) have "n < N" by simp
  from net_total_upd [OF this, of "a\<lparr>net_client := (net_client a)(n := NBack w k), net_out := (net_out a)(w := ns),
      net_back := (net_back a)(w := net_back a w @ [n])\<rparr>" a "NBack w k" todo] net_serves(3) show ?case by simp
next
  case (net_round w a x b y c)
  from net_total_be [OF net_round(3) net_inv_fe [OF net_round(2,5,1)]] net_total_fe [OF net_round(2), of todo] net_round(4)
  show ?case by auto
qed

interpretation net: terminating_system "net_init todo" "net_step N W" "net_inv N W todo" "net_total N todo" "5 * (\<Sum>n < N. todo n)"
  for N W todo
proof unfold_locales
  show "net_inv N W todo (net_init todo)" by (rule net_inv_init)
  show "net_inv N W todo s \<Longrightarrow> net_step N W s t \<Longrightarrow> net_inv N W todo t" for s t by (rule net_inv_step)
  show "net_inv N W todo s \<Longrightarrow> net_step N W s t \<Longrightarrow> net_total N todo s < net_total N todo t" for s t
    by (rule net_total_step)
  show "net_inv N W todo s \<Longrightarrow> net_total N todo s \<le> 5 * (\<Sum>n < N. todo n)" for s by (rule net_total_bound)
qed

subsection \<open>Where it ends\<close>

lemma net_stuck_queues:
  assumes inv: "net_inv N W todo a" and st: "stuck (net_step N W) a"
  shows "net_out a w = []" "net_back a w = []"
proof -
  show "net_out a w = []"
  proof (cases "net_out a w")
    case (Cons n ns)
    then have "n \<in> set (net_out a w)" by simp
    then obtain k where k: "net_client a n = NOut w k" using net_invD(3) [OF inv, of n w] by blast
    from stuckD [OF st, OF net_serves [OF net_invD(6) [OF inv k] Cons k]] show ?thesis .
  qed
  show "net_back a w = []"
  proof (cases "net_back a w")
    case (Cons n ns)
    then have "n \<in> set (net_back a w)" by simp
    then obtain k where k: "net_client a n = NBack w k" using net_invD(4) [OF inv, of n w] by blast
    note w = net_invD(7) [OF inv k]
    show ?thesis by (rule stuckD [OF st, OF net_round [OF w fe_none be_some [OF w Cons k]]]) simp
  qed
qed

lemma net_stuck:
  assumes inv: "net_inv N W todo a" and st: "stuck (net_step N W) a" and W: "0 < W" and n: "n < N"
  shows "net_client a n = NIdle 0"
proof (cases "net_client a n")
  case (NIdle k)
  then show ?thesis using stuckD [OF st, OF net_asks [OF n]] by (cases k) auto
next
  case (NAsked k)
  show ?thesis by (rule stuckD [OF st, OF net_round [OF W fe_some [OF n NAsked] be_none]]) simp
next
  case (NOut w k)
  with net_invD(3) [OF inv, of n w] n have "n \<in> set (net_out a w)" by blast
  with net_stuck_queues [OF inv st] show ?thesis by simp
next
  case (NBack w k)
  with net_invD(4) [OF inv, of n w] n have "n \<in> set (net_back a w)" by blast
  with net_stuck_queues [OF inv st] show ?thesis by simp
next
  case (NAnswered k)
  from stuckD [OF st, OF net_gets [OF n this]] show ?thesis .
qed

end
