(* ===== verification/HelloNet.thy ===== *)
theory HelloNet
  imports Proxies Sockets HelloTokens
begin

text \<open>
  Clients that say Hello, a bridge, and workers that reply, as one system in any interleaving: the
  programs \<open>rrclient\<close>, \<open>rrbroker\<close> and \<open>rrworker\<close> of \<open>extended-request-reply\<close>, and
  \<open>hwclient\<close> with \<open>mtserver\<close>, whose bridge is the proxy of the socket library. A locale states
  what the proofs need of bridge and worker; both programs satisfy it. Every client gets all its
  replies, and nothing else is sent.
\<close>

subsection \<open>What the programs rely on\<close>

text \<open>
  A REP socket behind a DEALER: it keeps everything up to the first empty frame of a request as the
  envelope, gives the rest to its program, and puts the envelope back in front of the reply.
\<close>

record rep_socket =
  rep_open :: "msg \<Rightarrow> msg \<times> msg"
  rep_close :: "msg \<Rightarrow> msg \<Rightarrow> msg"

definition rep_contract :: "rep_socket \<Rightarrow> bool" where
  "rep_contract R \<longleftrightarrow> (\<forall>envelope body. [] \<notin> set envelope \<longrightarrow> rep_open R (envelope @ [] # body) = (envelope, body))
     \<and> (\<forall>envelope body. rep_close R envelope body = envelope @ [] # body)"

lemma rep_contractD:
  assumes "rep_contract R"
  shows "i \<noteq> [] \<Longrightarrow> rep_open R (i # [] # body) = ([i], body)" "rep_close R envelope body = envelope @ [] # body"
proof -
  show "i \<noteq> [] \<Longrightarrow> rep_open R (i # [] # body) = ([i], body)"
    using assms [unfolded rep_contract_def, THEN conjunct1, rule_format, of "[i]" body] by simp
  show "rep_close R envelope body = envelope @ [] # body" using assms by (simp add: rep_contract_def)
qed

definition rep_std :: rep_socket where
  "rep_std = \<lparr>rep_open = (\<lambda>fs. (takeWhile (\<lambda>f. f \<noteq> []) fs, tl (dropWhile (\<lambda>f. f \<noteq> []) fs))),
     rep_close = (\<lambda>envelope body. envelope @ [] # body)\<rparr>"

lemma rep_std_contract: "rep_contract rep_std"
proof -
  have "takeWhile (\<lambda>f. f \<noteq> []) (envelope @ [] # body) = envelope" "dropWhile (\<lambda>f. f \<noteq> []) (envelope @ [] # body) = [] # body"
    if "[] \<notin> set envelope" for envelope body :: msg
    using that by (induction envelope) auto
  then show ?thesis by (simp add: rep_contract_def rep_std_def)
qed

text \<open>The proxy of the library: what it makes of a message from the front end, and from the back end.\<close>

record zmq_proxy =
  px_forth :: "msg \<Rightarrow> msg"
  px_back :: "msg \<Rightarrow> msg"

definition proxy_contract :: "zmq_proxy \<Rightarrow> bool" where
  "proxy_contract X \<longleftrightarrow> (\<forall>m. px_forth X m = m) \<and> (\<forall>m. px_back X m = m)"

definition proxy_std :: zmq_proxy where
  "proxy_std = \<lparr>px_forth = (\<lambda>m. m), px_back = (\<lambda>m. m)\<rparr>"

lemma proxy_std_contract: "proxy_contract proxy_std"
  by (simp add: proxy_contract_def proxy_std_def)

subsection \<open>The programs\<close>

text \<open>
  The bridge gets what has arrived from the clients and from the workers; \<open>main\<close> of
  \<open>mtserver\<close> hands its two sockets to the proxy.
\<close>

record hello_program =
  hp_bridge :: "msg option \<Rightarrow> msg option \<Rightarrow> sent list res"
  hp_worker :: "recv_event list \<Rightarrow> unit \<Rightarrow> (unit ctl \<times> part list list) res"

definition rr_program :: hello_program where
  "rr_program = \<lparr>hp_bridge = (\<lambda>fe be. rbind (rrb_step \<lparr>poll_be = map_option arrives be, poll_fe = map_option arrives fe\<rparr> ())
       (\<lambda>(_, os). Inr os)), hp_worker = rrworker_step\<rparr>"

definition mtserver_proxy :: "zmq_proxy \<Rightarrow> msg option \<Rightarrow> msg option \<Rightarrow> sent list res" where
  "mtserver_proxy X fe be = Inr ((case fe of None \<Rightarrow> [] | Some m \<Rightarrow> [(Backend, parts_of (px_forth X m))])
     @ (case be of None \<Rightarrow> [] | Some m \<Rightarrow> [(Frontend, parts_of (px_back X m))]))"

definition mt_program :: "zmq_proxy \<Rightarrow> hello_program" where
  "mt_program X = \<lparr>hp_bridge = mtserver_proxy X, hp_worker = mtserver_worker_step\<rparr>"

text \<open>A client with the number of requests still to be sent, and the replies it has got.\<close>

datatype hello_client = HcIdle nat "frame list" | HcWaiting nat "frame list"

record hello =
  hn_client :: "nat \<Rightarrow> hello_client"
  hn_fe_in :: "frame \<Rightarrow> msg list"
  hn_fe_out :: "frame \<Rightarrow> msg list"
  hn_be_in :: "nat \<Rightarrow> msg list"
  hn_be_out :: "nat \<Rightarrow> msg list"
  hn_fault :: "fault option"

definition hello_init :: "(nat \<Rightarrow> nat) \<Rightarrow> hello" where
  "hello_init todo = \<lparr>hn_client = (\<lambda>n. HcIdle (todo n) []), hn_fe_in = (\<lambda>_. []), hn_fe_out = (\<lambda>_. []),
     hn_be_in = (\<lambda>_. []), hn_be_out = (\<lambda>_. []), hn_fault = None\<rparr>"

text \<open>
  The steps, with \<open>N\<close> clients, which the library gives the identities \<open>cid\<close>, and \<open>W\<close> workers:
  a DEALER socket sends each message to one of its workers, whichever is next.
\<close>

inductive hello_step :: "zmq_envelope \<Rightarrow> rep_socket \<Rightarrow> hello_program \<Rightarrow> (nat \<Rightarrow> frame) \<Rightarrow> nat \<Rightarrow> nat \<Rightarrow> hello \<Rightarrow> hello \<Rightarrow> bool"
  for Z R P cid N W where
  client_sends: "n < N \<Longrightarrow> hn_client s n = HcIdle (Suc k) rs \<Longrightarrow>
    hello_step Z R P cid N W s (s\<lparr>hn_client := (hn_client s)(n := HcWaiting k rs),
      hn_fe_in := enqueue (cid n) (req_out Z [''Hello'']) (hn_fe_in s)\<rparr>)"
| client_gets: "n < N \<Longrightarrow> hn_client s n = HcWaiting k rs \<Longrightarrow> hn_fe_out s (cid n) = m # ms \<Longrightarrow>
    recv_part (arrives (req_in Z m)) = Inr (rep, es) \<Longrightarrow>
    hello_step Z R P cid N W s (s\<lparr>hn_client := (hn_client s)(n := HcIdle k (rs @ [rep])),
      hn_fe_out := (hn_fe_out s)(cid n := ms)\<rparr>)"
| worker_serves: "w < W \<Longrightarrow> hn_be_out s w = m # ms \<Longrightarrow> rep_open R m = (envelope, body) \<Longrightarrow>
    hp_worker P (arrives body) () = Inr (c, os) \<Longrightarrow>
    hello_step Z R P cid N W s (s\<lparr>hn_be_in := fold (\<lambda>ps. enqueue w (rep_close R envelope (map fst ps))) os (hn_be_in s),
      hn_be_out := (hn_be_out s)(w := ms)\<rparr>)"
| worker_fails: "w < W \<Longrightarrow> hn_be_out s w = m # ms \<Longrightarrow> rep_open R m = (envelope, body) \<Longrightarrow>
    hp_worker P (arrives body) () = Inl e \<Longrightarrow> hello_step Z R P cid N W s (s\<lparr>hn_fault := Some e\<rparr>)"
| bridge_round: "takes (hn_fe_in s) rf fe \<Longrightarrow> takes (hn_be_in s) rb be \<Longrightarrow> rf \<noteq> None \<or> rb \<noteq> None \<Longrightarrow> w < W \<Longrightarrow>
    hp_bridge P (map_option (\<lambda>(p, m). router_in Z p m) rf) (map_option snd rb) = Inr os \<Longrightarrow>
    hello_step Z R P cid N W s (s\<lparr>hn_fe_in := fe, hn_fe_out := router_sends Z (sent_on Frontend os) (hn_fe_out s),
      hn_be_in := be, hn_be_out := fold (\<lambda>ps. enqueue w (map fst ps)) (sent_on Backend os) (hn_be_out s)\<rparr>)"
| bridge_fails: "takes (hn_fe_in s) rf fe \<Longrightarrow> takes (hn_be_in s) rb be \<Longrightarrow>
    hp_bridge P (map_option (\<lambda>(p, m). router_in Z p m) rf) (map_option snd rb) = Inl e \<Longrightarrow>
    hello_step Z R P cid N W s (s\<lparr>hn_fault := Some e\<rparr>)"

subsection \<open>The messages the tokens stand for\<close>

text \<open>A row of sockets under names that the library has chosen.\<close>

definition at_names :: "(nat \<Rightarrow> 'p) \<Rightarrow> nat \<Rightarrow> (nat \<Rightarrow> msg list) \<Rightarrow> 'p \<Rightarrow> msg list" where
  "at_names c k f p = (if p \<in> c ` {..<k} then f (the_inv_into {..<k} c p) else [])"

fun hello_thread :: "nat \<Rightarrow> frame \<Rightarrow> net_token \<Rightarrow> hello_client" where
  "hello_thread t reply (NIdle k) = HcIdle k (replicate (t - k) reply)"
| "hello_thread t reply c = HcWaiting (net_left c - 1) (replicate (t - net_left c) reply)"

fun hello_asked :: "net_token \<Rightarrow> msg list" where
  "hello_asked (NAsked k) = [[[], ''Hello'']]"
| "hello_asked _ = []"

fun hello_answered :: "frame \<Rightarrow> net_token \<Rightarrow> msg list" where
  "hello_answered reply (NAnswered k) = [[[], reply]]"
| "hello_answered reply _ = []"

definition hello_of :: "(nat \<Rightarrow> frame) \<Rightarrow> nat \<Rightarrow> frame \<Rightarrow> (nat \<Rightarrow> nat) \<Rightarrow> net \<Rightarrow> hello" where
  "hello_of cid N reply todo a = \<lparr>hn_client = (\<lambda>n. hello_thread (todo n) reply (net_client a n)),
     hn_fe_in = at_names cid N (hello_asked \<circ> net_client a),
     hn_fe_out = at_names cid N (hello_answered reply \<circ> net_client a),
     hn_be_in = (\<lambda>w. map (\<lambda>n. [cid n, [], reply]) (net_back a w)),
     hn_be_out = (\<lambda>w. map (\<lambda>n. [cid n, [], ''Hello'']) (net_out a w)), hn_fault = None\<rparr>"

lemma hello_of_simps [simp]:
  "hn_client (hello_of cid N reply todo a) = (\<lambda>n. hello_thread (todo n) reply (net_client a n))"
  "hn_fe_in (hello_of cid N reply todo a) = at_names cid N (hello_asked \<circ> net_client a)"
  "hn_fe_out (hello_of cid N reply todo a) = at_names cid N (hello_answered reply \<circ> net_client a)"
  "hn_be_in (hello_of cid N reply todo a) = (\<lambda>w. map (\<lambda>n. [cid n, [], reply]) (net_back a w))"
  "hn_be_out (hello_of cid N reply todo a) = (\<lambda>w. map (\<lambda>n. [cid n, [], ''Hello'']) (net_out a w))"
  "hn_fault (hello_of cid N reply todo a) = None"
  by (simp_all add: hello_of_def)

lemma at_names_nil: "at_names c k (\<lambda>_. []) = (\<lambda>_. [])"
  by (rule ext) (simp add: at_names_def)

lemma hello_of_init: "hello_of cid N reply todo (net_init todo) = hello_init todo"
  by (simp add: hello_of_def hello_init_def net_init_def comp_def at_names_nil)

lemma takes_empty [simp]: "takes (\<lambda>_. []) r Q \<longleftrightarrow> r = None \<and> Q = (\<lambda>_. [])"
  by (auto simp: takes.simps)

subsection \<open>What the proofs need of a program\<close>

text \<open>
  The bridge passes on what it gets, the worker answers each Hello, and the clients' identities are
  distinct and not empty.
\<close>

locale hello_contract =
  fixes Z :: zmq_envelope and R :: rep_socket and P :: hello_program and reply :: frame
    and cid :: "nat \<Rightarrow> frame" and N W :: nat
  assumes zmq: "zmq_contract Z" and rep: "rep_contract R"
    and cid_inj: "inj_on cid {..<N}" and cid_text: "n < N \<Longrightarrow> cid n \<noteq> []"
    and bridge_passes: "fe \<noteq> Some [] \<Longrightarrow> be \<noteq> Some [] \<Longrightarrow> hp_bridge P fe be =
      Inr ((case fe of None \<Rightarrow> [] | Some m \<Rightarrow> [(Backend, parts_of m)]) @ (case be of None \<Rightarrow> [] | Some m \<Rightarrow> [(Frontend, parts_of m)]))"
    and worker_replies: "hp_worker P (arrives [''Hello'']) () = Inr (Next (), [[(reply, False)]])"
begin

lemma at_cid [simp]: "n < N \<Longrightarrow> at_names cid N f (cid n) = f n"
  using cid_inj by (simp add: at_names_def the_inv_into_f_f)

lemma at_cid_upd [simp]: "n < N \<Longrightarrow> (at_names cid N f)(cid n := x) = at_names cid N (f(n := x))"
proof (rule ext)
  fix p
  assume n: "n < N"
  show "((at_names cid N f)(cid n := x)) p = at_names cid N (f(n := x)) p"
  proof (cases "p \<in> cid ` {..<N}")
    case True
    then obtain i where i: "p = cid i" "i < N" by blast
    have "cid i = cid n \<longleftrightarrow> i = n" using cid_inj i n by (auto dest: inj_onD)
    with i show ?thesis by simp
  next
    case False
    with n show ?thesis by (auto simp: at_names_def)
  qed
qed

lemma at_cid_cong: "(\<And>n. n < N \<Longrightarrow> f n = g n) \<Longrightarrow> at_names cid N f = at_names cid N g"
  using cid_inj by (auto simp: at_names_def fun_eq_iff the_inv_into_f_f)

lemma at_cid_Cons: "at_names cid N f p = m # ms \<Longrightarrow> \<exists>n < N. p = cid n \<and> f n = m # ms"
  using cid_inj by (auto simp: at_names_def the_inv_into_f_f split: if_splits)

lemma takes_at_cid:
  "takes (at_names cid N f) (Some (p, m)) Q \<Longrightarrow> \<exists>n < N. \<exists>ms. f n = m # ms \<and> p = cid n \<and> Q = at_names cid N (f(n := ms))"
  by (erule takes.cases) (use at_cid_Cons in fastforce)+

text \<open>What the steps of a client and of a worker do to the program.\<close>

lemma of_asks:
  assumes "n < N" and "net_client a n = NIdle (Suc k)"
  shows "(hello_of cid N reply todo a)\<lparr>
      hn_client := (hn_client (hello_of cid N reply todo a))(n := HcWaiting k (replicate (todo n - Suc k) reply)),
      hn_fe_in := enqueue (cid n) (req_out Z [''Hello'']) (hn_fe_in (hello_of cid N reply todo a))\<rparr>
    = hello_of cid N reply todo (a\<lparr>net_client := (net_client a)(n := NAsked k)\<rparr>)"
proof (rule hello.equality)
  show "hn_fe_in ((hello_of cid N reply todo a)\<lparr>
      hn_client := (hn_client (hello_of cid N reply todo a))(n := HcWaiting k (replicate (todo n - Suc k) reply)),
      hn_fe_in := enqueue (cid n) (req_out Z [''Hello'']) (hn_fe_in (hello_of cid N reply todo a))\<rparr>)
    = hn_fe_in (hello_of cid N reply todo (a\<lparr>net_client := (net_client a)(n := NAsked k)\<rparr>))"
    using assms by (simp add: enqueue_def zmq_contractD [OF zmq] del: fun_upd_apply) (rule at_cid_cong, simp)
qed (use assms in \<open>auto simp: fun_eq_iff intro!: at_cid_cong [THEN fun_cong]\<close>)

lemma of_gets:
  assumes "n < N" and "net_client a n = NAnswered k" and "net_inv N W todo a"
  shows "(hello_of cid N reply todo a)\<lparr>
      hn_client := (hn_client (hello_of cid N reply todo a))(n := HcIdle k (replicate (todo n - Suc k) reply @ [reply])),
      hn_fe_out := (hn_fe_out (hello_of cid N reply todo a))(cid n := [])\<rparr>
    = hello_of cid N reply todo (a\<lparr>net_client := (net_client a)(n := NIdle k)\<rparr>)"
proof (rule hello.equality)
  have "replicate (todo n - Suc k) reply @ [reply] = replicate (todo n - k) reply"
    using net_invD(5) [OF assms(3), of n] assms(2) by (metis Suc_diff_Suc Suc_le_lessD net_left.simps(5) replicate_Suc replicate_append_same)
  then show "hn_client ((hello_of cid N reply todo a)\<lparr>
      hn_client := (hn_client (hello_of cid N reply todo a))(n := HcIdle k (replicate (todo n - Suc k) reply @ [reply])),
      hn_fe_out := (hn_fe_out (hello_of cid N reply todo a))(cid n := [])\<rparr>)
    = hn_client (hello_of cid N reply todo (a\<lparr>net_client := (net_client a)(n := NIdle k)\<rparr>))"
    by (simp add: fun_eq_iff)
  show "hn_fe_out ((hello_of cid N reply todo a)\<lparr>
      hn_client := (hn_client (hello_of cid N reply todo a))(n := HcIdle k (replicate (todo n - Suc k) reply @ [reply])),
      hn_fe_out := (hn_fe_out (hello_of cid N reply todo a))(cid n := [])\<rparr>)
    = hn_fe_out (hello_of cid N reply todo (a\<lparr>net_client := (net_client a)(n := NIdle k)\<rparr>))"
    using assms(1) by (simp del: fun_upd_apply) (rule at_cid_cong, simp)
qed (use assms in \<open>auto simp: fun_eq_iff intro!: at_cid_cong [THEN fun_cong]\<close>)

lemma of_serves:
  assumes "net_out a w = n # ns" and "net_client a n = NOut w k"
  shows "(hello_of cid N reply todo a)\<lparr>
      hn_be_in := enqueue w [cid n, [], reply] (hn_be_in (hello_of cid N reply todo a)),
      hn_be_out := (hn_be_out (hello_of cid N reply todo a))(w := map (\<lambda>n. [cid n, [], ''Hello'']) ns)\<rparr>
    = hello_of cid N reply todo (a\<lparr>net_client := (net_client a)(n := NBack w k), net_out := (net_out a)(w := ns),
        net_back := (net_back a)(w := net_back a w @ [n])\<rparr>)"
  by (rule hello.equality) (use assms in \<open>auto simp: fun_eq_iff enqueue_def intro!: at_cid_cong [THEN fun_cong]\<close>)

text \<open>A round of the bridge: what it takes, and what it does with it.\<close>

definition from_client :: "nat option \<Rightarrow> (frame \<times> msg) option" where
  "from_client x = map_option (\<lambda>n. (cid n, [[], ''Hello''])) x"

definition from_worker :: "(nat \<times> nat) option \<Rightarrow> (nat \<times> msg) option" where
  "from_worker y = map_option (\<lambda>(w, n). (w, [cid n, [], reply])) y"

definition passed_on :: "nat option \<Rightarrow> (nat \<times> nat) option \<Rightarrow> sent list" where
  "passed_on x y = (case x of None \<Rightarrow> [] | Some n \<Rightarrow> [(Backend, parts_of [cid n, [], ''Hello''])])
     @ (case y of None \<Rightarrow> [] | Some (w, n) \<Rightarrow> [(Frontend, parts_of [cid n, [], reply])])"

lemma bridge_passed: "hp_bridge P (map_option (\<lambda>(p, m). router_in Z p m) (from_client x)) (map_option snd (from_worker y)) =
    Inr (passed_on x y)"
proof -
  have "map_option (\<lambda>(p, m). router_in Z p m) (from_client x) = map_option (\<lambda>n. [cid n, [], ''Hello'']) x"
    "map_option snd (from_worker y) = map_option (\<lambda>(w, n). [cid n, [], reply]) y"
    by (cases x; cases y; auto simp: from_client_def from_worker_def zmq_contractD [OF zmq])+
  then show ?thesis
    by (subst bridge_passes) (auto simp: passed_on_def split: option.splits)
qed

lemma fe_effect:
  assumes "net_fe N w a x b"
  shows "takes (hn_fe_in (hello_of cid N reply todo a)) (from_client x) (hn_fe_in (hello_of cid N reply todo b))"
    "hn_be_out (hello_of cid N reply todo b) =
      fold (\<lambda>ps. enqueue w (map fst ps)) (sent_on Backend (passed_on x y)) (hn_be_out (hello_of cid N reply todo a))"
    "hn_fe_out (hello_of cid N reply todo b) = hn_fe_out (hello_of cid N reply todo a)"
    "hn_be_in (hello_of cid N reply todo b) = hn_be_in (hello_of cid N reply todo a)"
    "hn_client (hello_of cid N reply todo b) = hn_client (hello_of cid N reply todo a)"
  using assms
proof (induction rule: net_fe.induct)
  case (fe_some n a k)
  note n = fe_some
  let ?b = "a\<lparr>net_client := (net_client a)(n := NOut w k), net_out := (net_out a)(w := net_out a w @ [n])\<rparr>"
  { case 1
    have "at_names cid N (hello_asked \<circ> net_client a) (cid n) = [[], ''Hello''] # []" using n by simp
    from takes_some [of "at_names cid N (hello_asked \<circ> net_client a)", OF this]
    have "takes (hn_fe_in (hello_of cid N reply todo a)) (from_client (Some n))
        (at_names cid N ((hello_asked \<circ> net_client a)(n := [])))" using n by (simp add: from_client_def del: fun_upd_apply)
    moreover have "at_names cid N ((hello_asked \<circ> net_client a)(n := [])) = hn_fe_in (hello_of cid N reply todo ?b)"
      by simp (rule at_cid_cong, simp)
    ultimately show ?case by simp
  next
    case 2
    show ?case by (cases y) (auto simp: passed_on_def enqueue_def fun_eq_iff)
  next
    case 3
    show ?case using n by simp (rule at_cid_cong, simp)
  next
    case 4
    show ?case by simp
  next
    case 5
    show ?case using n by (simp add: fun_eq_iff) }
qed (cases y; auto simp: from_client_def passed_on_def takes_none)+

lemma be_effect:
  assumes "net_be W a y b" and "net_inv N W todo a"
  shows "takes (hn_be_in (hello_of cid N reply todo a)) (from_worker y) (hn_be_in (hello_of cid N reply todo b))"
    "hn_fe_out (hello_of cid N reply todo b) =
      router_sends Z (sent_on Frontend (passed_on x y)) (hn_fe_out (hello_of cid N reply todo a))"
    "hn_fe_in (hello_of cid N reply todo b) = hn_fe_in (hello_of cid N reply todo a)"
    "hn_be_out (hello_of cid N reply todo b) = hn_be_out (hello_of cid N reply todo a)"
    "hn_client (hello_of cid N reply todo b) = hn_client (hello_of cid N reply todo a)"
  using assms
proof (induction rule: net_be.induct)
  case (be_some w a n ns k)
  note n = be_some
  let ?b = "a\<lparr>net_client := (net_client a)(n := NAnswered k), net_back := (net_back a)(w := ns)\<rparr>"
  { case 1
    have "hn_be_in (hello_of cid N reply todo a) w = [cid n, [], reply] # map (\<lambda>n. [cid n, [], reply]) ns"
      using n by simp
    from takes_some [of "hn_be_in (hello_of cid N reply todo a)" w, OF this]
    have "takes (hn_be_in (hello_of cid N reply todo a)) (from_worker (Some (w, n)))
        ((hn_be_in (hello_of cid N reply todo a))(w := map (\<lambda>n. [cid n, [], reply]) ns))"
      by (simp add: from_worker_def del: fun_upd_apply hello_of_simps)
    moreover have "(hn_be_in (hello_of cid N reply todo a))(w := map (\<lambda>n. [cid n, [], reply]) ns) =
        hn_be_in (hello_of cid N reply todo ?b)"
      by (simp add: fun_eq_iff)
    ultimately show ?case by (simp del: fun_upd_apply hello_of_simps)
  next
    case 2
    then have "n < N" using net_invD(4) [OF 2, of n w] n by simp
    then show ?case using n
      by (cases x) (simp_all add: passed_on_def enqueue_def zmq_contractD [OF zmq] del: fun_upd_apply, (rule at_cid_cong, simp)+)
  next
    case 3
    show ?case using n by simp (rule at_cid_cong, simp)
  next
    case 4
    show ?case by simp
  next
    case 5
    show ?case using n by (simp add: fun_eq_iff) }
qed (cases x; auto simp: from_worker_def passed_on_def takes_none)+

lemma fe_forth:
  assumes "takes (hn_fe_in (hello_of cid N reply todo a)) rf fe"
  shows "\<exists>x b. net_fe N w a x b \<and> rf = from_client x \<and> fe = hn_fe_in (hello_of cid N reply todo b)"
proof (cases rf)
  case None
  with assms have "fe = hn_fe_in (hello_of cid N reply todo a)" by (auto elim: takes.cases)
  with None fe_none show ?thesis by (fastforce simp: from_client_def)
next
  case (Some pm)
  then obtain p m where pm: "rf = Some (p, m)" by (cases pm) auto
  from assms obtain n ms where n: "n < N" "(hello_asked \<circ> net_client a) n = m # ms" "p = cid n"
    unfolding pm hello_of_simps using takes_at_cid by blast
  then obtain k where k: "net_client a n = NAsked k" "m = [[], ''Hello'']" by (cases "net_client a n") auto
  note b = fe_some [where w = w, OF n(1) k(1)]
  have rf: "rf = from_client (Some n)" using pm n(3) k(2) by (simp add: from_client_def)
  have "takes Q r A \<Longrightarrow> takes Q r B \<Longrightarrow> A = B" for Q r and A B :: "frame \<Rightarrow> msg list"
    by (erule takes.cases; erule takes.cases) auto
  from this [OF assms [unfolded rf] fe_effect(1) [OF b]] b rf show ?thesis by blast
qed

lemma be_forth:
  assumes inv: "net_inv N W todo a" and t: "takes (hn_be_in (hello_of cid N reply todo a)) rb be"
  shows "\<exists>y b. net_be W a y b \<and> rb = from_worker y \<and> be = hn_be_in (hello_of cid N reply todo b)"
proof (cases rb)
  case None
  with t have "be = hn_be_in (hello_of cid N reply todo a)" by (auto elim: takes.cases)
  with None be_none show ?thesis by (fastforce simp: from_worker_def)
next
  case (Some wm)
  then obtain w m where wm: "rb = Some (w, m)" by (cases wm) auto
  with t have "map (\<lambda>n. [cid n, [], reply]) (net_back a w) \<noteq> []" by (auto elim: takes.cases)
  then obtain n ns where n: "net_back a w = n # ns" by (cases "net_back a w") auto
  with wm t have m: "m = [cid n, [], reply]" by (auto elim: takes.cases)
  obtain k where k: "net_client a n = NBack w k" using net_invD(4) [OF inv, of n w] n by auto
  note b = be_some [OF net_invD(7) [OF inv k] n k]
  have rb: "rb = from_worker (Some (w, n))" using wm m by (simp add: from_worker_def)
  have "takes Q r A \<Longrightarrow> takes Q r B \<Longrightarrow> A = B" for Q r and A B :: "nat \<Rightarrow> msg list"
    by (erule takes.cases; erule takes.cases) auto
  from this [OF t [unfolded rb] be_effect(1) [OF b inv]] b rb show ?thesis by blast
qed

lemma round_of:
  assumes fe: "net_fe N w a x b" and be: "net_be W b y c" and inv: "net_inv N W todo b"
  shows "(hello_of cid N reply todo a)\<lparr>hn_fe_in := hn_fe_in (hello_of cid N reply todo b),
      hn_fe_out := router_sends Z (sent_on Frontend (passed_on x y)) (hn_fe_out (hello_of cid N reply todo a)),
      hn_be_in := hn_be_in (hello_of cid N reply todo c),
      hn_be_out := fold (\<lambda>ps. enqueue w (map fst ps)) (sent_on Backend (passed_on x y)) (hn_be_out (hello_of cid N reply todo a))\<rparr>
    = hello_of cid N reply todo c"
  by (rule hello.equality) (simp_all only: hello.simps fe_effect(2) [OF fe, symmetric] fe_effect(3) [OF fe, symmetric]
      fe_effect(5) [OF fe] be_effect(2) [OF be inv, symmetric] be_effect(3,4,5) [OF be inv], simp_all)

text \<open>The two directions of the refinement.\<close>

lemma step_forth:
  assumes inv: "net_inv N W todo a" and step: "hello_step Z R P cid N W (hello_of cid N reply todo a) t"
  shows "\<exists>b. net_step N W a b \<and> t = hello_of cid N reply todo b"
  using step
proof cases
  case (client_sends n k rs)
  then have n: "net_client a n = NIdle (Suc k)" "rs = replicate (todo n - Suc k) reply" by (cases "net_client a n"; simp)+
  from net_asks [OF client_sends(2) n(1)] of_asks [OF client_sends(2) n(1), of todo] client_sends(1) n(2) show ?thesis by metis
next
  case (client_gets n k rs m ms rep es)
  then have n: "net_client a n = NAnswered k" "m = [[], reply]" "ms = []" by (cases "net_client a n"; simp)+
  have r: "rs = replicate (todo n - Suc k) reply" using client_gets(3) n(1) by simp
  have "rep = reply" using client_gets(5) n(2) by (simp add: zmq_contractD [OF zmq])
  with net_gets [OF client_gets(2) n(1)] of_gets [OF client_gets(2) n(1) inv] client_gets(1) n(3) r show ?thesis by metis
next
  case (worker_serves w m ms envelope body c os)
  then obtain n ns where n: "net_out a w = n # ns" "m = [cid n, [], ''Hello'']" "ms = map (\<lambda>n. [cid n, [], ''Hello'']) ns"
    by (cases "net_out a w") auto
  obtain k where k: "net_client a n = NOut w k" "n < N" using net_invD(3) [OF inv, of n w] n(1) by auto
  have "envelope = [cid n]" "body = [''Hello'']"
    using worker_serves(4) n(2) rep_contractD(1) [OF rep cid_text [OF k(2)], of "[''Hello'']"] by simp_all
  with worker_serves(5) worker_replies have "os = [[(reply, False)]]" "envelope = [cid n]" by simp_all
  with worker_serves(1) n(3) of_serves [OF n(1) k(1), of todo] have "t = hello_of cid N reply todo
      (a\<lparr>net_client := (net_client a)(n := NBack w k), net_out := (net_out a)(w := ns), net_back := (net_back a)(w := net_back a w @ [n])\<rparr>)"
    by (simp add: rep_contractD(2) [OF rep] del: fun_upd_apply hello_of_simps)
  with net_serves [OF worker_serves(2) n(1) k(1)] show ?thesis by blast
next
  case (worker_fails w m ms envelope body e)
  then obtain n where n: "n \<in> set (net_out a w)" "m = [cid n, [], ''Hello'']" by (cases "net_out a w") auto
  have "n < N" using net_invD(3) [OF inv, of n w] n(1) by simp
  then have "body = [''Hello'']" using worker_fails(4) n(2) rep_contractD(1) [OF rep cid_text, of n "[''Hello'']"] by simp
  with worker_fails(5) worker_replies show ?thesis by simp
next
  case (bridge_round rf fe rb be w os)
  obtain x b where x: "net_fe N w a x b" "rf = from_client x" "fe = hn_fe_in (hello_of cid N reply todo b)"
    using fe_forth [OF bridge_round(2)] by metis
  have invb: "net_inv N W todo b" by (rule net_inv_fe [OF x(1) inv bridge_round(5)])
  obtain y c where y: "net_be W b y c" "rb = from_worker y" "be = hn_be_in (hello_of cid N reply todo c)"
    using be_forth [OF invb] bridge_round(3) fe_effect(4) [OF x(1)] by metis
  have "os = passed_on x y" using bridge_round(6) bridge_passed x(2) y(2) by simp
  with bridge_round(1) x(3) y(3) round_of [OF x(1) y(1) invb] have "t = hello_of cid N reply todo c" by metis
  moreover have "x \<noteq> None \<or> y \<noteq> None" using bridge_round(4) x(2) y(2) by (auto simp: from_client_def from_worker_def)
  ultimately show ?thesis using net_round [OF bridge_round(5) x(1) y(1)] by blast
next
  case (bridge_fails rf fe rb be e)
  obtain x where x: "rf = from_client x" using fe_forth [OF bridge_fails(2)] by metis
  obtain y where y: "rb = from_worker y" using be_forth [OF inv bridge_fails(3)] by metis
  from bridge_fails(4) bridge_passed [of x y] show ?thesis unfolding x y by simp
qed

lemma step_back:
  assumes inv: "net_inv N W todo a" and step: "net_step N W a b"
  shows "hello_step Z R P cid N W (hello_of cid N reply todo a) (hello_of cid N reply todo b)"
  using step
proof cases
  case (net_asks n k)
  have "hn_client (hello_of cid N reply todo a) n = HcIdle (Suc k) (replicate (todo n - Suc k) reply)" by (simp add: net_asks)
  from client_sends [OF net_asks(2) this, of Z R P cid W] show ?thesis unfolding of_asks [OF net_asks(2,3)] net_asks(1) .
next
  case (net_gets n k)
  have c: "hn_client (hello_of cid N reply todo a) n = HcWaiting k (replicate (todo n - Suc k) reply)" by (simp add: net_gets)
  have m: "hn_fe_out (hello_of cid N reply todo a) (cid n) = [[[], reply]]" using net_gets by simp
  have "recv_part (arrives (req_in Z [[], reply])) = Inr (reply, [])"
    by (simp add: zmq_contractD [OF zmq] arrives_def)
  from client_gets [where cid = cid and s = "hello_of cid N reply todo a", OF net_gets(2) c m this] show ?thesis unfolding of_gets [OF net_gets(2,3) inv] net_gets(1) .
next
  case (net_serves w n ns k)
  have m: "hn_be_out (hello_of cid N reply todo a) w = [cid n, [], ''Hello''] # map (\<lambda>n. [cid n, [], ''Hello'']) ns"
    using net_serves by simp
  have "n < N" using net_invD(3) [OF inv, of n w] net_serves(3) by simp
  from worker_serves [OF net_serves(2) m rep_contractD(1) [OF rep cid_text [OF this], of "[''Hello'']"] worker_replies]
  show ?thesis unfolding net_serves(1) of_serves [OF net_serves(3,4), symmetric] by (simp add: rep_contractD(2) [OF rep] del: hello_of_simps fun_upd_apply)
next
  case (net_round w x c y)
  have invc: "net_inv N W todo c" by (rule net_inv_fe [OF net_round(2) inv net_round(1)])
  have tb: "takes (hn_be_in (hello_of cid N reply todo a)) (from_worker y) (hn_be_in (hello_of cid N reply todo b))"
    using be_effect(1) [OF net_round(3) invc] fe_effect(4) [OF net_round(2), of todo] by simp
  have "from_client x \<noteq> None \<or> from_worker y \<noteq> None"
    using net_round(4) by (auto simp: from_client_def from_worker_def)
  from bridge_round [where s = "hello_of cid N reply todo a", OF fe_effect(1) [OF net_round(2), of todo] tb this net_round(1) bridge_passed]
  show ?thesis unfolding round_of [OF net_round(2,3) invc] .
qed

lemma refinement: "token_refinement (net_init todo) (net_step N W) (net_inv N W todo) (hello_step Z R P cid N W) (hello_of cid N reply todo)"
proof unfold_locales
  show "net_inv N W todo a \<Longrightarrow> hello_step Z R P cid N W (hello_of cid N reply todo a) t \<Longrightarrow>
      \<exists>b. net_step N W a b \<and> t = hello_of cid N reply todo b" for a t by (rule step_forth)
  show "net_inv N W todo a \<Longrightarrow> net_step N W a b \<Longrightarrow>
      hello_step Z R P cid N W (hello_of cid N reply todo a) (hello_of cid N reply todo b)" for a b by (rule step_back)
qed

text \<open>What is true of every state, of the states where nothing more can happen, and of the runs.\<close>

lemma reachable:
  assumes "(hello_step Z R P cid N W)\<^sup>*\<^sup>* (hello_init todo) s"
  obtains a where "s = hello_of cid N reply todo a" "net_inv N W todo a"
  using token_refinement.reach_forth [OF refinement, of todo "net_init todo" s] assms net_inv_init
  unfolding hello_of_init by blast

lemma replies:
  assumes "(hello_step Z R P cid N W)\<^sup>*\<^sup>* (hello_init todo) s"
  shows "hn_fault s = None
    \<and> (\<forall>n k rs. hn_client s n = HcIdle k rs \<longrightarrow> k \<le> todo n \<and> rs = replicate (todo n - k) reply)
    \<and> (\<forall>n k rs. hn_client s n = HcWaiting k rs \<longrightarrow> k < todo n \<and> rs = replicate (todo n - Suc k) reply)"
proof -
  obtain a where a: "s = hello_of cid N reply todo a" "net_inv N W todo a" using reachable [OF assms] .
  have "(hello_thread (todo n) reply c = HcIdle k rs \<longrightarrow> k \<le> todo n \<and> rs = replicate (todo n - k) reply)
      \<and> (hello_thread (todo n) reply c = HcWaiting k rs \<longrightarrow> k < todo n \<and> rs = replicate (todo n - Suc k) reply)"
    if "net_left c \<le> todo n" for n c k rs
    using that by (cases c) auto
  from this [OF net_invD(5) [OF a(2)]] show ?thesis by (simp add: a(1))
qed

lemma served:
  assumes "(hello_step Z R P cid N W)\<^sup>*\<^sup>* (hello_init todo) s" and st: "stuck (hello_step Z R P cid N W) s" and W: "0 < W"
  shows "(\<forall>n < N. hn_client s n = HcIdle 0 (replicate (todo n) reply)) \<and> hn_fe_in s = (\<lambda>_. []) \<and> hn_fe_out s = (\<lambda>_. [])
    \<and> hn_be_in s = (\<lambda>_. []) \<and> hn_be_out s = (\<lambda>_. [])"
proof -
  obtain a where a: "s = hello_of cid N reply todo a" "net_inv N W todo a" using reachable [OF assms(1)] .
  have st: "stuck (net_step N W) a" using st token_refinement.stuck_iff [OF refinement a(2)] unfolding a(1) by simp
  have idle: "net_client a n = NIdle 0" if "n < N" for n using net_stuck [OF a(2) st W that] .
  then have "at_names cid N (hello_asked \<circ> net_client a) = (\<lambda>_. [])" "at_names cid N (hello_answered reply \<circ> net_client a) = (\<lambda>_. [])"
    using at_names_nil [of cid N] by (auto cong: at_cid_cong)
  with idle net_stuck_queues [OF a(2) st] show ?thesis by (simp add: a(1))
qed

lemma ends:
  assumes run: "((hello_step Z R P cid N W) ^^ i) (hello_init todo) s"
  shows "i \<le> 5 * (\<Sum>n < N. todo n) \<and> (\<exists>j t. ((hello_step Z R P cid N W) ^^ j) s t \<and> stuck (hello_step Z R P cid N W) t)"
proof -
  note ref = refinement [of todo]
  obtain a where a: "(net_step N W ^^ i) (net_init todo) a" "net_inv N W todo a" "s = hello_of cid N reply todo a"
    using token_refinement.run_forth [OF ref] run net_inv_init unfolding hello_of_init [of cid N reply, symmetric] by blast
  obtain b where b: "(net_step N W)\<^sup>*\<^sup>* a b" "stuck (net_step N W) b" using net.reaches_stuck [OF a(2)] by blast
  have "net_inv N W todo b" by (rule net.inv_steps [OF b(1) a(2)])
  then have "stuck (hello_step Z R P cid N W) (hello_of cid N reply todo b)"
    using b(2) token_refinement.stuck_iff [OF ref] by blast
  moreover obtain j where "((hello_step Z R P cid N W) ^^ j) s (hello_of cid N reply todo b)"
    using rtranclp_imp_relpowp [OF token_refinement.reach_back [OF ref b(1) a(2)]] unfolding a(3) by blast
  ultimately show ?thesis using net.run_bounded [OF a(1)] by blast
qed

end

subsection \<open>Both programs keep the contract\<close>

lemma rr_contract:
  assumes "zmq_contract Z" "rep_contract R" "inj_on cid {..<N}" "\<forall>n < N. cid n \<noteq> []"
  shows "hello_contract Z R rr_program ''World'' cid N"
proof unfold_locales
  show "hp_bridge rr_program fe be =
      Inr ((case fe of None \<Rightarrow> [] | Some m \<Rightarrow> [(Backend, parts_of m)]) @ (case be of None \<Rightarrow> [] | Some m \<Rightarrow> [(Frontend, parts_of m)]))"
    if "fe \<noteq> Some []" "be \<noteq> Some []" for fe be
    using that by (cases fe; cases be) (simp_all add: rr_program_def rrb_step_def forward_arrives)
  show "hp_worker rr_program (arrives [''Hello'']) () = Inr (Next (), [[(''World'', False)]])"
    by (simp add: rr_program_def rrworker_step_def)
qed (use assms in auto)

lemma mt_contract:
  assumes "zmq_contract Z" "rep_contract R" "inj_on cid {..<N}" "\<forall>n < N. cid n \<noteq> []" "proxy_contract X"
  shows "hello_contract Z R (mt_program X) (''World'' @ [NUL]) cid N"
proof unfold_locales
  show "hp_bridge (mt_program X) fe be =
      Inr ((case fe of None \<Rightarrow> [] | Some m \<Rightarrow> [(Backend, parts_of m)]) @ (case be of None \<Rightarrow> [] | Some m \<Rightarrow> [(Frontend, parts_of m)]))"
    for fe be
    using assms(5) by (cases fe; cases be) (simp_all add: mt_program_def mtserver_proxy_def proxy_contract_def)
  show "hp_worker (mt_program X) (arrives [''Hello'']) () = Inr (Next (), [[(''World'' @ [NUL], False)]])"
    by (simp add: mt_program_def mtserver_worker_step_def)
qed (use assms in auto)

lemma lbb_ids_ok: "inj_on lbb_id {..<N}" "\<forall>n < N. lbb_id n \<noteq> []"
proof -
  show "inj_on lbb_id {..<N}" by (simp add: inj_on_def)
  show "\<forall>n < N. lbb_id n \<noteq> []" by (auto simp: lbb_id_def pad_left_def)
qed

interpretation rr_std: hello_contract zmq_std rep_std rr_program "''World''" lbb_id N W for N W
  by (rule rr_contract [OF zmq_std_contract rep_std_contract lbb_ids_ok])

interpretation mt_std: hello_contract zmq_std rep_std "mt_program proxy_std" "''World'' @ [NUL]" lbb_id N W for N W
  by (rule mt_contract [OF zmq_std_contract rep_std_contract lbb_ids_ok proxy_std_contract])

text \<open>A client program that is given the replies has sent a Hello for each.\<close>

lemma hello_loop_replies:
  "hello_loop n (map (\<lambda>r. Part r False) (replicate n reply)) = Inr (replicate n [(''Hello'', False)], replicate n reply)"
  by (induction n) simp_all

subsection \<open>What the programs do\<close>

text \<open>
  C10: in every interleaving of any number of clients, the bridge and any number of workers, through the
  broker of \<open>extended-request-reply\<close> as through the proxy of the multithreaded server, no program
  fails and a client has got one World for each request it has sent but the last. When nothing more can
  happen, every client has sent all its requests and has all its replies, and no message is left in any
  socket.
\<close>

theorem hello_served:
  assumes env: "zmq_contract Z" "rep_contract R" and cids: "inj_on cid {..<N}" "\<forall>n < N. cid n \<noteq> []"
    and P: "P = rr_program \<and> reply = ''World'' \<or> (\<exists>X. proxy_contract X \<and> P = mt_program X) \<and> reply = ''World'' @ [NUL]"
    and r: "(hello_step Z R P cid N W)\<^sup>*\<^sup>* (hello_init todo) s"
  shows "hn_fault s = None
    \<and> (\<forall>n k rs. hn_client s n = HcIdle k rs \<longrightarrow> k \<le> todo n \<and> rs = replicate (todo n - k) reply)
    \<and> (\<forall>n k rs. hn_client s n = HcWaiting k rs \<longrightarrow> k < todo n \<and> rs = replicate (todo n - Suc k) reply)
    \<and> (stuck (hello_step Z R P cid N W) s \<and> 0 < W \<longrightarrow>
        (\<forall>n < N. \<exists>rs. hn_client s n = HcIdle 0 rs
          \<and> hello_loop (todo n) (map (\<lambda>r. Part r False) rs) = Inr (replicate (todo n) [(''Hello'', False)], rs))
        \<and> hn_fe_in s = (\<lambda>_. []) \<and> hn_fe_out s = (\<lambda>_. []) \<and> hn_be_in s = (\<lambda>_. []) \<and> hn_be_out s = (\<lambda>_. []))"
proof -
  have c: "hello_contract Z R P reply cid N"
    using P rr_contract [OF env cids] mt_contract [OF env cids] by blast
  note all = hello_contract.replies [OF c r]
  have "\<forall>n < N. \<exists>rs. hn_client s n = HcIdle 0 rs
      \<and> hello_loop (todo n) (map (\<lambda>r. Part r False) rs) = Inr (replicate (todo n) [(''Hello'', False)], rs)"
    if "stuck (hello_step Z R P cid N W) s" "0 < W"
    using hello_contract.served [OF c r that] hello_loop_replies by blast
  with all hello_contract.served [OF c r] show ?thesis by blast
qed

text \<open>
  However the programs are scheduled, a run has at most five steps for each request, and it can
  always be continued to the state where nothing more can happen.
\<close>

theorem hello_terminates:
  assumes env: "zmq_contract Z" "rep_contract R" and cids: "inj_on cid {..<N}" "\<forall>n < N. cid n \<noteq> []"
    and P: "P = rr_program \<or> (\<exists>X. proxy_contract X \<and> P = mt_program X)"
    and run: "((hello_step Z R P cid N W) ^^ i) (hello_init todo) s"
  shows "i \<le> 5 * (\<Sum>n < N. todo n) \<and> (\<exists>j t. ((hello_step Z R P cid N W) ^^ j) s t \<and> stuck (hello_step Z R P cid N W) t)"
proof -
  obtain reply where "hello_contract Z R P reply cid N"
    using P rr_contract [OF env cids] mt_contract [OF env cids] by blast
  from hello_contract.ends [OF this run] show ?thesis .
qed

theorem hello_terminates_witness:
  "\<exists>j t. ((hello_step zmq_std rep_std rr_program lbb_id 3 2) ^^ j) (hello_init (\<lambda>_. 10)) t
    \<and> stuck (hello_step zmq_std rep_std rr_program lbb_id 3 2) t"
  using hello_terminates [OF zmq_std_contract rep_std_contract lbb_ids_ok disjI1 [OF refl] relpowp_0_I] by blast

theorem hello_served_witness:
  "\<exists>t rs. (hello_step zmq_std rep_std (mt_program proxy_std) lbb_id 3 5)\<^sup>*\<^sup>* (hello_init (\<lambda>_. 10)) t
    \<and> hn_client t 2 = HcIdle 0 rs \<and> hello_loop 10 (map (\<lambda>r. Part r False) rs) = Inr (replicate 10 [(''Hello'', False)], rs)"
proof -
  let ?step = "hello_step zmq_std rep_std (mt_program proxy_std) lbb_id 3 5"
  obtain j t where "(?step ^^ j) (hello_init (\<lambda>_. 10)) t" "stuck ?step t"
    using mt_std.ends [OF relpowp_0_I] by blast
  then have t: "?step\<^sup>*\<^sup>* (hello_init (\<lambda>_. 10)) t" "stuck ?step t" using relpowp_imp_rtranclp by metis+
  from hello_served [OF zmq_std_contract rep_std_contract lbb_ids_ok disjI2 t(1)] proxy_std_contract t(2)
  have "\<forall>n < 3. \<exists>rs. hn_client t n = HcIdle 0 rs
      \<and> hello_loop 10 (map (\<lambda>r. Part r False) rs) = Inr (replicate 10 [(''Hello'', False)], rs)" by auto
  then have "\<exists>rs. hn_client t 2 = HcIdle 0 rs
      \<and> hello_loop 10 (map (\<lambda>r. Part r False) rs) = Inr (replicate 10 [(''Hello'', False)], rs)" by simp
  with t(1) show ?thesis by blast
qed

end
