(* ===== verification/AsyncNet.thy ===== *)
theory AsyncNet
  imports Diagnostics HelloNet
begin

text \<open>
  The asynchronous program as a system (\<open>async-client-server-pattern/asyncsrv.cpp\<close>): client threads
  that go on sending whatever they get back, the proxy of the server task, and worker threads that
  answer each request one to five times. Nothing here ends; the lemmas are an invariant of all
  interleavings, which counts the copies of every request.
\<close>

subsection \<open>Threads and sockets\<close>

text \<open>
  Of a client: the number of its last request, the messages it has received, and the lines it has
  printed. All threads print to one stream, whose number base is \<open>as_hex\<close>.
\<close>

record asys =
  as_nbr :: "nat \<Rightarrow> int"
  as_got :: "nat \<Rightarrow> msg list"
  as_lines :: "nat \<Rightarrow> string list"
  as_hex :: bool
  as_fe_in :: "frame \<Rightarrow> msg list"
  as_fe_out :: "frame \<Rightarrow> msg list"
  as_be_in :: "nat \<Rightarrow> msg list"
  as_be_out :: "nat \<Rightarrow> msg list"
  as_fault :: "fault option"

definition asys_init :: asys where
  "asys_init = \<lparr>as_nbr = (\<lambda>_. 0), as_got = (\<lambda>_. []), as_lines = (\<lambda>_. []), as_hex = False, as_fe_in = (\<lambda>_. []),
     as_fe_out = (\<lambda>_. []), as_be_in = (\<lambda>_. []), as_be_out = (\<lambda>_. []), as_fault = None\<rparr>"

text \<open>What the polls of one round find: each may find the next message, if there is one.\<close>

fun polls_take :: "msg list \<Rightarrow> bool list \<Rightarrow> msg option list \<times> msg list" where
  "polls_take q [] = ([], q)"
| "polls_take (m # q) (True # found) = (let (ps, rest) = polls_take q found in (Some m # ps, rest))"
| "polls_take q (_ # found) = (let (ps, rest) = polls_take q found in (None # ps, rest))"

definition taken_of :: "msg option list \<Rightarrow> msg list" where
  "taken_of ps = map the (filter (\<lambda>p. p \<noteq> None) ps)"

text \<open>
  The steps, with \<open>N\<close> clients of identities \<open>cid\<close> and \<open>W\<close> workers; the proxy passes messages
  on one at a time, to any worker, and back to the client that the first frame names.
\<close>

inductive asy_step :: "zmq_envelope \<Rightarrow> zmq_proxy \<Rightarrow> (nat \<Rightarrow> string) \<Rightarrow> nat \<Rightarrow> nat \<Rightarrow> asys \<Rightarrow> asys \<Rightarrow> bool" for Z X cid N W where
  asy_client: "n < N \<Longrightarrow> length found = 100 \<Longrightarrow> polls_take (as_fe_out s (cid n)) found = (ps, rest) \<Longrightarrow>
    asy_client_step (cid n) (map (map_option arrives) ps) (as_nbr s n, as_hex s) = Inr (c, os) \<Longrightarrow>
    asy_step Z X cid N W s (s\<lparr>as_nbr := (as_nbr s)(n := fst (ctl_state c)), as_got := (as_got s)(n := as_got s n @ taken_of ps),
      as_lines := (as_lines s)(n := as_lines s n @ concat (map fst os)), as_hex := snd (ctl_state c),
      as_fe_in := fold (\<lambda>(lines, qs). enqueue (cid n) (map fst qs)) os (as_fe_in s),
      as_fe_out := (as_fe_out s)(cid n := rest)\<rparr>)"
| asy_client_fails: "n < N \<Longrightarrow> length found = 100 \<Longrightarrow> polls_take (as_fe_out s (cid n)) found = (ps, rest) \<Longrightarrow>
    asy_client_step (cid n) (map (map_option arrives) ps) (as_nbr s n, as_hex s) = Inl e \<Longrightarrow>
    asy_step Z X cid N W s (s\<lparr>as_fault := Some e\<rparr>)"
| asy_forth: "takes (as_fe_in s) (Some (p, m)) fe \<Longrightarrow> w < W \<Longrightarrow>
    asy_step Z X cid N W s (s\<lparr>as_fe_in := fe, as_be_out := enqueue w (px_forth X (router_in Z p m)) (as_be_out s)\<rparr>)"
| asy_back: "takes (as_be_in s) (Some (w, m)) be \<Longrightarrow> router_out Z (px_back X m) = (p, m') \<Longrightarrow>
    asy_step Z X cid N W s (s\<lparr>as_fe_out := enqueue p m' (as_fe_out s), as_be_in := be\<rparr>)"
| asy_works: "w < W \<Longrightarrow> as_be_out s w = m # ms \<Longrightarrow> 1 \<le> r \<Longrightarrow> r \<le> 5 \<Longrightarrow> asy_worker_step (arrives m, r) () = Inr (c, os) \<Longrightarrow>
    asy_step Z X cid N W s (s\<lparr>as_be_in := fold (\<lambda>qs. enqueue w (map fst qs)) os (as_be_in s),
      as_be_out := (as_be_out s)(w := ms)\<rparr>)"
| asy_work_fails: "w < W \<Longrightarrow> as_be_out s w = m # ms \<Longrightarrow> asy_worker_step (arrives m, r) () = Inl e \<Longrightarrow>
    asy_step Z X cid N W s (s\<lparr>as_fault := Some e\<rparr>)"

subsection \<open>Requests and their dumps\<close>

definition request_text :: "nat \<Rightarrow> string" where
  "request_text j = ''request #'' @ nat_string j"

definition asy_dump :: "string \<Rightarrow> string \<Rightarrow> string" where
  "asy_dump ident d = ''asyncsrv: Client ('' @ ident @ ''): '' @ print_size False (length d) @ d"

lemma request_text_inj [simp]: "request_text i = request_text j \<longleftrightarrow> i = j"
  by (auto simp: request_text_def dest: nat_string_inj)

lemma is_text_request: "is_text (request_text j)"
proof -
  have "\<not> (schar c < 32 \<or> schar c > 127)" if "c \<in> set (nat_string j)" for c
  proof -
    from nat_string_digits [OF that] obtain d where d: "d < 10" "c = digit_char d" by blast
    with of_char_digit [OF d(1)] show ?thesis by (simp add: schar_def)
  qed
  then show ?thesis by (auto simp: is_text_def request_text_def schar_def)
qed

lemma asy_print_request: "asy_print ''Client'' ident (arrives [request_text j]) False = Inr ([asy_dump ident (request_text j)], False)"
  by (simp add: arrives_def asy_print_part_def is_text_request asy_dump_def Let_def)

lemma asy_polls_requests:
  "\<forall>m \<in> set (taken_of ps). \<exists>j. m = [request_text j] \<Longrightarrow>
    asy_polls ident (map (map_option arrives) ps) False = Inr (map (\<lambda>m. asy_dump ident (hd m)) (taken_of ps), False)"
proof (induction ps)
  case Nil
  then show ?case by (simp add: taken_of_def)
next
  case (Cons p ps)
  show ?case
  proof (cases p)
    case None
    with Cons show ?thesis by (simp add: taken_of_def)
  next
    case (Some m)
    with Cons.prems obtain j where "m = [request_text j]" by (auto simp: taken_of_def)
    with Cons Some asy_print_request [of ident j] show ?thesis by (simp add: taken_of_def)
  qed
qed

lemma polls_take_split: "polls_take q found = (ps, rest) \<Longrightarrow> q = taken_of ps @ rest \<and> length ps = length found"
proof (induction q found arbitrary: ps rest rule: polls_take.induct)
  case (1 q)
  then show ?case by (simp add: taken_of_def)
next
  case (2 m q found)
  then show ?case by (auto simp: taken_of_def split: prod.splits)
qed (auto simp: taken_of_def split: prod.splits)

lemma asy_request_text: "0 \<le> n \<Longrightarrow> asy_request n =
    (if n < 999999 then Inr (n + 1, [(request_text (nat (n + 1)), False)]) else Inl Undefined)"
proof -
  assume n: "0 \<le> n"
  then have "length (nat_string (nat (n + 1))) \<le> 6 \<longleftrightarrow> n < 999999"
    using nat_string_len [of "nat (n + 1)" 6] nat_string_len_ge [of 6 "nat (n + 1)"] by fastforce
  with n show ?thesis by (auto simp: asy_request_def request_text_def int_string_def Let_def)
qed

lemma asy_worker_echoes: "asy_worker_step (arrives [i, d], r) () = Inr (Next (), replicate r [(i, True), (d, False)])"
  by (simp add: asy_worker_step_def)

subsection \<open>Counting copies\<close>

text \<open>
  The copies of request \<open>j\<close> of client \<open>n\<close>, wherever they are; one that no worker has answered yet
  weighs \<open>k\<close>.
\<close>

definition at_worker :: "nat \<Rightarrow> (nat \<Rightarrow> string) \<Rightarrow> asys \<Rightarrow> nat \<Rightarrow> nat \<Rightarrow> nat \<Rightarrow> nat" where
  "at_worker k cid s n j w = k * count_list (as_be_out s w) [cid n, request_text j] + count_list (as_be_in s w) [cid n, request_text j]"

definition at_client :: "nat \<Rightarrow> (nat \<Rightarrow> string) \<Rightarrow> asys \<Rightarrow> nat \<Rightarrow> nat \<Rightarrow> nat" where
  "at_client k cid s n j = k * count_list (as_fe_in s (cid n)) [request_text j] + count_list (as_fe_out s (cid n)) [request_text j]
     + count_list (as_got s n) [request_text j]"

definition copies :: "nat \<Rightarrow> (nat \<Rightarrow> string) \<Rightarrow> nat \<Rightarrow> asys \<Rightarrow> nat \<Rightarrow> nat \<Rightarrow> nat" where
  "copies k cid W s n j = at_client k cid s n j + (\<Sum>w < W. at_worker k cid s n j w)"

lemma copies_diff:
  assumes "w < W" and "\<And>v. v \<noteq> w \<Longrightarrow> as_be_out t v = as_be_out s v \<and> as_be_in t v = as_be_in s v"
  shows "copies k cid W t n j + at_client k cid s n j + at_worker k cid s n j w =
    copies k cid W s n j + at_client k cid t n j + at_worker k cid t n j w"
proof -
  have "at_worker k cid t n j = (at_worker k cid s n j)(w := at_worker k cid t n j w)"
    using assms(2) by (auto simp: at_worker_def)
  then have "(\<Sum>v < W. at_worker k cid t n j v) = (\<Sum>v < W. ((at_worker k cid s n j)(w := at_worker k cid t n j w)) v)"
    by simp
  with sum_upd [OF assms(1), where f = "\<lambda>x. x" and g = "at_worker k cid s n j" and x = "at_worker k cid t n j w"]
  show ?thesis by (simp add: copies_def)
qed

lemma copies_same:
  assumes "as_be_out t = as_be_out s" and "as_be_in t = as_be_in s"
  shows "copies k cid W t n j + at_client k cid s n j = copies k cid W s n j + at_client k cid t n j"
  using assms by (simp add: copies_def at_worker_def)

lemma copies_mono: "copies 1 cid W s n j \<le> copies 5 cid W s n j"
proof -
  have "(\<Sum>w < W. at_worker 1 cid s n j w) \<le> (\<Sum>w < W. at_worker 5 cid s n j w)"
    by (rule sum_mono) (simp add: at_worker_def)
  then show ?thesis by (simp add: copies_def at_client_def)
qed

text \<open>What is in the sockets, and how often.\<close>

definition asy_shape :: "(nat \<Rightarrow> string) \<Rightarrow> nat \<Rightarrow> nat \<Rightarrow> asys \<Rightarrow> bool" where
  "asy_shape cid N W s \<longleftrightarrow> (\<forall>p. \<forall>m \<in> set (as_fe_in s p) \<union> set (as_fe_out s p). \<exists>n < N. \<exists>j. p = cid n \<and> m = [request_text j])
     \<and> (\<forall>w. \<forall>m \<in> set (as_be_in s w) \<union> set (as_be_out s w). \<exists>n < N. \<exists>j. w < W \<and> m = [cid n, request_text j])
     \<and> (\<forall>n. \<forall>m \<in> set (as_got s n). \<exists>j. m = [request_text j])
     \<and> (\<forall>n. as_lines s n = map (\<lambda>m. asy_dump (cid n) (hd m)) (as_got s n))
     \<and> (\<forall>n. 0 \<le> as_nbr s n) \<and> \<not> as_hex s"

definition asy_balance :: "(nat \<Rightarrow> string) \<Rightarrow> nat \<Rightarrow> nat \<Rightarrow> asys \<Rightarrow> bool" where
  "asy_balance cid N W s \<longleftrightarrow> (\<forall>n < N. \<forall>j. if 1 \<le> j \<and> int j \<le> as_nbr s n
     then 1 \<le> copies 1 cid W s n j \<and> copies 5 cid W s n j \<le> 5 else copies 5 cid W s n j = 0)"

definition asy_faults :: "nat \<Rightarrow> asys \<Rightarrow> bool" where
  "asy_faults N s \<longleftrightarrow> as_fault s = None \<or> as_fault s = Some Undefined \<and> (\<exists>n < N. 999999 \<le> as_nbr s n)"

lemma asy_shapeD:
  assumes "asy_shape cid N W s"
  shows "m \<in> set (as_fe_in s p) \<or> m \<in> set (as_fe_out s p) \<Longrightarrow> \<exists>n < N. \<exists>j. p = cid n \<and> m = [request_text j]"
    "m \<in> set (as_be_in s w) \<or> m \<in> set (as_be_out s w) \<Longrightarrow> \<exists>n < N. \<exists>j. w < W \<and> m = [cid n, request_text j]"
    "m \<in> set (as_got s n) \<Longrightarrow> \<exists>j. m = [request_text j]"
    "as_lines s n = map (\<lambda>m. asy_dump (cid n) (hd m)) (as_got s n)" "0 \<le> as_nbr s n" "\<not> as_hex s"
  using assms unfolding asy_shape_def by blast+

locale asy_contract =
  fixes Z :: zmq_envelope and X :: zmq_proxy and cid :: "nat \<Rightarrow> string" and N W :: nat
  assumes zmq: "zmq_contract Z" and proxy: "proxy_contract X" and cid_inj: "inj_on cid {..<N}"
begin

lemma cid_iff: "n < N \<Longrightarrow> i < N \<Longrightarrow> cid n = cid i \<longleftrightarrow> n = i"
  using cid_inj by (auto dest: inj_onD)

lemma passes: "px_forth X m = m" "px_back X m = m"
  using proxy by (simp_all add: proxy_contract_def)

text \<open>A round of a client: it prints what it takes, and sends its next request.\<close>

lemma client_round:
  assumes sh: "asy_shape cid N W s" and n: "n < N" and found: "length found = 100"
    and take: "polls_take (as_fe_out s (cid n)) found = (ps, rest)"
  shows "asy_client_step (cid n) (map (map_option arrives) ps) (as_nbr s n, as_hex s) =
    (if as_nbr s n < 999999 then Inr (Next (as_nbr s n + 1, False),
       [(map (\<lambda>m. asy_dump (cid n) (hd m)) (taken_of ps), [(request_text (nat (as_nbr s n + 1)), False)])]) else Inl Undefined)"
proof -
  have split: "as_fe_out s (cid n) = taken_of ps @ rest" "length ps = 100"
    using polls_take_split [OF take] found by simp_all
  have texts: "\<forall>m \<in> set (taken_of ps). \<exists>j. m = [request_text j]"
    using asy_shapeD(1) [OF sh, of _ "cid n"] split(1) by fastforce
  have polls: "asy_polls (cid n) (take 100 (map (map_option arrives) ps)) (as_hex s) =
      Inr (map (\<lambda>m. asy_dump (cid n) (hd m)) (taken_of ps), False)"
    using asy_polls_requests [OF texts, of "cid n"] asy_shapeD(6) [OF sh] split(2) by simp
  then show ?thesis
    by (simp add: asy_client_step_def asy_request_text [OF asy_shapeD(5) [OF sh, of n]])
qed

text \<open>The state after each kind of step.\<close>

definition after_round :: "nat \<Rightarrow> msg list \<Rightarrow> msg list \<Rightarrow> asys \<Rightarrow> asys" where
  "after_round n taken rest s = s\<lparr>as_nbr := (as_nbr s)(n := as_nbr s n + 1), as_got := (as_got s)(n := as_got s n @ taken),
     as_lines := (as_lines s)(n := as_lines s n @ map (\<lambda>m. asy_dump (cid n) (hd m)) taken), as_hex := False,
     as_fe_in := enqueue (cid n) [request_text (nat (as_nbr s n + 1))] (as_fe_in s),
     as_fe_out := (as_fe_out s)(cid n := rest)\<rparr>"

definition after_forth :: "nat \<Rightarrow> nat \<Rightarrow> nat \<Rightarrow> msg list \<Rightarrow> asys \<Rightarrow> asys" where
  "after_forth n j w ms s = s\<lparr>as_fe_in := (as_fe_in s)(cid n := ms),
     as_be_out := enqueue w [cid n, request_text j] (as_be_out s)\<rparr>"

definition after_back :: "nat \<Rightarrow> nat \<Rightarrow> nat \<Rightarrow> msg list \<Rightarrow> asys \<Rightarrow> asys" where
  "after_back n j w ms s = s\<lparr>as_fe_out := enqueue (cid n) [request_text j] (as_fe_out s), as_be_in := (as_be_in s)(w := ms)\<rparr>"

definition after_work :: "nat \<Rightarrow> nat \<Rightarrow> nat \<Rightarrow> nat \<Rightarrow> msg list \<Rightarrow> asys \<Rightarrow> asys" where
  "after_work n j w r ms s = s\<lparr>as_be_in := (as_be_in s)(w := as_be_in s w @ replicate r [cid n, request_text j]),
     as_be_out := (as_be_out s)(w := ms)\<rparr>"

lemma enqueue_times: "(enqueue w m ^^ r) Q = Q(w := Q w @ replicate r m)"
proof (induction r)
  case (Suc r)
  have "enqueue w m (Q(w := Q w @ replicate r m)) = Q(w := Q w @ replicate (Suc r) m)"
    by (simp add: enqueue_def replicate_append_same)
  then show ?case by (simp only: funpow.simps comp_apply Suc.IH)
qed simp

lemma round_step:
  assumes "asy_shape cid N W s" and "n < N" and "length found = 100"
    and "polls_take (as_fe_out s (cid n)) found = (ps, rest)" and "as_nbr s n < 999999"
  shows "asy_step Z X cid N W s (after_round n (taken_of ps) rest s)"
proof -
  note r = client_round [OF assms(1,2,3,4)]
  have "asy_client_step (cid n) (map (map_option arrives) ps) (as_nbr s n, as_hex s) = Inr (Next (as_nbr s n + 1, False),
      [(map (\<lambda>m. asy_dump (cid n) (hd m)) (taken_of ps), [(request_text (nat (as_nbr s n + 1)), False)])])"
    using r assms(5) by simp
  from asy_client [where Z = Z and X = X and W = W and cid = cid and s = s, OF assms(2,3,4) this]
  show ?thesis by (simp add: after_round_def)
qed

text \<open>There are no other steps.\<close>

lemma step_kinds:
  assumes sh: "asy_shape cid N W s" and step: "asy_step Z X cid N W s t"
  shows "(\<exists>n taken rest. n < N \<and> as_fe_out s (cid n) = taken @ rest \<and> t = after_round n taken rest s)
    \<or> (\<exists>n j w ms. n < N \<and> w < W \<and> as_fe_in s (cid n) = [request_text j] # ms \<and> t = after_forth n j w ms s)
    \<or> (\<exists>n j w ms. n < N \<and> w < W \<and> as_be_in s w = [cid n, request_text j] # ms \<and> t = after_back n j w ms s)
    \<or> (\<exists>n j w r ms. n < N \<and> w < W \<and> 1 \<le> r \<and> r \<le> 5 \<and> as_be_out s w = [cid n, request_text j] # ms \<and> t = after_work n j w r ms s)
    \<or> (\<exists>n < N. 999999 \<le> as_nbr s n) \<and> t = s\<lparr>as_fault := Some Undefined\<rparr>"
  (is "?round \<or> ?forth \<or> ?returned \<or> ?work \<or> ?fault")
  using step
proof cases
  case (asy_client n found ps rest c os)
  note r = client_round [OF sh asy_client(2,3,4)]
  have "as_nbr s n < 999999" using asy_client(5) r by (simp split: if_splits)
  with asy_client(5) r have "c = Next (as_nbr s n + 1, False)"
    "os = [(map (\<lambda>m. asy_dump (cid n) (hd m)) (taken_of ps), [(request_text (nat (as_nbr s n + 1)), False)])]" by simp_all
  with asy_client(1) have "t = after_round n (taken_of ps) rest s" by (simp add: after_round_def)
  with asy_client(2) polls_take_split [OF asy_client(4)] have ?round by blast
  then show ?thesis by blast
next
  case (asy_client_fails n found ps rest e)
  note r = client_round [OF sh asy_client_fails(2,3,4)]
  with asy_client_fails(5) have "999999 \<le> as_nbr s n" "e = Undefined" by (auto split: if_splits)
  with asy_client_fails(1,2) have ?fault by blast
  then show ?thesis by blast
next
  case (asy_forth p m fe w)
  then obtain ms where ms: "as_fe_in s p = m # ms" "fe = (as_fe_in s)(p := ms)" unfolding takes_Some by blast
  then have "m \<in> set (as_fe_in s p)" by simp
  then obtain n j where n: "n < N" "p = cid n" "m = [request_text j]" using asy_shapeD(1) [OF sh, of m p] by blast
  then have "t = after_forth n j w ms s" using asy_forth(1) ms(2)
    by (simp add: after_forth_def passes zmq_contractD [OF zmq] del: fun_upd_apply)
  with n ms(1) asy_forth(3) have ?forth by blast
  then show ?thesis by blast
next
  case (asy_back w m be p m')
  then obtain ms where ms: "as_be_in s w = m # ms" "be = (as_be_in s)(w := ms)" unfolding takes_Some by blast
  then have "m \<in> set (as_be_in s w)" by simp
  then obtain n j where n: "n < N" "w < W" "m = [cid n, request_text j]" using asy_shapeD(2) [OF sh, of m w] by blast
  then have "p = cid n" "m' = [request_text j]" using asy_back(3) by (simp_all add: passes zmq_contractD [OF zmq])
  then have "t = after_back n j w ms s" using asy_back(1) ms(2) by (simp add: after_back_def del: fun_upd_apply)
  with n ms(1) have ?returned by blast
  then show ?thesis by blast
next
  case (asy_works w m ms r c os)
  then have "m \<in> set (as_be_out s w)" by simp
  then obtain n j where n: "n < N" "m = [cid n, request_text j]" using asy_shapeD(2) [OF sh, of m w] by blast
  then have "os = replicate r [(cid n, True), (request_text j, False)]" using asy_works(6) by (simp add: asy_worker_echoes)
  then have "t = after_work n j w r ms s" using asy_works(1)
    by (simp add: after_work_def enqueue_times del: fun_upd_apply)
  with n asy_works(2,3,4,5) have ?work by blast
  then show ?thesis by blast
next
  case (asy_work_fails w m ms r e)
  then have "m \<in> set (as_be_out s w)" by simp
  then obtain n j where "m = [cid n, request_text j]" using asy_shapeD(2) [OF sh, of m w] by blast
  with asy_work_fails(4) show ?thesis by (simp add: asy_worker_echoes)
qed

text \<open>Each step keeps the shapes.\<close>

lemma shape_round:
  assumes sh: "asy_shape cid N W s" and n: "n < N" and f: "as_fe_out s (cid n) = taken @ rest"
  shows "asy_shape cid N W (after_round n taken rest s)"
proof -
  have new: "\<exists>n < N. \<exists>j. p = cid n \<and> m = [request_text j]"
    if "m \<in> set (as_fe_in (after_round n taken rest s) p) \<union> set (as_fe_out (after_round n taken rest s) p)" for m p
    using that asy_shapeD(1) [OF sh, of m p] n f by (auto simp: after_round_def enqueue_def split: if_splits)
  have got: "\<exists>j. m = [request_text j]" if "m \<in> set (as_got (after_round n taken rest s) i)" for m i
  proof -
    from that have "m \<in> set (as_got s i) \<or> m \<in> set (as_fe_out s (cid n))"
      by (auto simp: after_round_def f split: if_splits)
    then show ?thesis using asy_shapeD(1) [OF sh, of m "cid n"] asy_shapeD(3) [OF sh, of m i] by blast
  qed
  have rest: "as_be_in (after_round n taken rest s) = as_be_in s" "as_be_out (after_round n taken rest s) = as_be_out s"
    "\<not> as_hex (after_round n taken rest s)" "0 \<le> as_nbr (after_round n taken rest s) i"
    "as_lines (after_round n taken rest s) i = map (\<lambda>m. asy_dump (cid i) (hd m)) (as_got (after_round n taken rest s) i)" for i
    using asy_shapeD(4,5) [OF sh, of i] asy_shapeD(4,5) [OF sh, of n] by (simp_all add: after_round_def)
  show ?thesis
    unfolding asy_shape_def using new got rest asy_shapeD(2) [OF sh] by (intro conjI allI ballI) auto
qed

lemma shape_forth:
  assumes sh: "asy_shape cid N W s" and n: "n < N" "w < W" "as_fe_in s (cid n) = [request_text j] # ms"
  shows "asy_shape cid N W (after_forth n j w ms s)"
proof -
  have "\<exists>n < N. \<exists>j. p = cid n \<and> m = [request_text j]"
    if "m \<in> set (as_fe_in (after_forth n j w ms s) p) \<union> set (as_fe_out (after_forth n j w ms s) p)" for m p
    using that asy_shapeD(1) [OF sh, of m p] n(3) by (auto simp: after_forth_def split: if_splits)
  moreover have "\<exists>n < N. \<exists>j. v < W \<and> m = [cid n, request_text j]"
    if "m \<in> set (as_be_in (after_forth n j w ms s) v) \<union> set (as_be_out (after_forth n j w ms s) v)" for m v
    using that asy_shapeD(2) [OF sh, of m v] n by (auto simp: after_forth_def enqueue_def split: if_splits)
  ultimately show ?thesis
    unfolding asy_shape_def using asy_shapeD(3,4,5,6) [OF sh] by (intro conjI allI ballI) (auto simp: after_forth_def)
qed

lemma shape_back:
  assumes sh: "asy_shape cid N W s" and n: "n < N" "as_be_in s w = [cid n, request_text j] # ms"
  shows "asy_shape cid N W (after_back n j w ms s)"
proof -
  have "\<exists>n < N. \<exists>j. p = cid n \<and> m = [request_text j]"
    if "m \<in> set (as_fe_in (after_back n j w ms s) p) \<union> set (as_fe_out (after_back n j w ms s) p)" for m p
    using that asy_shapeD(1) [OF sh, of m p] n(1) by (auto simp: after_back_def enqueue_def split: if_splits)
  moreover have "\<exists>n < N. \<exists>j. v < W \<and> m = [cid n, request_text j]"
    if "m \<in> set (as_be_in (after_back n j w ms s) v) \<union> set (as_be_out (after_back n j w ms s) v)" for m v
    using that asy_shapeD(2) [OF sh, of m v] n by (auto simp: after_back_def split: if_splits)
  ultimately show ?thesis
    unfolding asy_shape_def using asy_shapeD(3,4,5,6) [OF sh] by (intro conjI allI ballI) (auto simp: after_back_def)
qed

lemma shape_work:
  assumes sh: "asy_shape cid N W s" and n: "n < N" "w < W" "as_be_out s w = [cid n, request_text j] # ms"
  shows "asy_shape cid N W (after_work n j w r ms s)"
proof -
  have "\<exists>n < N. \<exists>j. v < W \<and> m = [cid n, request_text j]"
    if "m \<in> set (as_be_in (after_work n j w r ms s) v) \<union> set (as_be_out (after_work n j w r ms s) v)" for m v
    using that asy_shapeD(2) [OF sh, of m v] n by (auto simp: after_work_def split: if_splits)
  then show ?thesis
    unfolding asy_shape_def using asy_shapeD(1,3,4,5,6) [OF sh] by (intro conjI allI ballI) (auto simp: after_work_def)
qed

text \<open>What the steps do to the number of copies.\<close>

lemma copies_round:
  assumes n: "n < N" "i < N" and f: "as_fe_out s (cid n) = taken @ rest"
  shows "copies k cid W (after_round n taken rest s) i j =
    copies k cid W s i j + (if i = n \<and> j = nat (as_nbr s n + 1) then k else 0)"
  using copies_same [of "after_round n taken rest s" s k cid W i j] f cid_iff [OF n(2,1)]
  by (auto simp: after_round_def at_client_def enqueue_def)

lemma copies_forth:
  assumes n: "n < N" "i < N" "w < W" and f: "as_fe_in s (cid n) = [request_text j] # ms"
  shows "copies k cid W (after_forth n j w ms s) i l = copies k cid W s i l"
  using copies_diff [OF n(3), of "after_forth n j w ms s" s k cid i l] f cid_iff [OF n(2,1)]
  by (cases "i = n"; cases "l = j") (simp_all add: algebra_simps after_forth_def at_client_def at_worker_def enqueue_def)

lemma copies_back:
  assumes n: "n < N" "i < N" "w < W" and f: "as_be_in s w = [cid n, request_text j] # ms"
  shows "copies k cid W (after_back n j w ms s) i l = copies k cid W s i l"
  using copies_diff [OF n(3), of "after_back n j w ms s" s k cid i l] f cid_iff [OF n(2,1)]
  by (cases "i = n"; cases "l = j") (simp_all add: algebra_simps after_back_def at_client_def at_worker_def enqueue_def)

lemma copies_work:
  assumes n: "n < N" "i < N" "w < W" and f: "as_be_out s w = [cid n, request_text j] # ms"
  shows "copies k cid W (after_work n j w r ms s) i l + (if i = n \<and> l = j then k else 0) =
    copies k cid W s i l + (if i = n \<and> l = j then r else 0)"
  using copies_diff [OF n(3), of "after_work n j w r ms s" s k cid i l] f cid_iff [OF n(2,1)]
  by (cases "i = n"; cases "l = j") (simp_all add: algebra_simps count_list_replicate after_work_def at_client_def at_worker_def)

definition asy_inv :: "asys \<Rightarrow> bool" where
  "asy_inv s \<longleftrightarrow> asy_shape cid N W s \<and> asy_balance cid N W s \<and> asy_faults N s"

lemma balanceD:
  assumes "asy_balance cid N W s" and "n < N"
  shows "1 \<le> j \<and> int j \<le> as_nbr s n \<Longrightarrow> 1 \<le> copies 1 cid W s n j \<and> copies 5 cid W s n j \<le> 5"
    "\<not> (1 \<le> j \<and> int j \<le> as_nbr s n) \<Longrightarrow> copies 5 cid W s n j = 0 \<and> copies 1 cid W s n j = 0"
  using assms copies_mono [of cid W s n j] unfolding asy_balance_def by (auto split: if_splits)

lemma balance_same:
  assumes b: "asy_balance cid N W s" and nbr: "as_nbr t = as_nbr s"
    and c: "\<And>n j. n < N \<Longrightarrow> copies 5 cid W t n j \<le> copies 5 cid W s n j \<and> copies 1 cid W s n j \<le> copies 1 cid W t n j"
  shows "asy_balance cid N W t"
  unfolding asy_balance_def
proof (intro allI impI)
  fix n j
  assume n: "n < N"
  show "if 1 \<le> j \<and> int j \<le> as_nbr t n then 1 \<le> copies 1 cid W t n j \<and> copies 5 cid W t n j \<le> 5 else copies 5 cid W t n j = 0"
    using balanceD [OF b n, of j] c [OF n, of j] nbr by auto
qed

lemma balance_round:
  assumes b: "asy_balance cid N W s" and n: "n < N" and f: "as_fe_out s (cid n) = taken @ rest" and pos: "0 \<le> as_nbr s n"
  shows "asy_balance cid N W (after_round n taken rest s)"
  unfolding asy_balance_def
proof (intro allI impI)
  fix i j
  assume i: "i < N"
  let ?t = "after_round n taken rest s"
  have nbr: "as_nbr ?t = (as_nbr s)(n := as_nbr s n + 1)" by (simp add: after_round_def)
  show "if 1 \<le> j \<and> int j \<le> as_nbr ?t i then 1 \<le> copies 1 cid W ?t i j \<and> copies 5 cid W ?t i j \<le> 5 else copies 5 cid W ?t i j = 0"
  proof (cases "i = n \<and> j = nat (as_nbr s n + 1)")
    case True
    then have "\<not> (1 \<le> j \<and> int j \<le> as_nbr s i)" using pos by simp
    from balanceD(2) [OF b i this] True show ?thesis using pos by (simp add: copies_round [OF n n f] nbr)
  next
    case False
    then have "int j \<le> as_nbr ?t i \<longleftrightarrow> int j \<le> as_nbr s i" using pos by (auto simp: nbr)
    with balanceD [OF b i, of j] show ?thesis using False by (auto simp: copies_round [OF n i f])
  qed
qed

lemma balance_work:
  assumes b: "asy_balance cid N W s" and n: "n < N" "w < W" and r: "1 \<le> r" "r \<le> 5"
    and f: "as_be_out s w = [cid n, request_text j] # ms"
  shows "asy_balance cid N W (after_work n j w r ms s)"
proof (rule balance_same [OF b])
  show "as_nbr (after_work n j w r ms s) = as_nbr s" by (simp add: after_work_def)
  show "copies 5 cid W (after_work n j w r ms s) i l \<le> copies 5 cid W s i l
      \<and> copies 1 cid W s i l \<le> copies 1 cid W (after_work n j w r ms s) i l" if i: "i < N" for i l
    using copies_work [OF n(1) i n(2) f, of 5 r l] copies_work [OF n(1) i n(2) f, of 1 r l] r by (auto split: if_splits)
qed

lemma inv_step: "asy_inv s \<Longrightarrow> asy_step Z X cid N W s t \<Longrightarrow> asy_inv t"
proof -
  assume inv: "asy_inv s" and step: "asy_step Z X cid N W s t"
  then have sh: "asy_shape cid N W s" and b: "asy_balance cid N W s" and fl: "asy_faults N s" by (simp_all add: asy_inv_def)
  from step_kinds [OF sh step] show "asy_inv t"
  proof (elim disjE exE conjE)
    fix n taken rest
    assume 1: "n < N" "as_fe_out s (cid n) = taken @ rest" "t = after_round n taken rest s"
    have "asy_faults N t" using fl by (auto simp: 1(3) asy_faults_def after_round_def)
    with shape_round [OF sh 1(1,2)] balance_round [OF b 1(1,2) asy_shapeD(5) [OF sh]] show ?thesis
      by (simp add: asy_inv_def 1(3))
  next
    fix n j w ms
    assume 2: "n < N" "w < W" "as_fe_in s (cid n) = [request_text j] # ms" "t = after_forth n j w ms s"
    have "asy_balance cid N W t"
      by (rule balance_same [OF b]) (simp_all add: 2(4) copies_forth [OF 2(1) _ 2(2,3)], simp add: after_forth_def)
    moreover have "asy_faults N t" using fl by (simp add: 2(4) asy_faults_def after_forth_def)
    ultimately show ?thesis using shape_forth [OF sh 2(1,2,3)] by (simp add: asy_inv_def 2(4))
  next
    fix n j w ms
    assume 3: "n < N" "w < W" "as_be_in s w = [cid n, request_text j] # ms" "t = after_back n j w ms s"
    have "asy_balance cid N W t"
      by (rule balance_same [OF b]) (simp_all add: 3(4) copies_back [OF 3(1) _ 3(2,3)], simp add: after_back_def)
    moreover have "asy_faults N t" using fl by (simp add: 3(4) asy_faults_def after_back_def)
    ultimately show ?thesis using shape_back [OF sh 3(1,3)] by (simp add: asy_inv_def 3(4))
  next
    fix n j w r ms
    assume 4: "n < N" "w < W" "1 \<le> r" "r \<le> 5" "as_be_out s w = [cid n, request_text j] # ms" "t = after_work n j w r ms s"
    have "asy_faults N t" using fl by (simp add: 4(6) asy_faults_def after_work_def)
    with shape_work [OF sh 4(1,2,5)] balance_work [OF b 4(1,2,3,4,5)] show ?thesis by (simp add: asy_inv_def 4(6))
  next
    fix n
    assume 5: "t = s\<lparr>as_fault := Some Undefined\<rparr>" "n < N" "999999 \<le> as_nbr s n"
    from 5 have "asy_faults N t" by (auto simp: asy_faults_def)
    moreover have "asy_shape cid N W t" using sh unfolding asy_shape_def by (simp add: 5(1))
    moreover have "asy_balance cid N W t"
      by (rule balance_same [OF b]) (simp_all add: 5(1) copies_def at_client_def at_worker_def)
    ultimately show ?thesis by (simp add: asy_inv_def)
  qed
qed

lemma inv_init: "asy_inv asys_init"
  by (simp add: asy_inv_def asys_init_def asy_shape_def asy_balance_def asy_faults_def copies_def at_client_def at_worker_def)

lemma system: "invariant_system asys_init (asy_step Z X cid N W) asy_inv"
  by unfold_locales (use inv_init inv_step in auto)

text \<open>What the invariant says of what a client has got.\<close>

lemma got_bounds:
  assumes r: "(asy_step Z X cid N W)\<^sup>*\<^sup>* asys_init s" and n: "n < N"
  shows "as_lines s n = map (\<lambda>m. asy_dump (cid n) (hd m)) (as_got s n)"
    "m \<in> set (as_got s n) \<Longrightarrow> \<exists>j. 1 \<le> j \<and> int j \<le> as_nbr s n \<and> m = [request_text j]"
    "count_list (as_got s n) [request_text j] \<le> 5"
    "(\<forall>p. as_fe_in s p = [] \<and> as_fe_out s p = []) \<Longrightarrow> (\<forall>w. as_be_in s w = [] \<and> as_be_out s w = []) \<Longrightarrow>
      1 \<le> j \<Longrightarrow> int j \<le> as_nbr s n \<Longrightarrow> 1 \<le> count_list (as_got s n) [request_text j]"
proof -
  have inv: "asy_inv s" by (rule invariant_system.inv_reachable [OF system r])
  then have sh: "asy_shape cid N W s" and b: "asy_balance cid N W s" by (simp_all add: asy_inv_def)
  show "as_lines s n = map (\<lambda>m. asy_dump (cid n) (hd m)) (as_got s n)" by (rule asy_shapeD(4) [OF sh])
  have got: "count_list (as_got s n) [request_text j] \<le> copies 5 cid W s n j" for j
    by (simp add: copies_def at_client_def)
  have le: "copies 5 cid W s n j \<le> 5" for j
    using balanceD [OF b n, of j] by (cases "1 \<le> j \<and> int j \<le> as_nbr s n") simp_all
  show "count_list (as_got s n) [request_text j] \<le> 5" by (rule order_trans [OF got le])
  show "\<exists>j. 1 \<le> j \<and> int j \<le> as_nbr s n \<and> m = [request_text j]" if m: "m \<in> set (as_got s n)"
  proof -
    obtain j where j: "m = [request_text j]" using asy_shapeD(3) [OF sh m] by blast
    have "1 \<le> copies 5 cid W s n j" using count_list_pos [OF m] got [of j] unfolding j by simp
    then show ?thesis using balanceD(2) [OF b n, of j] j by force
  qed
  show "1 \<le> count_list (as_got s n) [request_text j]"
    if "\<forall>p. as_fe_in s p = [] \<and> as_fe_out s p = []" "\<forall>w. as_be_in s w = [] \<and> as_be_out s w = []"
      "1 \<le> j" "int j \<le> as_nbr s n"
    using balanceD(1) [OF b n, of j] that by (simp add: copies_def at_client_def at_worker_def)
qed

end

lemma asy_std_contract: "asy_contract zmq_std proxy_std lbb_id N"
  by unfold_locales (simp_all add: proxy_std_contract lbb_ids_ok)

interpretation asy_std: asy_contract zmq_std proxy_std lbb_id N W for N W
  by (rule asy_std_contract)

subsection \<open>What the program does\<close>

text \<open>
  C11: in every interleaving of clients, proxy and workers, a client gets back and prints only its own
  requests, unchanged, and none of them more than five times; whenever no message is under way, each
  request it has sent has come back at least once. No thread fails before some client has sent request
  999999.
\<close>

theorem asyncsrv_answers:
  assumes "zmq_contract Z" and "proxy_contract X" and "inj_on cid {..<N}"
    and r: "(asy_step Z X cid N W)\<^sup>*\<^sup>* asys_init s"
  shows "(as_fault s = None \<or> as_fault s = Some Undefined \<and> (\<exists>n < N. 999999 \<le> as_nbr s n))
    \<and> (\<forall>n < N. as_lines s n = map (\<lambda>m. asy_dump (cid n) (hd m)) (as_got s n)
      \<and> (\<forall>m \<in> set (as_got s n). \<exists>j. 1 \<le> j \<and> int j \<le> as_nbr s n \<and> m = [request_text j])
      \<and> (\<forall>j. count_list (as_got s n) [request_text j] \<le> 5)
      \<and> ((\<forall>p. as_fe_in s p = [] \<and> as_fe_out s p = []) \<and> (\<forall>w. as_be_in s w = [] \<and> as_be_out s w = []) \<longrightarrow>
          (\<forall>j. 1 \<le> j \<and> int j \<le> as_nbr s n \<longrightarrow> 1 \<le> count_list (as_got s n) [request_text j])))"
proof -
  have c: "asy_contract Z X cid N" using assms(1,2,3) by (simp add: asy_contract_def)
  have "asy_faults N s"
    using invariant_system.inv_reachable [OF asy_contract.system [OF c] r] by (simp add: asy_contract.asy_inv_def [OF c])
  with asy_contract.got_bounds [OF c r] show ?thesis unfolding asy_faults_def by blast
qed

lemma polls_take_none: "polls_take q (replicate k False) = (replicate k None, q)"
  by (induction k) (cases q; simp)+

theorem asyncsrv_answers_witness:
  "\<exists>s. (asy_step zmq_std proxy_std lbb_id 3 5)\<^sup>*\<^sup>* asys_init s \<and> as_nbr s 0 = 1 \<and> as_fe_in s (lbb_id 0) = [[request_text 1]]
    \<and> as_lines s 0 = map (\<lambda>m. asy_dump (lbb_id 0) (hd m)) (as_got s 0)"
proof -
  let ?s = "asy_std.after_round 0 [] [] asys_init"
  have p: "polls_take (as_fe_out asys_init (lbb_id 0)) (replicate 100 False) = (replicate 100 None, [])"
    by (simp add: polls_take_none asys_init_def)
  have sh: "asy_shape lbb_id 3 5 asys_init" using asy_std.inv_init [of 3 5] by (simp add: asy_std.asy_inv_def)
  have "asy_step zmq_std proxy_std lbb_id 3 5 asys_init ?s"
    using asy_std.round_step [OF sh _ _ p] by (simp add: taken_of_def asys_init_def)
  then have r: "(asy_step zmq_std proxy_std lbb_id 3 5)\<^sup>*\<^sup>* asys_init ?s" by (rule r_into_rtranclp)
  have "as_nbr ?s 0 = 1" "as_fe_in ?s (lbb_id 0) = [[request_text 1]]"
    by (simp_all add: asy_std.after_round_def asys_init_def enqueue_def)
  moreover have "as_lines ?s 0 = map (\<lambda>m. asy_dump (lbb_id 0) (hd m)) (as_got ?s 0)"
    by (rule asyncsrv_answers [OF zmq_std_contract proxy_std_contract lbb_ids_ok(1) r, THEN conjunct2, rule_format, THEN conjunct1]) simp
  ultimately show ?thesis using r by blast
qed

end
