(* ===== verification/EspressoNet.thy ===== *)
theory EspressoNet
  imports PubSub Systems
begin

text \<open>
  The espresso tracer as a system (\<open>pub-sub-tracing-espresso-pattern/espresso.cpp\<close>): publisher,
  subscriber and listener threads around the proxy of \<open>main\<close>, which sends publications one way,
  subscriptions the other way, and a copy of both to the listener. Matching, the messages that stand
  for subscriptions, and the proxy belong to the socket library and are parameters. The lemmas: what
  the listener prints is a complete account of what the subscriber gets, and the subscriber can always
  get to its end.
\<close>

subsection \<open>What the program relies on\<close>

text \<open>
  Whether a subscription lets a message through; the message an XPUB socket reads when a topic is
  subscribed or unsubscribed; what the proxy passes on in either direction and to its third socket.
\<close>

record espresso_lib =
  el_matches :: "string \<Rightarrow> frame \<Rightarrow> bool"
  el_event :: "bool \<Rightarrow> string \<Rightarrow> frame"
  el_forth :: "frame \<Rightarrow> frame"
  el_back :: "frame \<Rightarrow> frame"
  el_capture :: "frame \<Rightarrow> frame"

definition espresso_contract :: "espresso_lib \<Rightarrow> bool" where
  "espresso_contract L \<longleftrightarrow> (\<forall>t m. el_matches L t m \<longleftrightarrow> prefix t m)
     \<and> (\<forall>t. el_event L True t = CHR 0x01 # t) \<and> (\<forall>t. el_event L False t = CHR 0x00 # t)
     \<and> (\<forall>m. el_forth L m = m) \<and> (\<forall>m. el_back L m = m) \<and> (\<forall>m. el_capture L m = m)"

lemma espresso_contractD:
  assumes "espresso_contract L"
  shows "el_matches L t m \<longleftrightarrow> prefix t m" "el_event L True t = CHR 0x01 # t" "el_event L False t = CHR 0x00 # t"
    "el_forth L m = m" "el_back L m = m" "el_capture L m = m"
  using assms by (simp_all add: espresso_contract_def)

definition espresso_std :: espresso_lib where
  "espresso_std = \<lparr>el_matches = prefix, el_event = (\<lambda>on t. (if on then CHR 0x01 else CHR 0x00) # t),
     el_forth = (\<lambda>m. m), el_back = (\<lambda>m. m), el_capture = (\<lambda>m. m)\<rparr>"

lemma espresso_std_contract: "espresso_contract espresso_std"
  by (simp add: espresso_contract_def espresso_std_def)

subsection \<open>The program\<close>

text \<open>
  The subscriptions still to be made and those on their way to the XPUB socket, its filter, and the
  messages it holds for the proxy; the same on the way to the PUB socket; the publications on their way
  to the proxy and to the subscriber; the subscriber's count; what the listener is to read, and has
  printed. \<open>en_sent\<close> and \<open>en_got\<close> record what was published and received.
\<close>

record espresso_net =
  en_todo :: "string list"
  en_wire :: "string list"
  en_xpub :: "string list"
  en_events :: "frame list"
  en_requests :: "frame list"
  en_pub :: "string list"
  en_counter :: "32 word"
  en_sent :: "frame list"
  en_up :: "frame list"
  en_down :: "frame list"
  en_sub :: "nat ctl"
  en_got :: "frame list"
  en_pipe :: "frame list"
  en_lines :: "string list"

definition espresso_topics :: "string list" where
  "espresso_topics = [''A'', ''B'']"

definition espresso_init :: espresso_net where
  "espresso_init = \<lparr>en_todo = espresso_topics, en_wire = [], en_xpub = [], en_events = [], en_requests = [],
     en_pub = [], en_counter = 0, en_sent = [], en_up = [], en_down = [], en_sub = Next 0, en_got = [],
     en_pipe = [], en_lines = []\<rparr>"

text \<open>What a socket with these subscriptions lets through.\<close>

definition el_filter :: "espresso_lib \<Rightarrow> string list \<Rightarrow> frame list \<Rightarrow> frame list" where
  "el_filter L ts ms = filter (\<lambda>m. \<exists>t \<in> set ts. el_matches L t m) ms"

text \<open>The random letters of the publisher.\<close>

definition espresso_letter :: "char \<Rightarrow> bool" where
  "espresso_letter l \<longleftrightarrow> l \<in> set ''ABCDEFGHIJ''"

text \<open>
  The steps. The subscriber reads only after it has subscribed; when it has ended, its socket closes
  and the XPUB socket drops its subscriptions, in any order.
\<close>

inductive espresso_net_step :: "espresso_lib \<Rightarrow> espresso_net \<Rightarrow> espresso_net \<Rightarrow> bool" for L where
  sub_subscribes: "en_todo s = t # ts \<Longrightarrow>
    espresso_net_step L s (s\<lparr>en_todo := ts, en_wire := en_wire s @ [t]\<rparr>)"
| xpub_learns: "en_wire s = t # ts \<Longrightarrow>
    espresso_net_step L s (s\<lparr>en_wire := ts, en_xpub := t # en_xpub s, en_events := en_events s @ [el_event L True t]\<rparr>)"
| xpub_forgets: "en_sub s = Halt n \<Longrightarrow> en_wire s = [] \<Longrightarrow> t \<in> set (en_xpub s) \<Longrightarrow>
    espresso_net_step L s (s\<lparr>en_xpub := removeAll t (en_xpub s), en_events := en_events s @ [el_event L False t]\<rparr>)"
| proxy_passes_event: "en_events s = e # es \<Longrightarrow>
    espresso_net_step L s (s\<lparr>en_events := es, en_requests := en_requests s @ [el_back L e], en_pipe := en_pipe s @ [el_capture L e]\<rparr>)"
| pub_learns: "en_requests s = el_event L True t # es \<Longrightarrow>
    espresso_net_step L s (s\<lparr>en_requests := es, en_pub := t # en_pub s\<rparr>)"
| pub_forgets: "en_requests s = el_event L False t # es \<Longrightarrow>
    espresso_net_step L s (s\<lparr>en_requests := es, en_pub := removeAll t (en_pub s)\<rparr>)"
| publishes: "espresso_letter l \<Longrightarrow> espresso_publisher_step (l, r) (en_counter s) = Inr (Next c, os) \<Longrightarrow>
    espresso_net_step L s (s\<lparr>en_counter := c, en_sent := en_sent s @ map (fst \<circ> hd) os,
      en_up := en_up s @ el_filter L (en_pub s) (map (fst \<circ> hd) os)\<rparr>)"
| proxy_passes_update: "en_up s = m # ms \<Longrightarrow>
    espresso_net_step L s (s\<lparr>en_up := ms, en_down := en_down s @ el_filter L (en_xpub s) [el_forth L m],
      en_pipe := en_pipe s @ [el_capture L m]\<rparr>)"
| sub_receives: "en_todo s = [] \<Longrightarrow> en_sub s = Next n \<Longrightarrow> en_down s = m # ms \<Longrightarrow>
    espresso_subscriber_step (Part m False) n = Inr (c, os) \<Longrightarrow>
    espresso_net_step L s (s\<lparr>en_sub := c, en_down := ms, en_got := en_got s @ [m]\<rparr>)"
| listener_prints: "en_pipe s = m # ms \<Longrightarrow> espresso_listener_step (Part m False) () = Inr (c, os) \<Longrightarrow>
    espresso_net_step L s (s\<lparr>en_pipe := ms, en_lines := en_lines s @ os\<rparr>)"

subsection \<open>The account of the listener\<close>

text \<open>A publication starts with one of the letters; a subscription has arrived somewhere on its way.\<close>

definition is_update :: "frame \<Rightarrow> bool" where
  "is_update m \<longleftrightarrow> m \<noteq> [] \<and> espresso_letter (hd m)"

definition is_event :: "frame \<Rightarrow> bool" where
  "is_event e \<longleftrightarrow> (\<exists>on. \<exists>t \<in> set espresso_topics. e = (if on then CHR 0x01 else CHR 0x00) # t)"

definition subscription :: "frame \<Rightarrow> frame" where
  "subscription m = CHR 0x01 # [hd m]"

text \<open>Every update of a trace comes after the subscription to its letter.\<close>

fun asked_first :: "frame set \<Rightarrow> frame list \<Rightarrow> bool" where
  "asked_first seen [] \<longleftrightarrow> True"
| "asked_first seen (m # ms) \<longleftrightarrow> (is_update m \<longrightarrow> subscription m \<in> seen) \<and> asked_first (insert m seen) ms"

lemma asked_first_append: "asked_first seen (xs @ ys) \<longleftrightarrow> asked_first seen xs \<and> asked_first (seen \<union> set xs) ys"
  by (induction xs arbitrary: seen) auto

lemma is_event_not_update: "is_event e \<Longrightarrow> \<not> is_update e"
  by (auto simp: is_event_def is_update_def espresso_letter_def espresso_topics_def split: if_splits)

lemma is_eventI: "t \<in> set espresso_topics \<Longrightarrow> is_event (CHR 0x01 # t)" "t \<in> set espresso_topics \<Longrightarrow> is_event (CHR 0x00 # t)"
  unfolding is_event_def by (metis (full_types))+

lemma topic_prefix: "t \<in> set espresso_topics \<Longrightarrow> prefix t m \<Longrightarrow> m \<noteq> [] \<and> t = [hd m] \<and> hd m \<in> {CHR ''A'', CHR ''B''}"
  by (cases m) (auto simp: espresso_topics_def)

text \<open>The invariant, for the trace of all that has passed the proxy.\<close>

definition espresso_sets :: "frame list \<Rightarrow> espresso_net \<Rightarrow> bool" where
  "espresso_sets trace s \<longleftrightarrow>
     set (en_todo s) \<union> set (en_wire s) \<union> set (en_xpub s) \<union> set (en_pub s) \<subseteq> set espresso_topics
     \<and> (\<forall>e \<in> set (en_events s) \<union> set (en_requests s). is_event e)
     \<and> (\<forall>t. CHR 0x01 # t \<in> set (en_requests s) \<or> t \<in> set (en_pub s) \<longrightarrow> CHR 0x01 # t \<in> set trace)
     \<and> (\<forall>m \<in> set (en_up s). is_update m \<and> subscription m \<in> set trace)
     \<and> (\<forall>m \<in> set trace. is_event m \<or> is_update m)"

definition espresso_counts :: "frame list \<Rightarrow> espresso_net \<Rightarrow> bool" where
  "espresso_counts trace s \<longleftrightarrow>
     (case en_sub s of
        Next n \<Rightarrow> n < 5 \<and> n = length (en_got s) \<and> en_got s @ en_down s = filter is_update trace
          \<and> (\<forall>t. CHR 0x01 # t \<in> set trace \<union> set (en_events s) \<longrightarrow> t \<in> set (en_xpub s))
      | Halt n \<Rightarrow> n = 5 \<and> length (en_got s) = 5 \<and> prefix (en_got s) (filter is_update trace))"

text \<open>Until the subscriber ends, each subscription is somewhere on its way to the publisher.\<close>

definition espresso_live :: "espresso_net \<Rightarrow> bool" where
  "espresso_live s \<longleftrightarrow> (\<forall>n. en_sub s = Next n \<longrightarrow>
     (\<forall>t. CHR 0x00 # t \<notin> set (en_events s) \<union> set (en_requests s))
     \<and> (\<forall>t \<in> set espresso_topics. t \<in> set (en_todo s) \<union> set (en_wire s) \<union> set (en_pub s)
          \<or> CHR 0x01 # t \<in> set (en_events s) \<union> set (en_requests s)))"

definition espresso_account :: "frame list \<Rightarrow> espresso_net \<Rightarrow> bool" where
  "espresso_account trace s \<longleftrightarrow> espresso_sets trace s \<and> espresso_counts trace s \<and> asked_first {} trace
     \<and> subseq (filter is_update trace @ en_up s) (en_sent s) \<and> espresso_live s"

definition espresso_inv :: "espresso_net \<Rightarrow> bool" where
  "espresso_inv s \<longleftrightarrow> (\<exists>heard. en_lines s = map (\<lambda>f. ''espresso: listener: '' @ f) heard
     \<and> espresso_account (heard @ en_pipe s) s)"

lemma espresso_inv_init: "espresso_inv espresso_init"
  by (simp add: espresso_inv_def espresso_init_def espresso_account_def espresso_sets_def espresso_counts_def
      espresso_live_def)

lemma account_same:
  assumes "espresso_account trace s" and "espresso_sets trace t" and "espresso_live t"
    and "en_sub t = en_sub s" "en_got t = en_got s" "en_down t = en_down s" "en_xpub s = en_xpub t \<or> (\<exists>n. en_sub s = Halt n)"
    and "set (en_events t) \<subseteq> set (en_events s)" "en_up t = en_up s" "en_sent t = en_sent s"
  shows "espresso_account trace t"
  using assms by (auto simp: espresso_account_def espresso_counts_def split: ctl.splits)

lemma account_xpub_learns:
  assumes "espresso_account trace s" and "en_wire s = t # ts"
  shows "espresso_account trace (s\<lparr>en_wire := ts, en_xpub := t # en_xpub s, en_events := en_events s @ [CHR 0x01 # t]\<rparr>)"
  using assms unfolding espresso_account_def
  by (auto simp: espresso_sets_def espresso_counts_def espresso_live_def is_eventI split: ctl.splits)
lemma account_subscribes:
  assumes "espresso_account trace s" and "en_todo s = t # ts"
  shows "espresso_account trace (s\<lparr>en_todo := ts, en_wire := en_wire s @ [t]\<rparr>)"
proof (rule account_same [OF assms(1)])
  show "espresso_sets trace (s\<lparr>en_todo := ts, en_wire := en_wire s @ [t]\<rparr>)"
    using assms by (auto simp: espresso_account_def espresso_sets_def)
  show "espresso_live (s\<lparr>en_todo := ts, en_wire := en_wire s @ [t]\<rparr>)"
    using assms by (auto simp: espresso_account_def espresso_live_def)
qed simp_all

lemma account_xpub_forgets:
  assumes "espresso_account trace s" and "en_sub s = Halt n" and "t \<in> set (en_xpub s)"
  shows "espresso_account trace (s\<lparr>en_xpub := removeAll t (en_xpub s), en_events := en_events s @ [CHR 0x00 # t]\<rparr>)"
  using assms unfolding espresso_account_def
  by (auto simp: espresso_sets_def espresso_counts_def espresso_live_def intro!: is_eventI)

lemma account_passes_event:
  assumes a: "espresso_account trace s" and e: "en_events s = e # es"
  shows "espresso_account (trace @ [e]) (s\<lparr>en_events := es, en_requests := en_requests s @ [e], en_pipe := p\<rparr>)"
proof -
  have ev: "is_event e" using assms by (auto simp: espresso_account_def espresso_sets_def)
  then have no: "\<not> is_update e" by (rule is_event_not_update)
  show ?thesis
    using assms ev no unfolding espresso_account_def
    by (auto simp: espresso_sets_def espresso_counts_def espresso_live_def asked_first_append split: ctl.splits)
qed

lemma account_pub_learns:
  assumes "espresso_account trace s" and "en_requests s = (CHR 0x01 # t) # es"
  shows "espresso_account trace (s\<lparr>en_requests := es, en_pub := t # en_pub s\<rparr>)"
proof (rule account_same [OF assms(1)])
  have "is_event (CHR 0x01 # t)" using assms by (auto simp: espresso_account_def espresso_sets_def)
  then have "t \<in> set espresso_topics" by (auto simp: is_event_def split: if_splits)
  then show "espresso_sets trace (s\<lparr>en_requests := es, en_pub := t # en_pub s\<rparr>)"
    using assms by (auto simp: espresso_account_def espresso_sets_def)
  show "espresso_live (s\<lparr>en_requests := es, en_pub := t # en_pub s\<rparr>)"
    using assms by (auto simp: espresso_account_def espresso_live_def)
qed simp_all

lemma account_pub_forgets:
  assumes "espresso_account trace s" and "en_requests s = (CHR 0x00 # t) # es"
  shows "espresso_account trace (s\<lparr>en_requests := es, en_pub := removeAll t (en_pub s)\<rparr>)"
proof (rule account_same [OF assms(1)])
  show "espresso_sets trace (s\<lparr>en_requests := es, en_pub := removeAll t (en_pub s)\<rparr>)"
    using assms by (auto simp: espresso_account_def espresso_sets_def)
  show "espresso_live (s\<lparr>en_requests := es, en_pub := removeAll t (en_pub s)\<rparr>)"
    using assms by (auto simp: espresso_account_def espresso_live_def)
qed simp_all

lemma account_publishes:
  assumes a: "espresso_account trace s" and l: "espresso_letter (hd m)" "m \<noteq> []"
  shows "espresso_account trace (s\<lparr>en_counter := c, en_sent := en_sent s @ [m],
    en_up := en_up s @ filter (\<lambda>m. \<exists>t \<in> set (en_pub s). prefix t m) [m]\<rparr>)"
proof -
  have "subscription m \<in> set trace" if t: "t \<in> set (en_pub s)" "prefix t m" for t
  proof -
    have "t \<in> set espresso_topics" using a t(1) by (auto simp: espresso_account_def espresso_sets_def)
    from topic_prefix [OF this t(2)] have "CHR 0x01 # t = subscription m" by (simp add: subscription_def)
    moreover have "CHR 0x01 # t \<in> set trace" using a t(1) by (auto simp: espresso_account_def espresso_sets_def)
    ultimately show ?thesis by simp
  qed
  moreover have "is_update m" using l by (simp add: is_update_def)
  moreover from a have "subseq (filter is_update trace @ en_up s) (en_sent s)" by (simp add: espresso_account_def)
  then have "subseq ((filter is_update trace @ en_up s) @ filter (\<lambda>m. \<exists>t \<in> set (en_pub s). prefix t m) [m]) (en_sent s @ [m])"
    by (intro list_emb_append_mono) simp_all
  ultimately show ?thesis
    using a unfolding espresso_account_def
    by (auto simp: espresso_sets_def espresso_counts_def espresso_live_def split: ctl.splits)
qed

lemma update_goes_through:
  assumes "espresso_account trace s" and "en_sub s = Next n" and "m \<in> set (en_up s)"
  shows "\<exists>t \<in> set (en_xpub s). prefix t m"
proof -
  have up: "is_update m" "subscription m \<in> set trace" using assms(1,3) by (auto simp: espresso_account_def espresso_sets_def)
  have "[hd m] \<in> set (en_xpub s)"
    using assms(1,2) up(2) by (auto simp: espresso_account_def espresso_counts_def subscription_def)
  moreover have "prefix [hd m] m" using up(1) by (cases m) (simp_all add: is_update_def)
  ultimately show ?thesis by blast
qed

lemma account_passes_update:
  assumes a: "espresso_account trace s" and m: "en_up s = m # ms"
  shows "espresso_account (trace @ [m]) (s\<lparr>en_up := ms,
    en_down := en_down s @ filter (\<lambda>m. \<exists>t \<in> set (en_xpub s). prefix t m) [m], en_pipe := p\<rparr>)"
proof -
  have up: "is_update m" "subscription m \<in> set trace" using assms by (auto simp: espresso_account_def espresso_sets_def)
  have through: "\<exists>t \<in> set (en_xpub s). prefix t m" if "en_sub s = Next n" for n
    using update_goes_through [OF a that] m by simp
  have counts: "espresso_counts (trace @ [m]) (s\<lparr>en_up := ms,
      en_down := en_down s @ filter (\<lambda>m. \<exists>t \<in> set (en_xpub s). prefix t m) [m], en_pipe := p\<rparr>)"
  proof (cases "en_sub s")
    case (Next n)
    have "m \<noteq> CHR 0x01 # t" for t using up(1) by (auto simp: is_update_def espresso_letter_def)
    with a Next through [OF Next] up(1) show ?thesis
      by (auto simp: espresso_account_def espresso_counts_def simp flip: append_assoc)
  next
    case (Halt n)
    with a show ?thesis by (auto simp: espresso_account_def espresso_counts_def intro: prefix_prefix)
  qed
  have "subseq (filter is_update (trace @ [m]) @ ms) (en_sent s)"
    using a m up(1) by (simp add: espresso_account_def)
  moreover have "asked_first {} (trace @ [m])" using a up(2) by (simp add: espresso_account_def asked_first_append)
  moreover have "espresso_sets (trace @ [m]) (s\<lparr>en_up := ms,
      en_down := en_down s @ filter (\<lambda>m. \<exists>t \<in> set (en_xpub s). prefix t m) [m], en_pipe := p\<rparr>)"
    using a m up by (auto simp: espresso_account_def espresso_sets_def)
  ultimately show ?thesis using a counts by (simp add: espresso_account_def espresso_live_def)
qed

lemma account_receives:
  assumes a: "espresso_account trace s" and n: "en_sub s = Next n" and d: "en_down s = m # ms"
  shows "espresso_account trace (s\<lparr>en_sub := (if Suc n < 5 then Next (Suc n) else Halt (Suc n)),
    en_down := ms, en_got := en_got s @ [m]\<rparr>)"
proof -
  have g: "en_got s @ m # ms = filter is_update trace" "length (en_got s) = n" "n < 5"
    using a n d by (auto simp: espresso_account_def espresso_counts_def)
  then have "prefix (en_got s @ [m]) (filter is_update trace)" by (metis append.assoc append_Cons append_Nil prefixI)
  with a n g show ?thesis
    unfolding espresso_account_def by (auto simp: espresso_sets_def espresso_counts_def espresso_live_def)
qed
lemma account_printed: "espresso_account trace (s\<lparr>en_pipe := p, en_lines := l\<rparr>) \<longleftrightarrow> espresso_account trace s"
  by (cases "en_sub s") (simp_all add: espresso_account_def espresso_sets_def espresso_counts_def espresso_live_def)

subsection \<open>The steps keep the account\<close>

lemma espresso_publishes_one:
  assumes "espresso_publisher_step (l, r) n = Inr (Next c, os)"
  shows "\<exists>m. map (fst \<circ> hd) os = [m] \<and> m \<noteq> [] \<and> hd m = l"
  using assms by (auto simp: espresso_publisher_step_def espresso_content_def Let_def split: if_splits)

lemma espresso_inv_same:
  assumes "en_lines t = en_lines s" and "en_pipe t = en_pipe s @ xs" and "espresso_inv s"
    and "\<And>trace. espresso_account trace s \<Longrightarrow> espresso_account (trace @ xs) t"
  shows "espresso_inv t"
  using assms unfolding espresso_inv_def by (metis append.assoc)

lemma espresso_inv_step:
  assumes L: "espresso_contract L" and step: "espresso_net_step L s t" and inv: "espresso_inv s"
  shows "espresso_inv t"
  using step
proof cases
  case (sub_subscribes t ts)
  then show ?thesis by (intro espresso_inv_same [where xs = "[]", OF _ _ inv]) (simp_all add: account_subscribes)
next
  case (xpub_learns t ts)
  then show ?thesis
    by (intro espresso_inv_same [where xs = "[]", OF _ _ inv]) (simp_all add: account_xpub_learns espresso_contractD [OF L])
next
  case (xpub_forgets n t)
  then show ?thesis
    by (intro espresso_inv_same [where xs = "[]", OF _ _ inv]) (simp_all add: account_xpub_forgets espresso_contractD [OF L])
next
  case (proxy_passes_event e es)
  then show ?thesis
    by (intro espresso_inv_same [where xs = "[e]", OF _ _ inv]) (simp_all add: account_passes_event espresso_contractD [OF L])
next
  case (pub_learns t es)
  then show ?thesis
    by (intro espresso_inv_same [where xs = "[]", OF _ _ inv]) (simp_all add: account_pub_learns espresso_contractD [OF L])
next
  case (pub_forgets t es)
  then show ?thesis
    by (intro espresso_inv_same [where xs = "[]", OF _ _ inv]) (simp_all add: account_pub_forgets espresso_contractD [OF L])
next
  case (publishes l r c os)
  from espresso_publishes_one [OF publishes(3)] obtain m where
    m: "map (fst \<circ> hd) os = [m]" "m \<noteq> []" "hd m = l" by (elim exE conjE) (rule that)
  show ?thesis
  proof (rule espresso_inv_same [where xs = "[]", OF _ _ inv])
    show "espresso_account (trace @ []) t" if "espresso_account trace s" for trace
      using account_publishes [OF that, of m c] publishes(1,2) m
      by (simp only: el_filter_def espresso_contractD(1) [OF L] append_Nil2 simp_thms)
  qed (simp_all add: publishes)
next
  case (proxy_passes_update m ms)
  show ?thesis
  proof (rule espresso_inv_same [where xs = "[m]", OF _ _ inv])
    show "espresso_account (trace @ [m]) t" if "espresso_account trace s" for trace
      using account_passes_update [OF that proxy_passes_update(2)] proxy_passes_update(1)
      by (simp only: el_filter_def espresso_contractD [OF L])
  qed (simp_all add: proxy_passes_update espresso_contractD [OF L])
next
  case (sub_receives n m ms c os)
  then have c: "c = (if Suc n < 5 then Next (Suc n) else Halt (Suc n))" by (simp add: espresso_subscriber_step_def)
  show ?thesis
  proof (rule espresso_inv_same [where xs = "[]", OF _ _ inv])
    show "espresso_account (trace @ []) t" if "espresso_account trace s" for trace
      using account_receives [OF that sub_receives(3,4)] by (simp only: sub_receives(1) c append_Nil2)
  qed (simp_all add: sub_receives)
next
  case (listener_prints m ms c os)
  from inv obtain heard where
    h: "en_lines s = map (\<lambda>f. ''espresso: listener: '' @ f) heard" "espresso_account (heard @ en_pipe s) s"
    unfolding espresso_inv_def by blast
  then have "espresso_account (heard @ m # ms) (s\<lparr>en_pipe := ms, en_lines := l\<rparr>)" for l
    using listener_prints(2) by (simp add: account_printed)
  with h(1) listener_prints show ?thesis
    unfolding espresso_inv_def by (intro exI [of _ "heard @ [m]"]) (simp add: espresso_listener_step_def)
qed

text \<open>The system keeps the account, whatever library keeps the contract.\<close>

lemma espresso_system: "espresso_contract L \<Longrightarrow> invariant_system espresso_init (espresso_net_step L) espresso_inv"
  by unfold_locales (simp_all add: espresso_inv_init espresso_inv_step)

interpretation espresso: invariant_system espresso_init "espresso_net_step espresso_std" espresso_inv
  by (rule espresso_system [OF espresso_std_contract])
subsection \<open>The subscriber can go on\<close>

text \<open>How far the subscriptions have still to go.\<close>

definition en_rank :: "espresso_net \<Rightarrow> nat" where
  "en_rank s = 4 * length (en_todo s) + 3 * length (en_wire s) + 2 * length (en_events s) + length (en_requests s)"

lemma request_is_subscription:
  assumes "espresso_inv s" and "en_sub s = Next n" and "en_requests s = e # es"
  shows "\<exists>t. e = CHR 0x01 # t"
proof -
  from assms(1) obtain tr where "espresso_account tr s" unfolding espresso_inv_def by blast
  then have ev: "is_event e" and no: "\<And>t. e \<noteq> CHR 0x00 # t"
    using assms(2,3) by (auto simp: espresso_account_def espresso_sets_def espresso_live_def)
  show ?thesis using ev no unfolding is_event_def by (metis (full_types))
qed

lemma en_rank_step:
  assumes L: "espresso_contract L" and inv: "espresso_inv s" and n: "en_sub s = Next n" and r: "en_rank s \<noteq> 0"
  shows "\<exists>t. espresso_net_step L s t \<and> en_rank t < en_rank s \<and> en_sub t = Next n"
proof -
  consider (todo) t ts where "en_todo s = t # ts" | (wire) t ts where "en_wire s = t # ts"
    | (events) e es where "en_events s = e # es" | (requests) e es where "en_requests s = e # es"
    using r by (cases "en_todo s"; cases "en_wire s"; cases "en_events s"; cases "en_requests s") (auto simp: en_rank_def)
  then show ?thesis
  proof cases
    case todo
    then show ?thesis by (intro exI conjI, rule sub_subscribes) (simp_all add: en_rank_def n)
  next
    case wire
    then show ?thesis by (intro exI conjI, rule xpub_learns) (simp_all add: en_rank_def n)
  next
    case events
    then show ?thesis by (intro exI conjI, rule proxy_passes_event) (simp_all add: en_rank_def n)
  next
    case requests
    with request_is_subscription [OF inv n] obtain t where "en_requests s = el_event L True t # es"
      using espresso_contractD(2) [OF L] by metis
    then show ?thesis by (intro exI conjI, rule pub_learns) (simp_all add: en_rank_def n)
  qed
qed

lemma espresso_inv_steps:
  "espresso_contract L \<Longrightarrow> (espresso_net_step L)\<^sup>*\<^sup>* s t \<Longrightarrow> espresso_inv s \<Longrightarrow> espresso_inv t"
  by (rule invariant_system.inv_steps [OF espresso_system])

lemma subscriptions_arrive:
  assumes L: "espresso_contract L"
  shows "espresso_inv s \<Longrightarrow> en_sub s = Next n \<Longrightarrow>
    \<exists>t. (espresso_net_step L)\<^sup>*\<^sup>* s t \<and> en_rank t = 0 \<and> en_sub t = Next n"
proof (induction "en_rank s" arbitrary: s rule: less_induct)
  case less
  show ?case
  proof (cases "en_rank s = 0")
    case True
    with less.prems show ?thesis by blast
  next
    case False
    from en_rank_step [OF L less.prems False] obtain u where
      u: "espresso_net_step L s u" "en_rank u < en_rank s" "en_sub u = Next n" by blast
    from less.hyps [OF u(2) espresso_inv_step [OF L u(1) less.prems(1)] u(3)] u(1) show ?thesis
      by (meson converse_rtranclp_into_rtranclp)
  qed
qed

lemma update_passes:
  assumes L: "espresso_contract L" and inv: "espresso_inv s" and n: "en_sub s = Next n" and m: "en_up s = m # ms"
  shows "\<exists>t. espresso_net_step L s t \<and> en_sub t = Next n \<and> en_todo t = en_todo s \<and> en_down t \<noteq> []"
proof -
  let ?t = "s\<lparr>en_up := ms, en_down := en_down s @ el_filter L (en_xpub s) [el_forth L m], en_pipe := en_pipe s @ [el_capture L m]\<rparr>"
  have step: "espresso_net_step L s ?t" by (rule proxy_passes_update) (rule m)
  from inv obtain tr where "espresso_account tr s" unfolding espresso_inv_def by blast
  with n m have "\<exists>t \<in> set (en_xpub s). prefix t m" by (intro update_goes_through) simp_all
  then have "en_down ?t \<noteq> []" by (simp add: el_filter_def espresso_contractD [OF L])
  with step n show ?thesis by (intro exI [of _ ?t]) simp
qed
lemma update_comes:
  assumes L: "espresso_contract L" and inv: "espresso_inv s" and n: "en_sub s = Next n" and r: "en_rank s = 0"
  shows "\<exists>t m ms. (espresso_net_step L)\<^sup>*\<^sup>* s t \<and> en_sub t = Next n \<and> en_todo t = [] \<and> en_up t = m # ms"
proof -
  from r have empty: "en_todo s = []" "en_wire s = []" "en_events s = []" "en_requests s = []" by (simp_all add: en_rank_def)
  from inv obtain tr where "espresso_account tr s" unfolding espresso_inv_def by blast
  then have pub: "''A'' \<in> set (en_pub s)"
    using n empty by (auto simp: espresso_account_def espresso_live_def espresso_topics_def)
  let ?m = "espresso_content (CHR ''A'') (en_counter s + 1)"
  let ?t = "s\<lparr>en_counter := en_counter s + 1, en_sent := en_sent s @ [?m], en_up := en_up s @ el_filter L (en_pub s) [?m]\<rparr>"
  have "espresso_publisher_step (CHR ''A'', 0) (en_counter s) = Inr (Next (en_counter s + 1), [[(?m, False)]])"
    by (rule espresso_publisher_sent) simp
  with publishes [of "CHR ''A''" 0 s "en_counter s + 1" "[[(?m, False)]]" L] have "espresso_net_step L s ?t"
    by (simp add: espresso_letter_def)
  moreover have "el_filter L (en_pub s) [?m] = [?m]"
    using pub by (auto simp: el_filter_def espresso_contractD [OF L] espresso_content_def intro!: bexI [of _ "''A''"])
  then have "en_up ?t \<noteq> []" by simp
  then obtain m ms where "en_up ?t = m # ms" by (meson neq_Nil_conv)
  ultimately show ?thesis using n empty by (intro exI [of _ ?t] exI [of _ m] exI [of _ ms]) auto
qed

lemma count_goes_on:
  assumes L: "espresso_contract L" and inv: "espresso_inv s" and n: "en_sub s = Next n"
  shows "\<exists>t. (espresso_net_step L)\<^sup>*\<^sup>* s t \<and> en_sub t = (if Suc n < 5 then Next (Suc n) else Halt (Suc n))"
proof -
  from subscriptions_arrive [OF L inv n] obtain a where
    a: "(espresso_net_step L)\<^sup>*\<^sup>* s a" "en_rank a = 0" "en_sub a = Next n" by blast
  from update_comes [OF L espresso_inv_steps [OF L a(1) inv] a(3,2)] obtain b m ms where
    b: "(espresso_net_step L)\<^sup>*\<^sup>* a b" "en_sub b = Next n" "en_todo b = []" "en_up b = m # ms" by blast
  have sb: "(espresso_net_step L)\<^sup>*\<^sup>* s b" using a(1) b(1) by (rule rtranclp_trans)
  from update_passes [OF L espresso_inv_steps [OF L sb inv] b(2,4)] obtain c where
    c: "espresso_net_step L b c" "en_sub c = Next n" "en_todo c = []" "en_down c \<noteq> []" using b(3) by auto
  then obtain x xs where x: "en_down c = x # xs" by (meson neq_Nil_conv)
  have "espresso_subscriber_step (Part x False) n = Inr (if Suc n < 5 then Next (Suc n) else Halt (Suc n), [])"
    by (simp add: espresso_subscriber_step_def)
  from sub_receives [OF c(3,2) x this] have
    d: "espresso_net_step L c (c\<lparr>en_sub := (if Suc n < 5 then Next (Suc n) else Halt (Suc n)), en_down := xs, en_got := en_got c @ [x]\<rparr>)" .
  from sb c(1) d show ?thesis
    by (intro exI [of _ "c\<lparr>en_sub := (if Suc n < 5 then Next (Suc n) else Halt (Suc n)), en_down := xs, en_got := en_got c @ [x]\<rparr>"])
      (auto intro: rtranclp.rtrancl_into_rtrancl)
qed

lemma espresso_can_end:
  assumes L: "espresso_contract L"
  shows "espresso_inv s \<Longrightarrow> \<exists>t. (espresso_net_step L)\<^sup>*\<^sup>* s t \<and> en_sub t = Halt 5"
proof (induction "5 - ctl_state (en_sub s)" arbitrary: s rule: less_induct)
  case less
  then obtain tr where tr: "espresso_counts tr s" unfolding espresso_inv_def espresso_account_def by blast
  show ?case
  proof (cases "en_sub s")
    case (Halt n)
    with tr show ?thesis by (intro exI [of _ s]) (simp add: espresso_counts_def)
  next
    case (Next n)
    with tr have n: "n < 5" by (simp add: espresso_counts_def)
    from count_goes_on [OF L less.prems Next] obtain t where
      t: "(espresso_net_step L)\<^sup>*\<^sup>* s t" "en_sub t = (if Suc n < 5 then Next (Suc n) else Halt (Suc n))" by blast
    show ?thesis
    proof (cases "Suc n < 5")
      case True
      with t(2) Next n have "5 - ctl_state (en_sub t) < 5 - ctl_state (en_sub s)" by simp
      from less.hyps [OF this espresso_inv_steps [OF L t(1) less.prems]] t(1) show ?thesis
        by (meson rtranclp_trans)
    next
      case False
      with t n show ?thesis by (intro exI [of _ t]) (auto simp: not_less)
    qed
  qed
qed

subsection \<open>What the tracer shows\<close>

text \<open>
  C20: in every interleaving of publisher, subscriber, listener and proxy, what the listener has printed
  and is still to print is a full account of what the subscriber gets: the updates in it, in their order,
  are what the subscriber has received followed by what is on its way, until the subscriber ends with
  the first five of them. Each of them has been published and comes after the subscription to its letter, though
  the publisher sends other letters too. And the subscriber can always still come to its end.
\<close>

theorem espresso_traces_subscriber:
  assumes L: "espresso_contract L" and r: "(espresso_net_step L)\<^sup>*\<^sup>* espresso_init s"
  shows "(\<exists>heard. en_lines s = map (\<lambda>f. ''espresso: listener: '' @ f) heard
    \<and> (\<forall>n. en_sub s = Next n \<longrightarrow> n = length (en_got s) \<and> n < 5
        \<and> en_got s @ en_down s = filter is_update (heard @ en_pipe s))
    \<and> (\<forall>n. en_sub s = Halt n \<longrightarrow> n = 5 \<and> en_got s = take 5 (filter is_update (heard @ en_pipe s)))
    \<and> asked_first {} (heard @ en_pipe s) \<and> subseq (filter is_update (heard @ en_pipe s)) (en_sent s))
    \<and> (\<exists>t. (espresso_net_step L)\<^sup>*\<^sup>* s t \<and> en_sub t = Halt 5)"
proof (rule conjI [rotated])
  have inv: "espresso_inv s" by (rule invariant_system.inv_reachable [OF espresso_system [OF L] r])
  then show "\<exists>t. (espresso_net_step L)\<^sup>*\<^sup>* s t \<and> en_sub t = Halt 5" by (rule espresso_can_end [OF L])
  from inv obtain heard where h: "en_lines s = map (\<lambda>f. ''espresso: listener: '' @ f) heard"
    and a: "espresso_account (heard @ en_pipe s) s" unfolding espresso_inv_def by blast
  have "subseq (filter is_update (heard @ en_pipe s)) (en_sent s)"
    using a unfolding espresso_account_def by (meson subseq_order.order_trans subseq_rev_drop_many subseq_order.order_refl)
  moreover have "en_got s = take 5 (filter is_update (heard @ en_pipe s))" if "en_sub s = Halt n" for n
  proof -
    from a that have "prefix (en_got s) (filter is_update (heard @ en_pipe s))" "length (en_got s) = 5"
      by (simp_all add: espresso_account_def espresso_counts_def del: filter_append)
    then show ?thesis by (metis append_eq_conv_conj prefixE)
  qed
  ultimately show "\<exists>heard. en_lines s = map (\<lambda>f. ''espresso: listener: '' @ f) heard
    \<and> (\<forall>n. en_sub s = Next n \<longrightarrow> n = length (en_got s) \<and> n < 5
        \<and> en_got s @ en_down s = filter is_update (heard @ en_pipe s))
    \<and> (\<forall>n. en_sub s = Halt n \<longrightarrow> n = 5 \<and> en_got s = take 5 (filter is_update (heard @ en_pipe s)))
    \<and> asked_first {} (heard @ en_pipe s) \<and> subseq (filter is_update (heard @ en_pipe s)) (en_sent s)"
    using h a by (intro exI [of _ heard] conjI) (auto simp: espresso_account_def espresso_counts_def simp del: filter_append take_append)
qed

theorem espresso_traces_subscriber_witness:
  "\<exists>s heard. (espresso_net_step espresso_std)\<^sup>*\<^sup>* espresso_init s \<and> en_sub s = Halt 5
    \<and> en_lines s = map (\<lambda>f. ''espresso: listener: '' @ f) heard
    \<and> en_got s = take 5 (filter is_update (heard @ en_pipe s))"
proof -
  from espresso_traces_subscriber [OF espresso_std_contract rtranclp.rtrancl_refl] obtain s where
    s: "(espresso_net_step espresso_std)\<^sup>*\<^sup>* espresso_init s" "en_sub s = Halt 5" by blast
  from espresso_traces_subscriber [OF espresso_std_contract s(1)] s show ?thesis by blast
qed

end
