(* ===== verification/PirateClients.thy ===== *)
theory PirateClients
  imports LazyPirate Sockets Systems
begin

text \<open>
  Lazy pirate clients (\<open>client-side-reliability/lpclient.cpp\<close>) as the clients of a system. They
  give up waiting and come back on a new socket, and messages of closed sockets may get lost. The
  interface says what is asked of the program they talk to: at most one copy of a request is inside,
  and what it holds are requests of the clients. Under it what a client reads is the answer to what it
  has asked last.
\<close>

subsection \<open>The clients and their sockets\<close>

text \<open>
  A client is \<open>None\<close> before its first request; the number of sockets it has closed is its
  generation, and the library gives socket \<open>g\<close> of client \<open>n\<close> the identity \<open>cid n g\<close>.
\<close>

record lp_front =
  pn_client :: "nat \<Rightarrow> lpc ctl option"
  pn_gen :: "nat \<Rightarrow> nat"
  pn_got :: "nat \<Rightarrow> frame list"
  pn_fe_in :: "frame \<Rightarrow> msg list"
  pn_fe_out :: "frame \<Rightarrow> msg list"
  pn_fault :: "fault option"

text \<open>What a client does: it opens its next socket, or sends on the one it has.\<close>

fun lp_does :: "zmq_envelope \<Rightarrow> (nat \<Rightarrow> frame) \<Rightarrow> lp_act list \<Rightarrow> nat \<times> (frame \<Rightarrow> msg list) \<Rightarrow> nat \<times> (frame \<Rightarrow> msg list)" where
  "lp_does Z c [] gQ = gQ"
| "lp_does Z c (LpConnect # as) gQ = lp_does Z c as (Suc (fst gQ), snd gQ)"
| "lp_does Z c (LpSend str # as) gQ = lp_does Z c as (fst gQ, enqueue (c (fst gQ)) (req_out Z [str]) (snd gQ))"

text \<open>A client's next state, from what its code makes of an event and what it has read.\<close>

definition client_moves :: "zmq_envelope \<Rightarrow> (nat \<Rightarrow> nat \<Rightarrow> frame) \<Rightarrow> nat \<Rightarrow> frame list \<Rightarrow> lpc ctl \<times> lp_act list
    \<Rightarrow> 'a lp_front_scheme \<Rightarrow> 'a lp_front_scheme" where
  "client_moves Z cid n read r s =
     (let (g, Q) = lp_does Z (cid n) (snd r) (pn_gen s n, pn_fe_in s)
      in s\<lparr>pn_client := (pn_client s)(n := Some (fst r)), pn_gen := (pn_gen s)(n := g),
           pn_got := (pn_got s)(n := pn_got s n @ read), pn_fe_in := Q\<rparr>)"

inductive client_step :: "zmq_envelope \<Rightarrow> (nat \<Rightarrow> nat \<Rightarrow> frame) \<Rightarrow> nat \<Rightarrow> 'a lp_front_scheme \<Rightarrow> 'a lp_front_scheme \<Rightarrow> bool"
  for Z cid N where
  client_starts: "n < N \<Longrightarrow> pn_client s n = None \<Longrightarrow> lp_request lp_init = Inr r \<Longrightarrow>
    client_step Z cid N s (client_moves Z cid n [] r s)"
| client_gets: "n < N \<Longrightarrow> pn_client s n = Some (Next l) \<Longrightarrow> pn_fe_out s (cid n (pn_gen s n)) = m # ms \<Longrightarrow>
    arrives (req_in Z m) = e # es \<Longrightarrow> lp_step (Some e) l = Inr r \<Longrightarrow>
    client_step Z cid N s (client_moves Z cid n (take 1 (req_in Z m)) r
      (s\<lparr>pn_fe_out := (pn_fe_out s)(cid n (pn_gen s n) := ms)\<rparr>))"
| client_times_out: "n < N \<Longrightarrow> pn_client s n = Some (Next l) \<Longrightarrow> lp_step None l = Inr r \<Longrightarrow>
    client_step Z cid N s (client_moves Z cid n [] r s)"
| client_fails: "n < N \<Longrightarrow> pn_client s n = Some (Next l) \<Longrightarrow> pn_fe_out s (cid n (pn_gen s n)) = m # ms \<Longrightarrow>
    arrives (req_in Z m) = e # es \<Longrightarrow> lp_step (Some e) l = Inl f \<Longrightarrow>
    client_step Z cid N s (s\<lparr>pn_fault := Some f\<rparr>)"
| request_lost: "n < N \<Longrightarrow> g < pn_gen s n \<or> (\<exists>l. pn_client s n = Some (Halt l)) \<Longrightarrow> pn_fe_in s (cid n g) = m # ms \<Longrightarrow>
    client_step Z cid N s (s\<lparr>pn_fe_in := (pn_fe_in s)(cid n g := ms)\<rparr>)"

subsection \<open>Where the requests are\<close>

text \<open>
  The text of a request of a socket is the number of its client's last request, unless the client has
  left the socket.
\<close>

definition current :: "(nat \<Rightarrow> nat \<Rightarrow> frame) \<Rightarrow> nat \<Rightarrow> 'a lp_front_scheme \<Rightarrow> frame \<Rightarrow> frame \<Rightarrow> bool" where
  "current cid N s i str \<longleftrightarrow> (\<exists>n < N. \<exists>g \<le> pn_gen s n. i = cid n g
     \<and> (\<exists>c. pn_client s n = Some c \<and> (g = pn_gen s n \<longrightarrow> str = int_string (lp_sequence (ctl_state c)))))"

text \<open>
  The copies of a socket's requests: those in its two queues and those inside, of which a worker's
  messages are the ones that \<open>asks\<close> tells.
\<close>

definition in_flight :: "('a lp_front_scheme \<Rightarrow> frame \<Rightarrow> nat) \<Rightarrow> 'a lp_front_scheme \<Rightarrow> frame \<Rightarrow> nat" where
  "in_flight inner s i = length (pn_fe_in s i) + length (pn_fe_out s i) + inner s i"

definition carried :: "(frame \<Rightarrow> msg \<Rightarrow> bool) \<Rightarrow> frame \<Rightarrow> msg list \<Rightarrow> nat" where
  "carried asks i Q = length (filter (asks i) Q)"

definition at_workers :: "(frame \<Rightarrow> msg \<Rightarrow> bool) \<Rightarrow> (nat \<Rightarrow> frame) \<Rightarrow> nat \<Rightarrow> (frame \<Rightarrow> msg list) \<Rightarrow> (frame \<Rightarrow> msg list) \<Rightarrow> frame \<Rightarrow> nat" where
  "at_workers asks wid W ins outs i = (\<Sum>w < W. carried asks i (ins (wid w)) + carried asks i (outs (wid w)))"

definition client_ok :: "(nat \<Rightarrow> nat \<Rightarrow> frame) \<Rightarrow> ('a lp_front_scheme \<Rightarrow> frame \<Rightarrow> nat) \<Rightarrow> 'a lp_front_scheme \<Rightarrow> nat \<Rightarrow> bool" where
  "client_ok cid inner s n \<longleftrightarrow>
     (case pn_client s n of
        None \<Rightarrow> pn_gen s n = 0 \<and> pn_got s n = [] \<and> in_flight inner s (cid n 0) = 0
      | Some c \<Rightarrow> lp_sequence (ctl_state c) = int (length (pn_got s n)) + 1)
     \<and> pn_got s n = map (\<lambda>k. int_string (int k)) [1..<Suc (length (pn_got s n))]
     \<and> (\<forall>g. in_flight inner s (cid n g) \<le> 1) \<and> (\<forall>g > pn_gen s n. in_flight inner s (cid n g) = 0)"

definition front_ok :: "(frame \<Rightarrow> frame \<Rightarrow> bool) \<Rightarrow> (frame \<Rightarrow> msg list) \<Rightarrow> bool" where
  "front_ok cur Q \<longleftrightarrow> (\<forall>i. \<forall>m \<in> set (Q i). \<exists>str. m = [[], str] \<and> cur i str)"

definition clients_inv :: "(nat \<Rightarrow> nat \<Rightarrow> frame) \<Rightarrow> nat \<Rightarrow> ('a lp_front_scheme \<Rightarrow> frame \<Rightarrow> nat)
    \<Rightarrow> ((frame \<Rightarrow> frame \<Rightarrow> bool) \<Rightarrow> 'a lp_front_scheme \<Rightarrow> bool) \<Rightarrow> 'a lp_front_scheme \<Rightarrow> bool" where
  "clients_inv cid N inner inside s \<longleftrightarrow>
     front_ok (current cid N s) (pn_fe_in s) \<and> front_ok (current cid N s) (pn_fe_out s)
     \<and> inside (current cid N s) s \<and> (\<forall>n < N. client_ok cid inner s n)"

text \<open>A client fails only at the end of the range of its counter.\<close>

definition client_faults :: "nat \<Rightarrow> 'a lp_front_scheme \<Rightarrow> bool" where
  "client_faults N s \<longleftrightarrow> (\<exists>n < N. 2 ^ 31 - 2 \<le> length (pn_got s n))"

lemma current_same: "pn_client t = pn_client s \<Longrightarrow> pn_gen t = pn_gen s \<Longrightarrow> current cid N t = current cid N s"
  by (intro ext) (simp add: current_def)

lemma carried_simps [simp]: "carried asks i [] = 0"
  "carried asks i (m # ms) = (if asks i m then Suc (carried asks i ms) else carried asks i ms)"
  "carried asks i (ms @ ns) = carried asks i ms + carried asks i ns"
  by (simp_all add: carried_def)

lemma carried_member: "m \<in> set Q \<Longrightarrow> asks i m \<Longrightarrow> 1 \<le> carried asks i Q"
  using length_pos_if_in_set [of m "filter (asks i) Q"] unfolding carried_def by (simp add: Suc_le_eq)

lemma at_workers_empty: "(\<And>p. ins p = []) \<Longrightarrow> (\<And>p. outs p = []) \<Longrightarrow> at_workers asks wid W ins outs i = 0"
  by (simp add: at_workers_def)

lemma at_workers_member:
  assumes "w < W" and "m \<in> set (ins (wid w)) \<union> set (outs (wid w))" and "asks i m"
  shows "1 \<le> at_workers asks wid W ins outs i"
proof -
  have "1 \<le> carried asks i (ins (wid w)) + carried asks i (outs (wid w))"
    using assms(2) carried_member [where asks = asks and i = i and m = m, OF _ assms(3)] by fastforce
  also have "\<dots> \<le> at_workers asks wid W ins outs i"
    unfolding at_workers_def using assms(1)
    by (intro member_le_sum [where f = "\<lambda>w. carried asks i (ins (wid w)) + carried asks i (outs (wid w))"]) simp_all
  finally show ?thesis .
qed

lemma at_workers_change:
  assumes "w < W" and "inj_on wid {..<W}" and "\<And>p. p \<noteq> wid w \<Longrightarrow> ins' p = ins p \<and> outs' p = outs p"
  shows "at_workers asks wid W ins' outs' i + (carried asks i (ins (wid w)) + carried asks i (outs (wid w))) =
    at_workers asks wid W ins outs i + (carried asks i (ins' (wid w)) + carried asks i (outs' (wid w)))"
  unfolding at_workers_def
proof (rule sum_change_at [OF assms(1)])
  fix v
  assume "v < W" "v \<noteq> w"
  then have "wid v \<noteq> wid w" using assms(1,2) by (auto simp: inj_on_def)
  with assms(3) show "carried asks i (ins' (wid v)) + carried asks i (outs' (wid v)) =
      carried asks i (ins (wid v)) + carried asks i (outs (wid v))" by simp
qed

subsection \<open>What a client does with well-formed messages\<close>

lemma lp_starts: "lp_request lp_init = Inr (Next \<lparr>lp_sequence = 1, lp_retries_left = 3\<rparr>, [LpSend (int_string 1)])"
  by (simp add: lp_request_def lp_init_def retries_allowed_def)

lemma lp_answered:
  assumes "lp_sequence l \<noteq> 2 ^ 31 - 1"
  shows "lp_step (Some (Part (int_string (lp_sequence l)) False)) l =
    Inr (Next \<lparr>lp_sequence = lp_sequence l + 1, lp_retries_left = 3\<rparr>, [LpSend (int_string (lp_sequence l + 1))])"
  using assms by (simp add: lp_step_def lp_request_def Let_def retries_allowed_def)

lemma lp_overflows:
  "lp_sequence l = 2 ^ 31 - 1 \<Longrightarrow> lp_step (Some (Part (int_string (lp_sequence l)) False)) l = Inl Undefined"
  by (simp add: lp_step_def lp_request_def Let_def retries_allowed_def)

lemma lp_times_out: "lp_step None l = (let l' = l\<lparr>lp_retries_left := lp_retries_left l - 1\<rparr>
   in if lp_retries_left l = 1 then Inr (Halt l', [])
      else Inr (Next l', [LpConnect, LpSend (int_string (lp_sequence l))]))"
  by (simp add: lp_step_def lp_request_def Let_def)

lemma client_moves_send:
  "client_moves Z cid n r (c, [LpSend str]) s = s\<lparr>pn_client := (pn_client s)(n := Some c), pn_gen := (pn_gen s)(n := pn_gen s n),
    pn_got := (pn_got s)(n := pn_got s n @ r), pn_fe_in := enqueue (cid n (pn_gen s n)) (req_out Z [str]) (pn_fe_in s)\<rparr>"
  "client_moves Z cid n r (c, [LpConnect, LpSend str]) s = s\<lparr>pn_client := (pn_client s)(n := Some c), pn_gen := (pn_gen s)(n := Suc (pn_gen s n)),
    pn_got := (pn_got s)(n := pn_got s n @ r), pn_fe_in := enqueue (cid n (Suc (pn_gen s n))) (req_out Z [str]) (pn_fe_in s)\<rparr>"
  "client_moves Z cid n [] (c, []) s = s\<lparr>pn_client := (pn_client s)(n := Some c)\<rparr>"
  by (simp_all add: client_moves_def del: fun_upd_apply)

lemma client_moves_fault: "pn_fault (client_moves Z cid n r x s) = pn_fault s"
  "length (pn_got s k) \<le> length (pn_got (client_moves Z cid n r x s) k)"
proof -
  obtain g Q where gQ: "lp_does Z (cid n) (snd x) (pn_gen s n, pn_fe_in s) = (g, Q)"
    by (cases "lp_does Z (cid n) (snd x) (pn_gen s n, pn_fe_in s)") auto
  show "pn_fault (client_moves Z cid n r x s) = pn_fault s"
    "length (pn_got s k) \<le> length (pn_got (client_moves Z cid n r x s) k)"
    by (simp_all add: client_moves_def gQ)
qed

lemma client_faults_keep:
  assumes "client_faults N s" and "\<And>n. length (pn_got s n) \<le> length (pn_got t n)"
  shows "client_faults N t"
  using assms order_trans unfolding client_faults_def by blast

lemma next_answer:
  "r = map (\<lambda>k. int_string (int k)) [1..<Suc (length r)] \<Longrightarrow> r' = r @ [int_string (int (length r) + 1)] \<Longrightarrow>
    r' = map (\<lambda>k. int_string (int k)) [1..<Suc (length r')]"
  by (simp add: add.commute)

lemma front_ok_upd: "front_ok c Q \<Longrightarrow> \<forall>m \<in> set ms. \<exists>str. m = [[], str] \<and> c i str \<Longrightarrow> front_ok c (Q(i := ms))"
  by (auto simp: front_ok_def)

lemma front_ok_subset: "front_ok c Q \<Longrightarrow> set ms \<subseteq> set (Q i) \<Longrightarrow> front_ok c (Q(i := ms))"
  by (intro front_ok_upd) (auto simp: front_ok_def)

lemma front_ok_enqueue: "front_ok c Q \<Longrightarrow> c i str \<Longrightarrow> front_ok c (enqueue i [[], str] Q)"
  unfolding enqueue_def by (intro front_ok_upd) (auto simp: front_ok_def)

subsection \<open>What the clients ask of the rest\<close>

locale lp_clients =
  fixes Z :: zmq_envelope and cid :: "nat \<Rightarrow> nat \<Rightarrow> frame" and N :: nat
    and inner :: "'a lp_front_scheme \<Rightarrow> frame \<Rightarrow> nat"
    and inside :: "(frame \<Rightarrow> frame \<Rightarrow> bool) \<Rightarrow> 'a lp_front_scheme \<Rightarrow> bool"
  assumes zmq_law: "zmq_contract Z"
    and cid_law: "n < N \<Longrightarrow> n' < N \<Longrightarrow> cid n g = cid n' g' \<longleftrightarrow> n = n' \<and> g = g'"
    and inner_client: "inner (s\<lparr>pn_client := c, pn_gen := gs, pn_got := r, pn_fe_in := qi, pn_fe_out := qo, pn_fault := f\<rparr>) = inner s"
    and inside_client: "inside cur (s\<lparr>pn_client := c, pn_gen := gs, pn_got := r, pn_fe_in := qi, pn_fe_out := qo, pn_fault := f\<rparr>) = inside cur s"
    and inside_mono: "inside cur s \<Longrightarrow> (\<And>i str. 1 \<le> inner s i \<Longrightarrow> cur i str \<Longrightarrow> cur' i str) \<Longrightarrow> inside cur' s"
begin

lemmas envelope [simp] = zmq_contractD [OF zmq_law]

abbreviation "good \<equiv> clients_inv cid N inner inside"
abbreviation "fl \<equiv> in_flight inner"
abbreviation "cur \<equiv> current cid N"

lemma rest_same [simp]:
  "inner (s\<lparr>pn_fe_in := qi\<rparr>) = inner s" "inner (s\<lparr>pn_fe_out := qo\<rparr>) = inner s" "inner (s\<lparr>pn_fault := f\<rparr>) = inner s"
  "inner (s\<lparr>pn_client := c\<rparr>) = inner s"
  "inner (s\<lparr>pn_client := c, pn_gen := g, pn_got := r\<rparr>) = inner s"
  "inside k (s\<lparr>pn_fe_in := qi\<rparr>) = inside k s" "inside k (s\<lparr>pn_fe_out := qo\<rparr>) = inside k s" "inside k (s\<lparr>pn_fault := f\<rparr>) = inside k s"
  "inside k (s\<lparr>pn_client := c\<rparr>) = inside k s"
  "inside k (s\<lparr>pn_client := c, pn_gen := g, pn_got := r\<rparr>) = inside k s"
  using inner_client [where s = s and c = "pn_client s" and gs = "pn_gen s" and r = "pn_got s" and qi = qi and qo = "pn_fe_out s" and f = "pn_fault s"]
    inner_client [where s = s and c = "pn_client s" and gs = "pn_gen s" and r = "pn_got s" and qi = "pn_fe_in s" and qo = qo and f = "pn_fault s"]
    inner_client [where s = s and c = "pn_client s" and gs = "pn_gen s" and r = "pn_got s" and qi = "pn_fe_in s" and qo = "pn_fe_out s" and f = f]
    inner_client [where s = s and c = c and gs = "pn_gen s" and r = "pn_got s" and qi = "pn_fe_in s" and qo = "pn_fe_out s" and f = "pn_fault s"]
    inner_client [where s = s and c = c and gs = g and r = r and qi = "pn_fe_in s" and qo = "pn_fe_out s" and f = "pn_fault s"]
    inside_client [where cur = k and s = s and c = "pn_client s" and gs = "pn_gen s" and r = "pn_got s" and qi = qi and qo = "pn_fe_out s" and f = "pn_fault s"]
    inside_client [where cur = k and s = s and c = "pn_client s" and gs = "pn_gen s" and r = "pn_got s" and qi = "pn_fe_in s" and qo = qo and f = "pn_fault s"]
    inside_client [where cur = k and s = s and c = "pn_client s" and gs = "pn_gen s" and r = "pn_got s" and qi = "pn_fe_in s" and qo = "pn_fe_out s" and f = f]
    inside_client [where cur = k and s = s and c = c and gs = "pn_gen s" and r = "pn_got s" and qi = "pn_fe_in s" and qo = "pn_fe_out s" and f = "pn_fault s"]
    inside_client [where cur = k and s = s and c = c and gs = g and r = r and qi = "pn_fe_in s" and qo = "pn_fe_out s" and f = "pn_fault s"] by simp_all

text \<open>A message under way counts.\<close>

lemma fl_front: "m \<in> set (pn_fe_in s i) \<union> set (pn_fe_out s i) \<Longrightarrow> 1 \<le> fl s i"
  using length_pos_if_in_set [of m "pn_fe_in s i"] length_pos_if_in_set [of m "pn_fe_out s i"]
  unfolding in_flight_def Un_iff by linarith

lemma invD:
  assumes "good s"
  shows "front_ok (cur s) (pn_fe_in s)" "front_ok (cur s) (pn_fe_out s)" "inside (cur s) s"
    "n < N \<Longrightarrow> client_ok cid inner s n"
  using assms by (simp_all add: clients_inv_def)

lemma clientD:
  assumes "good s" and "n < N"
  shows "pn_client s n = None \<Longrightarrow> pn_gen s n = 0 \<and> pn_got s n = [] \<and> fl s (cid n 0) = 0"
    "pn_client s n = Some c \<Longrightarrow> lp_sequence (ctl_state c) = int (length (pn_got s n)) + 1"
    "pn_got s n = map (\<lambda>k. int_string (int k)) [1..<Suc (length (pn_got s n))]"
    "fl s (cid n g) \<le> 1" "pn_gen s n < g \<Longrightarrow> fl s (cid n g) = 0"
  using invD(4) [OF assms] unfolding client_ok_def by (simp_all del: upt_Suc)

lemma good_start:
  assumes "\<And>n. pn_client s n = None" "\<And>n. pn_gen s n = 0" "\<And>n. pn_got s n = []" "\<And>i. pn_fe_in s i = []" "\<And>i. pn_fe_out s i = []"
    and "\<And>i. inner s i = 0" "inside (cur s) s"
  shows "good s"
  using assms by (simp add: clients_inv_def front_ok_def client_ok_def in_flight_def)

text \<open>What the clients have read.\<close>

lemma answers:
  assumes "good s" and "n < N"
  shows "pn_got s n = map (\<lambda>k. int_string (int k)) [1..<Suc (length (pn_got s n))]
    \<and> (\<forall>c. pn_client s n = Some c \<longrightarrow> lp_sequence (ctl_state c) = int (length (pn_got s n)) + 1)"
  using clientD(2,3) [OF assms] by blast

text \<open>Steps that move or lose messages without making new ones, and leave the clients alone.\<close>

lemma inv_move:
  assumes good: "good s" and same: "pn_client t = pn_client s" "pn_gen t = pn_gen s" "pn_got t = pn_got s"
    and ok: "front_ok (cur s) (pn_fe_in t)" "front_ok (cur s) (pn_fe_out t)" "inside (cur s) t"
    and le: "\<And>i. fl t i \<le> fl s i"
  shows "good t"
proof -
  have "client_ok cid inner t n" if n: "n < N" for n
  proof -
    have c: "client_ok cid inner s n" using good n by (simp add: clients_inv_def)
    have "fl t (cid n g) \<le> 1" "pn_gen s n < g \<Longrightarrow> fl t (cid n g) = 0" for g
      using c le [of "cid n g"] order_trans by (fastforce simp: client_ok_def)+
    moreover have "fl s (cid n 0) = 0 \<Longrightarrow> fl t (cid n 0) = 0" using le [of "cid n 0"] by simp
    ultimately show ?thesis using c by (auto simp: client_ok_def same split: option.splits)
  qed
  with ok show ?thesis by (simp add: clients_inv_def current_same [OF same(1,2)])
qed

lemma good_fault: "good s \<Longrightarrow> good (s\<lparr>pn_fault := f\<rparr>)"
  by (rule inv_move [of s]) (simp_all add: invD in_flight_def)

lemma good_drops:
  assumes g: "good s" and "set ms \<subseteq> set (pn_fe_in s i)" "length ms \<le> length (pn_fe_in s i)"
  shows "good (s\<lparr>pn_fe_in := (pn_fe_in s)(i := ms)\<rparr>)"
  by (rule inv_move [OF g]) (use assms in \<open>simp_all add: invD front_ok_subset in_flight_def\<close>)

lemma good_drops_answer:
  assumes g: "good s" and "set ms \<subseteq> set (pn_fe_out s i)" "length ms \<le> length (pn_fe_out s i)"
  shows "good (s\<lparr>pn_fe_out := (pn_fe_out s)(i := ms)\<rparr>)"
  by (rule inv_move [OF g]) (use assms in \<open>simp_all add: invD front_ok_subset in_flight_def\<close>)

text \<open>A client sends on a socket that has nothing under way: the one it has, or a new one.\<close>

lemma good_sends:
  assumes good: "good s" and n: "n < N" and free: "fl s (cid n g) = 0" and g: "pn_gen s n \<le> g"
    and seq: "lp_sequence (ctl_state c) = int (length r) + 1" and r: "r = map (\<lambda>k. int_string (int k)) [1..<Suc (length r)]"
  shows "good (s\<lparr>pn_client := (pn_client s)(n := Some c), pn_gen := (pn_gen s)(n := g), pn_got := (pn_got s)(n := r),
    pn_fe_in := enqueue (cid n g) [[], int_string (lp_sequence (ctl_state c))] (pn_fe_in s)\<rparr>)" (is "good ?u")
proof -
  define t where "t = ?u"
  have t: "pn_client t = (pn_client s)(n := Some c)" "pn_gen t = (pn_gen s)(n := g)" "pn_got t = (pn_got s)(n := r)"
    "pn_fe_in t = enqueue (cid n g) [[], int_string (lp_sequence (ctl_state c))] (pn_fe_in s)" "pn_fe_out t = pn_fe_out s"
    "inner t = inner s" "inside k t = inside k s" for k
    by (simp_all add: t_def)
  let ?i = "cid n g"
  have old: "cur t i str" if "1 \<le> fl s i" "cur s i str" for i str
  proof -
    from that(2) obtain n' g' c' where c': "n' < N" "g' \<le> pn_gen s n'" "i = cid n' g'" "pn_client s n' = Some c'"
      "g' = pn_gen s n' \<longrightarrow> str = int_string (lp_sequence (ctl_state c'))" unfolding current_def by blast
    have "i \<noteq> ?i" using that(1) free by auto
    then have "n' = n \<Longrightarrow> g' < g" using c'(2,3) g by (metis le_neq_implies_less order_trans)
    with c' show ?thesis unfolding current_def by (intro exI [of _ n'] conjI exI [of _ g']) (auto simp: t)
  qed
  have new: "cur t ?i (int_string (lp_sequence (ctl_state c)))"
    unfolding current_def using n by (intro exI [of _ n] conjI exI [of _ g] exI [of _ c]) (auto simp: t)
  have fl: "fl t i = fl s i + (if i = ?i then 1 else 0)" for i
    by (cases "i = ?i") (simp_all add: t enqueue_def in_flight_def)
  have msgs: "\<exists>str. m = [[], str] \<and> cur t i str" if "m \<in> set (pn_fe_in s i) \<union> set (pn_fe_out s i)" for i m
    using that invD(1,2) [OF good] old [OF fl_front [OF that]] unfolding front_ok_def by blast
  have "front_ok (cur t) (pn_fe_in t)" using msgs new unfolding front_ok_def by (auto simp: t enqueue_def)
  moreover have "front_ok (cur t) (pn_fe_out t)" using msgs unfolding front_ok_def by (auto simp: t)
  moreover have "inside (cur t) t"
    unfolding t(7) by (rule inside_mono [OF invD(3) [OF good]]) (rule old, simp_all add: in_flight_def)
  moreover have "client_ok cid inner t k" if k: "k < N" for k
  proof (cases "k = n")
    case True
    have "fl s (cid n h) \<le> 1" "pn_gen s n < h \<Longrightarrow> fl s (cid n h) = 0" for h
      using invD(4) [OF good n] by (simp_all add: client_ok_def)
    with free g seq r cid_law [OF n n] True show ?thesis by (auto simp: client_ok_def fl t)
  next
    case False
    then have "pn_client t k = pn_client s k" "pn_gen t k = pn_gen s k" "pn_got t k = pn_got s k"
      "fl t (cid k h) = fl s (cid k h)" for h
      using cid_law [OF k n] by (simp_all add: t fl)
    with invD(4) [OF good k] show ?thesis by (cases "pn_client s k") (simp_all add: client_ok_def)
  qed
  ultimately have "good t" by (simp add: clients_inv_def)
  then show ?thesis by (simp only: t_def)
qed

text \<open>A client that gives up.\<close>

lemma good_gives_up:
  assumes good: "good s" and n: "n < N" and c: "pn_client s n = Some c" and seq: "lp_sequence (ctl_state d) = lp_sequence (ctl_state c)"
  shows "good (s\<lparr>pn_client := (pn_client s)(n := Some d)\<rparr>)" (is "good ?t")
proof -
  have at: "(\<exists>c'. pn_client ?t k = Some c' \<and> (A \<longrightarrow> str = int_string (lp_sequence (ctl_state c')))) =
      (\<exists>c'. pn_client s k = Some c' \<and> (A \<longrightarrow> str = int_string (lp_sequence (ctl_state c'))))" for k A str
    by (cases "k = n") (simp_all add: c seq)
  have gen: "pn_gen ?t = pn_gen s" by simp
  have cur: "cur ?t = cur s" by (intro ext) (simp only: current_def at gen)
  have fl: "fl ?t i = fl s i" for i by (simp add: in_flight_def)
  have "client_ok cid inner ?t k" if "k < N" for k
    using invD(4) [OF good that] c seq by (cases "k = n") (auto simp: client_ok_def fl split: option.splits)
  with invD(1,2,3) [OF good] show ?thesis by (simp add: clients_inv_def cur)
qed

subsection \<open>The steps of a client\<close>

lemma good_starts:
  assumes g: "good s" and n: "n < N" "pn_client s n = None"
  shows "lp_request lp_init = Inr r \<Longrightarrow> good (client_moves Z cid n [] r s)"
  using clientD(1) [OF g n] good_sends [where g = 0 and r = "[]" and c = "Next \<lparr>lp_sequence = 1, lp_retries_left = 3\<rparr>", OF g n(1)]
  by (auto simp: lp_starts client_moves_send(1) simp del: fun_upd_apply)

lemma good_gets:
  assumes g: "good s" and n: "n < N" "pn_client s n = Some (Next l)" and m: "pn_fe_out s (cid n (pn_gen s n)) = m # ms"
    and e: "arrives (req_in Z m) = e # es"
  shows "lp_step (Some e) l = Inl Undefined \<and> lp_sequence l = 2 ^ 31 - 1
    \<or> (\<exists>r. lp_step (Some e) l = Inr r \<and> good (client_moves Z cid n (take 1 (req_in Z m)) r
      (s\<lparr>pn_fe_out := (pn_fe_out s)(cid n (pn_gen s n) := ms)\<rparr>)))"
proof -
  let ?i = "cid n (pn_gen s n)" and ?s = "s\<lparr>pn_fe_out := (pn_fe_out s)(cid n (pn_gen s n) := ms)\<rparr>"
  from invD(2) [OF g] m obtain str where mm: "m = [[], str]" and c: "cur s ?i str"
    unfolding front_ok_def by (metis list.set_intros(1))
  have str: "str = int_string (lp_sequence l)"
    using c n(2) unfolding current_def by (auto dest!: iffD1 [OF cid_law [OF n(1)], rotated])
  have ev: "e = Part (int_string (lp_sequence l)) False" using e by (simp add: mm str arrives_def)
  have gs: "good ?s" by (rule good_drops_answer [OF g]) (simp_all add: m subset_insertI)
  note seq = clientD(2) [OF g n] and got = clientD(3) [OF g n(1)]
  have "Suc (fl ?s ?i) = fl s ?i" by (simp add: in_flight_def m)
  with clientD(4) [OF g n(1), of "pn_gen s n"] have free: "fl ?s ?i = 0" by simp
  show ?thesis
  proof (cases "lp_sequence l = 2 ^ 31 - 1")
    case True
    with lp_overflows [OF True] show ?thesis by (simp add: ev)
  next
    case False
    let ?l = "Next \<lparr>lp_sequence = lp_sequence l + 1, lp_retries_left = 3\<rparr>"
    have "good (?s\<lparr>pn_client := (pn_client ?s)(n := Some ?l), pn_gen := (pn_gen ?s)(n := pn_gen ?s n), pn_got := (pn_got ?s)(n := pn_got ?s n @ [str]),
        pn_fe_in := enqueue (cid n (pn_gen ?s n)) [[], int_string (lp_sequence (ctl_state ?l))] (pn_fe_in ?s)\<rparr>)"
    proof (rule good_sends [OF gs n(1)])
      show "fl ?s (cid n (pn_gen ?s n)) = 0" using free by simp
      show "lp_sequence (ctl_state ?l) = int (length (pn_got ?s n @ [str])) + 1" using seq by simp
      show "pn_got ?s n @ [str] = map (\<lambda>k. int_string (int k)) [1..<Suc (length (pn_got ?s n @ [str]))]"
        by (rule next_answer [OF got]) (use seq in \<open>simp add: str\<close>)
    qed simp
    moreover have "take 1 (req_in Z m) = [str]" by (simp add: mm)
    ultimately have "good (client_moves Z cid n (take 1 (req_in Z m)) (?l, [LpSend (int_string (lp_sequence l + 1))]) ?s)"
      by (simp only: client_moves_send(1) ctl_state.simps lpc.simps envelope)
    with lp_answered [OF False] ev show ?thesis by blast
  qed
qed

lemma good_times_out:
  assumes g: "good s" and n: "n < N" "pn_client s n = Some (Next l)" and r: "lp_step None l = Inr r"
  shows "good (client_moves Z cid n [] r s)"
proof (cases "lp_retries_left l = 1")
  case True
  with r have "r = (Halt (l\<lparr>lp_retries_left := 0\<rparr>), [])" by (simp add: lp_times_out Let_def)
  with good_gives_up [OF g n] show ?thesis by (simp add: client_moves_send(3))
next
  case False
  let ?l = "Next (l\<lparr>lp_retries_left := lp_retries_left l - 1\<rparr>)"
  from False r have r: "r = (?l, [LpConnect, LpSend (int_string (lp_sequence l))])" by (simp add: lp_times_out Let_def)
  have "good (s\<lparr>pn_client := (pn_client s)(n := Some ?l), pn_gen := (pn_gen s)(n := Suc (pn_gen s n)), pn_got := (pn_got s)(n := pn_got s n @ []),
      pn_fe_in := enqueue (cid n (Suc (pn_gen s n))) [[], int_string (lp_sequence (ctl_state ?l))] (pn_fe_in s)\<rparr>)"
  proof (rule good_sends [OF g n(1)])
    show "fl s (cid n (Suc (pn_gen s n))) = 0" by (rule clientD(5) [OF g n(1)]) simp
    show "lp_sequence (ctl_state ?l) = int (length (pn_got s n @ [])) + 1" using clientD(2) [OF g n] by simp
    show "pn_got s n @ [] = map (\<lambda>k. int_string (int k)) [1..<Suc (length (pn_got s n @ []))]" using clientD(3) [OF g n(1)] by simp
  qed simp
  then show ?thesis unfolding r client_moves_send(2) by simp
qed

text \<open>All of them: the invariant is kept, and a fault is that of a counter at its end.\<close>

lemma client_step_keeps:
  assumes g: "good s" and st: "client_step Z cid N s t"
  shows "good t \<and> (\<forall>n. length (pn_got s n) \<le> length (pn_got t n))
    \<and> (pn_fault t = pn_fault s \<or> pn_fault t = Some Undefined \<and> client_faults N t)"
  using st
proof cases
  case (client_starts n r)
  with good_starts [OF g client_starts(2,3,4)] show ?thesis by (simp add: client_moves_fault)
next
  case (client_gets n l m ms e es r)
  have "length (pn_got s k) \<le> length (pn_got t k)" for k
    using client_moves_fault(2) [of "s\<lparr>pn_fe_out := (pn_fe_out s)(cid n (pn_gen s n) := ms)\<rparr>" k] client_gets(1) by simp
  with good_gets [OF g client_gets(2,3,4,5)] client_gets(1,6) show ?thesis by (auto simp: client_moves_fault)
next
  case (client_times_out n l r)
  with good_times_out [OF g client_times_out(2,3,4)] show ?thesis by (simp add: client_moves_fault)
next
  case (client_fails n l m ms e es f)
  with good_gets [OF g client_fails(2,3,4,5)] have f: "f = Undefined" "lp_sequence l = 2 ^ 31 - 1" by auto
  with clientD(2) [OF g client_fails(2,3)] have "2 ^ 31 - 2 \<le> length (pn_got s n)" by simp
  with f g client_fails(1,2) show ?thesis by (auto simp: client_faults_def intro: good_fault)
next
  case (request_lost n g' m ms)
  have "good t" unfolding request_lost(1) by (rule good_drops [OF g]) (simp_all add: request_lost(4) subset_insertI)
  with request_lost(1) show ?thesis by simp
qed

end

text \<open>Identities for the witnesses: sockets are numbered.\<close>

definition pirate_cid :: "nat \<Rightarrow> nat \<Rightarrow> frame" where
  "pirate_cid n g = replicate n (CHR ''x'') @ CHR ''-'' # replicate g (CHR ''y'')"

lemma pirate_cid_inject: "pirate_cid n g = pirate_cid n' g' \<longleftrightarrow> n = n' \<and> g = g'"
proof
  assume eq: "pirate_cid n g = pirate_cid n' g'"
  have "takeWhile (\<lambda>c. c = CHR ''x'') (pirate_cid n g) = replicate n (CHR ''x'')" for n g
    unfolding pirate_cid_def by (induction n) simp_all
  with eq have "n = n'" by (metis length_replicate)
  with eq show "n = n' \<and> g = g'" by (simp add: pirate_cid_def)
qed simp

lemma pirate_cid_text: "pirate_cid n g \<noteq> ''READY''"
  by (cases n) (simp_all add: pirate_cid_def)

end
