(* ===== verification/PirateNet.thy ===== *)
theory PirateNet
  imports SPQueue PirateClients
begin

text \<open>
  The simple pirate pattern as a system: lazy pirate clients (\<open>client-side-reliability/lpclient.cpp\<close>)
  in front of the queue and the workers of \<open>basic-reliable-queuing\<close>. Workers crash in the middle
  of a request. The lemmas: each worker is in one place, and the queue and its workers meet what the
  clients' interface asks for.
\<close>

subsection \<open>Queue and workers\<close>

text \<open>A worker is \<open>None\<close> before its READY, and holds its counter.\<close>

record pirate = lp_front +
  pn_queue :: spq
  pn_be_in :: "frame \<Rightarrow> msg list"
  pn_be_out :: "frame \<Rightarrow> msg list"
  pn_worker :: "nat \<Rightarrow> int ctl option"

definition pirate_init :: pirate where
  "pirate_init = \<lparr>pn_client = (\<lambda>_. None), pn_gen = (\<lambda>_. 0), pn_got = (\<lambda>_. []), pn_fe_in = (\<lambda>_. []),
     pn_fe_out = (\<lambda>_. []), pn_fault = None, pn_queue = [], pn_be_in = (\<lambda>_. []),
     pn_be_out = (\<lambda>_. []), pn_worker = (\<lambda>_. None)\<rparr>"

fun spw_does :: "zmq_envelope \<Rightarrow> frame \<Rightarrow> spw_act list \<Rightarrow> (frame \<Rightarrow> msg list) \<Rightarrow> (frame \<Rightarrow> msg list)" where
  "spw_does Z w [] Q = Q"
| "spw_does Z w (SpwSleep t # as) Q = spw_does Z w as Q"
| "spw_does Z w (SpwSend ps # as) Q = spw_does Z w as (enqueue w (req_out Z (map fst ps)) Q)"

text \<open>The queue polls its clients only while it holds a worker.\<close>

definition spq_polls :: "pirate \<Rightarrow> (frame \<times> msg) option \<Rightarrow> (frame \<Rightarrow> msg list) \<Rightarrow> bool" where
  "spq_polls s rf fe \<longleftrightarrow> takes (pn_fe_in s) rf fe \<and> (pn_queue s = [] \<longrightarrow> rf = None)"

definition spq_input :: "zmq_envelope \<Rightarrow> (frame \<times> msg) option \<Rightarrow> (frame \<times> msg) option \<Rightarrow> poll_in" where
  "spq_input Z rb rf = \<lparr>poll_be = map_option (\<lambda>(p, m). arrives (router_in Z p m)) rb,
     poll_fe = map_option (\<lambda>(p, m). arrives (router_in Z p m)) rf\<rparr>"

inductive pirate_step :: "zmq_envelope \<Rightarrow> (nat \<Rightarrow> nat \<Rightarrow> frame) \<Rightarrow> (nat \<Rightarrow> frame) \<Rightarrow> nat \<Rightarrow> nat \<Rightarrow> pirate \<Rightarrow> pirate \<Rightarrow> bool"
  for Z cid wid N W where
  pirate_client: "client_step Z cid N s t \<Longrightarrow> pirate_step Z cid wid N W s t"
| worker_greets: "w < W \<Longrightarrow> pn_worker s w = None \<Longrightarrow>
    pirate_step Z cid wid N W s (s\<lparr>pn_worker := (pn_worker s)(w := Some (Next 0)),
      pn_be_in := enqueue (wid w) (req_out Z (map fst spw_ready)) (pn_be_in s)\<rparr>)"
| worker_serves: "w < W \<Longrightarrow> pn_worker s w = Some (Next cycles) \<Longrightarrow> pn_be_out s (wid w) = m # ms \<Longrightarrow>
    spw_step \<lparr>spw_request = arrives (req_in Z m), spw_crash = crash, spw_slow = slow\<rparr> cycles = Inr (c, os) \<Longrightarrow>
    pirate_step Z cid wid N W s (s\<lparr>pn_worker := (pn_worker s)(w := Some c),
      pn_be_in := spw_does Z (wid w) os (pn_be_in s), pn_be_out := (pn_be_out s)(wid w := ms)\<rparr>)"
| worker_fails: "w < W \<Longrightarrow> pn_worker s w = Some (Next cycles) \<Longrightarrow> pn_be_out s (wid w) = m # ms \<Longrightarrow>
    spw_step \<lparr>spw_request = arrives (req_in Z m), spw_crash = crash, spw_slow = slow\<rparr> cycles = Inl f \<Longrightarrow>
    pirate_step Z cid wid N W s (s\<lparr>pn_fault := Some f\<rparr>)"
| queue_loops: "takes (pn_be_in s) rb be \<Longrightarrow> spq_polls s rf fe \<Longrightarrow> rb \<noteq> None \<or> rf \<noteq> None \<Longrightarrow>
    spq_step (spq_input Z rb rf) (pn_queue s) = Inr (c, os) \<Longrightarrow>
    pirate_step Z cid wid N W s (s\<lparr>pn_queue := ctl_state c, pn_be_in := be, pn_fe_in := fe,
      pn_fe_out := router_sends Z (sent_on Frontend os) (pn_fe_out s),
      pn_be_out := router_sends Z (sent_on Backend os) (pn_be_out s)\<rparr>)"
| queue_fails: "takes (pn_be_in s) rb be \<Longrightarrow> spq_polls s rf fe \<Longrightarrow>
    spq_step (spq_input Z rb rf) (pn_queue s) = Inl f \<Longrightarrow>
    pirate_step Z cid wid N W s (s\<lparr>pn_fault := Some f\<rparr>)"

subsection \<open>Where the workers are\<close>

text \<open>A request of socket \<open>i\<close> at a worker.\<close>

definition spq_asks :: "frame \<Rightarrow> msg \<Rightarrow> bool" where
  "spq_asks i m \<longleftrightarrow> length m = 4 \<and> m ! 1 = i"

definition with_worker :: "(nat \<Rightarrow> frame) \<Rightarrow> pirate \<Rightarrow> frame \<Rightarrow> nat \<Rightarrow> nat" where
  "with_worker wid s i w = carried spq_asks i (pn_be_in s (wid w)) + carried spq_asks i (pn_be_out s (wid w))"

definition pirate_inner :: "(nat \<Rightarrow> frame) \<Rightarrow> nat \<Rightarrow> pirate \<Rightarrow> frame \<Rightarrow> nat" where
  "pirate_inner wid W s = at_workers spq_asks wid W (pn_be_in s) (pn_be_out s)"

text \<open>A worker is in the queue, or has reported, or has a request, or is not there.\<close>

definition request_ok :: "(frame \<Rightarrow> frame \<Rightarrow> bool) \<Rightarrow> msg \<Rightarrow> bool" where
  "request_ok cur m \<longleftrightarrow> (\<exists>i str. m = [[], i, [], str] \<and> cur i str)"

inductive worker_ok :: "(frame \<Rightarrow> frame \<Rightarrow> bool) \<Rightarrow> bool \<Rightarrow> msg list \<Rightarrow> msg list \<Rightarrow> int ctl option \<Rightarrow> bool" for cur where
  worker_waits: "worker_ok cur True [] [] (Some (Next k))"
| worker_greeted: "worker_ok cur False [[[], ''READY'']] [] (Some (Next k))"
| worker_answered: "request_ok cur m \<Longrightarrow> worker_ok cur False [m] [] (Some (Next k))"
| worker_asked: "request_ok cur m \<Longrightarrow> worker_ok cur False [] [m] (Some (Next k))"
| worker_absent: "worker_ok cur False [] [] None"
| worker_crashed: "worker_ok cur False [] [] (Some (Halt k))"

definition workers_ok :: "(frame \<Rightarrow> frame \<Rightarrow> bool) \<Rightarrow> (nat \<Rightarrow> frame) \<Rightarrow> nat \<Rightarrow> pirate \<Rightarrow> bool" where
  "workers_ok cur wid W s \<longleftrightarrow>
     (\<forall>w < W. worker_ok cur (wid w \<in> set (pn_queue s)) (pn_be_in s (wid w)) (pn_be_out s (wid w)) (pn_worker s w))
     \<and> (\<forall>p. p \<notin> wid ` {..<W} \<longrightarrow> pn_be_in s p = [] \<and> pn_be_out s p = [])
     \<and> distinct (pn_queue s) \<and> set (pn_queue s) \<subseteq> wid ` {..<W}"

lemma worker_ok_mono:
  "worker_ok cur b ins outs w \<Longrightarrow> (\<And>i str. [[], i, [], str] \<in> set ins \<union> set outs \<Longrightarrow> cur i str \<Longrightarrow> cur' i str) \<Longrightarrow>
    worker_ok cur' b ins outs w"
  by (erule worker_ok.cases) (auto simp: request_ok_def intro!: worker_ok.intros)

inductive_cases worker_waitingE: "worker_ok cur True ins outs w"
inductive_cases worker_insE: "worker_ok cur b (m # ms) outs w"
inductive_cases worker_outsE: "worker_ok cur b ins (m # ms) w"
inductive_cases worker_NoneE: "worker_ok cur b ins outs None"

subsection \<open>What the programs do with well-formed messages\<close>

lemma spw_serves:
  assumes "spw_step \<lparr>spw_request = arrives (f # fs), spw_crash = crash, spw_slow = slow\<rparr> cycles = r"
  shows "cycles = 2 ^ 31 - 1 \<and> r = Inl Undefined \<or> r = Inr (Halt (cycles + 1), [])
    \<or> (\<exists>os. r = Inr (Next (cycles + 1), os @ [SpwSend (parts_of (f # fs))]) \<and> (\<forall>a \<in> set os. \<exists>t. a = SpwSleep t))"
proof (cases "cycles = 2 ^ 31 - 1")
  case True
  with assms show ?thesis by (simp add: spw_step_def)
next
  case False
  show ?thesis
  proof (cases "cycles + 1 > 6 \<and> crash = 0")
    case True
    with False assms show ?thesis by (simp add: spw_step_def Let_def)
  next
    case run: False
    define o1 where "o1 = (if cycles + 1 > 3 \<and> slow = 0 then [SpwSleep (secs 5)] else [])"
    from False run assms have "r = Inr (Next (cycles + 1), (o1 @ [SpwSleep (secs 1)]) @ [SpwSend (parts_of (f # fs))])"
      by (cases "cycles + 1 > 3 \<and> slow = 0") (auto simp add: spw_step_def Let_def o1_def deque_back_def simp del: parts_of.simps)
    moreover have "\<forall>a \<in> set (o1 @ [SpwSleep (secs 1)]). \<exists>t. a = SpwSleep t" by (simp add: o1_def)
    ultimately show ?thesis by blast
  qed
qed

lemma spw_does_sleeps: "\<forall>a \<in> set os. \<exists>t. a = SpwSleep t \<Longrightarrow> spw_does Z w (os @ as) Q = spw_does Z w as Q"
proof (induction os)
  case (Cons a os)
  then obtain t where "a = SpwSleep t" by auto
  with Cons show ?case by simp
qed simp

text \<open>A fault comes from a counter at the end of its range, of a client or of a worker.\<close>

definition pirate_faults :: "nat \<Rightarrow> nat \<Rightarrow> pirate \<Rightarrow> bool" where
  "pirate_faults N W s \<longleftrightarrow> pn_fault s = None \<or> pn_fault s = Some Undefined
     \<and> (client_faults N s \<or> (\<exists>w < W. pn_worker s w = Some (Next (2 ^ 31 - 1))))"

subsection \<open>One place for each request and each worker\<close>

locale pirate_contract =
  fixes Z :: zmq_envelope and cid :: "nat \<Rightarrow> nat \<Rightarrow> frame" and wid :: "nat \<Rightarrow> frame" and N W :: nat
  assumes zmq: "zmq_contract Z"
    and cid_iff: "n < N \<Longrightarrow> n' < N \<Longrightarrow> cid n g = cid n' g' \<longleftrightarrow> n = n' \<and> g = g'"
    and cid_text: "n < N \<Longrightarrow> cid n g \<noteq> ''READY''"
    and wid_inj: "inj_on wid {..<W}"
    and few: "W \<le> MAX_WORKERS"
begin

lemma wid_iff [simp]: "v < W \<Longrightarrow> w < W \<Longrightarrow> wid v = wid w \<longleftrightarrow> v = w"
  using wid_inj by (auto simp: inj_on_def)

end

sublocale pirate_contract \<subseteq> lp_clients Z cid N "pirate_inner wid W" "\<lambda>c. workers_ok c wid W"
proof
  show "zmq_contract Z" by (rule zmq)
  show "n < N \<Longrightarrow> n' < N \<Longrightarrow> cid n g = cid n' g' \<longleftrightarrow> n = n' \<and> g = g'" for n n' g g' by (rule cid_iff)
  fix c c' :: "frame \<Rightarrow> frame \<Rightarrow> bool" and s :: pirate
  assume ok: "workers_ok c wid W s" and le: "\<And>i str. 1 \<le> pirate_inner wid W s i \<Longrightarrow> c i str \<Longrightarrow> c' i str"
  have "worker_ok c' (wid w \<in> set (pn_queue s)) (pn_be_in s (wid w)) (pn_be_out s (wid w)) (pn_worker s w)" if w: "w < W" for w
  proof (rule worker_ok_mono)
    show "worker_ok c (wid w \<in> set (pn_queue s)) (pn_be_in s (wid w)) (pn_be_out s (wid w)) (pn_worker s w)"
      using ok w by (simp add: workers_ok_def)
    fix i str
    assume m: "[[], i, [], str] \<in> set (pn_be_in s (wid w)) \<union> set (pn_be_out s (wid w))" and "c i str"
    then show "c' i str" using at_workers_member [where asks = spq_asks and i = i and ins = "pn_be_in s" and outs = "pn_be_out s" and wid = wid, OF w m] le
      by (simp add: pirate_inner_def spq_asks_def)
  qed
  with ok show "workers_ok c' wid W s" by (simp add: workers_ok_def)
qed (simp_all add: pirate_inner_def workers_ok_def)

context pirate_contract
begin

lemma fl_diff:
  assumes "w < W" and "\<And>p. p \<noteq> wid w \<Longrightarrow> pn_be_in t p = pn_be_in s p \<and> pn_be_out t p = pn_be_out s p"
  shows "fl t i + length (pn_fe_in s i) + length (pn_fe_out s i) + with_worker wid s i w =
    fl s i + length (pn_fe_in t i) + length (pn_fe_out t i) + with_worker wid t i w"
  using at_workers_change [where asks = spq_asks and i = i, OF assms(1) wid_inj assms(2)]
  by (simp add: in_flight_def pirate_inner_def with_worker_def)

lemma asks_simps [simp]: "spq_asks i [[], j, [], str] \<longleftrightarrow> j = i" "\<not> spq_asks i [[], ''READY'']"
  by (simp_all add: spq_asks_def)

lemma workers_change:
  assumes ok: "workers_ok c wid W s" and w: "w < W"
    and same: "\<And>p. p \<noteq> wid w \<Longrightarrow> pn_be_in t p = pn_be_in s p \<and> pn_be_out t p = pn_be_out s p \<and> (p \<in> set (pn_queue t) \<longleftrightarrow> p \<in> set (pn_queue s))"
    and others: "\<And>v. v \<noteq> w \<Longrightarrow> pn_worker t v = pn_worker s v"
    and queue: "distinct (pn_queue t)"
    and new: "worker_ok c (wid w \<in> set (pn_queue t)) (pn_be_in t (wid w)) (pn_be_out t (wid w)) (pn_worker t w)"
  shows "workers_ok c wid W t"
proof -
  have "worker_ok c (wid v \<in> set (pn_queue t)) (pn_be_in t (wid v)) (pn_be_out t (wid v)) (pn_worker t v)" if "v < W" for v
    using ok new same [of "wid v"] others [of v] that w by (cases "v = w") (simp_all add: workers_ok_def)
  moreover have "pn_be_in t p = [] \<and> pn_be_out t p = []" if "p \<notin> wid ` {..<W}" for p
  proof -
    have "p \<noteq> wid w" using that w by blast
    with ok same that show ?thesis by (simp add: workers_ok_def)
  qed
  moreover have "set (pn_queue t) \<subseteq> wid ` {..<W}"
  proof
    fix p
    assume p: "p \<in> set (pn_queue t)"
    show "p \<in> wid ` {..<W}"
    proof (cases "p = wid w")
      case True
      with w show ?thesis by simp
    next
      case False
      with p same ok show ?thesis by (auto simp: workers_ok_def)
    qed
  qed
  ultimately show ?thesis using queue by (simp add: workers_ok_def)
qed

lemma workerD:
  assumes "good s" and "w < W"
  shows "worker_ok (cur s) (wid w \<in> set (pn_queue s)) (pn_be_in s (wid w)) (pn_be_out s (wid w)) (pn_worker s w)"
  using invD(3) [OF assms(1)] assms(2) by (simp add: workers_ok_def)

lemma good_at_worker:
  assumes g: "good s" and w: "w < W"
    and same: "pn_client t = pn_client s" "pn_gen t = pn_gen s" "pn_got t = pn_got s"
      "pn_fe_in t = pn_fe_in s" "pn_fe_out t = pn_fe_out s" "pn_queue t = pn_queue s"
    and at: "\<And>p. p \<noteq> wid w \<Longrightarrow> pn_be_in t p = pn_be_in s p \<and> pn_be_out t p = pn_be_out s p"
      "\<And>v. v \<noteq> w \<Longrightarrow> pn_worker t v = pn_worker s v"
    and new: "worker_ok (cur s) (wid w \<in> set (pn_queue s)) (pn_be_in t (wid w)) (pn_be_out t (wid w)) (pn_worker t w)"
    and le: "\<And>i. with_worker wid t i w \<le> with_worker wid s i w"
  shows "good t"
proof (rule inv_move [OF g same(1,2,3)])
  show "workers_ok (cur s) wid W t"
    by (rule workers_change [OF invD(3) [OF g] w])
      (use at new same(6) invD(3) [OF g] in \<open>simp_all add: workers_ok_def\<close>)
  show "fl t i \<le> fl s i" for i
    using fl_diff [of w t s i, OF w at(1)] le [of i] same(4,5) by simp
qed (use invD(1,2) [OF g] same in simp_all)

lemma good_greets:
  assumes g: "good s" and w: "w < W" and n: "pn_worker s w = None"
  shows "good (s\<lparr>pn_worker := (pn_worker s)(w := Some (Next 0)),
    pn_be_in := enqueue (wid w) (req_out Z (map fst spw_ready)) (pn_be_in s)\<rparr>)" (is "good ?t")
proof -
  from workerD [OF g w] n have e: "wid w \<notin> set (pn_queue s)" "pn_be_in s (wid w) = []" "pn_be_out s (wid w) = []"
    by (auto elim: worker_NoneE)
  show ?thesis
    by (rule good_at_worker [OF g w])
      (simp_all add: enqueue_def e with_worker_def spw_ready_def worker_greeted)
qed

lemma good_serves:
  assumes g: "good s" and w: "w < W" and n: "pn_worker s w = Some (Next cycles)" and m: "pn_be_out s (wid w) = m # ms"
    and st: "spw_step \<lparr>spw_request = arrives (req_in Z m), spw_crash = crash, spw_slow = slow\<rparr> cycles = r"
  shows "r = Inl Undefined \<and> cycles = 2 ^ 31 - 1
    \<or> (\<exists>c os. r = Inr (c, os) \<and> good (s\<lparr>pn_worker := (pn_worker s)(w := Some c),
        pn_be_in := spw_does Z (wid w) os (pn_be_in s), pn_be_out := (pn_be_out s)(wid w := ms)\<rparr>))"
proof -
  from workerD [OF g w] m obtain i str where e: "wid w \<notin> set (pn_queue s)" "pn_be_in s (wid w) = []" "ms = []"
    and mm: "m = [[], i, [], str]" and c: "cur s i str" by (auto elim!: worker_outsE simp: request_ok_def)
  have req: "req_in Z m = i # [[], str]" by (simp add: mm)
  have wm: "with_worker wid s j w = (if i = j then 1 else 0)" for j by (simp add: with_worker_def e m mm)
  from spw_serves [OF st [unfolded req]] show ?thesis
  proof (elim disjE exE conjE)
    assume r: "r = Inr (Halt (cycles + 1), [])"
    have "good (s\<lparr>pn_worker := (pn_worker s)(w := Some (Halt (cycles + 1))),
        pn_be_in := spw_does Z (wid w) [] (pn_be_in s), pn_be_out := (pn_be_out s)(wid w := ms)\<rparr>)"
      by (rule good_at_worker [OF g w]) (simp_all add: e wm worker_crashed, simp add: with_worker_def e)
    with r show ?thesis by blast
  next
    fix os
    assume r: "r = Inr (Next (cycles + 1), os @ [SpwSend (parts_of (i # [[], str]))])" and sl: "\<forall>a \<in> set os. \<exists>t. a = SpwSleep t"
    have "worker_ok (cur s) False [[[], i, [], str]] [] (Some (Next (cycles + 1)))"
      using c by (intro worker_answered) (simp add: request_ok_def)
    then have "good (s\<lparr>pn_worker := (pn_worker s)(w := Some (Next (cycles + 1))),
        pn_be_in := enqueue (wid w) [[], i, [], str] (pn_be_in s), pn_be_out := (pn_be_out s)(wid w := ms)\<rparr>)"
      by (intro good_at_worker [OF g w]) (simp_all add: e wm enqueue_def, simp add: with_worker_def e)
    then show ?thesis by (simp add: r spw_does_sleeps [OF sl] del: parts_of.simps)
  qed simp
qed

lemma good_back:
  assumes g: "good s" and t: "takes (pn_be_in s) rb be"
  shows "\<exists>q os. (case poll_be (spq_input Z rb rf) of None \<Rightarrow> Inr (pn_queue s, []) | Some es \<Rightarrow> spq_backend es (pn_queue s)) = Inr (q, os)
    \<and> sent_on Backend os = [] \<and> (pn_queue s \<noteq> [] \<longrightarrow> q \<noteq> [])
    \<and> good (s\<lparr>pn_queue := q, pn_be_in := be, pn_fe_out := router_sends Z (sent_on Frontend os) (pn_fe_out s)\<rparr>)"
  using t
proof cases
  case takes_none
  with g show ?thesis by (simp add: spq_input_def)
next
  case (takes_some p m ms)
  have p: "p \<in> wid ` {..<W}"
  proof (rule ccontr)
    assume "p \<notin> wid ` {..<W}"
    with invD(3) [OF g] takes_some show False by (simp add: workers_ok_def)
  qed
  then obtain w where w: "w < W" "p = wid w" by blast
  from workerD [OF g w(1)] takes_some w have e: "wid w \<notin> set (pn_queue s)" "pn_be_out s (wid w) = []" "ms = []"
    and m: "m = [[], ''READY''] \<or> request_ok (cur s) m" and wk: "\<exists>k. pn_worker s w = Some (Next k)"
    by (auto elim!: worker_insE)
  have q: "distinct (pn_queue s)" "set (pn_queue s) \<subseteq> wid ` {..<W}" using invD(3) [OF g] by (simp_all add: workers_ok_def)
  have "card (set (pn_queue s)) < card (wid ` {..<W})"
    using q(2) e(1) w(1) by (intro psubset_card_mono) auto
  also have "\<dots> \<le> W" using card_image_le [of "{..<W}" wid] by simp
  finally have len: "length (pn_queue s) < MAX_WORKERS" using q(1) few by (simp add: distinct_card)
  have ok: "workers_ok (cur s) wid W (s\<lparr>pn_queue := pn_queue s @ [wid w], pn_be_in := (pn_be_in s)(wid w := []), pn_fe_out := fo\<rparr>)" for fo
    by (rule workers_change [OF invD(3) [OF g] w(1)]) (use q e wk in \<open>auto simp: worker_waits\<close>)
  from m show ?thesis
  proof
    assume m: "m = [[], ''READY'']"
    have "good (s\<lparr>pn_queue := pn_queue s @ [wid w], pn_be_in := (pn_be_in s)(wid w := []), pn_fe_out := pn_fe_out s\<rparr>)"
    proof (rule inv_move [OF g])
      show "fl (s\<lparr>pn_queue := pn_queue s @ [wid w], pn_be_in := (pn_be_in s)(wid w := []), pn_fe_out := pn_fe_out s\<rparr>) i \<le> fl s i" for i
        using fl_diff [of w "s\<lparr>pn_queue := pn_queue s @ [wid w], pn_be_in := (pn_be_in s)(wid w := []), pn_fe_out := pn_fe_out s\<rparr>" s i, OF w(1)]
          takes_some w by (simp add: with_worker_def e m)
      show "workers_ok (cur s) wid W (s\<lparr>pn_queue := pn_queue s @ [wid w], pn_be_in := (pn_be_in s)(wid w := []), pn_fe_out := pn_fe_out s\<rparr>)"
        by (rule ok)
    qed (use invD(1,2) [OF g] in simp_all)
    moreover have "spq_backend (arrives (wid w # m)) (pn_queue s) = Inr (pn_queue s @ [wid w], [])"
      unfolding m by (rule spq_backend_READY [OF len]) (rule recv_arrives)
    ultimately show ?thesis using takes_some w e(3) by (simp add: spq_input_def)
  next
    assume "request_ok (cur s) m"
    then obtain i str where m: "m = [[], i, [], str]" and c: "cur s i str" by (auto simp: request_ok_def)
    let ?t = "s\<lparr>pn_queue := pn_queue s @ [wid w], pn_be_in := (pn_be_in s)(wid w := []), pn_fe_out := enqueue i [[], str] (pn_fe_out s)\<rparr>"
    have "i \<noteq> ''READY''" using c cid_text by (auto simp: current_def)
    then have "spq_backend (arrives (wid w # m)) (pn_queue s) = Inr (pn_queue s @ [wid w], [(Frontend, parts_of (i # [[], str]))])"
      unfolding m by (rule spq_backend_reply [OF len]) (rule recv_arrives)
    moreover have "good ?t"
    proof (rule inv_move [OF g])
      show "fl ?t j \<le> fl s j" for j
        using fl_diff [of w ?t s j, OF w(1)] takes_some w by (cases "j = i") (simp_all add: with_worker_def e m enqueue_def)
      have "\<forall>x \<in> set (pn_fe_out s i @ [[[], str]]). \<exists>str. x = [[], str] \<and> cur s i str"
        using invD(2) [OF g] c by (auto simp: front_ok_def)
      with invD(2) [OF g] show "front_ok (cur s) (pn_fe_out ?t)" by (simp add: enqueue_def front_ok_upd)
    qed (use ok invD(1) [OF g] in simp_all)
    ultimately show ?thesis using takes_some w e(3) by (simp add: spq_input_def)
  qed
qed

lemma good_front:
  assumes g: "good s" and t: "takes (pn_fe_in s) rf fe" and p: "pn_queue s = [] \<Longrightarrow> rf = None"
  shows "\<exists>q os. (case poll_fe (spq_input Z rb rf) of None \<Rightarrow> Inr (pn_queue s, []) | Some es \<Rightarrow> spq_frontend es (pn_queue s)) = Inr (q, os)
    \<and> sent_on Frontend os = []
    \<and> good (s\<lparr>pn_queue := q, pn_fe_in := fe, pn_be_out := router_sends Z (sent_on Backend os) (pn_be_out s)\<rparr>)"
  using t
proof cases
  case takes_none
  with g show ?thesis by (simp add: spq_input_def)
next
  case (takes_some i m ms)
  with p obtain v q where q: "pn_queue s = v # q" by (cases "pn_queue s") auto
  have okq: "distinct (v # q)" "set (v # q) \<subseteq> wid ` {..<W}" using invD(3) [OF g] q by (simp_all add: workers_ok_def)
  then obtain w where w: "w < W" "v = wid w" by auto
  have "worker_ok (cur s) True (pn_be_in s (wid w)) (pn_be_out s (wid w)) (pn_worker s w)"
    using workerD [OF g w(1)] q w(2) by simp
  then have e: "pn_be_in s (wid w) = []" "pn_be_out s (wid w) = []" "\<exists>k. pn_worker s w = Some (Next k)"
    by (auto elim: worker_waitingE)
  from invD(1) [OF g] takes_some obtain str where m: "m = [[], str]" and c: "cur s i str"
    unfolding front_ok_def by (metis list.set_intros(1))
  let ?t = "s\<lparr>pn_queue := q, pn_fe_in := (pn_fe_in s)(i := ms), pn_be_out := enqueue (wid w) [[], i, [], str] (pn_be_out s)\<rparr>"
  have "spq_frontend (arrives (i # m)) (v # q) = Inr (q, [(Backend, parts_of (v # [] # i # m))])"
    by (rule spq_frontend_request) (rule recv_arrives)
  moreover have "good ?t"
  proof (rule inv_move [OF g])
    have "\<forall>x \<in> set ms. \<exists>str. x = [[], str] \<and> cur s i str"
      using invD(1) [OF g] takes_some unfolding front_ok_def by (metis list.set_intros(2))
    with invD(1) [OF g] show "front_ok (cur s) (pn_fe_in ?t)" by (simp add: front_ok_upd)
    show "workers_ok (cur s) wid W ?t"
    proof (rule workers_change [OF invD(3) [OF g] w(1)])
      have "worker_ok (cur s) False [] [[[], i, [], str]] (pn_worker s w)"
        using e(3) c by (auto simp: request_ok_def intro!: worker_asked)
      then show "worker_ok (cur s) (wid w \<in> set (pn_queue ?t)) (pn_be_in ?t (wid w)) (pn_be_out ?t (wid w)) (pn_worker ?t w)"
        using okq(1) w(2) by (simp add: enqueue_def e)
    qed (use okq w q in \<open>auto simp: enqueue_def\<close>)
    show "fl ?t j \<le> fl s j" for j
      using fl_diff [of w ?t s j, OF w(1)] takes_some by (cases "j = i") (simp_all add: with_worker_def e m enqueue_def)
  qed (use invD(2) [OF g] in simp_all)
  ultimately show ?thesis using takes_some w(2) q m by (simp add: spq_input_def)
qed

text \<open>An iteration of the queue goes through, and keeps the invariant.\<close>

lemma good_queue:
  assumes g: "good s" and rb: "takes (pn_be_in s) rb be" and rf: "spq_polls s rf fe"
  shows "\<exists>c os. spq_step (spq_input Z rb rf) (pn_queue s) = Inr (c, os)
    \<and> good (s\<lparr>pn_queue := ctl_state c, pn_be_in := be, pn_fe_in := fe,
        pn_fe_out := router_sends Z (sent_on Frontend os) (pn_fe_out s),
        pn_be_out := router_sends Z (sent_on Backend os) (pn_be_out s)\<rparr>)"
proof -
  from good_back [OF g rb, of rf] obtain q1 o1 where
    b: "(case poll_be (spq_input Z rb rf) of None \<Rightarrow> Inr (pn_queue s, []) | Some es \<Rightarrow> spq_backend es (pn_queue s)) = Inr (q1, o1)"
    and o1: "sent_on Backend o1 = []" and ne: "pn_queue s \<noteq> [] \<longrightarrow> q1 \<noteq> []"
    and g1: "good (s\<lparr>pn_queue := q1, pn_be_in := be, pn_fe_out := router_sends Z (sent_on Frontend o1) (pn_fe_out s)\<rparr>)" (is "good ?s") by blast
  from rf have t: "takes (pn_fe_in ?s) rf fe" and pl: "pn_queue s = [] \<Longrightarrow> rf = None" by (simp_all add: spq_polls_def)
  from ne pl have "rf = None" if "pn_queue ?s = []" using that by auto
  have q: "pn_queue ?s = q1" by simp
  from good_front [OF g1 t \<open>pn_queue ?s = [] \<Longrightarrow> rf = None\<close>, of rb, unfolded q] obtain q2 o2 where
    f: "(case poll_fe (spq_input Z rb rf) of None \<Rightarrow> Inr (q1, []) | Some es \<Rightarrow> spq_frontend es q1) = Inr (q2, o2)"
    and o2: "sent_on Frontend o2 = []"
    and g2: "good (?s\<lparr>pn_queue := q2, pn_fe_in := fe, pn_be_out := router_sends Z (sent_on Backend o2) (pn_be_out ?s)\<rparr>)" by blast
  have "(if pn_queue s = [] then None else poll_fe (spq_input Z rb rf)) = poll_fe (spq_input Z rb rf)"
    using pl by (simp add: spq_input_def)
  with b f have "spq_step (spq_input Z rb rf) (pn_queue s) = Inr (Next q2, o1 @ o2)" by (simp add: spq_step_def)
  moreover have "?s\<lparr>pn_queue := q2, pn_fe_in := fe, pn_be_out := router_sends Z (sent_on Backend o2) (pn_be_out ?s)\<rparr> =
      s\<lparr>pn_queue := ctl_state (Next q2), pn_be_in := be, pn_fe_in := fe,
        pn_fe_out := router_sends Z (sent_on Frontend (o1 @ o2)) (pn_fe_out s),
        pn_be_out := router_sends Z (sent_on Backend (o1 @ o2)) (pn_be_out s)\<rparr>"
    using o1 o2 by (intro pirate.equality) simp_all
  ultimately show ?thesis using g2 by metis
qed

subsection \<open>All steps\<close>

lemma faults_keep:
  assumes "pirate_faults N W s" and "pn_fault t = pn_fault s" and "\<And>n. length (pn_got s n) \<le> length (pn_got t n)"
    and "\<And>w. w < W \<Longrightarrow> pn_worker s w = Some (Next (2 ^ 31 - 1)) \<Longrightarrow> pn_worker t w = Some (Next (2 ^ 31 - 1))"
  shows "pirate_faults N W t"
  using assms client_faults_keep [of N s t] unfolding pirate_faults_def by metis

lemma client_step_worker: "client_step Z cid N s t \<Longrightarrow> pn_worker t = pn_worker s"
  by (erule client_step.cases) (simp_all add: client_moves_def split: prod.splits)

lemma step_keeps:
  assumes g: "good s" and f: "pirate_faults N W s" and st: "pirate_step Z cid wid N W s t"
  shows "good t \<and> pirate_faults N W t"
  using st
proof cases
  case pirate_client
  with client_step_keeps [OF g pirate_client] client_step_worker [OF pirate_client] f faults_keep [OF f, of t]
  show ?thesis by (auto simp: pirate_faults_def)
next
  case (worker_greets w)
  have "pirate_faults N W t" by (rule faults_keep [OF f]) (auto simp: worker_greets)
  with good_greets [OF g worker_greets(2,3)] worker_greets(1) show ?thesis by simp
next
  case (worker_serves w cycles m ms crash slow c os)
  have "pirate_faults N W t"
  proof (rule faults_keep [OF f])
    have "cycles \<noteq> 2 ^ 31 - 1"
    proof
      assume "cycles = 2 ^ 31 - 1"
      then have "\<exists>e. spw_step \<lparr>spw_request = arrives (req_in Z m), spw_crash = crash, spw_slow = slow\<rparr> cycles = Inl e"
        by (cases "sp_recv_frames (arrives (req_in Z m))") (auto simp: spw_step_def)
      with worker_serves(5) show False by simp
    qed
    then show "pn_worker s v = Some (Next (2 ^ 31 - 1)) \<Longrightarrow> pn_worker t v = Some (Next (2 ^ 31 - 1))" for v
      using worker_serves(1,3) by (cases "v = w") simp_all
  qed (simp_all add: worker_serves)
  moreover have "good t" using good_serves [OF g worker_serves(2,3,4,5)] unfolding worker_serves(1) by blast
  ultimately show ?thesis by simp
next
  case (worker_fails w cycles m ms crash slow e)
  with good_serves [OF g worker_fails(2,3,4,5)] have "e = Undefined" "cycles = 2 ^ 31 - 1" by simp_all
  then have "pirate_faults N W t" using worker_fails(1,2,3) by (auto simp: pirate_faults_def)
  with good_fault [OF g] worker_fails(1) show ?thesis by simp
next
  case (queue_loops rb be rf fe c os)
  have "pirate_faults N W t" by (rule faults_keep [OF f]) (simp_all add: queue_loops)
  moreover have "good t" using good_queue [OF g queue_loops(2,3)] queue_loops(5) unfolding queue_loops(1) by auto
  ultimately show ?thesis by simp
next
  case (queue_fails rb be rf fe e)
  with good_queue [OF g queue_fails(2,3)] show ?thesis by auto
qed

lemma pirate_start: "good pirate_init \<and> pirate_faults N W pirate_init"
proof
  show "good pirate_init"
    by (rule good_start) (simp_all add: pirate_init_def pirate_inner_def at_workers_empty workers_ok_def worker_absent)
qed (simp add: pirate_faults_def pirate_init_def)

lemma system: "invariant_system pirate_init (pirate_step Z cid wid N W) (\<lambda>s. good s \<and> pirate_faults N W s)"
  using pirate_start step_keeps by unfold_locales blast+

text \<open>What the invariant says of workers in the queue.\<close>

lemma waiting_workers:
  assumes g: "good s" and p: "p \<in> set (pn_queue s)"
  shows "\<exists>w < W. \<exists>k. p = wid w \<and> pn_worker s w = Some (Next k) \<and> pn_be_in s p = [] \<and> pn_be_out s p = []"
proof -
  from invD(3) [OF g] p obtain w where w: "w < W" "p = wid w" by (auto simp: workers_ok_def)
  with workerD [OF g w(1)] p have "worker_ok (cur s) True (pn_be_in s p) (pn_be_out s p) (pn_worker s w)" by simp
  then have "(\<exists>k. pn_worker s w = Some (Next k)) \<and> pn_be_in s p = [] \<and> pn_be_out s p = []" by (auto elim: worker_waitingE)
  with w show ?thesis by blast
qed

lemma reachable_answers:
  assumes "(pirate_step Z cid wid N W)\<^sup>*\<^sup>* pirate_init s"
  shows "(\<forall>n < N. pn_got s n = map (\<lambda>k. int_string (int k)) [1..<Suc (length (pn_got s n))]
      \<and> (\<forall>c. pn_client s n = Some c \<longrightarrow> lp_sequence (ctl_state c) = int (length (pn_got s n)) + 1))
    \<and> distinct (pn_queue s)
    \<and> (\<forall>p \<in> set (pn_queue s). \<exists>w < W. \<exists>k. p = wid w \<and> pn_worker s w = Some (Next k) \<and> pn_be_in s p = [] \<and> pn_be_out s p = [])
    \<and> (pn_fault s = None \<or> pn_fault s = Some Undefined
        \<and> ((\<exists>n < N. 2 ^ 31 - 2 \<le> length (pn_got s n)) \<or> (\<exists>w < W. pn_worker s w = Some (Next (2 ^ 31 - 1)))))"
proof -
  from invariant_system.inv_reachable [OF system assms] have g: "good s" and f: "pirate_faults N W s" by simp_all
  have "distinct (pn_queue s)" using invD(3) [OF g] by (simp add: workers_ok_def)
  with answers [OF g] waiting_workers [OF g] f show ?thesis
    unfolding pirate_faults_def client_faults_def by blast
qed

end

text \<open>Identities for the witness: workers have process ids.\<close>

definition pirate_wid :: "nat \<Rightarrow> frame" where
  "pirate_wid w = spw_identity (int w)"

lemma pirate_std: "W \<le> MAX_WORKERS \<Longrightarrow> pirate_contract zmq_std pirate_cid pirate_wid N W"
proof
  show "inj_on pirate_wid {..<W}"
    by (rule inj_onI) (auto simp: pirate_wid_def spw_identity_def int_string_def dest: nat_string_inj)
qed (simp_all add: pirate_cid_inject pirate_cid_text)

interpretation pirate_std: pirate_contract zmq_std pirate_cid pirate_wid N 3 for N
  by (rule pirate_std) (simp add: MAX_WORKERS_def)

subsection \<open>What the pattern does\<close>

text \<open>
  C12: in every interleaving of lazy pirate clients, queue and workers, with time-outs at any moment,
  crashes in the middle of a request and lost requests, each client reads the answers 1, 2, 3 and so on:
  one for each request it has sent so far but the last, none twice and none of another client. The
  queue holds no worker twice and none that is busy or has crashed, so no iteration fails. Threads fail
  only when a counter leaves its range.
\<close>

theorem pirate_answers:
  assumes "zmq_contract Z" and "\<And>n n' g g'. n < N \<Longrightarrow> n' < N \<Longrightarrow> cid n g = cid n' g' \<longleftrightarrow> n = n' \<and> g = g'"
    and "\<And>n g. n < N \<Longrightarrow> cid n g \<noteq> ''READY''" and "inj_on wid {..<W}" and "W \<le> MAX_WORKERS"
    and r: "(pirate_step Z cid wid N W)\<^sup>*\<^sup>* pirate_init s"
  shows "(\<forall>n < N. pn_got s n = map (\<lambda>k. int_string (int k)) [1..<Suc (length (pn_got s n))]
      \<and> (\<forall>c. pn_client s n = Some c \<longrightarrow> lp_sequence (ctl_state c) = int (length (pn_got s n)) + 1))
    \<and> distinct (pn_queue s)
    \<and> (\<forall>p \<in> set (pn_queue s). \<exists>w < W. \<exists>k. p = wid w \<and> pn_worker s w = Some (Next k) \<and> pn_be_in s p = [] \<and> pn_be_out s p = [])
    \<and> (pn_fault s = None \<or> pn_fault s = Some Undefined
        \<and> ((\<exists>n < N. 2 ^ 31 - 2 \<le> length (pn_got s n)) \<or> (\<exists>w < W. pn_worker s w = Some (Next (2 ^ 31 - 1)))))"
  by (rule pirate_contract.reachable_answers [OF _ r]) (use assms(1-5) in \<open>simp add: pirate_contract_def\<close>)

theorem pirate_answers_witness:
  "\<exists>s. (pirate_step zmq_std pirate_cid pirate_wid 2 3)\<^sup>*\<^sup>* pirate_init s \<and> pn_gen s 0 = 1
    \<and> pn_client s 0 = Some (Next \<lparr>lp_sequence = 1, lp_retries_left = 2\<rparr>) \<and> pn_got s 0 = []
    \<and> (\<exists>w < 3. \<exists>k. pirate_wid 0 = pirate_wid w \<and> pn_worker s w = Some (Next k))"
proof -
  let ?step = "pirate_step zmq_std pirate_cid pirate_wid 2 3"
  let ?a = "client_moves zmq_std pirate_cid 0 [] (Next \<lparr>lp_sequence = 1, lp_retries_left = 3\<rparr>, [LpSend (int_string 1)]) pirate_init"
  let ?b = "client_moves zmq_std pirate_cid 0 [] (Next \<lparr>lp_sequence = 1, lp_retries_left = 2\<rparr>, [LpConnect, LpSend (int_string 1)]) ?a"
  let ?w = "pirate_wid 0" and ?m = "req_out zmq_std (map fst spw_ready)"
  let ?c = "?b\<lparr>pn_worker := (pn_worker ?b)(0 := Some (Next 0)), pn_be_in := enqueue ?w ?m (pn_be_in ?b)\<rparr>"
  let ?d = "?c\<lparr>pn_queue := ctl_state (Next [?w]), pn_be_in := (pn_be_in ?c)(?w := []), pn_fe_in := pn_fe_in ?c,
        pn_fe_out := router_sends zmq_std (sent_on Frontend []) (pn_fe_out ?c),
        pn_be_out := router_sends zmq_std (sent_on Backend []) (pn_be_out ?c)\<rparr>"
  have a: "?step pirate_init ?a" by (intro pirate_client client_starts) (simp_all add: lp_starts pirate_init_def)
  have b: "?step ?a ?b"
    by (intro pirate_client client_times_out [where l = "\<lparr>lp_sequence = 1, lp_retries_left = 3\<rparr>"])
      (simp_all add: client_moves_def lp_times_out Let_def)
  have c: "?step ?b ?c" by (rule worker_greets) (simp_all add: client_moves_def pirate_init_def)
  have "spq_step (spq_input zmq_std (Some (?w, ?m)) None) [] = Inr (Next [?w], [])"
    by (simp add: spq_step_def spq_input_def spw_ready_def spq_backend_def MAX_WORKERS_def)
  then have d: "?step ?c ?d"
    by (intro queue_loops [where rb = "Some (?w, ?m)" and rf = None] takes_some)
      (simp_all add: spq_polls_def takes_none client_moves_def pirate_init_def enqueue_def)
  from a b c d have r: "?step\<^sup>*\<^sup>* pirate_init ?d" by (meson converse_rtranclp_into_rtranclp rtranclp.rtrancl_refl)
  have q: "?w \<in> set (pn_queue ?d)" by simp
  from pirate_answers [OF zmq_std_contract pirate_cid_inject pirate_cid_text pirate_std.wid_inj pirate_std.few r,
      THEN conjunct2, THEN conjunct2, THEN conjunct1, rule_format, OF q]
  have "\<exists>w < 3. \<exists>k. ?w = pirate_wid w \<and> pn_worker ?d w = Some (Next k)" by blast
  moreover have "pn_gen ?d 0 = 1" "pn_client ?d 0 = Some (Next \<lparr>lp_sequence = 1, lp_retries_left = 2\<rparr>)" "pn_got ?d 0 = []"
    by (simp_all add: client_moves_def pirate_init_def)
  ultimately show ?thesis using r by blast
qed

end
