(* ===== verification/ParanoidNet.thy ===== *)
theory ParanoidNet
  imports PPWorker PirateClients
begin

text \<open>
  The paranoid pirate pattern as a system: lazy pirate clients in front of the queue and the workers of
  \<open>robust-reliable-queuing\<close>. Queue and workers send each other heartbeats; workers that hear
  nothing come back on a new socket, and the queue purges those that have been silent. The lemmas: what
  the queue and the workers make of each other's messages, and that they meet what the clients'
  interface asks for, whatever is lost on the way.
\<close>

subsection \<open>Queue and workers\<close>

text \<open>
  The queue is a result: a failed assertion ends the program. A worker is \<open>None\<close> before its
  first READY.
\<close>

record paranoid = lp_front +
  pq_queue :: "ppq res"
  pq_be_in :: "frame \<Rightarrow> msg list"
  pq_be_out :: "frame \<Rightarrow> msg list"
  pq_worker :: "nat \<Rightarrow> ppw ctl option"

definition paranoid_init :: "time \<Rightarrow> paranoid" where
  "paranoid_init t = \<lparr>pn_client = (\<lambda>_. None), pn_gen = (\<lambda>_. 0), pn_got = (\<lambda>_. []), pn_fe_in = (\<lambda>_. []),
     pn_fe_out = (\<lambda>_. []), pn_fault = None, pq_queue = Inr (ppq_init t), pq_be_in = (\<lambda>_. []),
     pq_be_out = (\<lambda>_. []), pq_worker = (\<lambda>_. None)\<rparr>"

text \<open>
  What a worker does to the messages from it and to it: a DEALER socket sends its frames as they are,
  and what was under way to a socket that is closed is gone. The new socket has the old one's identity.
\<close>

fun ppw_does :: "frame \<Rightarrow> ppw_act list \<Rightarrow> (frame \<Rightarrow> msg list) \<times> (frame \<Rightarrow> msg list) \<Rightarrow> (frame \<Rightarrow> msg list) \<times> (frame \<Rightarrow> msg list)" where
  "ppw_does w [] Qs = Qs"
| "ppw_does w (PpwConnect # as) Qs = ppw_does w as (fst Qs, (snd Qs)(w := []))"
| "ppw_does w (PpwSend ps # as) Qs = ppw_does w as (enqueue w (map fst ps) (fst Qs), snd Qs)"
| "ppw_does w (PpwSleep t # as) Qs = ppw_does w as Qs"

definition worker_moves :: "frame \<Rightarrow> nat \<Rightarrow> ppw ctl \<times> ppw_act list \<Rightarrow> paranoid \<Rightarrow> paranoid" where
  "worker_moves p w r s =
     (let (ins, outs) = ppw_does p (snd r) (pq_be_in s, pq_be_out s)
      in s\<lparr>pq_worker := (pq_worker s)(w := Some (fst r)), pq_be_in := ins, pq_be_out := outs\<rparr>)"

text \<open>What the poll of a worker reports: nothing, or the oldest message sent to it.\<close>

inductive ppw_polls :: "msg list \<Rightarrow> recv_event list option \<Rightarrow> msg list \<Rightarrow> bool" where
  "ppw_polls ms None ms"
| "ppw_polls (m # ms) (Some (arrives m)) ms"

text \<open>
  What the poll of the queue reports: of its clients only while it has a worker. The clock readings are
  any.
\<close>

definition ppq_polls :: "zmq_envelope \<Rightarrow> ppq \<Rightarrow> (frame \<times> msg) option \<Rightarrow> (frame \<times> msg) option \<Rightarrow> ppq_in \<Rightarrow> bool" where
  "ppq_polls Z q rb rf i \<longleftrightarrow> poll_be i = map_option (\<lambda>(p, m). arrives (router_in Z p m)) rb
     \<and> poll_fe i = map_option (\<lambda>(p, m). arrives (router_in Z p m)) rf \<and> (ppq_ids q = [] \<longrightarrow> rf = None)"

inductive paranoid_step :: "bool \<Rightarrow> zmq_envelope \<Rightarrow> (nat \<Rightarrow> nat \<Rightarrow> frame) \<Rightarrow> (nat \<Rightarrow> frame) \<Rightarrow> nat \<Rightarrow> nat \<Rightarrow> paranoid \<Rightarrow> paranoid \<Rightarrow> bool"
  for lossy Z cid wid N W where
  paranoid_client: "client_step Z cid N s t \<Longrightarrow> paranoid_step lossy Z cid wid N W s t"
| worker_starts: "w < W \<Longrightarrow> pq_worker s w = None \<Longrightarrow>
    paranoid_step lossy Z cid wid N W s (worker_moves (wid w) w (Next (ppw_init now), ppw_new_socket) s)"
| worker_loops: "w < W \<Longrightarrow> pq_worker s w = Some (Next k) \<Longrightarrow> ppw_polls (pq_be_out s (wid w)) (ppw_poll i) ms \<Longrightarrow>
    ppw_step i k = Inr r \<Longrightarrow>
    paranoid_step lossy Z cid wid N W s (worker_moves (wid w) w r (s\<lparr>pq_be_out := (pq_be_out s)(wid w := ms)\<rparr>))"
| worker_breaks: "w < W \<Longrightarrow> pq_worker s w = Some (Next k) \<Longrightarrow> ppw_polls (pq_be_out s (wid w)) (ppw_poll i) ms \<Longrightarrow>
    ppw_step i k = Inl f \<Longrightarrow>
    paranoid_step lossy Z cid wid N W s (s\<lparr>pn_fault := Some f, pq_worker := (pq_worker s)(w := Some (Halt k))\<rparr>)"
| queue_turns: "pq_queue s = Inr q \<Longrightarrow> takes (pq_be_in s) rb be \<Longrightarrow> takes (pn_fe_in s) rf fe \<Longrightarrow> ppq_polls Z q rb rf i \<Longrightarrow>
    ppq_step i q = Inr (c, os) \<Longrightarrow>
    paranoid_step lossy Z cid wid N W s (s\<lparr>pq_queue := Inr (ctl_state c), pq_be_in := be, pn_fe_in := fe,
      pn_fe_out := router_sends Z (sent_on Frontend os) (pn_fe_out s),
      pq_be_out := router_sends Z (sent_on Backend os) (pq_be_out s)\<rparr>)"
| queue_aborts: "pq_queue s = Inr q \<Longrightarrow> takes (pq_be_in s) rb be \<Longrightarrow> takes (pn_fe_in s) rf fe \<Longrightarrow> ppq_polls Z q rb rf i \<Longrightarrow>
    ppq_step i q = Inl f \<Longrightarrow> paranoid_step lossy Z cid wid N W s (s\<lparr>pq_queue := Inl f\<rparr>)"
| lost_request: "lossy \<Longrightarrow> loses (pn_fe_in s) Q \<Longrightarrow> paranoid_step lossy Z cid wid N W s (s\<lparr>pn_fe_in := Q\<rparr>)"
| lost_answer: "lossy \<Longrightarrow> loses (pn_fe_out s) Q \<Longrightarrow> paranoid_step lossy Z cid wid N W s (s\<lparr>pn_fe_out := Q\<rparr>)"
| lost_from_worker: "lossy \<Longrightarrow> loses (pq_be_in s) Q \<Longrightarrow> paranoid_step lossy Z cid wid N W s (s\<lparr>pq_be_in := Q\<rparr>)"
| lost_to_worker: "lossy \<Longrightarrow> loses (pq_be_out s) Q \<Longrightarrow> paranoid_step lossy Z cid wid N W s (s\<lparr>pq_be_out := Q\<rparr>)"

subsection \<open>What is under way\<close>

text \<open>The messages of workers and those of the queue.\<close>

definition pp_request :: "(frame \<Rightarrow> frame \<Rightarrow> bool) \<Rightarrow> msg \<Rightarrow> bool" where
  "pp_request cur m \<longleftrightarrow> (\<exists>i str. m = [i, [], str] \<and> cur i str)"

definition worker_sends :: "(frame \<Rightarrow> frame \<Rightarrow> bool) \<Rightarrow> msg \<Rightarrow> bool" where
  "worker_sends cur m \<longleftrightarrow> m = [''READY''] \<or> m = [''HEARTBEAT''] \<or> pp_request cur m"

definition queue_sends :: "(frame \<Rightarrow> frame \<Rightarrow> bool) \<Rightarrow> msg \<Rightarrow> bool" where
  "queue_sends cur m \<longleftrightarrow> m = [''HEARTBEAT''] \<or> pp_request cur m"

definition queue_ok :: "frame set \<Rightarrow> ppq res \<Rightarrow> bool" where
  "queue_ok ids r \<longleftrightarrow> (case r of Inl e \<Rightarrow> e = Assertion | Inr q \<Rightarrow> ppq_inv q \<and> set (ppq_ids q) \<subseteq> ids)"

definition paranoid_inside :: "(nat \<Rightarrow> frame) \<Rightarrow> nat \<Rightarrow> (frame \<Rightarrow> frame \<Rightarrow> bool) \<Rightarrow> paranoid \<Rightarrow> bool" where
  "paranoid_inside wid W cur s \<longleftrightarrow> rows_ok (worker_sends cur) (wid ` {..<W}) (pq_be_in s)
     \<and> rows_ok (queue_sends cur) (wid ` {..<W}) (pq_be_out s) \<and> queue_ok (wid ` {..<W}) (pq_queue s)
     \<and> (\<forall>w k. pq_worker s w = Some (Halt k) \<longrightarrow> 10 < ppw_cycles k)"

definition ppq_asks :: "frame \<Rightarrow> msg \<Rightarrow> bool" where
  "ppq_asks i m \<longleftrightarrow> length m = 3 \<and> m ! 0 = i"

definition paranoid_inner :: "(nat \<Rightarrow> frame) \<Rightarrow> nat \<Rightarrow> paranoid \<Rightarrow> frame \<Rightarrow> nat" where
  "paranoid_inner wid W s = at_workers ppq_asks wid W (pq_be_in s) (pq_be_out s)"

lemma ppq_asks_simps [simp]: "ppq_asks i [j, [], str] \<longleftrightarrow> j = i" "\<not> ppq_asks i [f]"
  by (simp_all add: ppq_asks_def)

text \<open>A fault of a thread comes from a counter at the end of its range, of a client or of a worker.\<close>

definition paranoid_faults :: "nat \<Rightarrow> nat \<Rightarrow> paranoid \<Rightarrow> bool" where
  "paranoid_faults N W s \<longleftrightarrow> pn_fault s = None \<or> pn_fault s = Some Undefined
     \<and> (client_faults N s \<or> (\<exists>w < W. \<exists>k. pq_worker s w = Some (Halt k) \<and> ppw_cycles k = 2 ^ 31 - 1))"

lemma loses_carried: "loses R Q \<Longrightarrow> carried asks i (Q p) \<le> carried asks i (R p)"
proof (erule loses.cases)
  fix T v ms m ns
  assume "R = T" "Q = T(v := ms @ ns)" "T v = ms @ m # ns"
  then show "carried asks i (Q p) \<le> carried asks i (R p)" by (cases "p = v") simp_all
qed

subsection \<open>What a worker makes of the queue's messages\<close>

fun acts_sent :: "ppw_act list \<Rightarrow> msg list" where
  "acts_sent [] = []"
| "acts_sent (PpwSend ps # as) = map fst ps # acts_sent as"
| "acts_sent (PpwConnect # as) = acts_sent as"
| "acts_sent (PpwSleep t # as) = acts_sent as"

lemma acts_sent_append [simp]: "acts_sent (as @ bs) = acts_sent as @ acts_sent bs"
  by (induction as rule: acts_sent.induct) simp_all

lemma ppw_does_eq: "ppw_does p as (ins, outs) =
    (ins(p := ins p @ acts_sent as), if PpwConnect \<in> set as then outs(p := []) else outs)"
  by (induction as arbitrary: ins outs rule: acts_sent.induct) (auto simp: enqueue_def)

lemma ppw_silent_sends: "\<exists>k' os. ppw_silent k = (k', os) \<and> ppw_cycles k' = ppw_cycles k \<and> set (acts_sent os) \<subseteq> {[''READY'']}"
  by (simp add: ppw_silent_def Let_def ppw_new_socket_def)

lemma ppw_heartbeat_sends:
  "\<exists>k' os. ppw_heartbeat i k = (k', os) \<and> ppw_cycles k' = ppw_cycles k \<and> set (acts_sent os) \<subseteq> {[''HEARTBEAT'']}"
  by (simp add: ppw_heartbeat_def)

lemma ppw_message_heartbeat:
  "ppw_message i (arrives [''HEARTBEAT'']) k = Inr (Next (k\<lparr>ppw_liveness := heartbeat_liveness, ppw_timeout := 1\<rparr>), [])"
  by (simp add: ppw_message_def)

lemma ppw_message_request:
  "ppw_cycles k = 2 ^ 31 - 1 \<and> ppw_message i (arrives [j, [], str]) k = Inl Undefined
    \<or> (\<exists>k'. ppw_message i (arrives [j, [], str]) k = Inr (Halt k', []) \<and> 10 < ppw_cycles k')
    \<or> (\<exists>k' os. ppw_message i (arrives [j, [], str]) k = Inr (Next k', os) \<and> acts_sent os = [[j, [], str]])"
proof (cases "ppw_cycles k = 2 ^ 31 - 1")
  case True
  then show ?thesis by (simp add: ppw_message_def)
next
  case range: False
  show ?thesis
  proof (cases "ppw_cycles k + 1 > 10 \<and> ppw_crash i = 0")
    case True
    with range show ?thesis by (simp add: ppw_message_def Let_def)
  next
    case False
    with range show ?thesis by (auto simp: ppw_message_def Let_def)
  qed
qed

text \<open>It sends the request back that it is given, and otherwise READY and HEARTBEAT only.\<close>

lemma ppw_step_sends:
  assumes p: "ppw_polls Q (ppw_poll i) ms" and Q: "\<And>m. m \<in> set Q \<Longrightarrow> queue_sends cur m"
  shows "ppw_cycles k = 2 ^ 31 - 1 \<and> ppw_step i k = Inl Undefined
    \<or> (\<exists>c os xs ys. ppw_step i k = Inr (c, os) \<and> acts_sent os = xs @ ys \<and> (xs = [] \<or> xs @ ms = Q)
        \<and> set ys \<subseteq> {[''READY''], [''HEARTBEAT'']} \<and> (\<forall>k'. c = Halt k' \<longrightarrow> 10 < ppw_cycles k'))"
proof -
  have beat: "\<exists>c os xs ys. ppw_step i k = Inr (c, os) \<and> acts_sent os = xs @ ys \<and> (xs = [] \<or> xs @ ms = Q)
        \<and> set ys \<subseteq> {[''READY''], [''HEARTBEAT'']} \<and> (\<forall>k'. c = Halt k' \<longrightarrow> 10 < ppw_cycles k')"
    if m: "(case ppw_poll i of Some es \<Rightarrow> ppw_message i es k | None \<Rightarrow> let (s1, o1) = ppw_silent k in Inr (Next s1, o1)) = Inr (Next k1, o1)"
      and o1: "acts_sent o1 = xs @ ys" "xs = [] \<or> xs @ ms = Q" "set ys \<subseteq> {[''READY'']}" for k1 o1 xs ys
  proof -
    obtain k2 o2 where h: "ppw_heartbeat i k1 = (k2, o2)" and o2: "set (acts_sent o2) \<subseteq> {[''HEARTBEAT'']}"
      using ppw_heartbeat_sends by blast
    have "ppw_step i k = Inr (Next k2, o1 @ o2)" by (simp add: ppw_step_def m h)
    with o1 o2 show ?thesis by (intro exI conjI) (assumption, auto)
  qed
  from p show ?thesis
  proof cases
    case 1
    obtain k1 o1 where "ppw_silent k = (k1, o1)" "set (acts_sent o1) \<subseteq> {[''READY'']}" using ppw_silent_sends by blast
    with 1 beat [of k1 o1 "[]" "acts_sent o1"] show ?thesis by simp
  next
    case (2 m)
    with Q [of m] have "m = [''HEARTBEAT''] \<or> pp_request cur m" by (simp add: queue_sends_def)
    then show ?thesis
    proof
      assume "m = [''HEARTBEAT'']"
      with 2 beat [where xs = "[]" and ys = "[]"] show ?thesis by (simp add: ppw_message_heartbeat)
    next
      assume "pp_request cur m"
      then obtain j str where m: "m = [j, [], str]" by (auto simp: pp_request_def)
      from ppw_message_request [of k i j str] show ?thesis
      proof (elim disjE exE conjE)
        fix k' os
        assume r: "ppw_message i (arrives [j, [], str]) k = Inr (Next k', os)" "acts_sent os = [[j, [], str]]"
        with 2 m beat [where xs = "[m]" and ys = "[]"] show ?thesis by simp
      next
        fix k'
        assume r: "ppw_message i (arrives [j, [], str]) k = Inr (Halt k', [])" "10 < ppw_cycles k'"
        with 2 m show ?thesis by (simp add: ppw_step_def)
      qed (use 2 m in \<open>simp add: ppw_step_def\<close>)
    qed
  qed
qed

subsection \<open>What the queue makes of the workers' messages\<close>

text \<open>
  The back end: a failed assertion, or the queue goes on, with no worker but the sender added, and
  passes on a reply, if there was one.
\<close>

lemma ppq_backend_worker:
  assumes inv: "ppq_inv q" and m: "worker_sends cur m"
  shows "ppq_backend now (arrives (p # m)) q = Inl Assertion
    \<or> (\<exists>ws. workers_inv ws \<and> (ppq_ids q \<noteq> [] \<longrightarrow> ws_queue ws \<noteq> []) \<and> set (ws_queue ws) \<subseteq> insert p (set (ppq_ids q))
        \<and> (ppq_backend now (arrives (p # m)) q = Inr (Next (q\<lparr>ppq_workers := ws\<rparr>), [])
          \<or> pp_request cur m \<and> ppq_backend now (arrives (p # m)) q = Inr (Next (q\<lparr>ppq_workers := ws\<rparr>), [(Frontend, parts_of m)])))"
proof -
  have r: "pp_recv_frames (arrives (p # m)) = Inr (p # m, [])" by simp
  from m consider "m = [''READY'']" | "m = [''HEARTBEAT'']" | i str where "m = [i, [], str]" "cur i str"
    by (auto simp: worker_sends_def pp_request_def)
  then show ?thesis
  proof cases
    case 1
    with ppq_backend_READY [OF inv, of "arrives (p # m)" p "[]" now] r set_remove1_subset [of p "ppq_ids q"] show ?thesis by fastforce
  next
    case 2
    show ?thesis
    proof (cases "p \<in> set (ppq_ids q)")
      case True
      with 2 ppq_backend_HEARTBEAT [OF inv, of "arrives (p # m)" p "[]" now] r show ?thesis by fastforce
    next
      case False
      with 2 ppq_backend_HEARTBEAT_unknown [OF inv, of "arrives (p # m)" p "[]" now] r show ?thesis by simp
    qed
  next
    case 3
    with ppq_backend_reply [OF inv, of "arrives (p # m)" p i "[]" "[str]" "[]" now] r obtain ws where
      "ppq_backend now (arrives (p # m)) q = Inr (Next (q\<lparr>ppq_workers := ws\<rparr>), [(Frontend, parts_of m)])" "workers_inv ws"
      "ws_queue ws = (if p \<in> set (ppq_ids q) then ppq_ids q else ppq_ids q @ [p])" by auto
    moreover have "pp_request cur m" using 3 by (auto simp: pp_request_def)
    ultimately show ?thesis by (intro disjI2 exI [of _ ws]) auto
  qed
qed

lemma router_sends_append: "router_sends Z (pss @ qss) Q = router_sends Z qss (router_sends Z pss Q)"
  by (induction pss arbitrary: Q) (simp_all split: prod.splits)

lemma carried_enqueue: "carried asks i (enqueue p m Q v) = carried asks i (Q v) + (if v = p \<and> asks i m then 1 else 0)"
  by (simp add: enqueue_def)

text \<open>Heartbeats go to the workers in the queue, and are no requests.\<close>

lemma heartbeats_sent: "sent_on Frontend (ppq_heartbeats ws) = []"
  "sent_on Backend (ppq_heartbeats ws) = map (\<lambda>p. parts_of [p, ''HEARTBEAT'']) (ws_queue ws)"
  by (simp_all add: ppq_heartbeats_def sent_on_def filter_map o_def)

lemma heartbeats_rows:
  assumes Z: "zmq_contract Z"
  shows "rows_ok (queue_sends cur) ids Q \<Longrightarrow> set ps \<subseteq> ids \<Longrightarrow>
      rows_ok (queue_sends cur) ids (router_sends Z (map (\<lambda>p. parts_of [p, ''HEARTBEAT'']) ps) Q)"
    "carried ppq_asks i (router_sends Z (map (\<lambda>p. parts_of [p, ''HEARTBEAT'']) ps) Q v) = carried ppq_asks i (Q v)"
proof (induction ps arbitrary: Q)
  case (Cons p ps)
  { case 1
    then show ?case using Cons.IH(1) [of "enqueue p [''HEARTBEAT''] Q"]
      by (simp add: zmq_contractD [OF Z] rows_ok_enqueue queue_sends_def)
  next
    case 2
    then show ?case using Cons.IH(2) [of "enqueue p [''HEARTBEAT''] Q"]
      by (simp add: zmq_contractD [OF Z] carried_enqueue) }
qed simp_all

lemma ppq_housekeeping_net:
  assumes inv: "ppq_inv q" and h: "ppq_housekeeping tc tr tp q = (q', os)"
  shows "ppq_inv q' \<and> set (ppq_ids q') \<subseteq> set (ppq_ids q) \<and> (os = [] \<or> os = ppq_heartbeats (ppq_workers q))"
proof -
  have w: "workers_inv (ppq_workers q)" using inv by (simp add: ppq_inv_def)
  from h inv purge_queue_subset [OF w, of tp] workers_inv_purge [OF w, of tp] show ?thesis
    by (auto simp: ppq_housekeeping_def ppq_inv_def Let_def split: if_splits)
qed

subsection \<open>The pattern meets the clients' interface\<close>

locale paranoid_contract =
  fixes lossy :: bool and Z :: zmq_envelope and cid :: "nat \<Rightarrow> nat \<Rightarrow> frame" and wid :: "nat \<Rightarrow> frame" and N W :: nat
  assumes zmq: "zmq_contract Z"
    and cid_iff: "n < N \<Longrightarrow> n' < N \<Longrightarrow> cid n g = cid n' g' \<longleftrightarrow> n = n' \<and> g = g'"
    and wid_inj: "inj_on wid {..<W}"

sublocale paranoid_contract \<subseteq> lp_clients Z cid N "paranoid_inner wid W" "paranoid_inside wid W"
proof
  show "zmq_contract Z" by (rule zmq)
  show "n < N \<Longrightarrow> n' < N \<Longrightarrow> cid n g = cid n' g' \<longleftrightarrow> n = n' \<and> g = g'" for n n' g g' by (rule cid_iff)
  fix c c' :: "frame \<Rightarrow> frame \<Rightarrow> bool" and s :: paranoid
  assume ok: "paranoid_inside wid W c s" and le: "\<And>i str. 1 \<le> paranoid_inner wid W s i \<Longrightarrow> c i str \<Longrightarrow> c' i str"
  have req: "pp_request c' m" if m: "m \<in> set (pq_be_in s p) \<union> set (pq_be_out s p)" and r: "pp_request c m" for m p
  proof -
    obtain i str where i: "m = [i, [], str]" "c i str" using r by (auto simp: pp_request_def)
    have "p \<in> wid ` {..<W}" using ok m by (auto simp: paranoid_inside_def rows_ok_def)
    then obtain w where w: "w < W" "p = wid w" by blast
    have "1 \<le> paranoid_inner wid W s i" unfolding paranoid_inner_def
      by (rule at_workers_member [OF w(1), of m]) (use m w i in simp_all)
    with le i show ?thesis by (auto simp: pp_request_def)
  qed
  have "rows_ok (worker_sends c') (wid ` {..<W}) (pq_be_in s)" "rows_ok (queue_sends c') (wid ` {..<W}) (pq_be_out s)"
    using ok req unfolding paranoid_inside_def rows_ok_def worker_sends_def queue_sends_def by blast+
  with ok show "paranoid_inside wid W c' s" by (simp add: paranoid_inside_def)
qed (simp_all add: paranoid_inner_def paranoid_inside_def)

context paranoid_contract
begin

abbreviation "ids \<equiv> wid ` {..<W}"

lemma insideD:
  assumes "good s"
  shows "rows_ok (worker_sends (cur s)) ids (pq_be_in s)" "rows_ok (queue_sends (cur s)) ids (pq_be_out s)"
    "queue_ok ids (pq_queue s)" "pq_worker s w = Some (Halt k) \<Longrightarrow> 10 < ppw_cycles k"
  using invD(3) [OF assms] by (auto simp: paranoid_inside_def)

lemma keeps_at:
  assumes g: "good s" and w: "w < W"
    and same: "pn_client t = pn_client s" "pn_gen t = pn_gen s" "pn_got t = pn_got s"
    and ok: "front_ok (cur s) (pn_fe_in t)" "front_ok (cur s) (pn_fe_out t)" "paranoid_inside wid W (cur s) t"
    and at: "\<And>p. p \<noteq> wid w \<Longrightarrow> pq_be_in t p = pq_be_in s p \<and> pq_be_out t p = pq_be_out s p"
    and le: "\<And>i. length (pn_fe_in t i) + length (pn_fe_out t i) + (carried ppq_asks i (pq_be_in t (wid w)) + carried ppq_asks i (pq_be_out t (wid w)))
      \<le> length (pn_fe_in s i) + length (pn_fe_out s i) + (carried ppq_asks i (pq_be_in s (wid w)) + carried ppq_asks i (pq_be_out s (wid w)))"
  shows "good t"
proof (rule inv_move [OF g same ok])
  fix i
  show "fl t i \<le> fl s i"
    using at_workers_change [where asks = ppq_asks and i = i and ins' = "pq_be_in t" and ins = "pq_be_in s"
        and outs' = "pq_be_out t" and outs = "pq_be_out s", OF w wid_inj at] le [of i]
    by (simp add: in_flight_def paranoid_inner_def)
qed

subsection \<open>The steps of a worker\<close>

lemma good_worker:
  assumes g: "good s" and w: "w < W" and p: "ppw_polls (pq_be_out s (wid w)) x ms"
    and os: "acts_sent os = xs @ ys" "xs = [] \<or> xs @ ms = pq_be_out s (wid w)" "set ys \<subseteq> {[''READY''], [''HEARTBEAT'']}"
    and c: "\<And>k. c = Halt k \<Longrightarrow> 10 < ppw_cycles k"
  shows "good (worker_moves (wid w) w (c, os) (s\<lparr>pq_be_out := (pq_be_out s)(wid w := ms)\<rparr>))" (is "good ?t")
proof (rule keeps_at [OF g w])
  let ?outs = "if PpwConnect \<in> set os then [] else ms"
  have t: "pq_be_in ?t = (pq_be_in s)(wid w := pq_be_in s (wid w) @ xs @ ys)" "pq_be_out ?t = (pq_be_out s)(wid w := ?outs)"
    "pn_fe_in ?t = pn_fe_in s" "pn_fe_out ?t = pn_fe_out s" "pq_queue ?t = pq_queue s" "pq_worker ?t = (pq_worker s)(w := Some c)"
    by (simp_all add: worker_moves_def ppw_does_eq os(1))
  have ms: "set ms \<subseteq> set (pq_be_out s (wid w))" using p by cases auto
  have xs: "worker_sends (cur s) m" if "m \<in> set (xs @ ys)" for m
  proof (cases "m \<in> set ys")
    case True
    with os(3) show ?thesis by (auto simp: worker_sends_def)
  next
    case False
    with that os(2) have "m \<in> set (pq_be_out s (wid w))" by (metis Un_iff empty_iff empty_set set_append)
    with insideD(2) [OF g] show ?thesis by (auto simp: rows_ok_def queue_sends_def worker_sends_def)
  qed
  have "rows_ok (worker_sends (cur s)) ids (pq_be_in ?t)"
    unfolding t(1) by (rule rows_ok_upd [OF insideD(1) [OF g]]) (use insideD(1) [OF g] xs w in \<open>auto simp: rows_ok_def\<close>)
  moreover have "rows_ok (queue_sends (cur s)) ids (pq_be_out ?t)"
    unfolding t(2) by (rule rows_ok_subset [OF insideD(2) [OF g]]) (use ms in auto)
  ultimately show "paranoid_inside wid W (cur s) ?t"
    using insideD(3,4) [OF g] c by (auto simp: paranoid_inside_def t(5,6))
  fix i
  have ys: "carried ppq_asks i ys = 0" using os(3) by (induction ys) auto
  have "carried ppq_asks i ms \<le> carried ppq_asks i (pq_be_out s (wid w))" using p by cases simp_all
  moreover have "xs @ ms = pq_be_out s (wid w) \<Longrightarrow>
      carried ppq_asks i xs + carried ppq_asks i ms = carried ppq_asks i (pq_be_out s (wid w))"
    using carried_simps(3) [of ppq_asks i xs ms] by simp
  ultimately have "carried ppq_asks i (xs @ ys) + carried ppq_asks i ?outs \<le> carried ppq_asks i (pq_be_out s (wid w))"
    using os(2) ys by (cases "xs = []") auto
  then show "length (pn_fe_in ?t i) + length (pn_fe_out ?t i) + (carried ppq_asks i (pq_be_in ?t (wid w)) + carried ppq_asks i (pq_be_out ?t (wid w)))
      \<le> length (pn_fe_in s i) + length (pn_fe_out s i) + (carried ppq_asks i (pq_be_in s (wid w)) + carried ppq_asks i (pq_be_out s (wid w)))"
    by (simp add: t)
qed (use invD(1,2) [OF g] in \<open>simp_all add: worker_moves_def ppw_does_eq\<close>)

lemma worker_starting: "good s \<Longrightarrow> w < W \<Longrightarrow> good (worker_moves (wid w) w (Next (ppw_init now), ppw_new_socket) s)"
  using good_worker [of s w None "pq_be_out s (wid w)" ppw_new_socket "[]" "[[''READY'']]" "Next (ppw_init now)"]
  by (simp add: ppw_polls.intros ppw_new_socket_def)

lemma worker_looping:
  assumes g: "good s" and w: "w < W" and p: "ppw_polls (pq_be_out s (wid w)) (ppw_poll i) ms"
  shows "ppw_step i k = Inr r \<Longrightarrow> good (worker_moves (wid w) w r (s\<lparr>pq_be_out := (pq_be_out s)(wid w := ms)\<rparr>))"
    "ppw_step i k = Inl f \<Longrightarrow> f = Undefined \<and> ppw_cycles k = 2 ^ 31 - 1"
proof -
  have Q: "queue_sends (cur s) m" if "m \<in> set (pq_be_out s (wid w))" for m
    using insideD(2) [OF g] that by (auto simp: rows_ok_def)
  note sends = ppw_step_sends [where cur = "cur s", OF p Q, of k]
  show "ppw_step i k = Inl f \<Longrightarrow> f = Undefined \<and> ppw_cycles k = 2 ^ 31 - 1" using sends by auto
  assume "ppw_step i k = Inr r"
  with sends obtain c os xs ys where "r = (c, os)" "acts_sent os = xs @ ys" "xs = [] \<or> xs @ ms = pq_be_out s (wid w)"
    "set ys \<subseteq> {[''READY''], [''HEARTBEAT'']}" "\<forall>k'. c = Halt k' \<longrightarrow> 10 < ppw_cycles k'" by auto
  with good_worker [OF g w p, of os xs ys c]
  show "good (worker_moves (wid w) w r (s\<lparr>pq_be_out := (pq_be_out s)(wid w := ms)\<rparr>))" by blast
qed

subsection \<open>The steps of the queue\<close>

lemma good_back:
  assumes g: "good s" and q: "pq_queue s = Inr q" and t: "takes (pq_be_in s) rb be"
    and i: "poll_be i = map_option (\<lambda>(p, m). arrives (router_in Z p m)) rb"
  shows "(case poll_be i of None \<Rightarrow> Inr (Next q, []) | Some es \<Rightarrow> ppq_backend now es q) = Inl Assertion
    \<or> (\<exists>q1 o1. (case poll_be i of None \<Rightarrow> Inr (Next q, []) | Some es \<Rightarrow> ppq_backend now es q) = Inr (Next q1, o1)
        \<and> sent_on Backend o1 = [] \<and> (ppq_ids q \<noteq> [] \<longrightarrow> ppq_ids q1 \<noteq> [])
        \<and> good (s\<lparr>pq_queue := Inr q1, pq_be_in := be, pn_fe_out := router_sends Z (sent_on Frontend o1) (pn_fe_out s)\<rparr>))"
  using t
proof cases
  case takes_none
  have "s\<lparr>pq_queue := Inr q, pq_be_in := be, pn_fe_out := pn_fe_out s\<rparr> = s"
    using q takes_none by (intro paranoid.equality) simp_all
  with g i takes_none show ?thesis by simp
next
  case (takes_some p m ms)
  from rows_okD [OF insideD(1) [OF g] takes_some(3)] have m: "worker_sends (cur s) m" and p: "p \<in> ids" by blast+
  then obtain w where w: "w < W" "p = wid w" by blast
  have inv: "ppq_inv q" and qi: "set (ppq_ids q) \<subseteq> ids" using insideD(3) [OF g] q by (simp_all add: queue_ok_def)
  have rows: "rows_ok (worker_sends (cur s)) ids ((pq_be_in s)(p := ms))"
    by (rule rows_ok_subset [OF insideD(1) [OF g]]) (auto simp: takes_some(3))
  have good: "good (s\<lparr>pq_queue := Inr (q\<lparr>ppq_workers := ws\<rparr>), pq_be_in := (pq_be_in s)(p := ms), pn_fe_out := fo\<rparr>)"
    if ws: "workers_inv ws" "set (ws_queue ws) \<subseteq> insert p (set (ppq_ids q))"
      and fo: "front_ok (cur s) fo" "\<And>j. length (fo j) \<le> length (pn_fe_out s j) + (if ppq_asks j m then 1 else 0)" for ws fo
  proof (rule keeps_at [OF g w(1)])
    have "queue_ok ids (Inr (q\<lparr>ppq_workers := ws\<rparr>))" using ws qi p by (auto simp: queue_ok_def)
    with rows insideD(2,4) [OF g] show "paranoid_inside wid W (cur s)
        (s\<lparr>pq_queue := Inr (q\<lparr>ppq_workers := ws\<rparr>), pq_be_in := (pq_be_in s)(p := ms), pn_fe_out := fo\<rparr>)"
      by (simp add: paranoid_inside_def)
    show "length (pn_fe_in (s\<lparr>pq_queue := Inr (q\<lparr>ppq_workers := ws\<rparr>), pq_be_in := (pq_be_in s)(p := ms), pn_fe_out := fo\<rparr>) j)
        + length (pn_fe_out (s\<lparr>pq_queue := Inr (q\<lparr>ppq_workers := ws\<rparr>), pq_be_in := (pq_be_in s)(p := ms), pn_fe_out := fo\<rparr>) j)
        + (carried ppq_asks j (pq_be_in (s\<lparr>pq_queue := Inr (q\<lparr>ppq_workers := ws\<rparr>), pq_be_in := (pq_be_in s)(p := ms), pn_fe_out := fo\<rparr>) (wid w))
        + carried ppq_asks j (pq_be_out (s\<lparr>pq_queue := Inr (q\<lparr>ppq_workers := ws\<rparr>), pq_be_in := (pq_be_in s)(p := ms), pn_fe_out := fo\<rparr>) (wid w)))
      \<le> length (pn_fe_in s j) + length (pn_fe_out s j)
        + (carried ppq_asks j (pq_be_in s (wid w)) + carried ppq_asks j (pq_be_out s (wid w)))" for j
      using fo(2) [of j] takes_some(3) w(2) by (cases "ppq_asks j m") simp_all
  qed (use invD(1) [OF g] fo(1) w(2) in simp_all)
  from ppq_backend_worker [OF inv m, of now p] show ?thesis
  proof (elim disjE exE conjE)
    fix ws
    assume ws: "workers_inv ws" "ppq_ids q \<noteq> [] \<longrightarrow> ws_queue ws \<noteq> []" "set (ws_queue ws) \<subseteq> insert p (set (ppq_ids q))"
      and r: "ppq_backend now (arrives (p # m)) q = Inr (Next (q\<lparr>ppq_workers := ws\<rparr>), [])"
    from good [OF ws(1,3) invD(2) [OF g]] ws(2) r i takes_some show ?thesis by simp
  next
    fix ws
    assume ws: "workers_inv ws" "ppq_ids q \<noteq> [] \<longrightarrow> ws_queue ws \<noteq> []" "set (ws_queue ws) \<subseteq> insert p (set (ppq_ids q))"
      and req: "pp_request (cur s) m"
      and r: "ppq_backend now (arrives (p # m)) q = Inr (Next (q\<lparr>ppq_workers := ws\<rparr>), [(Frontend, parts_of m)])"
    from req obtain j str where m: "m = [j, [], str]" and c: "cur s j str" by (auto simp: pp_request_def)
    have "good (s\<lparr>pq_queue := Inr (q\<lparr>ppq_workers := ws\<rparr>), pq_be_in := (pq_be_in s)(p := ms), pn_fe_out := enqueue j [[], str] (pn_fe_out s)\<rparr>)"
      by (rule good [OF ws(1,3) front_ok_enqueue [OF invD(2) [OF g] c]]) (simp add: m enqueue_def)
    with ws(2) r i takes_some m show ?thesis by simp
  qed (use i takes_some in simp)
qed

lemma good_front:
  assumes g: "good s" and q: "pq_queue s = Inr q" and t: "takes (pn_fe_in s) rf fe"
    and i: "poll_fe i = map_option (\<lambda>(p, m). arrives (router_in Z p m)) rf" and ne: "ppq_ids q = [] \<Longrightarrow> rf = None"
  shows "\<exists>q1 o1. (case poll_fe i of None \<Rightarrow> Inr (q, []) | Some es \<Rightarrow> ppq_frontend es q) = Inr (q1, o1) \<and> sent_on Frontend o1 = []
    \<and> good (s\<lparr>pq_queue := Inr q1, pn_fe_in := fe, pq_be_out := router_sends Z (sent_on Backend o1) (pq_be_out s)\<rparr>)"
  using t
proof cases
  case takes_none
  have "s\<lparr>pq_queue := Inr q, pn_fe_in := fe, pq_be_out := pq_be_out s\<rparr> = s"
    using q takes_none by (intro paranoid.equality) simp_all
  with g i takes_none show ?thesis by simp
next
  case (takes_some j m ms)
  with ne obtain p ps where ids: "ppq_ids q = p # ps" by (cases "ppq_ids q") auto
  have inv: "ppq_inv q" and qi: "set (ppq_ids q) \<subseteq> ids" using insideD(3) [OF g] q by (simp_all add: queue_ok_def)
  with ids obtain w where w: "w < W" "p = wid w" by auto
  from invD(1) [OF g] takes_some(3) obtain str where m: "m = [[], str]" and c: "cur s j str"
    unfolding front_ok_def by (metis list.set_intros(1))
  let ?q = "q\<lparr>ppq_workers := workers_pop (ppq_workers q)\<rparr>"
  let ?t = "s\<lparr>pq_queue := Inr ?q, pn_fe_in := (pn_fe_in s)(j := ms), pq_be_out := enqueue p [j, [], str] (pq_be_out s)\<rparr>"
  from ppq_frontend_request [OF inv ids, of "arrives (j # m)" "j # m" "[]"]
  have r: "ppq_frontend (arrives (j # m)) q = Inr (?q, [(Backend, parts_of (p # j # m))])"
    and ps: "ws_queue (workers_pop (ppq_workers q)) = ps" "workers_inv (workers_pop (ppq_workers q))" by simp_all
  have "good ?t"
  proof (rule keeps_at [OF g w(1)])
    show "front_ok (cur s) (pn_fe_in ?t)" using front_ok_subset [OF invD(1) [OF g], of ms j] takes_some(3) by auto
    have "queue_ok ids (Inr ?q)" using ps qi ids by (simp add: queue_ok_def)
    moreover have "rows_ok (queue_sends (cur s)) ids (enqueue p [j, [], str] (pq_be_out s))"
      by (rule rows_ok_enqueue [OF insideD(2) [OF g]]) (use w c in \<open>auto simp: queue_sends_def pp_request_def\<close>)
    ultimately show "paranoid_inside wid W (cur s) ?t" using insideD(1,4) [OF g] by (simp add: paranoid_inside_def)
    fix k
    show "length (pn_fe_in ?t k) + length (pn_fe_out ?t k) + (carried ppq_asks k (pq_be_in ?t (wid w)) + carried ppq_asks k (pq_be_out ?t (wid w)))
      \<le> length (pn_fe_in s k) + length (pn_fe_out s k) + (carried ppq_asks k (pq_be_in s (wid w)) + carried ppq_asks k (pq_be_out s (wid w)))"
      using takes_some(3) w(2) by (cases "j = k") (simp_all add: carried_enqueue)
  qed (use invD(2) [OF g] w(2) in \<open>simp_all add: enqueue_def\<close>)
  with r i takes_some m show ?thesis by simp
qed

lemma good_house:
  assumes g: "good s" and q: "pq_queue s = Inr q" and h: "ppq_housekeeping tc tr tp q = (q', os)"
  shows "sent_on Frontend os = [] \<and> good (s\<lparr>pq_queue := Inr q', pq_be_out := router_sends Z (sent_on Backend os) (pq_be_out s)\<rparr>)"
    (is "_ \<and> good ?t")
proof
  have inv: "ppq_inv q" and qi: "set (ppq_ids q) \<subseteq> ids" using insideD(3) [OF g] q by (simp_all add: queue_ok_def)
  from ppq_housekeeping_net [OF inv h] have q': "ppq_inv q'" "set (ppq_ids q') \<subseteq> set (ppq_ids q)"
    and os: "os = [] \<or> os = ppq_heartbeats (ppq_workers q)" by simp_all
  from os show "sent_on Frontend os = []" by (auto simp: heartbeats_sent)
  have rows: "rows_ok (queue_sends (cur s)) ids (router_sends Z (sent_on Backend os) (pq_be_out s))"
    using os heartbeats_rows(1) [OF zmq insideD(2) [OF g] qi] insideD(2) [OF g] by (auto simp: heartbeats_sent)
  have same: "carried ppq_asks i (router_sends Z (sent_on Backend os) (pq_be_out s) p) = carried ppq_asks i (pq_be_out s p)" for i p
    using os heartbeats_rows(2) [OF zmq] by (auto simp: heartbeats_sent)
  show "good ?t"
  proof (rule inv_move [OF g])
    show "paranoid_inside wid W (cur s) ?t"
      using rows q' qi insideD(1,4) [OF g] by (auto simp: paranoid_inside_def queue_ok_def)
    show "fl ?t i \<le> fl s i" for i by (simp add: in_flight_def paranoid_inner_def at_workers_def same)
  qed (use invD(1,2) [OF g] in simp_all)
qed

text \<open>An iteration fails the assertion or keeps the invariant.\<close>

lemma good_turn:
  assumes g: "good s" and q: "pq_queue s = Inr q" and rb: "takes (pq_be_in s) rb be" and rf: "takes (pn_fe_in s) rf fe"
    and p: "ppq_polls Z q rb rf i"
  shows "ppq_step i q = Inl Assertion \<or> (\<exists>c os. ppq_step i q = Inr (c, os)
    \<and> good (s\<lparr>pq_queue := Inr (ctl_state c), pq_be_in := be, pn_fe_in := fe,
      pn_fe_out := router_sends Z (sent_on Frontend os) (pn_fe_out s),
      pq_be_out := router_sends Z (sent_on Backend os) (pq_be_out s)\<rparr>))"
proof -
  let ?b = "case poll_be i of None \<Rightarrow> Inr (Next q, []) | Some es \<Rightarrow> ppq_backend (ppq_t_pool i) es q"
  have pb: "poll_be i = map_option (\<lambda>(p, m). arrives (router_in Z p m)) rb" and pl: "ppq_ids q = [] \<longrightarrow> rf = None"
    and pf: "poll_fe i = map_option (\<lambda>(p, m). arrives (router_in Z p m)) rf" using p by (simp_all add: ppq_polls_def)
  have fe: "(if workers_empty (ppq_workers q) then None else poll_fe i) = poll_fe i"
    using pl pf by (simp add: workers_empty_def)
  from good_back [OF g q rb pb, of "ppq_t_pool i"] show ?thesis
  proof (elim disjE exE conjE)
    assume "?b = Inl Assertion"
    then show ?thesis by (simp add: ppq_step_def)
  next
    fix q1 o1
    assume b: "?b = Inr (Next q1, o1)" and o1: "sent_on Backend o1 = []" and ne: "ppq_ids q \<noteq> [] \<longrightarrow> ppq_ids q1 \<noteq> []"
    let ?s = "s\<lparr>pq_queue := Inr q1, pq_be_in := be, pn_fe_out := router_sends Z (sent_on Frontend o1) (pn_fe_out s)\<rparr>"
    assume g1: "good ?s"
    have "takes (pn_fe_in ?s) rf fe" "ppq_ids q1 = [] \<Longrightarrow> rf = None" "pq_queue ?s = Inr q1" using rf pl ne by auto
    from good_front [OF g1 this(3) this(1) pf this(2)] obtain q2 o2 where
      f: "(case poll_fe i of None \<Rightarrow> Inr (q1, []) | Some es \<Rightarrow> ppq_frontend es q1) = Inr (q2, o2)" and o2: "sent_on Frontend o2 = []"
      and g2: "good (?s\<lparr>pq_queue := Inr q2, pn_fe_in := fe, pq_be_out := router_sends Z (sent_on Backend o2) (pq_be_out ?s)\<rparr>)" (is "good ?t")
      by blast
    obtain q3 o3 where h: "ppq_housekeeping (ppq_t_check i) (ppq_t_reset i) (ppq_t_purge i) q2 = (q3, o3)" by fastforce
    have "pq_queue ?t = Inr q2" by simp
    from good_house [OF g2 this h] have o3: "sent_on Frontend o3 = []"
      and g3: "good (?t\<lparr>pq_queue := Inr q3, pq_be_out := router_sends Z (sent_on Backend o3) (pq_be_out ?t)\<rparr>)" by simp_all
    have "ppq_step i q = Inr (Next q3, o1 @ o2 @ o3)" by (simp add: ppq_step_def Let_def fe b f h)
    moreover have "?t\<lparr>pq_queue := Inr q3, pq_be_out := router_sends Z (sent_on Backend o3) (pq_be_out ?t)\<rparr> =
        s\<lparr>pq_queue := Inr (ctl_state (Next q3)), pq_be_in := be, pn_fe_in := fe,
          pn_fe_out := router_sends Z (sent_on Frontend (o1 @ o2 @ o3)) (pn_fe_out s),
          pq_be_out := router_sends Z (sent_on Backend (o1 @ o2 @ o3)) (pq_be_out s)\<rparr>"
      using o1 o2 o3 by (intro paranoid.equality) (simp_all add: router_sends_append)
    ultimately show ?thesis using g3 by metis
  qed
qed

subsection \<open>All steps\<close>

lemma good_loses:
  assumes g: "good s"
  shows "loses (pn_fe_in s) Q \<Longrightarrow> good (s\<lparr>pn_fe_in := Q\<rparr>)" "loses (pn_fe_out s) Q \<Longrightarrow> good (s\<lparr>pn_fe_out := Q\<rparr>)"
    "loses (pq_be_in s) Q \<Longrightarrow> good (s\<lparr>pq_be_in := Q\<rparr>)" "loses (pq_be_out s) Q \<Longrightarrow> good (s\<lparr>pq_be_out := Q\<rparr>)"
proof -
  show "loses (pn_fe_in s) Q \<Longrightarrow> good (s\<lparr>pn_fe_in := Q\<rparr>)"
    by (erule loses.cases) (auto intro!: good_drops [OF g])
  show "loses (pn_fe_out s) Q \<Longrightarrow> good (s\<lparr>pn_fe_out := Q\<rparr>)"
    by (erule loses.cases) (auto intro!: good_drops_answer [OF g])
  have le: "at_workers ppq_asks wid W A B i \<le> at_workers ppq_asks wid W C D i"
    if "\<And>p. carried ppq_asks i (A p) \<le> carried ppq_asks i (C p)" "\<And>p. carried ppq_asks i (B p) \<le> carried ppq_asks i (D p)" for A B C D i
    unfolding at_workers_def by (intro sum_mono add_mono that)
  show "good (s\<lparr>pq_be_in := Q\<rparr>)" if l: "loses (pq_be_in s) Q"
  proof (rule inv_move [OF g])
    show "paranoid_inside wid W (cur s) (s\<lparr>pq_be_in := Q\<rparr>)"
      using loses_rows [OF l insideD(1) [OF g]] insideD(2,3,4) [OF g] by (simp add: paranoid_inside_def)
    show "fl (s\<lparr>pq_be_in := Q\<rparr>) i \<le> fl s i" for i
      using le [of i Q "pq_be_in s" "pq_be_out s" "pq_be_out s"] loses_carried [OF l] by (simp add: in_flight_def paranoid_inner_def)
  qed (use invD(1,2) [OF g] in simp_all)
  show "good (s\<lparr>pq_be_out := Q\<rparr>)" if l: "loses (pq_be_out s) Q"
  proof (rule inv_move [OF g])
    show "paranoid_inside wid W (cur s) (s\<lparr>pq_be_out := Q\<rparr>)"
      using loses_rows [OF l insideD(2) [OF g]] insideD(1,3,4) [OF g] by (simp add: paranoid_inside_def)
    show "fl (s\<lparr>pq_be_out := Q\<rparr>) i \<le> fl s i" for i
      using le [of i "pq_be_in s" "pq_be_in s" Q "pq_be_out s"] loses_carried [OF l] by (simp add: in_flight_def paranoid_inner_def)
  qed (use invD(1,2) [OF g] in simp_all)
qed

lemma faults_keep:
  assumes "paranoid_faults N W s" and "pn_fault t = pn_fault s" and "\<And>n. length (pn_got s n) \<le> length (pn_got t n)"
    and "\<And>w k. pq_worker s w = Some (Halt k) \<Longrightarrow> pq_worker t w = Some (Halt k)"
  shows "paranoid_faults N W t"
  using assms client_faults_keep [of N s t] unfolding paranoid_faults_def by metis

lemma client_step_worker: "client_step Z cid N s t \<Longrightarrow> pq_worker t = pq_worker s"
  by (erule client_step.cases) (simp_all add: client_moves_def split: prod.splits)

lemma worker_moves_faults:
  assumes "paranoid_faults N W s" and "\<And>k. pq_worker s w \<noteq> Some (Halt k)"
  shows "paranoid_faults N W (worker_moves p w r (s\<lparr>pq_be_out := Q\<rparr>))"
  by (rule faults_keep [OF assms(1)]) (use assms(2) in \<open>auto simp: worker_moves_def ppw_does_eq\<close>)

lemma step_keeps:
  assumes g: "good s" and f: "paranoid_faults N W s" and st: "paranoid_step lossy Z cid wid N W s t"
  shows "good t \<and> paranoid_faults N W t"
  using st
proof cases
  case paranoid_client
  with client_step_keeps [OF g paranoid_client] client_step_worker [OF paranoid_client] f faults_keep [OF f, of t]
  show ?thesis by (auto simp: paranoid_faults_def)
next
  case (worker_starts w now)
  with worker_starting [OF g worker_starts(2)] worker_moves_faults [OF f, of w _ _ "pq_be_out s"] show ?thesis by simp
next
  case (worker_loops w k i ms r)
  with worker_looping(1) [OF g worker_loops(2,4,5)] worker_moves_faults [OF f, of w] show ?thesis by simp
next
  case (worker_breaks w k i ms e)
  with worker_looping(2) [OF g worker_breaks(2,4,5)] have e: "e = Undefined" "ppw_cycles k = 2 ^ 31 - 1" by simp_all
  have "good (s\<lparr>pn_fault := Some e\<rparr>)" by (rule good_fault [OF g])
  from invD(1,2) [OF this] insideD [OF this] e worker_breaks(1) have "good t"
    by (intro inv_move [OF \<open>good (s\<lparr>pn_fault := Some e\<rparr>)\<close>])
      (simp_all add: paranoid_inside_def in_flight_def paranoid_inner_def)
  moreover have "pq_worker t w = Some (Halt k)" using worker_breaks(1) by simp
  ultimately show ?thesis using worker_breaks(1,2) e unfolding paranoid_faults_def by auto
next
  case (queue_turns q rb be rf fe i c os)
  have "paranoid_faults N W t" by (rule faults_keep [OF f]) (simp_all add: queue_turns(1))
  with good_turn [OF g queue_turns(2,3,4,5)] queue_turns(1,6) show ?thesis by auto
next
  case (queue_aborts q rb be rf fe i e)
  with good_turn [OF g queue_aborts(2,3,4,5)] have e: "e = Assertion" by auto
  have "good (s\<lparr>pq_queue := Inl e\<rparr>)"
    by (rule inv_move [OF g])
      (use invD(1,2) [OF g] insideD [OF g] e in \<open>simp_all add: paranoid_inside_def queue_ok_def in_flight_def paranoid_inner_def\<close>)
  moreover have "paranoid_faults N W t" by (rule faults_keep [OF f]) (simp_all add: queue_aborts(1))
  ultimately show ?thesis using queue_aborts(1) by simp
qed (use good_loses [OF g] faults_keep [OF f, of t] in simp_all)

lemma paranoid_start: "good (paranoid_init t) \<and> paranoid_faults N W (paranoid_init t)"
proof
  show "good (paranoid_init t)"
    by (rule good_start)
      (simp_all add: paranoid_init_def paranoid_inner_def at_workers_empty paranoid_inside_def rows_ok_def queue_ok_def,
        simp add: ppq_init_def workers_new_def)
qed (simp add: paranoid_faults_def paranoid_init_def)

lemma system: "invariant_system (paranoid_init t) (paranoid_step lossy Z cid wid N W) (\<lambda>s. good s \<and> paranoid_faults N W s)"
  using paranoid_start step_keeps by unfold_locales blast+

lemma reachable_answers:
  assumes "(paranoid_step lossy Z cid wid N W)\<^sup>*\<^sup>* (paranoid_init t) s"
  shows "(\<forall>n < N. pn_got s n = map (\<lambda>k. int_string (int k)) [1..<Suc (length (pn_got s n))]
      \<and> (\<forall>c. pn_client s n = Some c \<longrightarrow> lp_sequence (ctl_state c) = int (length (pn_got s n)) + 1))
    \<and> (\<forall>q. pq_queue s = Inr q \<longrightarrow> distinct (ppq_ids q) \<and> set (ppq_ids q) \<subseteq> wid ` {..<W})
    \<and> (\<forall>e. pq_queue s = Inl e \<longrightarrow> e = Assertion)
    \<and> (\<forall>w k. pq_worker s w = Some (Halt k) \<longrightarrow> 10 < ppw_cycles k)
    \<and> (pn_fault s = None \<or> pn_fault s = Some Undefined
        \<and> ((\<exists>n < N. 2 ^ 31 - 2 \<le> length (pn_got s n)) \<or> (\<exists>w < W. \<exists>k. pq_worker s w = Some (Halt k) \<and> ppw_cycles k = 2 ^ 31 - 1)))"
proof -
  from invariant_system.inv_reachable [OF system assms] have g: "good s" and f: "paranoid_faults N W s" by simp_all
  have "distinct (ppq_ids q) \<and> set (ppq_ids q) \<subseteq> ids" if "pq_queue s = Inr q" for q
    using insideD(3) [OF g] that by (auto simp: queue_ok_def ppq_inv_def workers_invD(1))
  moreover have "e = Assertion" if "pq_queue s = Inl e" for e using insideD(3) [OF g] that by (simp add: queue_ok_def)
  ultimately show ?thesis using answers [OF g] insideD(4) [OF g] f unfolding paranoid_faults_def client_faults_def by blast
qed

end

text \<open>Identities for the witnesses: workers have process ids.\<close>

definition paranoid_wid :: "nat \<Rightarrow> frame" where
  "paranoid_wid w = ppw_get_id (int w)"

interpretation paranoid_std: paranoid_contract lossy zmq_std pirate_cid paranoid_wid N W for lossy N W
proof
  show "inj_on paranoid_wid {..<W}"
    by (rule inj_onI) (auto simp: paranoid_wid_def ppw_get_id_def int_string_def dest: nat_string_inj)
qed (simp_all add: pirate_cid_inject)

subsection \<open>What the pattern does\<close>

text \<open>
  C13: in every interleaving of lazy pirate clients, paranoid pirate queue and workers, with time-outs
  at any moment, any clock readings, workers that reconnect or crash, and messages lost anywhere, each
  client reads the answers 1, 2, 3 and so on to its own requests; the pool holds workers only, none
  twice; a worker stops only in its simulated crash, never for a message it does not know; the queue
  stops only by a failed assertion; and threads fail only at the end of the range of a counter.
\<close>

theorem paranoid_answers:
  assumes "zmq_contract Z" and "\<And>n n' g g'. n < N \<Longrightarrow> n' < N \<Longrightarrow> cid n g = cid n' g' \<longleftrightarrow> n = n' \<and> g = g'"
    and "inj_on wid {..<W}" and r: "(paranoid_step lossy Z cid wid N W)\<^sup>*\<^sup>* (paranoid_init t) s"
  shows "(\<forall>n < N. pn_got s n = map (\<lambda>k. int_string (int k)) [1..<Suc (length (pn_got s n))]
      \<and> (\<forall>c. pn_client s n = Some c \<longrightarrow> lp_sequence (ctl_state c) = int (length (pn_got s n)) + 1))
    \<and> (\<forall>q. pq_queue s = Inr q \<longrightarrow> distinct (ppq_ids q) \<and> set (ppq_ids q) \<subseteq> wid ` {..<W})
    \<and> (\<forall>e. pq_queue s = Inl e \<longrightarrow> e = Assertion)
    \<and> (\<forall>w k. pq_worker s w = Some (Halt k) \<longrightarrow> 10 < ppw_cycles k)
    \<and> (pn_fault s = None \<or> pn_fault s = Some Undefined
        \<and> ((\<exists>n < N. 2 ^ 31 - 2 \<le> length (pn_got s n)) \<or> (\<exists>w < W. \<exists>k. pq_worker s w = Some (Halt k) \<and> ppw_cycles k = 2 ^ 31 - 1)))"
  by (rule paranoid_contract.reachable_answers [OF _ r]) (use assms(1-3) in \<open>simp add: paranoid_contract_def\<close>)

text \<open>The run of the next property, up to the state in which the heartbeat comes.\<close>

lemma worker_heartbeat_turn:
  "ppw_step \<lparr>ppw_poll = None, ppw_crash = 1, ppw_slow = 1, ppw_t_check = t, ppw_t_reset = t\<rparr> (ppw_init (t - secs 2)) =
    Inr (Next (ppw_init t\<lparr>ppw_liveness := 2\<rparr>), [PpwSend [(''HEARTBEAT'', False)]])"
  by (simp add: ppw_step_def ppw_silent_def ppw_heartbeat_def ppw_init_def heartbeat_liveness_def heartbeat_interval_def secs_def)

lemma ppq_one_ids: "ppq_ids (ppq_one t w) = [w]"
  by (simp add: ppq_one_def)

lemma ppq_at_polls:
  assumes "zmq_contract Z"
  shows "ppq_polls Z q (Some (p, m)) None (ppq_at t (Some (p # m)) None)"
    "ppq_ids q \<noteq> [] \<Longrightarrow> ppq_polls Z q None (Some (p, m)) (ppq_at t None (Some (p # m)))"
  by (simp_all add: ppq_polls_def ppq_at_def arrives_def zmq_contractD [OF assms])

lemma paranoid_busy_heartbeat:
  assumes Z: "zmq_contract Z" and "0 < N" and "0 < W"
  shows "\<exists>s. (paranoid_step False Z cid wid N W)\<^sup>*\<^sup>* (paranoid_init t) s \<and> pq_queue s = Inr (ppq_init t)
    \<and> pq_be_in s (wid 0) = [[''HEARTBEAT'']] \<and> pq_be_out s (wid 0) = [[cid 0 0, [], int_string 1]]
    \<and> pq_worker s 0 = Some (Next (ppw_init t\<lparr>ppw_liveness := 2\<rparr>))
    \<and> pn_client s 0 = Some (Next \<lparr>lp_sequence = 1, lp_retries_left = 3\<rparr>) \<and> pn_gen s 0 = 0 \<and> pn_fault s = None"
proof -
  note envelope = zmq_contractD [OF Z]
  let ?step = "paranoid_step False Z cid wid N W" and ?w = "wid 0" and ?c = "cid 0 0"
  let ?a = "worker_moves ?w 0 (Next (ppw_init (t - secs 2)), ppw_new_socket) (paranoid_init t)"
  let ?b = "?a\<lparr>pq_queue := Inr (ctl_state (Next (ppq_one t ?w))), pq_be_in := (pq_be_in ?a)(?w := []), pn_fe_in := pn_fe_in ?a,
      pn_fe_out := router_sends Z (sent_on Frontend []) (pn_fe_out ?a), pq_be_out := router_sends Z (sent_on Backend []) (pq_be_out ?a)\<rparr>"
  let ?d = "client_moves Z cid 0 [] (Next \<lparr>lp_sequence = 1, lp_retries_left = 3\<rparr>, [LpSend (int_string 1)]) ?b"
  let ?e = "worker_moves ?w 0 (Next (ppw_init t\<lparr>ppw_liveness := 2\<rparr>), [PpwSend [(''HEARTBEAT'', False)]])
      (?d\<lparr>pq_be_out := (pq_be_out ?d)(?w := pq_be_out ?d ?w)\<rparr>)"
  let ?os = "[(Backend, parts_of [?w, ?c, [], int_string 1])]"
  let ?f = "?e\<lparr>pq_queue := Inr (ctl_state (Next (ppq_init t))), pq_be_in := pq_be_in ?e, pn_fe_in := (pn_fe_in ?e)(?c := []),
      pn_fe_out := router_sends Z (sent_on Frontend ?os) (pn_fe_out ?e), pq_be_out := router_sends Z (sent_on Backend ?os) (pq_be_out ?e)\<rparr>"
  have a: "?step (paranoid_init t) ?a" by (rule worker_starts) (use assms in \<open>simp_all add: paranoid_init_def\<close>)
  have b: "?step ?a ?b"
    by (rule queue_turns [where rb = "Some (?w, [''READY''])" and rf = None and q = "ppq_init t"
          and i = "ppq_at t (Some [?w, ''READY'']) None", OF _ takes_some takes_none])
      (simp_all add: worker_moves_def paranoid_init_def ppw_new_socket_def enqueue_def ppq_step_READY ppq_at_polls [OF Z])
  have d: "?step ?b ?d"
    by (intro paranoid_client client_starts) (use assms in \<open>simp_all add: lp_starts worker_moves_def ppw_does_eq paranoid_init_def\<close>)
  have e: "?step ?d ?e"
    by (rule worker_loops [OF _ _ _ worker_heartbeat_turn])
      (use assms in \<open>simp_all add: client_moves_def worker_moves_def ppw_does_eq ppw_polls.intros\<close>)
  have f: "?step ?e ?f"
    by (rule queue_turns [where rb = None and rf = "Some (?c, [[], int_string 1])" and q = "ppq_one t ?w"
          and i = "ppq_at t None (Some [?c, [], int_string 1])", OF _ takes_none takes_some])
      (simp_all add: worker_moves_def client_moves_def ppw_does_eq paranoid_init_def ppq_step_request ppq_at_polls [OF Z]
        enqueue_def envelope ppq_one_ids)
  from a b d e f have "?step\<^sup>*\<^sup>* (paranoid_init t) ?f" by (meson converse_rtranclp_into_rtranclp rtranclp.rtrancl_refl)
  then show ?thesis
    by (intro exI [of _ ?f])
      (simp add: worker_moves_def client_moves_def ppw_does_eq paranoid_init_def ppw_new_socket_def enqueue_def envelope)
qed

theorem paranoid_answers_witness:
  "\<exists>s. (paranoid_step False zmq_std pirate_cid paranoid_wid 1 2)\<^sup>*\<^sup>* (paranoid_init 0) s
    \<and> pq_be_in s (paranoid_wid 0) = [[''HEARTBEAT'']] \<and> pn_got s 0 = []"
proof -
  obtain s where r: "(paranoid_step False zmq_std pirate_cid paranoid_wid 1 2)\<^sup>*\<^sup>* (paranoid_init 0) s"
    and h: "pq_be_in s (paranoid_wid 0) = [[''HEARTBEAT'']]"
    and c: "pn_client s 0 = Some (Next \<lparr>lp_sequence = 1, lp_retries_left = 3\<rparr>)"
    using paranoid_busy_heartbeat [OF zmq_std_contract, of 1 2 pirate_cid paranoid_wid 0] by auto
  from paranoid_answers [OF zmq_std_contract pirate_cid_inject paranoid_std.wid_inj r] c have "pn_got s 0 = []" by simp
  with r h show ?thesis by blast
qed

text \<open>
  C8: the paranoid pirate queue can be brought down by a worker that does what its program says. With
  any number of clients and workers, and nothing lost, late or repeated, there is a run in which a
  worker sends READY and its first heartbeat, the queue gives it a request in between, and the
  heartbeat, which it reads next, fails the assertion. The worker is alive and the client waits for its
  first answer.
\<close>

theorem paranoid_may_abort:
  assumes "zmq_contract Z" and "0 < N" and "0 < W"
  shows "\<exists>s k. (paranoid_step False Z cid wid N W)\<^sup>*\<^sup>* (paranoid_init t) s \<and> pq_queue s = Inl Assertion
    \<and> pq_worker s 0 = Some (Next k) \<and> ppw_cycles k = 0
    \<and> pn_client s 0 = Some (Next \<lparr>lp_sequence = 1, lp_retries_left = 3\<rparr>) \<and> pn_gen s 0 = 0 \<and> pn_fault s = None"
proof -
  let ?step = "paranoid_step False Z cid wid N W" and ?i = "ppq_at t (Some [wid 0, ''HEARTBEAT'']) None"
  obtain s where r: "?step\<^sup>*\<^sup>* (paranoid_init t) s" and q: "pq_queue s = Inr (ppq_init t)"
    and h: "pq_be_in s (wid 0) = [[''HEARTBEAT'']]" and w: "pq_worker s 0 = Some (Next (ppw_init t\<lparr>ppw_liveness := 2\<rparr>))"
    and c: "pn_client s 0 = Some (Next \<lparr>lp_sequence = 1, lp_retries_left = 3\<rparr>)" "pn_gen s 0 = 0" "pn_fault s = None"
    using paranoid_busy_heartbeat [OF assms, of cid wid t] by (elim exE conjE) (rule that)
  have "ppq_step ?i (ppq_init t) = Inl Assertion"
    by (simp add: ppq_step_fault ppq_backend_fault ppq_at_def) (simp add: ppq_init_def workers_new_def pp_recv_frames_def)
  then have "?step s (s\<lparr>pq_queue := Inl Assertion\<rparr>)"
    by (rule queue_aborts [OF q takes_some [where Q = "pq_be_in s", OF h] takes_none ppq_at_polls(1) [OF assms(1)]])
  with r have "?step\<^sup>*\<^sup>* (paranoid_init t) (s\<lparr>pq_queue := Inl Assertion\<rparr>)" by simp
  then show ?thesis
    by (intro exI [of _ "s\<lparr>pq_queue := Inl Assertion\<rparr>"] exI [of _ "ppw_init t\<lparr>ppw_liveness := 2\<rparr>"])
      (simp add: w c ppw_init_def)
qed

theorem paranoid_may_abort_witness:
  "\<exists>s. (paranoid_step False zmq_std pirate_cid paranoid_wid 1 2)\<^sup>*\<^sup>* (paranoid_init 0) s \<and> pq_queue s = Inl Assertion"
  using paranoid_may_abort [OF zmq_std_contract, of 1 2 pirate_cid paranoid_wid 0] by auto

end
