(* ===== verification/PipeNet.thy ===== *)
theory PipeNet
  imports Pipeline Systems "HOL-Library.Multiset"
begin

text \<open>
  Ventilator, workers and sink of \<open>divide-and-conquer\<close> as a system: tasks go to any worker, results
  come back in any order, and the start signal of the ventilator may arrive after them. A worker whose
  subscription to the control messages is late misses the KILL. The lemmas: a balance of tasks and
  results, that every run ends, and how.
\<close>

subsection \<open>The programs\<close>

text \<open>
  What the ventilator has still to send to the sink and to the workers; the tasks at each worker; the
  results on their way to the sink from the ventilator (\<open>None\<close>) and from each worker; each worker's
  loop and the times it has slept; the workers whose subscription the sink knows, and the control
  messages on their way to them; what the sink has received, and what it has printed once it has
  stopped receiving.
\<close>

record pipeline =
  pl_start :: "msg list"
  pl_todo :: "msg list"
  pl_tasks :: "nat \<Rightarrow> msg list"
  pl_results :: "nat option \<Rightarrow> msg list"
  pl_worker :: "nat \<Rightarrow> unit ctl"
  pl_slept :: "nat \<Rightarrow> int list"
  pl_known :: "nat \<Rightarrow> bool"
  pl_control :: "nat \<Rightarrow> msg list"
  pl_seen :: "recv_event list"
  pl_marks :: "string option"
  pl_fault :: "fault option"

definition pipeline_init :: "char \<Rightarrow> int list \<Rightarrow> pipeline" where
  "pipeline_init junk workloads =
     (let sends = taskvent_loop workloads 0
      in \<lparr>pl_start = [map fst (taskvent_start junk)],
          pl_todo = (case sends of Inl _ \<Rightarrow> [] | Inr (pss, _) \<Rightarrow> map (map fst) pss),
          pl_tasks = (\<lambda>_. []), pl_results = (\<lambda>_. []), pl_worker = (\<lambda>_. Next ()), pl_slept = (\<lambda>_. []),
          pl_known = (\<lambda>_. False), pl_control = (\<lambda>_. []), pl_seen = [], pl_marks = None,
          pl_fault = (case sends of Inl e \<Rightarrow> Some e | Inr _ \<Rightarrow> None)\<rparr>)"

definition tw_sleeps :: "tw_act list \<Rightarrow> int list" where
  "tw_sleeps os = concat (map (\<lambda>a. case a of TwSleep n \<Rightarrow> [n] | TwSend _ \<Rightarrow> []) os)"

definition tw_sends :: "tw_act list \<Rightarrow> msg list" where
  "tw_sends os = concat (map (\<lambda>a. case a of TwSleep _ \<Rightarrow> [] | TwSend ps \<Rightarrow> [map fst ps]) os)"

text \<open>What a worker's poll finds: the next task, if one has arrived, and whether it has been told to stop.\<close>

definition taskwork_polls :: "pipeline \<Rightarrow> nat \<Rightarrow> msg option \<Rightarrow> bool \<Rightarrow> msg list \<Rightarrow> bool" where
  "taskwork_polls s w task control rest \<longleftrightarrow>
     (case task of None \<Rightarrow> rest = pl_tasks s w | Some m \<Rightarrow> pl_tasks s w = m # rest)
     \<and> (control \<longrightarrow> pl_control s w \<noteq> []) \<and> (task \<noteq> None \<or> control)"

text \<open>
  The steps, with \<open>W\<close> workers. The sink waits as long as what it has received does not let its
  program go on.
\<close>

inductive pipeline_step :: "nat \<Rightarrow> pipeline \<Rightarrow> pipeline \<Rightarrow> bool" for W where
  vent_starts: "pl_start s = m # ms \<Longrightarrow>
    pipeline_step W s (s\<lparr>pl_start := ms, pl_results := (pl_results s)(None := pl_results s None @ [m])\<rparr>)"
| vent_sends: "pl_start s = [] \<Longrightarrow> pl_todo s = m # ms \<Longrightarrow> w < W \<Longrightarrow> pl_worker s w = Next () \<Longrightarrow>
    pipeline_step W s (s\<lparr>pl_todo := ms, pl_tasks := (pl_tasks s)(w := pl_tasks s w @ [m])\<rparr>)"
| worker_works: "w < W \<Longrightarrow> pl_worker s w = Next () \<Longrightarrow> taskwork_polls s w task control rest \<Longrightarrow>
    taskwork_step (map_option arrives task, control) () = Inr (c, os) \<Longrightarrow>
    pipeline_step W s (s\<lparr>pl_tasks := (pl_tasks s)(w := rest), pl_worker := (pl_worker s)(w := c),
      pl_slept := (pl_slept s)(w := pl_slept s w @ tw_sleeps os),
      pl_results := (pl_results s)(Some w := pl_results s (Some w) @ tw_sends os)\<rparr>)"
| worker_fails: "w < W \<Longrightarrow> pl_worker s w = Next () \<Longrightarrow> taskwork_polls s w task control rest \<Longrightarrow>
    taskwork_step (map_option arrives task, control) () = Inl e \<Longrightarrow>
    pipeline_step W s (s\<lparr>pl_fault := Some e\<rparr>)"
| sink_learns: "w < W \<Longrightarrow> \<not> pl_known s w \<Longrightarrow>
    pipeline_step W s (s\<lparr>pl_known := (pl_known s)(w := True)\<rparr>)"
| sink_receives: "tasksink (pl_seen s) = Inl Blocked \<Longrightarrow> pl_results s p = m # ms \<Longrightarrow>
    pipeline_step W s (s\<lparr>pl_seen := pl_seen s @ arrives m, pl_results := (pl_results s)(p := ms)\<rparr>)"
| sink_ends: "tasksink (pl_seen s) = Inr (marks, ps) \<Longrightarrow> pl_marks s = None \<Longrightarrow>
    pipeline_step W s (s\<lparr>pl_marks := Some marks,
      pl_control := (\<lambda>w. if pl_known s w then pl_control s w @ [map fst ps] else pl_control s w)\<rparr>)"
| sink_fails: "tasksink (pl_seen s) = Inl e \<Longrightarrow> e \<noteq> Blocked \<Longrightarrow>
    pipeline_step W s (s\<lparr>pl_fault := Some e\<rparr>)"

subsection \<open>The balance\<close>

definition load :: "msg \<Rightarrow> int" where
  "load m = fst (extract_int (hd m))"

definition task_ok :: "msg \<Rightarrow> bool" where
  "task_ok m \<longleftrightarrow> (\<exists>f. m = [f] \<and> stores_int f)"

definition at_worker_load :: "pipeline \<Rightarrow> nat \<Rightarrow> int multiset" where
  "at_worker_load s w = mset (pl_slept s w) + mset (map load (pl_tasks s w))"

text \<open>Every task is with the ventilator or a worker; every result is on its way or has arrived.\<close>

definition pipeline_inv :: "int list \<Rightarrow> nat \<Rightarrow> pipeline \<Rightarrow> bool" where
  "pipeline_inv workloads W s \<longleftrightarrow>
     mset (map load (pl_todo s)) + (\<Sum>w < W. at_worker_load s w) = mset workloads
     \<and> length (pl_seen s) + length (pl_results s None) + (\<Sum>w < W. length (pl_results s (Some w)))
         = (1 - length (pl_start s)) + (\<Sum>w < W. length (pl_slept s w))
     \<and> length (pl_start s) \<le> 1
     \<and> (\<forall>m \<in> set (pl_todo s). task_ok m) \<and> (\<forall>w. \<forall>m \<in> set (pl_tasks s w). task_ok m)
     \<and> (\<exists>fs. pl_seen s = map (\<lambda>f. Part f False) fs)
     \<and> (\<forall>m \<in> set (pl_start s). length m = 1) \<and> (\<forall>p. \<forall>m \<in> set (pl_results s p). length m = 1)
     \<and> (\<forall>w \<ge> W. pl_results s (Some w) = [])
     \<and> (pl_marks s \<noteq> None \<longrightarrow> length (pl_seen s) = 101)
     \<and> (\<forall>w. pl_control s w \<noteq> [] \<longrightarrow> pl_marks s \<noteq> None)
     \<and> (\<forall>w. pl_worker s w = Halt () \<longrightarrow> pl_control s w \<noteq> [])
     \<and> pl_fault s = None"

definition pipeline_rank :: "nat \<Rightarrow> nat \<Rightarrow> pipeline \<Rightarrow> nat" where
  "pipeline_rank n W s = (1 - length (pl_start s)) + (n - length (pl_todo s)) + (\<Sum>w < W. length (pl_slept s w))
     + length (pl_seen s) + (if pl_marks s = None then 0 else 1)
     + (\<Sum>w < W. (if pl_known s w then 1 else 0) + (if pl_worker s w = Halt () then 1 else 0))"

lemma arrives_single: "length m = 1 \<Longrightarrow> arrives m = [Part (hd m) False]"
  by (cases m) (simp_all add: arrives_def)

lemma taskwork_does:
  assumes "\<And>m. task = Some m \<Longrightarrow> task_ok m"
  shows "taskwork_step (map_option arrives task, control) () =
    Inr (if control then Halt () else Next (), case task of None \<Rightarrow> [] | Some m \<Rightarrow> [TwSleep (load m), TwSend [([], False)]])"
  using assms by (cases task) (auto simp: taskwork_step_def task_ok_def load_def arrives_def)

lemma pipeline_start:
  assumes "\<forall>w \<in> set ws. 1 \<le> w \<and> w \<le> 100"
  shows "pipeline_inv ws W (pipeline_init junk ws)"
proof -
  from taskvent_loop_sends [OF assms, of 0] obtain ms t where
    ms: "taskvent_loop ws 0 = Inr (map (\<lambda>m. [(m, False)]) ms, t)" "length ms = length ws"
    and at: "\<forall>k < length ws. fst (extract_int (ms ! k)) = ws ! k \<and> stores_int (ms ! k)" by blast
  have "map (load \<circ> (\<lambda>m. [m])) ms = ws" using ms(2) at by (intro nth_equalityI) (simp_all add: load_def)
  moreover have "\<forall>m \<in> set ms. stores_int m" using ms(2) at by (auto simp: in_set_conv_nth)
  ultimately show ?thesis
    by (auto simp: pipeline_inv_def pipeline_init_def ms(1) at_worker_load_def taskvent_start_def task_ok_def comp_def)
qed

lemma size_sum: "size (\<Sum>w < (W::nat). f w) = (\<Sum>w < W. size (f w :: 'm multiset))"
  by (induction W) simp_all

lemma pipeline_invD:
  assumes "pipeline_inv ws W s"
  shows "mset (map load (pl_todo s)) + (\<Sum>w < W. at_worker_load s w) = mset ws"
    "length (pl_seen s) + length (pl_results s None) + (\<Sum>w < W. length (pl_results s (Some w)))
         = (1 - length (pl_start s)) + (\<Sum>w < W. length (pl_slept s w))"
    "length (pl_start s) \<le> 1" "m \<in> set (pl_todo s) \<Longrightarrow> task_ok m" "m \<in> set (pl_tasks s w) \<Longrightarrow> task_ok m"
    "\<exists>fs. pl_seen s = map (\<lambda>f. Part f False) fs" "m \<in> set (pl_start s) \<Longrightarrow> length m = 1"
    "m \<in> set (pl_results s p) \<Longrightarrow> length m = 1" "W \<le> w \<Longrightarrow> pl_results s (Some w) = []"
    "pl_marks s \<noteq> None \<Longrightarrow> length (pl_seen s) = 101" "pl_control s w \<noteq> [] \<Longrightarrow> pl_marks s \<noteq> None"
    "pl_worker s w = Halt () \<Longrightarrow> pl_control s w \<noteq> []" "pl_fault s = None"
  using assms unfolding pipeline_inv_def by blast+

text \<open>The sizes of the balance.\<close>

lemma pipeline_sizes:
  assumes "pipeline_inv ws W s"
  shows "length (pl_todo s) + (\<Sum>w < W. length (pl_slept s w)) + (\<Sum>w < W. length (pl_tasks s w)) = length ws"
    "length (pl_seen s) \<le> Suc (length ws)"
proof -
  have "size (mset (map load (pl_todo s)) + (\<Sum>w < W. at_worker_load s w)) = size (mset ws)"
    by (simp only: pipeline_invD(1) [OF assms])
  then show eq: "length (pl_todo s) + (\<Sum>w < W. length (pl_slept s w)) + (\<Sum>w < W. length (pl_tasks s w)) = length ws"
    by (simp add: size_sum at_worker_load_def sum.distrib)
  show "length (pl_seen s) \<le> Suc (length ws)" using pipeline_invD(2) [OF assms] eq by simp
qed

lemma tasksink_of_seen:
  assumes "pipeline_inv ws W s" and "length ws = 100"
  shows "if length (pl_seen s) = 101 then \<exists>marks. tasksink (pl_seen s) = Inr (marks, [(''KILL'', False)])
    else tasksink (pl_seen s) = Inl Blocked \<and> length (pl_seen s) < 101"
proof -
  from pipeline_invD(6) [OF assms(1)] obtain fs where fs: "pl_seen s = map (\<lambda>f. Part f False) fs" by blast
  have le: "length fs \<le> 101" using pipeline_sizes(2) [OF assms(1)] assms(2) fs by simp
  show ?thesis using fs le tasksink_sees [OF le] by (cases "length fs = 101") auto
qed

text \<open>The effect of a worker's round.\<close>

lemma worker_round:
  assumes inv: "pipeline_inv ws W s" and polls: "taskwork_polls s w task control rest"
    and st: "taskwork_step (map_option arrives task, control) () = r"
  shows "r = Inr (if control then Halt () else Next (), case task of None \<Rightarrow> [] | Some m \<Rightarrow> [TwSleep (load m), TwSend [([], False)]])"
proof -
  have "task_ok m" if "task = Some m" for m
    using polls that pipeline_invD(5) [OF inv, of m w] by (simp add: taskwork_polls_def)
  from taskwork_does [of task, OF this] st show ?thesis by simp
qed

lemma worker_effects:
  assumes polls: "taskwork_polls s w task control rest"
    and os: "os = (case task of None \<Rightarrow> [] | Some m \<Rightarrow> [TwSleep (load m), TwSend [([], False)]])"
  shows "mset (pl_slept s w @ tw_sleeps os) + mset (map load rest) = at_worker_load s w"
    "length (tw_sends os) = length (tw_sleeps os)" "m \<in> set (tw_sends os) \<Longrightarrow> length m = 1"
    "set rest \<subseteq> set (pl_tasks s w)" "tw_sleeps os = [] \<longleftrightarrow> task = None"
proof -
  show "mset (pl_slept s w @ tw_sleeps os) + mset (map load rest) = at_worker_load s w"
    using polls by (cases task) (auto simp: os taskwork_polls_def at_worker_load_def tw_sleeps_def)
  show "set rest \<subseteq> set (pl_tasks s w)" using polls by (cases task) (auto simp: taskwork_polls_def)
qed (cases task; simp add: os tw_sleeps_def tw_sends_def)+

text \<open>What has to be shown of a step that leaves the ventilator and the sink alone.\<close>

lemma results_at:
  assumes "(w::nat) < W" and "\<And>v. v \<noteq> w \<Longrightarrow> f v = (g v :: nat)"
  shows "(\<Sum>v < W. f v) + g w = (\<Sum>v < W. g v) + f w"
  using sum_change_at [OF assms(1), of f g] assms(2) by blast

lemma pipe_inv_vent_starts:
  assumes inv: "pipeline_inv ws W s" and st: "pl_start s = m # ms"
  shows "pipeline_inv ws W (s\<lparr>pl_start := ms, pl_results := (pl_results s)(None := pl_results s None @ [m])\<rparr>)"
proof -
  have "ms = []" using pipeline_invD(3) [OF inv] st by simp
  moreover have "length m = 1" by (rule pipeline_invD(7) [OF inv]) (simp add: st)
  ultimately show ?thesis using inv st by (auto simp: pipeline_inv_def at_worker_load_def)
qed

lemma pipe_inv_vent_sends:
  assumes inv: "pipeline_inv ws W s" and todo: "pl_todo s = m # ms" and w: "w < W"
  shows "pipeline_inv ws W (s\<lparr>pl_todo := ms, pl_tasks := (pl_tasks s)(w := pl_tasks s w @ [m])\<rparr>)" (is "pipeline_inv ws W ?t")
proof -
  have "(\<Sum>v < W. at_worker_load ?t v) + at_worker_load s w = (\<Sum>v < W. at_worker_load s v) + at_worker_load ?t w"
    by (rule sum_change_at [OF w]) (simp add: at_worker_load_def)
  moreover have "at_worker_load ?t w = at_worker_load s w + {#load m#}" by (simp add: at_worker_load_def)
  ultimately have "(\<Sum>v < W. at_worker_load ?t v) = (\<Sum>v < W. at_worker_load s v) + {#load m#}" by (simp add: ac_simps)
  then have "mset (map load ms) + (\<Sum>v < W. at_worker_load ?t v) = mset ws"
    using pipeline_invD(1) [OF inv] todo by simp
  then show ?thesis
    using inv todo by (simp add: pipeline_inv_def)
qed

lemma pipe_inv_worker:
  assumes inv: "pipeline_inv ws W s" and w: "w < W" and polls: "taskwork_polls s w task control rest"
    and st: "taskwork_step (map_option arrives task, control) () = Inr (c, os)"
  shows "pipeline_inv ws W (s\<lparr>pl_tasks := (pl_tasks s)(w := rest), pl_worker := (pl_worker s)(w := c),
      pl_slept := (pl_slept s)(w := pl_slept s w @ tw_sleeps os),
      pl_results := (pl_results s)(Some w := pl_results s (Some w) @ tw_sends os)\<rparr>)" (is "pipeline_inv ws W ?t")
proof -
  from worker_round [OF inv polls st] have c: "c = (if control then Halt () else Next ())"
    and os: "os = (case task of None \<Rightarrow> [] | Some m \<Rightarrow> [TwSleep (load m), TwSend [([], False)]])" by simp_all
  note eff = worker_effects [OF polls os]
  have "at_worker_load ?t v = at_worker_load s v" for v using eff(1) by (simp add: at_worker_load_def)
  then have 1: "mset (map load (pl_todo ?t)) + (\<Sum>v < W. at_worker_load ?t v) = mset ws"
    using pipeline_invD(1) [OF inv] by simp
  have "(\<Sum>v < W. length (pl_results ?t (Some v))) + length (pl_results s (Some w))
      = (\<Sum>v < W. length (pl_results s (Some v))) + length (pl_results ?t (Some w))"
    by (rule results_at [OF w]) simp
  moreover have "(\<Sum>v < W. length (pl_slept ?t v)) + length (pl_slept s w) = (\<Sum>v < W. length (pl_slept s v)) + length (pl_slept ?t w)"
    by (rule results_at [OF w]) simp
  ultimately have 2: "length (pl_seen ?t) + length (pl_results ?t None) + (\<Sum>v < W. length (pl_results ?t (Some v)))
      = (1 - length (pl_start ?t)) + (\<Sum>v < W. length (pl_slept ?t v))"
    using pipeline_invD(2) [OF inv] eff(2) by simp
  have 3: "\<forall>v. pl_worker ?t v = Halt () \<longrightarrow> pl_control ?t v \<noteq> []"
    using pipeline_invD(12) [OF inv] polls c by (simp add: taskwork_polls_def)
  have 4: "\<forall>v. \<forall>m \<in> set (pl_tasks ?t v). task_ok m" using pipeline_invD(5) [OF inv] eff(4) by auto
  have 5: "\<forall>p. \<forall>m \<in> set (pl_results ?t p). length m = 1" using pipeline_invD(8) [OF inv] eff(3) by auto
  have 6: "\<forall>v \<ge> W. pl_results ?t (Some v) = []" using pipeline_invD(9) [OF inv] w by simp
  from 1 2 3 4 5 6 inv show ?thesis by (simp add: pipeline_inv_def)
qed

lemma pipe_inv_sink_receives:
  assumes inv: "pipeline_inv ws W s" and more_to_come: "length (pl_seen s) < 101" and m: "pl_results s p = m # ms"
  shows "pipeline_inv ws W (s\<lparr>pl_seen := pl_seen s @ arrives m, pl_results := (pl_results s)(p := ms)\<rparr>)" (is "pipeline_inv ws W ?t")
proof -
  have one: "length m = 1" by (rule pipeline_invD(8) [OF inv, of m p]) (simp add: m)
  from pipeline_invD(6) [OF inv] obtain fs where fs: "pl_seen s = map (\<lambda>f. Part f False) fs" by blast
  have seen: "pl_seen ?t = map (\<lambda>f. Part f False) (fs @ [hd m])" by (simp add: fs arrives_single [OF one])
  have "length (pl_results ?t None) + (\<Sum>v < W. length (pl_results ?t (Some v))) + 1
      = length (pl_results s None) + (\<Sum>v < W. length (pl_results s (Some v)))"
  proof (cases p)
    case None
    with m show ?thesis by simp
  next
    case (Some w)
    with m pipeline_invD(9) [OF inv, of w] have w: "w < W" by fastforce
    have "(\<Sum>v < W. length (pl_results ?t (Some v))) + length (pl_results s (Some w))
        = (\<Sum>v < W. length (pl_results s (Some v))) + length (pl_results ?t (Some w))"
      by (rule results_at [OF w]) (simp add: Some)
    with m Some show ?thesis by simp
  qed
  then have 1: "length (pl_seen ?t) + length (pl_results ?t None) + (\<Sum>v < W. length (pl_results ?t (Some v)))
      = (1 - length (pl_start ?t)) + (\<Sum>v < W. length (pl_slept ?t v))"
    using pipeline_invD(2) [OF inv] arrives_single [OF one] by simp
  have 2: "\<forall>q. \<forall>x \<in> set (pl_results ?t q). length x = 1"   proof (intro allI ballI)
    fix q x
    assume x: "x \<in> set (pl_results ?t q)"
    then have "x \<in> set (pl_results s q)" using m by (cases "q = p") simp_all
    then show "length x = 1" by (rule pipeline_invD(8) [OF inv])
  qed
  have 3: "pl_marks ?t = None" using pipeline_invD(10) [OF inv] more_to_come by (cases "pl_marks s") simp_all
  have 4: "\<forall>v \<ge> W. pl_results ?t (Some v) = []"
  proof (intro allI impI)
    fix v
    assume "W \<le> v"
    then have "pl_results s (Some v) = []" by (rule pipeline_invD(9) [OF inv])
    with m show "pl_results ?t (Some v) = []" by (cases "p = Some v") simp_all
  qed
  have 5: "\<exists>fs. pl_seen ?t = map (\<lambda>f. Part f False) fs" using seen by blast
  have 6: "pl_worker s w \<noteq> Halt ()" for w using pipeline_invD(11,12) [OF inv, of w] 3 by auto
  show ?thesis
    unfolding pipeline_inv_def using 1 2 3 4 5 6 inv
    by (simp add: pipeline_inv_def at_worker_load_def del: fun_upd_apply)
qed

lemma pipe_inv_sink_ends:
  assumes inv: "pipeline_inv ws W s" and seen: "length (pl_seen s) = 101"
  shows "pipeline_inv ws W (s\<lparr>pl_marks := Some marks,
    pl_control := (\<lambda>w. if pl_known s w then pl_control s w @ [k] else pl_control s w)\<rparr>)" (is "pipeline_inv ws W ?t")
proof -
  have "pl_control s w \<noteq> [] \<Longrightarrow> pl_control ?t w \<noteq> []" for w by simp
  then have "\<forall>w. pl_worker ?t w = Halt () \<longrightarrow> pl_control ?t w \<noteq> []" using pipeline_invD(12) [OF inv] by auto
  with seen inv show ?thesis by (simp add: pipeline_inv_def at_worker_load_def)
qed

lemma pipe_inv_step:
  assumes n: "length ws = 100" and inv: "pipeline_inv ws W s" and step: "pipeline_step W s t"
  shows "pipeline_inv ws W t"
  using step
proof cases
  case (vent_starts m ms)
  with pipe_inv_vent_starts [OF inv] show ?thesis by simp
next
  case (vent_sends m ms w)
  with pipe_inv_vent_sends [OF inv] show ?thesis by simp
next
  case (worker_works w task control rest c os)
  with pipe_inv_worker [OF inv] show ?thesis by simp
next
  case (worker_fails w task control rest e)
  from worker_round [OF inv worker_fails(4,5)] show ?thesis by simp
next
  case (sink_learns w)
  with inv show ?thesis by (simp add: pipeline_inv_def at_worker_load_def)
next
  case (sink_receives p m ms)
  then have "length (pl_seen s) < 101" using tasksink_of_seen [OF inv n] by (auto split: if_splits)
  from pipe_inv_sink_receives [OF inv this sink_receives(3)] sink_receives(1) show ?thesis by simp
next
  case (sink_ends marks ps)
  then have "length (pl_seen s) = 101" using tasksink_of_seen [OF inv n] by (auto split: if_splits)
  from pipe_inv_sink_ends [OF inv this] sink_ends(1) show ?thesis by simp
next
  case (sink_fails e)
  then show ?thesis using tasksink_of_seen [OF inv n] by (auto split: if_splits)
qed

subsection \<open>Every run ends\<close>

lemma pipe_rank_step:
  assumes n: "length ws = 100" and inv: "pipeline_inv ws W s" and step: "pipeline_step W s t"
  shows "pipeline_rank 100 W s < pipeline_rank 100 W t"
  using step
proof cases
  case (vent_starts m ms)
  moreover have "ms = []" using pipeline_invD(3) [OF inv] vent_starts(2) by simp
  ultimately show ?thesis by (simp add: pipeline_rank_def)
next
  case (vent_sends m ms w)
  moreover have "length (pl_todo s) \<le> 100" using pipeline_sizes(1) [OF inv] n by simp
  ultimately show ?thesis by (simp add: pipeline_rank_def)
next
  case (worker_works w task control rest c os)
  from worker_round [OF inv worker_works(4,5)] have c: "c = (if control then Halt () else Next ())"
    and os: "os = (case task of None \<Rightarrow> [] | Some m \<Rightarrow> [TwSleep (load m), TwSend [([], False)]])" by simp_all
  have slept: "(\<Sum>v < W. length (pl_slept t v)) + length (pl_slept s w) = (\<Sum>v < W. length (pl_slept s v)) + length (pl_slept t w)"
    by (rule results_at [OF worker_works(2)]) (simp add: worker_works(1))
  let ?h = "\<lambda>s v. (if pl_known s v then 1 else 0) + (if pl_worker s v = Halt () then 1 else 0 :: nat)"
  have halted: "(\<Sum>v < W. ?h t v) + ?h s w = (\<Sum>v < W. ?h s v) + ?h t w"
    by (rule results_at [OF worker_works(2)]) (simp add: worker_works(1))
  have "length (pl_slept t w) = length (pl_slept s w) + length (tw_sleeps os)" by (simp add: worker_works(1))
  moreover have "?h t w = ?h s w + (if control then 1 else 0)" using worker_works(3) c by (simp add: worker_works(1))
  moreover have "task \<noteq> None \<or> control" using worker_works(4) by (simp add: taskwork_polls_def)
  then have "1 \<le> length (tw_sleeps os) + (if control then 1 else 0)"
    using worker_effects(5) [OF worker_works(4) os] by (cases "tw_sleeps os") auto
  ultimately have "(\<Sum>v < W. length (pl_slept s v)) + (\<Sum>v < W. ?h s v) < (\<Sum>v < W. length (pl_slept t v)) + (\<Sum>v < W. ?h t v)"
    using slept halted by linarith
  then show ?thesis by (simp add: pipeline_rank_def worker_works(1))
next
  case (worker_fails w task control rest e)
  from worker_round [OF inv worker_fails(4,5)] show ?thesis by simp
next
  case (sink_learns w)
  let ?h = "\<lambda>s v. (if pl_known s v then 1 else 0) + (if pl_worker s v = Halt () then 1 else 0 :: nat)"
  have "(\<Sum>v < W. ?h t v) + ?h s w = (\<Sum>v < W. ?h s v) + ?h t w"
    by (rule results_at [OF sink_learns(2)]) (simp add: sink_learns(1))
  moreover have "?h t w = ?h s w + 1" using sink_learns(3) by (simp add: sink_learns(1))
  ultimately have "(\<Sum>v < W. ?h s v) < (\<Sum>v < W. ?h t v)" by linarith
  then show ?thesis by (simp add: pipeline_rank_def sink_learns(1))
next
  case (sink_receives p m ms)
  then have "length m = 1" using pipeline_invD(8) [OF inv, of m p] by simp
  with sink_receives(1) show ?thesis by (simp add: pipeline_rank_def arrives_single)
next
  case (sink_ends marks ps)
  then show ?thesis by (simp add: pipeline_rank_def)
next
  case (sink_fails e)
  then show ?thesis using tasksink_of_seen [OF inv n] by (auto split: if_splits)
qed

lemma pipe_rank_bound:
  assumes n: "length ws = 100" and inv: "pipeline_inv ws W s"
  shows "pipeline_rank 100 W s \<le> 303 + 2 * W"
proof -
  have "(\<Sum>v < W. (if pl_known s v then 1 else 0) + (if pl_worker s v = Halt () then 1 else 0 :: nat)) \<le> (\<Sum>v < W. 2)"
    by (intro sum_mono) simp
  then have "(\<Sum>v < W. (if pl_known s v then 1 else 0) + (if pl_worker s v = Halt () then 1 else 0 :: nat)) \<le> 2 * W" by simp
  moreover have "(if pl_marks s = None then 0 else 1 :: nat) \<le> 1" by simp
  ultimately show ?thesis using pipeline_sizes [OF inv] n unfolding pipeline_rank_def by linarith
qed

lemma pipeline_system:
  assumes "length ws = 100" and "\<forall>w \<in> set ws. 1 \<le> w \<and> w \<le> 100"
  shows "terminating_system (pipeline_init junk ws) (pipeline_step W) (pipeline_inv ws W) (pipeline_rank 100 W) (303 + 2 * W)"
proof
  show "pipeline_inv ws W (pipeline_init junk ws)" by (rule pipeline_start [OF assms(2)])
qed (use pipe_inv_step [OF assms(1)] pipe_rank_step [OF assms(1)] pipe_rank_bound [OF assms(1)] in blast)+

subsection \<open>How it ends\<close>

lemma all_done:
  assumes inv: "pipeline_inv ws W s" and n: "length ws = 100" and seen: "length (pl_seen s) = 101"
  shows "pl_todo s = []" "w < W \<Longrightarrow> pl_tasks s w = []" "(\<Sum>w < W. mset (pl_slept s w)) = mset ws"
proof -
  have "length (pl_todo s) = 0" "(\<Sum>w < W. length (pl_tasks s w)) = 0"
    using pipeline_sizes(1) [OF inv] pipeline_invD(2) [OF inv] n seen by linarith+
  then show todo: "pl_todo s = []" and tasks: "w < W \<Longrightarrow> pl_tasks s w = []" for w by simp_all
  have "(\<Sum>w < W. at_worker_load s w) = (\<Sum>w < W. mset (pl_slept s w))"
    by (rule sum.cong) (simp_all add: at_worker_load_def tasks)
  with pipeline_invD(1) [OF inv] todo show "(\<Sum>w < W. mset (pl_slept s w)) = mset ws" by simp
qed

lemma stuck_worker:
  assumes inv: "pipeline_inv ws W s" and st: "stuck (pipeline_step W) s" and w: "w < W" and run: "pl_worker s w = Next ()"
  shows "pl_tasks s w = [] \<and> pl_control s w = []"
proof (rule ccontr)
  assume no: "\<not> (pl_tasks s w = [] \<and> pl_control s w = [])"
  have "\<exists>task control rest. taskwork_polls s w task control rest"
  proof (cases "pl_tasks s w")
    case Nil
    with no have "taskwork_polls s w None True []" by (simp add: taskwork_polls_def)
    then show ?thesis by blast
  next
    case (Cons m ms)
    then have "taskwork_polls s w (Some m) False ms" by (simp add: taskwork_polls_def)
    then show ?thesis by blast
  qed
  then obtain task control rest where p: "taskwork_polls s w task control rest" by blast
  from worker_works [OF w run p worker_round [OF inv p refl]] show False by (rule stuckD [OF st])
qed

lemma stuck_pipeline:
  assumes inv: "pipeline_inv ws W s" and n: "length ws = 100" and W: "0 < W" and st: "stuck (pipeline_step W) s"
  shows "pl_marks s \<noteq> None" "w < W \<Longrightarrow> pl_known s w \<and> (pl_worker s w = Halt () \<longleftrightarrow> pl_control s w \<noteq> [])"
proof -
  note seen = tasksink_of_seen [OF inv n]
  show "pl_marks s \<noteq> None"
  proof
    assume none: "pl_marks s = None"
    have running: "pl_worker s w = Next ()" for w
      using pipeline_invD(11,12) [OF inv, of w] none by (cases "pl_worker s w") auto
    have start: "pl_start s = []"
    proof (rule ccontr)
      assume "pl_start s \<noteq> []"
      then obtain m ms where "pl_start s = m # ms" by (meson neq_Nil_conv)
      from vent_starts [OF this] show False by (rule stuckD [OF st])
    qed
    have "pl_todo s = []"
    proof (rule ccontr)
      assume "pl_todo s \<noteq> []"
      then obtain m ms where "pl_todo s = m # ms" by (meson neq_Nil_conv)
      from vent_sends [OF start this W running] show False by (rule stuckD [OF st])
    qed
    moreover have "(\<Sum>w < W. length (pl_tasks s w)) = 0" using stuck_worker [OF inv st _ running] by simp
    ultimately have slept: "(\<Sum>w < W. length (pl_slept s w)) = 100" using pipeline_sizes(1) [OF inv] n by simp
    show False
    proof (cases "length (pl_seen s) = 101")
      case True
      with seen obtain marks ps where "tasksink (pl_seen s) = Inr (marks, ps)" by auto
      from sink_ends [OF this none] show False by (rule stuckD [OF st])
    next
      case False
      with seen have blocked: "tasksink (pl_seen s) = Inl Blocked" "length (pl_seen s) < 101" by simp_all
      have "pl_results s p = []" for p
      proof (rule ccontr)
        assume "pl_results s p \<noteq> []"
        then obtain m ms where "pl_results s p = m # ms" by (meson neq_Nil_conv)
        from sink_receives [OF blocked(1) this] show False by (rule stuckD [OF st])
      qed
      with pipeline_invD(2) [OF inv] start slept blocked(2) show False by simp
    qed
  qed
  assume w: "w < W"
  have "pl_known s w"
  proof (rule ccontr)
    assume "\<not> pl_known s w"
    from sink_learns [OF w this] show False by (rule stuckD [OF st])
  qed
  moreover have "pl_worker s w = Halt () \<longleftrightarrow> pl_control s w \<noteq> []"
    using stuck_worker [OF inv st w] pipeline_invD(12) [OF inv, of w] by (cases "pl_worker s w") auto
  ultimately show "pl_known s w \<and> (pl_worker s w = Halt () \<longleftrightarrow> pl_control s w \<noteq> [])" by blast
qed

lemma mset_slept: "mset (concat (map f [0..<W])) = (\<Sum>w < W. mset (f w))"
  by (induction W) simp_all

text \<open>
  C21: in every interleaving of ventilator, workers and sink, in any distribution of the tasks and
  whether or not the start signal comes before the first results: no program fails; the sink stops
  counting only when every workload has been slept for exactly once, and no worker ends earlier. Every
  run ends, within 303 steps and two for each worker, and then the sink has stopped and exactly the
  workers have ended whose subscription had reached it before it sent the KILL; the others wait for
  ever.
\<close>

theorem pipeline_completes:
  assumes n: "length ws = 100" and ws: "\<forall>w \<in> set ws. 1 \<le> w \<and> w \<le> 100" and W: "0 < W"
    and r: "(pipeline_step W)\<^sup>*\<^sup>* (pipeline_init junk ws) s"
  shows "pl_fault s = None \<and> (\<forall>w. pl_worker s w = Halt () \<longrightarrow> pl_marks s \<noteq> None)
    \<and> (pl_marks s \<noteq> None \<longrightarrow> mset (concat (map (pl_slept s) [0..<W])) = mset ws)
    \<and> (\<forall>k t. (pipeline_step W ^^ k) (pipeline_init junk ws) t \<longrightarrow> k \<le> 303 + 2 * W)
    \<and> (\<exists>t. (pipeline_step W)\<^sup>*\<^sup>* s t \<and> stuck (pipeline_step W) t)
    \<and> (stuck (pipeline_step W) s \<longrightarrow> pl_marks s \<noteq> None \<and> (\<forall>w < W. pl_worker s w = Halt () \<longleftrightarrow> pl_control s w \<noteq> []))"
proof -
  note sys = pipeline_system [OF n ws, of junk W]
  have inv: "pipeline_inv ws W s" by (rule invariant_system.inv_reachable [OF terminating_system.axioms(1) [OF sys] r])
  have "mset (concat (map (pl_slept s) [0..<W])) = mset ws" if "pl_marks s \<noteq> None"
    using all_done(3) [OF inv n pipeline_invD(10) [OF inv that]] by (simp only: mset_slept)
  moreover have "pl_worker s w = Halt () \<Longrightarrow> pl_marks s \<noteq> None" for w
    using pipeline_invD(11,12) [OF inv] by blast
  moreover have "k \<le> 303 + 2 * W" if "(pipeline_step W ^^ k) (pipeline_init junk ws) t" for k t
    by (rule terminating_system.run_bounded [OF sys that])
  moreover have "\<exists>t. (pipeline_step W)\<^sup>*\<^sup>* s t \<and> stuck (pipeline_step W) t"
    by (rule terminating_system.reaches_stuck [OF sys inv])
  ultimately show ?thesis using pipeline_invD(13) [OF inv] stuck_pipeline [OF inv n W] by blast
qed

theorem pipeline_completes_witness:
  "\<exists>s. (pipeline_step 4)\<^sup>*\<^sup>* (pipeline_init (CHR ''x'') (replicate 100 7)) s \<and> stuck (pipeline_step 4) s
    \<and> pl_marks s \<noteq> None \<and> mset (concat (map (pl_slept s) [0..<4])) = mset (replicate 100 7)"
proof -
  have ws: "length (replicate 100 (7::int)) = 100" "\<forall>w \<in> set (replicate 100 (7::int)). 1 \<le> w \<and> w \<le> 100" "0 < (4::nat)" by simp_all
  from pipeline_completes [OF ws rtranclp.rtrancl_refl, of "CHR ''x''"] obtain s where
    s: "(pipeline_step 4)\<^sup>*\<^sup>* (pipeline_init (CHR ''x'') (replicate 100 7)) s" "stuck (pipeline_step 4) s" by blast
  from pipeline_completes [OF ws s(1)] s show ?thesis by blast
qed

end
