(* ===== verification/PeeringNet.thy ===== *)
theory PeeringNet
  imports Peering Sockets Systems
begin

text \<open>
  A network of peering brokers (\<open>prototyping-the-local-and-cloud-flows/peering2.cpp\<close>), each with
  its clients and workers, as a system. The lemmas: every message is where it belongs, each client has
  one message under way from its request to its reply, and each worker is in one place.
\<close>

subsection \<open>The network\<close>

text \<open>
  Which brokers there are, by the name each gives itself, and for each its peers, the identities of its
  clients and of its workers, and how many of both it starts.
\<close>

record peer_setup =
  pt_names :: "frame list"
  pt_peers :: "frame \<Rightarrow> frame list"
  pt_client :: "frame \<Rightarrow> nat \<Rightarrow> frame"
  pt_clients :: "frame \<Rightarrow> nat"
  pt_worker :: "frame \<Rightarrow> nat \<Rightarrow> frame"
  pt_workers :: "frame \<Rightarrow> nat"

text \<open>
  What the network needs: peers are brokers that have each other on their lists, and clients and
  workers are told from each other and from brokers.
\<close>

definition peer_setup_ok :: "peer_setup \<Rightarrow> bool" where
  "peer_setup_ok c \<longleftrightarrow>
     (\<forall>b \<in> set (pt_names c). b \<noteq> WORKER_READY
       \<and> (\<forall>a \<in> set (pt_peers c b). a \<in> set (pt_names c) \<and> b \<in> set (pt_peers c a))
       \<and> inj_on (pt_client c b) {..<pt_clients c b} \<and> inj_on (pt_worker c b) {..<pt_workers c b}
       \<and> (\<forall>n < pt_clients c b. pt_client c b n \<notin> set (pt_names c) \<and> pt_client c b n \<noteq> WORKER_READY)
       \<and> (\<forall>w < pt_workers c b. pt_worker c b w \<noteq> []))"

text \<open>
  The ways of a message: between client and broker, between broker and worker, and between brokers,
  from the one that sends to the one that receives.
\<close>

datatype channel = FromClient frame frame | ToClient frame frame | FromWorker frame frame | ToWorker frame frame
  | Request frame frame | Reply frame frame

text \<open>A client sends (\<open>False\<close>) or waits for the reply; a worker is \<open>None\<close> before its READY.\<close>

record peernet =
  pe_ready :: "frame \<Rightarrow> string list ctl"
  pe_client :: "frame \<Rightarrow> nat \<Rightarrow> bool ctl"
  pe_got :: "frame \<Rightarrow> nat \<Rightarrow> frame list"
  pe_worker :: "frame \<Rightarrow> nat \<Rightarrow> unit ctl option"
  pe_net :: "channel \<Rightarrow> msg list"
  pe_fault :: "fault option"

definition peernet_init :: peernet where
  "peernet_init = \<lparr>pe_ready = (\<lambda>_. Next []), pe_client = (\<lambda>_ _. Next False), pe_got = (\<lambda>_ _. []),
     pe_worker = (\<lambda>_ _. None), pe_net = (\<lambda>_. []), pe_fault = None\<rparr>"

text \<open>The sockets of broker \<open>b\<close> lead to its peers by their names.\<close>

fun peer_channel :: "frame \<Rightarrow> peer_socket \<Rightarrow> frame \<Rightarrow> channel" where
  "peer_channel b LocalFE p = ToClient b p"
| "peer_channel b LocalBE p = ToWorker b p"
| "peer_channel b CloudFE p = Reply b p"
| "peer_channel b CloudBE p = Request b p"

fun peer_sends :: "zmq_envelope \<Rightarrow> frame \<Rightarrow> peer_sent list \<Rightarrow> (channel \<Rightarrow> msg list) \<Rightarrow> (channel \<Rightarrow> msg list)" where
  "peer_sends Z b [] Q = Q"
| "peer_sends Z b ((sock, ps) # os) Q =
     (let (p, m) = router_out Z (map fst ps) in peer_sends Z b os (enqueue (peer_channel b sock p) m Q))"

fun req_sends :: "zmq_envelope \<Rightarrow> channel \<Rightarrow> part list list \<Rightarrow> (channel \<Rightarrow> msg list) \<Rightarrow> (channel \<Rightarrow> msg list)" where
  "req_sends Z ch [] Q = Q"
| "req_sends Z ch (ps # pss) Q = req_sends Z ch pss (enqueue ch (req_out Z (map fst ps)) Q)"

text \<open>
  What broker \<open>b\<close> sees when it reads one message: of its back ends in the outer loop, or of its
  front ends in a round of the inner loop, which it enters only with a worker. The draws are any, in
  their range.
\<close>

inductive broker_reads :: "zmq_envelope \<Rightarrow> peer_setup \<Rightarrow> frame \<Rightarrow> string list \<Rightarrow> channel \<Rightarrow> msg \<Rightarrow> peer_in \<Rightarrow> bool" for Z c b where
  reads_worker: "broker_reads Z c b ws (FromWorker b p) m (peering_in (Some (router_in Z p m)) None [])"
| reads_reply: "broker_reads Z c b ws (Reply a b) m (peering_in None (Some (router_in Z a m)) [])"
| reads_request: "ws \<noteq> [] \<Longrightarrow> k < length (pt_peers c b) \<Longrightarrow>
    broker_reads Z c b ws (Request a b) m (peering_in None None [peering_round (Some (router_in Z a m)) None route k])"
| reads_client: "ws \<noteq> [] \<Longrightarrow> k < length (pt_peers c b) \<Longrightarrow>
    broker_reads Z c b ws (FromClient b p) m (peering_in None None [peering_round None (Some (router_in Z p m)) route k])"

inductive peernet_step :: "zmq_envelope \<Rightarrow> peer_setup \<Rightarrow> peernet \<Rightarrow> peernet \<Rightarrow> bool" for Z c where
  client_asks: "b \<in> set (pt_names c) \<Longrightarrow> n < pt_clients c b \<Longrightarrow> pe_client s b n = Next False \<Longrightarrow>
    peernet_step Z c s (s\<lparr>pe_client := (pe_client s)(b := (pe_client s b)(n := Next True)),
      pe_net := req_sends Z (FromClient b (pt_client c b n)) [peering_client_request] (pe_net s)\<rparr>)"
| client_hears: "b \<in> set (pt_names c) \<Longrightarrow> n < pt_clients c b \<Longrightarrow> pe_client s b n = Next True \<Longrightarrow>
    pe_net s (ToClient b (pt_client c b n)) = m # ms \<Longrightarrow> peering_client_step (arrives (req_in Z m)) () = Inr (x, pss) \<Longrightarrow>
    peernet_step Z c s (s\<lparr>pe_client := (pe_client s)(b := (pe_client s b)(n := (case x of Next _ \<Rightarrow> Next False | Halt _ \<Rightarrow> Halt False))),
      pe_got := (pe_got s)(b := (pe_got s b)(n := pe_got s b n @ take 1 (req_in Z m))),
      pe_net := (pe_net s)(ToClient b (pt_client c b n) := ms)\<rparr>)"
| client_faults: "b \<in> set (pt_names c) \<Longrightarrow> n < pt_clients c b \<Longrightarrow> pe_client s b n = Next True \<Longrightarrow>
    pe_net s (ToClient b (pt_client c b n)) = m # ms \<Longrightarrow> peering_client_step (arrives (req_in Z m)) () = Inl f \<Longrightarrow>
    peernet_step Z c s (s\<lparr>pe_fault := Some f\<rparr>)"
| worker_greets: "b \<in> set (pt_names c) \<Longrightarrow> w < pt_workers c b \<Longrightarrow> pe_worker s b w = None \<Longrightarrow>
    peernet_step Z c s (s\<lparr>pe_worker := (pe_worker s)(b := (pe_worker s b)(w := Some (Next ()))),
      pe_net := req_sends Z (FromWorker b (pt_worker c b w)) [peering_worker_ready] (pe_net s)\<rparr>)"
| worker_works: "b \<in> set (pt_names c) \<Longrightarrow> w < pt_workers c b \<Longrightarrow> pe_worker s b w = Some (Next ()) \<Longrightarrow>
    pe_net s (ToWorker b (pt_worker c b w)) = m # ms \<Longrightarrow> peering_worker_step (arrives (req_in Z m)) () = Inr (x, pss) \<Longrightarrow>
    peernet_step Z c s (s\<lparr>pe_worker := (pe_worker s)(b := (pe_worker s b)(w := Some x)),
      pe_net := req_sends Z (FromWorker b (pt_worker c b w)) pss ((pe_net s)(ToWorker b (pt_worker c b w) := ms))\<rparr>)"
| worker_faults: "b \<in> set (pt_names c) \<Longrightarrow> w < pt_workers c b \<Longrightarrow> pe_worker s b w = Some (Next ()) \<Longrightarrow>
    pe_net s (ToWorker b (pt_worker c b w)) = m # ms \<Longrightarrow> peering_worker_step (arrives (req_in Z m)) () = Inl f \<Longrightarrow>
    peernet_step Z c s (s\<lparr>pe_fault := Some f\<rparr>)"
| broker_turns: "b \<in> set (pt_names c) \<Longrightarrow> pe_ready s b = Next ws \<Longrightarrow> pe_net s ch = m # ms \<Longrightarrow> broker_reads Z c b ws ch m i \<Longrightarrow>
    peering_step (pt_peers c b) i ws = Inr (x, os) \<Longrightarrow>
    peernet_step Z c s (s\<lparr>pe_ready := (pe_ready s)(b := x), pe_net := peer_sends Z b os ((pe_net s)(ch := ms))\<rparr>)"
| broker_faults: "b \<in> set (pt_names c) \<Longrightarrow> pe_ready s b = Next ws \<Longrightarrow> pe_net s ch = m # ms \<Longrightarrow> broker_reads Z c b ws ch m i \<Longrightarrow>
    peering_step (pt_peers c b) i ws = Inl f \<Longrightarrow> peernet_step Z c s (s\<lparr>pe_fault := Some f\<rparr>)"

text \<open>
  One message at a time is all there is: an iteration that goes on to serve several requests does what
  as many iterations do, of which the first only polls the back ends and each other finds one request.
\<close>

lemma peering_step_rounds: "peering_step peers (peering_in None None rs) ws =
    rbind (peering_route peers rs ws) (\<lambda>(ws, os). Inr (Next ws, os))"
  by (simp add: peering_step_def peering_in_def peering_collect_def peering_reply_def)

lemma peering_route_by_rounds:
  "peering_route peers rs ws = Inr (ws', os) \<Longrightarrow> \<forall>r \<in> set rs. peering_work r \<noteq> None \<Longrightarrow>
    run (peering_step peers) ws (map (\<lambda>r. peering_in None None [r]) rs) = Inr (Next ws', os)"
proof (induction rs arbitrary: ws os)
  case (Cons r rs)
  show ?case
  proof (cases "ws = []")
    case True
    have "peering_route peers rs [] = Inr ([], [])" by (cases rs) simp_all
    with Cons.IH [of "[]" "[]"] Cons.prems True show ?thesis by (simp add: peering_step_rounds)
  next
    case False
    with Cons.prems obtain b es req rest ws1 o1 o2 where "peering_work r = Some (b, es)" "peering_recv_frames es = Inr (req, rest)"
      "peering_dispatch peers r b req ws = Inr (ws1, o1)" "pr_rc r \<ge> 0"
      and r: "peering_route peers rs ws1 = Inr (ws', o2)" "os = o1 @ o2"
      by (auto simp: peering_route_Cons simp del: peering_route.simps)
    with False have "peering_route peers [r] ws = Inr (ws1, o1)"
      by (simp add: peering_route_Cons del: peering_route.simps(2))
    then have "peering_step peers (peering_in None None [r]) ws = Inr (Next ws1, o1)"
      by (simp add: peering_step_rounds del: peering_route.simps)
    with Cons.IH [OF r(1)] Cons.prems(2) r(2) show ?thesis by simp
  qed
qed simp

lemma peering_step_by_rounds:
  assumes "pi_rc i \<noteq> -1" and "\<forall>r \<in> set (pi_rounds i). peering_work r \<noteq> None"
    and "peering_step peers i ws = Inr (Next ws', os)"
  shows "run (peering_step peers) ws (i\<lparr>pi_rounds := []\<rparr> # map (\<lambda>r. peering_in None None [r]) (pi_rounds i)) = Inr (Next ws', os)"
proof -
  have same: "peering_collect (i\<lparr>pi_rounds := []\<rparr>) ws = peering_collect i ws"
    by (simp add: peering_collect_def split: option.splits)
  from assms(1,3) obtain c where c: "peering_collect i ws = Inr c" by (auto simp: peering_step_def)
  with assms(1,3) obtain rep ws1 o1 o2 where "c = Next (rep, ws1)" "peering_reply peers rep = Inr o1"
    and r: "peering_route peers (pi_rounds i) ws1 = Inr (ws', o2)" "os = o1 @ o2"
    by (cases c) (auto simp: peering_step_def)
  with c assms(1) have "peering_step peers (i\<lparr>pi_rounds := []\<rparr>) ws = Inr (Next ws1, o1)"
    by (simp add: peering_step_def same)
  with peering_route_by_rounds [OF r(1) assms(2)] r(2) show ?thesis by simp
qed

subsection \<open>Where a message belongs\<close>

text \<open>
  The way back to a client that a request carries to a worker: the client, or the broker it came from
  and the client there.
\<close>

definition return_path :: "peer_setup \<Rightarrow> frame \<Rightarrow> frame \<Rightarrow> nat \<Rightarrow> msg \<Rightarrow> bool" where
  "return_path c b a n env \<longleftrightarrow> a \<in> set (pt_names c) \<and> n < pt_clients c a
     \<and> (a = b \<and> env = [pt_client c a n] \<or> b \<in> set (pt_peers c a) \<and> env = [a, pt_client c a n])"

text \<open>The messages of client \<open>n\<close> of broker \<open>a\<close>, on each way.\<close>

inductive message_of :: "peer_setup \<Rightarrow> frame \<Rightarrow> nat \<Rightarrow> channel \<Rightarrow> msg \<Rightarrow> bool" for c a n where
  of_from_client: "a \<in> set (pt_names c) \<Longrightarrow> n < pt_clients c a \<Longrightarrow> message_of c a n (FromClient a (pt_client c a n)) [[], ''HELLO'']"
| of_to_client: "a \<in> set (pt_names c) \<Longrightarrow> n < pt_clients c a \<Longrightarrow> message_of c a n (ToClient a (pt_client c a n)) [[], ''OK'']"
| of_request: "a \<in> set (pt_names c) \<Longrightarrow> n < pt_clients c a \<Longrightarrow> b \<in> set (pt_peers c a) \<Longrightarrow>
    message_of c a n (Request a b) [pt_client c a n, [], ''HELLO'']"
| of_reply: "a \<in> set (pt_names c) \<Longrightarrow> n < pt_clients c a \<Longrightarrow> b \<in> set (pt_peers c a) \<Longrightarrow>
    message_of c a n (Reply b a) [pt_client c a n, [], ''OK'']"
| of_to_worker: "return_path c b a n env \<Longrightarrow> b \<in> set (pt_names c) \<Longrightarrow> w < pt_workers c b \<Longrightarrow>
    message_of c a n (ToWorker b (pt_worker c b w)) ([] # env @ [[], ''HELLO''])"
| of_from_worker: "return_path c b a n env \<Longrightarrow> b \<in> set (pt_names c) \<Longrightarrow> w < pt_workers c b \<Longrightarrow>
    message_of c a n (FromWorker b (pt_worker c b w)) ([] # env @ [[], ''OK''])"

inductive placed :: "peer_setup \<Rightarrow> channel \<Rightarrow> msg \<Rightarrow> bool" for c where
  placed_ready: "b \<in> set (pt_names c) \<Longrightarrow> w < pt_workers c b \<Longrightarrow> placed c (FromWorker b (pt_worker c b w)) [[], WORKER_READY]"
| placed_message: "message_of c a n ch m \<Longrightarrow> placed c ch m"

text \<open>The same as a test, for counting; and the ways there are.\<close>

fun belongs :: "peer_setup \<Rightarrow> frame \<Rightarrow> nat \<Rightarrow> channel \<Rightarrow> msg \<Rightarrow> bool" where
  "belongs c a n (FromClient b p) m \<longleftrightarrow> b = a \<and> p = pt_client c a n"
| "belongs c a n (ToClient b p) m \<longleftrightarrow> b = a \<and> p = pt_client c a n"
| "belongs c a n (Request b x) m \<longleftrightarrow> b = a \<and> hd m = pt_client c a n"
| "belongs c a n (Reply x b) m \<longleftrightarrow> b = a \<and> hd m = pt_client c a n"
| "belongs c a n (ToWorker b p) m \<longleftrightarrow> b = a \<and> m ! 1 = pt_client c a n \<or> m ! 1 = a \<and> m ! 2 = pt_client c a n"
| "belongs c a n (FromWorker b p) m \<longleftrightarrow> b = a \<and> m ! 1 = pt_client c a n \<or> m ! 1 = a \<and> m ! 2 = pt_client c a n"

definition channels :: "peer_setup \<Rightarrow> channel set" where
  "channels c = (\<Union>b \<in> set (pt_names c).
     (\<lambda>n. FromClient b (pt_client c b n)) ` {..<pt_clients c b} \<union> (\<lambda>n. ToClient b (pt_client c b n)) ` {..<pt_clients c b}
     \<union> (\<lambda>w. FromWorker b (pt_worker c b w)) ` {..<pt_workers c b} \<union> (\<lambda>w. ToWorker b (pt_worker c b w)) ` {..<pt_workers c b}
     \<union> Request b ` set (pt_names c) \<union> Reply b ` set (pt_names c))"

text \<open>How many messages of a client are under way.\<close>

definition under_way :: "peer_setup \<Rightarrow> (channel \<Rightarrow> msg list) \<Rightarrow> frame \<Rightarrow> nat \<Rightarrow> nat" where
  "under_way c Q a n = (\<Sum>ch \<in> channels c. length (filter (belongs c a n ch) (Q ch)))"

lemma peer_setupD:
  assumes "peer_setup_ok c" and "b \<in> set (pt_names c)"
  shows "b \<noteq> WORKER_READY" "a \<in> set (pt_peers c b) \<Longrightarrow> a \<in> set (pt_names c)" "a \<in> set (pt_peers c b) \<Longrightarrow> b \<in> set (pt_peers c a)"
    "n < pt_clients c b \<Longrightarrow> n' < pt_clients c b \<Longrightarrow> pt_client c b n = pt_client c b n' \<longleftrightarrow> n = n'"
    "w < pt_workers c b \<Longrightarrow> w' < pt_workers c b \<Longrightarrow> pt_worker c b w = pt_worker c b w' \<longleftrightarrow> w = w'"
    "n < pt_clients c b \<Longrightarrow> pt_client c b n \<notin> set (pt_names c)" "n < pt_clients c b \<Longrightarrow> pt_client c b n \<noteq> WORKER_READY"
    "w < pt_workers c b \<Longrightarrow> pt_worker c b w \<noteq> []"
proof -
  from assms have b: "b \<noteq> WORKER_READY" "\<forall>a \<in> set (pt_peers c b). a \<in> set (pt_names c) \<and> b \<in> set (pt_peers c a)"
    "inj_on (pt_client c b) {..<pt_clients c b}" "inj_on (pt_worker c b) {..<pt_workers c b}"
    "\<forall>n < pt_clients c b. pt_client c b n \<notin> set (pt_names c) \<and> pt_client c b n \<noteq> WORKER_READY"
    "\<forall>w < pt_workers c b. pt_worker c b w \<noteq> []" unfolding peer_setup_ok_def by blast+
  show "b \<noteq> WORKER_READY" "a \<in> set (pt_peers c b) \<Longrightarrow> a \<in> set (pt_names c)" "a \<in> set (pt_peers c b) \<Longrightarrow> b \<in> set (pt_peers c a)"
    "n < pt_clients c b \<Longrightarrow> pt_client c b n \<notin> set (pt_names c)" "n < pt_clients c b \<Longrightarrow> pt_client c b n \<noteq> WORKER_READY"
    "w < pt_workers c b \<Longrightarrow> pt_worker c b w \<noteq> []" using b(1,2,5,6) by blast+
  show "n < pt_clients c b \<Longrightarrow> n' < pt_clients c b \<Longrightarrow> pt_client c b n = pt_client c b n' \<longleftrightarrow> n = n'"
    using inj_on_eq_iff [OF b(3)] by simp
  show "w < pt_workers c b \<Longrightarrow> w' < pt_workers c b \<Longrightarrow> pt_worker c b w = pt_worker c b w' \<longleftrightarrow> w = w'"
    using inj_on_eq_iff [OF b(4)] by simp
qed

lemma finite_channels [simp]: "finite (channels c)"
  by (simp add: channels_def)

lemma channelsI:
  assumes "b \<in> set (pt_names c)"
  shows "n < pt_clients c b \<Longrightarrow> FromClient b (pt_client c b n) \<in> channels c" "n < pt_clients c b \<Longrightarrow> ToClient b (pt_client c b n) \<in> channels c"
    "w < pt_workers c b \<Longrightarrow> FromWorker b (pt_worker c b w) \<in> channels c" "w < pt_workers c b \<Longrightarrow> ToWorker b (pt_worker c b w) \<in> channels c"
    "a \<in> set (pt_names c) \<Longrightarrow> Request b a \<in> channels c" "a \<in> set (pt_names c) \<Longrightarrow> Reply b a \<in> channels c"
  unfolding channels_def using assms by (intro UN_I [OF assms], simp)+

lemma message_of_channels: "peer_setup_ok c \<Longrightarrow> message_of c a n ch m \<Longrightarrow> ch \<in> channels c"
  by (erule message_of.cases; hypsubst) (blast intro: channelsI dest: peer_setupD(2))+

lemma message_of_names: "message_of c a n ch m \<Longrightarrow> a \<in> set (pt_names c) \<and> n < pt_clients c a"
  by (erule message_of.cases) (auto simp: return_path_def)

lemma message_of_belongs:
  assumes ok: "peer_setup_ok c" and m: "message_of c a n ch m" and a': "a' \<in> set (pt_names c)" "n' < pt_clients c a'"
  shows "belongs c a' n' ch m \<longleftrightarrow> a' = a \<and> n' = n"
proof -
  have a: "a \<in> set (pt_names c)" "n < pt_clients c a" using message_of_names [OF m] by simp_all
  have eq: "pt_client c a n = pt_client c a' n' \<longleftrightarrow> n' = n" if "a' = a"
    using peer_setupD(4) [OF ok a(1)] a a' that by blast
  have ne: "pt_client c a n \<noteq> a'" "a \<noteq> pt_client c a' n'"
    using peer_setupD(6) [OF ok a(1) a(2)] peer_setupD(6) [OF ok a'] a a' by auto
  have env: "b = a' \<and> (env @ [[], x]) ! 0 = pt_client c a' n' \<or> (env @ [[], x]) ! 0 = a' \<and> (env @ [[], x]) ! 1 = pt_client c a' n'
      \<longleftrightarrow> a' = a \<and> n' = n" if "return_path c b a n env" for b env x
  proof (cases "env = [pt_client c a n]")
    case True
    with that have "a = b" by (simp add: return_path_def)
    with True ne(1) eq show ?thesis by (cases "a' = a") simp_all
  next
    case False
    with that have "env = [a, pt_client c a n]" by (simp add: return_path_def)
    with ne(2) eq show ?thesis by (cases "a' = a") simp_all
  qed
  show ?thesis using m
  proof cases
    case (of_to_worker b e w)
    show ?thesis using env [OF of_to_worker(3), of "''HELLO''"] by (simp add: of_to_worker(1,2) numeral_2_eq_2)
  next
    case (of_from_worker b e w)
    show ?thesis using env [OF of_from_worker(3), of "''OK''"] by (simp add: of_from_worker(1,2) numeral_2_eq_2)
  next
    case of_from_client
    then show ?thesis using eq by (cases "a' = a") simp_all
  next
    case of_to_client
    then show ?thesis using eq by (cases "a' = a") simp_all
  next
    case of_request
    then show ?thesis using eq by (cases "a' = a") auto
  next
    case of_reply
    then show ?thesis using eq by (cases "a' = a") auto
  qed
qed

lemma ready_belongs: "peer_setup_ok c \<Longrightarrow> a \<in> set (pt_names c) \<Longrightarrow> n < pt_clients c a \<Longrightarrow> \<not> belongs c a n (FromWorker b p) [[], WORKER_READY]"
  using peer_setupD(1) [of c a] peer_setupD(7) [of c a n] by auto

text \<open>Taking a message and sending one, in the counts.\<close>

lemma under_way_upd:
  assumes "ch \<in> channels c"
  shows "under_way c (Q(ch := q)) a n + length (filter (belongs c a n ch) (Q ch)) =
    under_way c Q a n + length (filter (belongs c a n ch) q)"
proof -
  have "under_way c R a n = length (filter (belongs c a n ch) (R ch)) + (\<Sum>x \<in> channels c - {ch}. length (filter (belongs c a n x) (R x)))" for R
    unfolding under_way_def using assms by (intro sum.remove) simp_all
  moreover have "(\<Sum>x \<in> channels c - {ch}. length (filter (belongs c a n x) ((Q(ch := q)) x))) =
      (\<Sum>x \<in> channels c - {ch}. length (filter (belongs c a n x) (Q x)))" by (intro sum.cong) simp_all
  ultimately show ?thesis by simp
qed

lemma under_way_takes: "ch \<in> channels c \<Longrightarrow> Q ch = m # ms \<Longrightarrow>
    under_way c (Q(ch := ms)) a n + (if belongs c a n ch m then 1 else 0) = under_way c Q a n"
  using under_way_upd [of ch c Q ms a n] by (simp split: if_splits)

lemma under_way_enqueue: "ch \<in> channels c \<Longrightarrow>
    under_way c (enqueue ch m Q) a n = under_way c Q a n + (if belongs c a n ch m then 1 else 0)"
  using under_way_upd [of ch c Q "Q ch @ [m]" a n] by (simp add: enqueue_def)

text \<open>The messages at a worker.\<close>

fun at_worker :: "channel \<Rightarrow> frame \<Rightarrow> frame \<Rightarrow> bool" where
  "at_worker (FromWorker b p) b' p' \<longleftrightarrow> b = b' \<and> p = p'"
| "at_worker (ToWorker b p) b' p' \<longleftrightarrow> b = b' \<and> p = p'"
| "at_worker _ b' p' \<longleftrightarrow> False"

definition load :: "(channel \<Rightarrow> msg list) \<Rightarrow> frame \<Rightarrow> frame \<Rightarrow> nat" where
  "load Q b p = length (Q (FromWorker b p)) + length (Q (ToWorker b p))"

lemma load_takes: "Q ch = m # ms \<Longrightarrow> load (Q(ch := ms)) b p + (if at_worker ch b p then 1 else 0) = load Q b p"
  by (cases ch) (auto simp: load_def)

lemma load_enqueue: "load (enqueue ch m Q) b p = load Q b p + (if at_worker ch b p then 1 else 0)"
  by (cases ch) (auto simp: load_def enqueue_def)

subsection \<open>What a broker makes of a message\<close>

text \<open>
  It takes note of a worker that is ready, or sends the message on: the same client's, on the next way.
\<close>

lemma broker_step_worker:
  assumes ok: "peer_setup_ok c" and Z: "zmq_contract Z" and b: "b \<in> set (pt_names c)" and m: "placed c (FromWorker b p) m"
  shows "\<exists>w < pt_workers c b. p = pt_worker c b w \<and>
    (m = [[], WORKER_READY] \<and> peering_step (pt_peers c b) (peering_in (Some (router_in Z p m)) None []) ws = Inr (Next (ws @ [p]), [])
     \<or> (\<exists>os a n ch' m'. peering_step (pt_peers c b) (peering_in (Some (router_in Z p m)) None []) ws = Inr (Next (ws @ [p]), os)
        \<and> message_of c a n (FromWorker b p) m \<and> message_of c a n ch' m' \<and> (\<forall>Q. peer_sends Z b os Q = enqueue ch' m' Q)
        \<and> (\<forall>b' p'. \<not> at_worker ch' b' p')))"
  using m
proof cases
  case (placed_ready w)
  with peer_setupD(8) [OF ok b] show ?thesis
    by (intro exI [of _ w])
      (simp add: zmq_contractD [OF Z] peering_step_def peering_in_def peering_collect_def peering_reply_def was_interrupted_def)
next
  case (placed_message a n)
  from placed_message show ?thesis
  proof cases
    case (of_from_worker env w)
    note defs = peering_step_def peering_in_def peering_collect_def peering_reply_def was_interrupted_def zmq_contractD [OF Z]
    have w: "pt_worker c b w \<noteq> []" by (rule peer_setupD(8) [OF ok b of_from_worker(5)])
    have a: "a \<in> set (pt_names c)" "n < pt_clients c a" using of_from_worker(3) by (simp_all add: return_path_def)
    have C: "pt_client c a n \<noteq> WORKER_READY" "pt_client c a n \<notin> set (pt_peers c b)"
      using peer_setupD(7) [OF ok a] peer_setupD(6) [OF ok a] peer_setupD(2) [OF ok b] by blast+
    show ?thesis
    proof (cases "env = [pt_client c a n]")
      case True
      with of_from_worker(3) have "a = b" by (simp add: return_path_def)
      let ?os = "[(LocalFE, parts_of [pt_client c a n, [], ''OK''])]"
      have "peering_step (pt_peers c b) (peering_in (Some (router_in Z p m)) None []) ws = Inr (Next (ws @ [p]), ?os)"
        using w C by (simp add: defs of_from_worker(1,2) True)
      moreover have "message_of c a n (ToClient b (pt_client c a n)) [[], ''OK'']" unfolding \<open>a = b\<close> [symmetric] by (rule of_to_client [OF a])
      moreover have "peer_sends Z b ?os Q = enqueue (ToClient b (pt_client c a n)) [[], ''OK''] Q" for Q
        by (simp add: zmq_contractD [OF Z])
      moreover have "\<not> at_worker (ToClient b (pt_client c a n)) b' p'" for b' p' by simp
      ultimately show ?thesis using of_from_worker(1,5) \<open>message_of c a n (FromWorker b p) m\<close> by blast
    next
      case False
      with of_from_worker(3) have env: "env = [a, pt_client c a n]" and ba: "b \<in> set (pt_peers c a)" by (simp_all add: return_path_def)
      have ab: "a \<in> set (pt_peers c b)" by (rule peer_setupD(3) [OF ok a(1) ba])
      have "a \<noteq> WORKER_READY" by (rule peer_setupD(1) [OF ok a(1)])
      let ?os = "[(CloudFE, parts_of [a, pt_client c a n, [], ''OK''])]"
      have "peering_step (pt_peers c b) (peering_in (Some (router_in Z p m)) None []) ws = Inr (Next (ws @ [p]), ?os)"
        using w ab \<open>a \<noteq> WORKER_READY\<close> by (simp add: defs of_from_worker(1,2) env)
      moreover have "message_of c a n (Reply b a) [pt_client c a n, [], ''OK'']" by (rule of_reply [OF a ba])
      moreover have "peer_sends Z b ?os Q = enqueue (Reply b a) [pt_client c a n, [], ''OK''] Q" for Q
        by (simp add: zmq_contractD [OF Z])
      moreover have "\<not> at_worker (Reply b a) b' p'" for b' p' by simp
      ultimately show ?thesis using of_from_worker(1,5) \<open>message_of c a n (FromWorker b p) m\<close> by blast
    qed
  qed
qed

lemma broker_step_reply:
  assumes ok: "peer_setup_ok c" and Z: "zmq_contract Z" and b: "b \<in> set (pt_names c)" and m: "placed c (Reply x b) m"
  shows "\<exists>os a n ch' m'. peering_step (pt_peers c b) (peering_in None (Some (router_in Z x m)) []) ws = Inr (Next ws, os)
    \<and> message_of c a n (Reply x b) m \<and> message_of c a n ch' m' \<and> (\<forall>Q. peer_sends Z b os Q = enqueue ch' m' Q)
    \<and> (\<forall>b' p'. \<not> at_worker ch' b' p')"
  using m
proof cases
  case (placed_message a n)
  from placed_message show ?thesis
  proof cases
    case of_reply
    have n: "n < pt_clients c b" using of_reply by simp
    have C: "pt_client c b n \<notin> set (pt_peers c b)"
      using peer_setupD(6) [OF ok b n] peer_setupD(2) [OF ok b] by blast
    let ?os = "[(LocalFE, parts_of [pt_client c b n, [], ''OK''])]"
    have "peering_step (pt_peers c b) (peering_in None (Some (router_in Z x m)) []) ws = Inr (Next ws, ?os)"
      using C by (simp add: peering_step_def peering_in_def peering_collect_def peering_reply_def was_interrupted_def
          zmq_contractD [OF Z] of_reply(1,2))
    moreover have "message_of c b n (ToClient b (pt_client c b n)) [[], ''OK'']" by (rule of_to_client [OF b n])
    moreover have "peer_sends Z b ?os Q = enqueue (ToClient b (pt_client c b n)) [[], ''OK''] Q" for Q
      by (simp add: zmq_contractD [OF Z])
    moreover have "\<not> at_worker (ToClient b (pt_client c b n)) b' p'" for b' p' by simp
    ultimately show ?thesis using \<open>message_of c a n (Reply x b) m\<close> of_reply(1) by blast
  qed
qed

text \<open>A request to a worker.\<close>

lemma broker_dispatches:
  assumes Z: "zmq_contract Z" and "\<not> (rr \<and> peers \<noteq> [] \<and> pr_route r = 0)"
  shows "peering_dispatch peers r rr (f # req) (p # ws) = Inr (ws, [(LocalBE, parts_of (p # [] # f # req))])"
    "peer_sends Z b [(LocalBE, parts_of (p # [] # f # req))] Q = enqueue (ToWorker b p) ([] # f # req) Q"
  using assms by (simp_all add: peering_dispatch_def zmq_contractD [OF Z])

lemma broker_round:
  "peering_step peers (peering_in None None [peering_round (Some (f # req)) None route k]) (p # ws) =
    rbind (peering_dispatch peers (peering_round (Some (f # req)) None route k) False (f # req) (p # ws)) (\<lambda>(ws, os). Inr (Next ws, os))"
  "peering_step peers (peering_in None None [peering_round None (Some (f # req)) route k]) (p # ws) =
    rbind (peering_dispatch peers (peering_round None (Some (f # req)) route k) True (f # req) (p # ws)) (\<lambda>(ws, os). Inr (Next ws, os))"
  by (cases "peering_dispatch peers (peering_round (Some (f # req)) None route k) False (f # req) (p # ws)";
      cases "peering_dispatch peers (peering_round None (Some (f # req)) route k) True (f # req) (p # ws)";
      auto simp: peering_step_rounds peering_round_def)+

lemma broker_step_request:
  assumes ok: "peer_setup_ok c" and Z: "zmq_contract Z" and b: "b \<in> set (pt_names c)" and m: "placed c (Request x b) m"
    and w: "w < pt_workers c b"
  shows "\<exists>os a n m'. peering_step (pt_peers c b) (peering_in None None [peering_round (Some (router_in Z x m)) None route k]) (pt_worker c b w # ws)
      = Inr (Next ws, os)
    \<and> message_of c a n (Request x b) m \<and> message_of c a n (ToWorker b (pt_worker c b w)) m'
    \<and> (\<forall>Q. peer_sends Z b os Q = enqueue (ToWorker b (pt_worker c b w)) m' Q)"
  using m
proof cases
  case (placed_message a n)
  from placed_message show ?thesis
  proof cases
    case of_request
    let ?m = "[] # [x, pt_client c x n] @ [[], ''HELLO'']"
    have "return_path c b x n [x, pt_client c x n]" using of_request by (simp add: return_path_def)
    from of_to_worker [OF this b w] have "message_of c x n (ToWorker b (pt_worker c b w)) ?m" .
    with broker_dispatches [OF Z, of False] placed_message of_request(1,2) show ?thesis
      by (intro exI [of _ "[(LocalBE, parts_of (pt_worker c b w # ?m))]"] exI [of _ x] exI [of _ n] exI [of _ ?m])
        (simp add: zmq_contractD [OF Z] broker_round del: parts_of.simps peer_sends.simps)
  qed
qed

lemma broker_step_client:
  assumes ok: "peer_setup_ok c" and Z: "zmq_contract Z" and b: "b \<in> set (pt_names c)" and m: "placed c (FromClient b p) m"
    and w: "w < pt_workers c b" and k: "k < length (pt_peers c b)"
  shows "\<exists>os a n ch' m' ws'. peering_step (pt_peers c b) (peering_in None None [peering_round None (Some (router_in Z p m)) route k]) (pt_worker c b w # ws)
      = Inr (Next ws', os)
    \<and> message_of c a n (FromClient b p) m \<and> message_of c a n ch' m' \<and> (\<forall>Q. peer_sends Z b os Q = enqueue ch' m' Q)
    \<and> (ws' = ws \<and> ch' = ToWorker b (pt_worker c b w) \<or> ws' = pt_worker c b w # ws \<and> (\<forall>b' p'. \<not> at_worker ch' b' p'))"
  using m
proof cases
  case (placed_message a n)
  from placed_message show ?thesis
  proof cases
    case of_from_client
    let ?C = "pt_client c b n" and ?r = "peering_round None (Some [pt_client c b n, [], ''HELLO'']) route k"
    have of: "message_of c b n (FromClient b p) m" "p = ?C" "m = [[], ''HELLO'']" using placed_message of_from_client by simp_all
    then have step: "peering_step (pt_peers c b) (peering_in None None [peering_round None (Some (router_in Z p m)) route k]) (pt_worker c b w # ws) =
        rbind (peering_dispatch (pt_peers c b) ?r True [?C, [], ''HELLO''] (pt_worker c b w # ws)) (\<lambda>(ws, os). Inr (Next ws, os))"
      by (simp add: zmq_contractD [OF Z] broker_round)
    show ?thesis
    proof (cases "route = 0")
      case True
      let ?x = "pt_peers c b ! k" and ?m = "[?C, [], ''HELLO'']"
      let ?os = "[(CloudBE, parts_of (?x # ?m))]"
      have "message_of c b n (Request b ?x) ?m" using of_from_client k by (intro of_request) simp_all
      moreover have "peering_step (pt_peers c b) (peering_in None None [peering_round None (Some (router_in Z p m)) route k]) (pt_worker c b w # ws) = Inr (Next (pt_worker c b w # ws), ?os)"
        unfolding step using k True by (auto simp: peering_dispatch_def peering_round_def)
      moreover have "peer_sends Z b ?os Q = enqueue (Request b ?x) ?m Q" for Q by (simp add: zmq_contractD [OF Z])
      moreover have "\<not> at_worker (Request b ?x) b' p'" for b' p' by simp
      ultimately show ?thesis using of(1) by blast
    next
      case False
      let ?m = "[] # [?C] @ [[], ''HELLO'']"
      let ?os = "[(LocalBE, parts_of (pt_worker c b w # ?m))]"
      have "return_path c b b n [?C]" using of_from_client by (simp add: return_path_def)
      from of_to_worker [OF this b w] have "message_of c b n (ToWorker b (pt_worker c b w)) ?m" .
      moreover have "peering_step (pt_peers c b) (peering_in None None [peering_round None (Some (router_in Z p m)) route k]) (pt_worker c b w # ws) = Inr (Next ws, ?os)"
        unfolding step using False by (simp add: peering_dispatch_def peering_round_def)
      moreover have "peer_sends Z b ?os Q = enqueue (ToWorker b (pt_worker c b w)) ?m Q" for Q by (simp add: zmq_contractD [OF Z])
      ultimately show ?thesis using of(1) by blast
    qed
  qed
qed

text \<open>All four ways together, with what they do to the worker's account.\<close>

definition account :: "frame \<Rightarrow> string list \<Rightarrow> channel \<Rightarrow> frame \<Rightarrow> frame \<Rightarrow> nat" where
  "account b ws ch b' p = (if b' = b then count_list ws p else 0) + (if at_worker ch b' p then 1 else 0)"

lemma broker_step:
  assumes ok: "peer_setup_ok c" and Z: "zmq_contract Z" and b: "b \<in> set (pt_names c)" and m: "placed c ch m"
    and r: "broker_reads Z c b ws ch m i" and ws: "set ws \<subseteq> pt_worker c b ` {..<pt_workers c b}"
  shows "(\<exists>w < pt_workers c b. ch = FromWorker b (pt_worker c b w) \<and> m = [[], WORKER_READY]
      \<and> peering_step (pt_peers c b) i ws = Inr (Next (ws @ [pt_worker c b w]), []))
    \<or> (\<exists>os a n ch' m' ws'. peering_step (pt_peers c b) i ws = Inr (Next ws', os)
      \<and> message_of c a n ch m \<and> message_of c a n ch' m' \<and> (\<forall>Q. peer_sends Z b os Q = enqueue ch' m' Q)
      \<and> set ws' \<subseteq> pt_worker c b ` {..<pt_workers c b} \<and> (\<forall>b' p. account b ws' ch' b' p = account b ws ch b' p))"
  using r
proof cases
  case (reads_worker p)
  from broker_step_worker [OF ok Z b m [unfolded reads_worker(1)], of ws] obtain w where w: "w < pt_workers c b" "p = pt_worker c b w"
    and o: "m = [[], WORKER_READY] \<and> peering_step (pt_peers c b) i ws = Inr (Next (ws @ [p]), [])
     \<or> (\<exists>os a n ch' m'. peering_step (pt_peers c b) i ws = Inr (Next (ws @ [p]), os)
        \<and> message_of c a n (FromWorker b p) m \<and> message_of c a n ch' m' \<and> (\<forall>Q. peer_sends Z b os Q = enqueue ch' m' Q)
        \<and> (\<forall>b' p'. \<not> at_worker ch' b' p'))" unfolding reads_worker(2) by blast
  from o show ?thesis
  proof
    assume "m = [[], WORKER_READY] \<and> peering_step (pt_peers c b) i ws = Inr (Next (ws @ [p]), [])"
    with w reads_worker(1) show ?thesis by blast
  next
    assume "\<exists>os a n ch' m'. peering_step (pt_peers c b) i ws = Inr (Next (ws @ [p]), os)
        \<and> message_of c a n (FromWorker b p) m \<and> message_of c a n ch' m' \<and> (\<forall>Q. peer_sends Z b os Q = enqueue ch' m' Q)
        \<and> (\<forall>b' p'. \<not> at_worker ch' b' p')"
    then obtain os a n ch' m' where s: "peering_step (pt_peers c b) i ws = Inr (Next (ws @ [p]), os)"
      "message_of c a n (FromWorker b p) m" "message_of c a n ch' m'" "\<forall>Q. peer_sends Z b os Q = enqueue ch' m' Q"
      and n: "\<forall>b' p'. \<not> at_worker ch' b' p'" by blast
    have "account b (ws @ [p]) ch' b' p' = account b ws ch b' p'" for b' p' by (simp add: account_def n reads_worker(1))
    moreover have "set (ws @ [p]) \<subseteq> pt_worker c b ` {..<pt_workers c b}" using ws w by simp
    ultimately show ?thesis using s unfolding reads_worker(1) by blast
  qed
next
  case (reads_reply x)
  from broker_step_reply [OF ok Z b m [unfolded reads_reply(1)], of ws] obtain os a n ch' m' where
    s: "peering_step (pt_peers c b) i ws = Inr (Next ws, os)" "message_of c a n (Reply x b) m" "message_of c a n ch' m'"
      "\<forall>Q. peer_sends Z b os Q = enqueue ch' m' Q"
    and n: "\<forall>b' p'. \<not> at_worker ch' b' p'" unfolding reads_reply(2) by blast
  have "account b ws ch' b' p' = account b ws ch b' p'" for b' p' by (simp add: account_def n reads_reply(1))
  with s ws show ?thesis unfolding reads_reply(1) by blast
next
  case (reads_request k x route)
  then obtain p ws1 where p: "ws = p # ws1" by (cases ws) auto
  with ws obtain w where w: "w < pt_workers c b" "p = pt_worker c b w" by auto
  from broker_step_request [OF ok Z b m [unfolded reads_request(1)] w(1), of route k ws1] obtain os a n m' where
    s: "peering_step (pt_peers c b) i ws = Inr (Next ws1, os)" "message_of c a n (Request x b) m"
      "message_of c a n (ToWorker b p) m'" "\<forall>Q. peer_sends Z b os Q = enqueue (ToWorker b p) m' Q"
    unfolding reads_request(2) p w(2) by blast
  have "account b ws1 (ToWorker b p) b' p' = account b ws ch b' p'" for b' p' by (simp add: account_def p reads_request(1))
  moreover have "set ws1 \<subseteq> pt_worker c b ` {..<pt_workers c b}" using ws p by simp
  ultimately show ?thesis using s unfolding reads_request(1) by blast
next
  case (reads_client k q route)
  then obtain p ws1 where p: "ws = p # ws1" by (cases ws) auto
  with ws obtain w where w: "w < pt_workers c b" "p = pt_worker c b w" by auto
  from broker_step_client [OF ok Z b m [unfolded reads_client(1)] w(1) reads_client(4), of route ws1] obtain os a n ch' m' ws' where
    s: "peering_step (pt_peers c b) i ws = Inr (Next ws', os)" "message_of c a n (FromClient b q) m"
      "message_of c a n ch' m'" "\<forall>Q. peer_sends Z b os Q = enqueue ch' m' Q"
    and o: "ws' = ws1 \<and> ch' = ToWorker b p \<or> ws' = ws \<and> (\<forall>b' p'. \<not> at_worker ch' b' p')"
    unfolding reads_client(2) p w(2) by blast
  have "account b ws' ch' b' p' = account b ws ch b' p'" for b' p' using o by (auto simp: account_def p reads_client(1))
  moreover have "set ws' \<subseteq> pt_worker c b ` {..<pt_workers c b}" using o ws p by auto
  ultimately show ?thesis using s unfolding reads_client(1) by blast
qed

subsection \<open>The invariant\<close>

definition net_ok :: "peer_setup \<Rightarrow> (channel \<Rightarrow> msg list) \<Rightarrow> bool" where
  "net_ok c Q \<longleftrightarrow> (\<forall>ch. \<forall>m \<in> set (Q ch). placed c ch m)"

definition clients_ok :: "peer_setup \<Rightarrow> peernet \<Rightarrow> bool" where
  "clients_ok c s \<longleftrightarrow> (\<forall>a \<in> set (pt_names c). \<forall>n < pt_clients c a.
     pe_got s a n = replicate (length (pe_got s a n)) ''OK''
     \<and> (\<exists>u. pe_client s a n = Next u \<and> under_way c (pe_net s) a n = (if u then 1 else 0)))"

definition brokers_ok :: "peer_setup \<Rightarrow> peernet \<Rightarrow> bool" where
  "brokers_ok c s \<longleftrightarrow> (\<forall>b \<in> set (pt_names c).
     \<exists>ws. pe_ready s b = Next ws \<and> set ws \<subseteq> pt_worker c b ` {..<pt_workers c b}
       \<and> (\<forall>w < pt_workers c b. pe_worker s b w \<in> {None, Some (Next ())}
          \<and> count_list ws (pt_worker c b w) + load (pe_net s) b (pt_worker c b w) = (if pe_worker s b w = None then 0 else 1)))"

definition peernet_inv :: "peer_setup \<Rightarrow> peernet \<Rightarrow> bool" where
  "peernet_inv c s \<longleftrightarrow> net_ok c (pe_net s) \<and> clients_ok c s \<and> brokers_ok c s \<and> pe_fault s = None"

lemma net_ok_takes: "net_ok c Q \<Longrightarrow> Q ch = m # ms \<Longrightarrow> placed c ch m \<and> net_ok c (Q(ch := ms))"
  unfolding net_ok_def by (metis fun_upd_apply list.set_intros)

lemma net_ok_enqueue: "net_ok c Q \<Longrightarrow> placed c ch m \<Longrightarrow> net_ok c (enqueue ch m Q)"
  by (auto simp: net_ok_def enqueue_def)

lemma placed_channels: "peer_setup_ok c \<Longrightarrow> placed c ch m \<Longrightarrow> ch \<in> channels c"
  by (erule placed.cases) (auto intro: channelsI message_of_channels)

lemma peernet_init_inv: "peernet_inv c peernet_init"
  by (auto simp: peernet_inv_def peernet_init_def net_ok_def clients_ok_def brokers_ok_def under_way_def load_def)

locale peering_network =
  fixes Z :: zmq_envelope and c :: peer_setup
  assumes zmq: "zmq_contract Z" and well: "peer_setup_ok c"
begin

lemmas envelope [simp] = zmq_contractD [OF zmq]
lemmas setupD = peer_setupD [OF well]

lemma under_way_moves:
  assumes ok: "net_ok c Q" and Q: "Q ch = m # ms" and m: "message_of c a n ch m" and m': "message_of c a n ch' m'"
    and a': "a' \<in> set (pt_names c)" "n' < pt_clients c a'"
  shows "under_way c (enqueue ch' m' (Q(ch := ms))) a' n' = under_way c Q a' n'"
  using under_way_takes [where Q = Q, OF message_of_channels [OF well m] Q, of a' n'] under_way_enqueue [OF message_of_channels [OF well m'], of m' "Q(ch := ms)" a' n']
    message_of_belongs [OF well m a'] message_of_belongs [OF well m' a'] by simp

lemma load_moves:
  assumes "Q ch = m # ms"
  shows "load (enqueue ch' m' (Q(ch := ms))) b p + (if at_worker ch b p then 1 else 0) = load Q b p + (if at_worker ch' b p then 1 else 0)"
  using load_takes [where Q = Q, OF assms, of b p] load_enqueue [of ch' m' "Q(ch := ms)" b p] by simp

lemma net_ok_moves: "net_ok c Q \<Longrightarrow> Q ch = m # ms \<Longrightarrow> message_of c a n ch' m' \<Longrightarrow> net_ok c (enqueue ch' m' (Q(ch := ms)))"
  using net_ok_takes net_ok_enqueue placed_message by blast

lemma clients_same:
  assumes "clients_ok c s" and "pe_got t = pe_got s" "pe_client t = pe_client s"
    and "\<And>a n. a \<in> set (pt_names c) \<Longrightarrow> n < pt_clients c a \<Longrightarrow> under_way c (pe_net t) a n = under_way c (pe_net s) a n"
  shows "clients_ok c t"
  using assms by (simp add: clients_ok_def)

lemma clients_change:
  assumes "clients_ok c s" and "\<And>a' n'. a' \<noteq> a \<or> n' \<noteq> n \<Longrightarrow> pe_got t a' n' = pe_got s a' n' \<and> pe_client t a' n' = pe_client s a' n'"
    and "\<And>a' n'. a' \<in> set (pt_names c) \<Longrightarrow> n' < pt_clients c a' \<Longrightarrow> a' \<noteq> a \<or> n' \<noteq> n \<Longrightarrow>
      under_way c (pe_net t) a' n' = under_way c (pe_net s) a' n'"
    and "pe_got t a n = replicate (length (pe_got t a n)) ''OK''" "pe_client t a n = Next u" "under_way c (pe_net t) a n = (if u then 1 else 0)"
  shows "clients_ok c t"
  unfolding clients_ok_def
proof (intro ballI allI impI)
  fix a' n'
  assume a': "a' \<in> set (pt_names c)" "n' < pt_clients c a'"
  show "pe_got t a' n' = replicate (length (pe_got t a' n')) ''OK'' \<and> (\<exists>u. pe_client t a' n' = Next u \<and> under_way c (pe_net t) a' n' = (if u then 1 else 0))"
  proof (cases "a' = a \<and> n' = n")
    case True
    with assms(4-6) show ?thesis by blast
  next
    case False
    then have d: "a' \<noteq> a \<or> n' \<noteq> n" by blast
    from assms(1) a' have "pe_got s a' n' = replicate (length (pe_got s a' n')) ''OK''
      \<and> (\<exists>u. pe_client s a' n' = Next u \<and> under_way c (pe_net s) a' n' = (if u then 1 else 0))" unfolding clients_ok_def by blast
    with assms(2) [OF d] assms(3) [OF a' d] show ?thesis by simp
  qed
qed

lemma brokers_same:
  assumes "brokers_ok c s" and "pe_ready t = pe_ready s" "pe_worker t = pe_worker s" and "\<And>b p. load (pe_net t) b p = load (pe_net s) b p"
  shows "brokers_ok c t"
  using assms by (simp add: brokers_ok_def)

lemma invD:
  assumes "peernet_inv c s"
  shows "net_ok c (pe_net s)" "clients_ok c s" "brokers_ok c s" "pe_fault s = None"
  using assms by (simp_all add: peernet_inv_def)

lemma clientD:
  assumes "peernet_inv c s" and "a \<in> set (pt_names c)" "n < pt_clients c a"
  shows "pe_got s a n = replicate (length (pe_got s a n)) ''OK''" "pe_client s a n = Next u \<Longrightarrow> under_way c (pe_net s) a n = (if u then 1 else 0)"
    "pe_client s a n = Next True \<or> pe_client s a n = Next False"
proof -
  have "pe_got s a n = replicate (length (pe_got s a n)) ''OK''
    \<and> (\<exists>u. pe_client s a n = Next u \<and> under_way c (pe_net s) a n = (if u then 1 else 0))"
    using invD(2) [OF assms(1)] assms(2,3) unfolding clients_ok_def by blast
  then show "pe_got s a n = replicate (length (pe_got s a n)) ''OK''"
    "pe_client s a n = Next u \<Longrightarrow> under_way c (pe_net s) a n = (if u then 1 else 0)"
    "pe_client s a n = Next True \<or> pe_client s a n = Next False" by auto
qed

lemma inv_asks:
  assumes inv: "peernet_inv c s" and b: "b \<in> set (pt_names c)" "n < pt_clients c b" and cl: "pe_client s b n = Next False"
  shows "peernet_inv c (s\<lparr>pe_client := (pe_client s)(b := (pe_client s b)(n := Next True)),
      pe_net := req_sends Z (FromClient b (pt_client c b n)) [peering_client_request] (pe_net s)\<rparr>)" (is "peernet_inv c ?t")
proof -
  let ?ch = "FromClient b (pt_client c b n)" and ?m = "[[], ''HELLO'']"
  have t: "pe_net ?t = enqueue ?ch ?m (pe_net s)" by (simp add: peering_client_request_def)
  have m: "message_of c b n ?ch ?m" by (rule of_from_client [OF b])
  have u: "under_way c (pe_net ?t) a' n' = under_way c (pe_net s) a' n' + (if a' = b \<and> n' = n then 1 else 0)"
    if "a' \<in> set (pt_names c)" "n' < pt_clients c a'" for a' n'
    unfolding t using under_way_enqueue [OF message_of_channels [OF well m], of ?m "pe_net s" a' n'] message_of_belongs [OF well m that] by auto
  have "clients_ok c ?t"
  proof (rule clients_change [OF invD(2) [OF inv], where a = b and n = n and u = True])
    show "under_way c (pe_net ?t) b n = (if True then 1 else 0)" using u [OF b] clientD(2) [OF inv b cl] by simp
    show "pe_got ?t b n = replicate (length (pe_got ?t b n)) ''OK''" using clientD(1) [OF inv b] by simp
  qed (use u in auto)
  moreover have "brokers_ok c ?t" by (rule brokers_same [OF invD(3) [OF inv]]) (simp_all add: peering_client_request_def load_enqueue)
  moreover have "net_ok c (pe_net ?t)" unfolding t by (rule net_ok_enqueue [OF invD(1) [OF inv] placed_message [OF m]])
  ultimately show ?thesis using invD(4) [OF inv] by (simp add: peernet_inv_def)
qed

lemma inv_hears:
  assumes inv: "peernet_inv c s" and b: "b \<in> set (pt_names c)" "n < pt_clients c b" and cl: "pe_client s b n = Next True"
    and m: "pe_net s (ToClient b (pt_client c b n)) = m # ms"
  shows "peering_client_step (arrives (req_in Z m)) () = Inr (Next (), [peering_client_request])"
    "peernet_inv c (s\<lparr>pe_client := (pe_client s)(b := (pe_client s b)(n := Next False)),
      pe_got := (pe_got s)(b := (pe_got s b)(n := pe_got s b n @ take 1 (req_in Z m))),
      pe_net := (pe_net s)(ToClient b (pt_client c b n) := ms)\<rparr>)" (is "peernet_inv c ?t")
proof -
  let ?ch = "ToClient b (pt_client c b n)"
  from net_ok_takes [OF invD(1) [OF inv] m] have pl: "placed c ?ch m" and ok: "net_ok c (pe_net ?t)" by simp_all
  from pl obtain a n' where mo: "message_of c a n' ?ch m" by cases blast
  then have mm: "m = [[], ''OK'']" by cases simp
  have e: "a = b \<and> n' = n" using message_of_belongs [OF well mo b] by simp
  show "peering_client_step (arrives (req_in Z m)) () = Inr (Next (), [peering_client_request])"
    by (simp add: mm peering_client_step_def arrives_def)
  have u: "under_way c (pe_net ?t) a' k + (if a' = b \<and> k = n then 1 else 0) = under_way c (pe_net s) a' k"
    if "a' \<in> set (pt_names c)" "k < pt_clients c a'" for a' k
    using under_way_takes [where Q = "pe_net s", OF message_of_channels [OF well mo] m, of a' k] message_of_belongs [OF well mo that] e by auto
  have "clients_ok c ?t"
  proof (rule clients_change [OF invD(2) [OF inv], where a = b and n = n and u = False])
    show "under_way c (pe_net ?t) b n = (if False then 1 else 0)" using u [OF b] clientD(2) [OF inv b cl] by simp
    show "pe_got ?t b n = replicate (length (pe_got ?t b n)) ''OK''"
      using clientD(1) [OF inv b] by (simp add: mm) (metis replicate_append_same)
    show "under_way c (pe_net ?t) a' k = under_way c (pe_net s) a' k"
      if "a' \<in> set (pt_names c)" "k < pt_clients c a'" "a' \<noteq> b \<or> k \<noteq> n" for a' k using u [OF that(1,2)] that(3) by auto
  qed auto
  moreover have "brokers_ok c ?t" by (rule brokers_same [OF invD(3) [OF inv]]) (simp_all add: load_def)
  ultimately show "peernet_inv c ?t" using ok invD(4) [OF inv] by (simp add: peernet_inv_def)
qed

lemma brokers_change:
  assumes ok: "brokers_ok c s" and b: "b \<in> set (pt_names c)"
    and same: "\<And>b'. b' \<noteq> b \<Longrightarrow> pe_ready t b' = pe_ready s b' \<and> pe_worker t b' = pe_worker s b'
      \<and> (\<forall>p. load (pe_net t) b' p = load (pe_net s) b' p)"
    and new: "pe_ready t b = Next ws" "set ws \<subseteq> pt_worker c b ` {..<pt_workers c b}"
      "\<And>w. w < pt_workers c b \<Longrightarrow> pe_worker t b w \<in> {None, Some (Next ())}
        \<and> count_list ws (pt_worker c b w) + load (pe_net t) b (pt_worker c b w) = (if pe_worker t b w = None then 0 else 1)"
  shows "brokers_ok c t"
  unfolding brokers_ok_def
proof
  fix b'
  assume b': "b' \<in> set (pt_names c)"
  show "\<exists>ws. pe_ready t b' = Next ws \<and> set ws \<subseteq> pt_worker c b' ` {..<pt_workers c b'}
       \<and> (\<forall>w < pt_workers c b'. pe_worker t b' w \<in> {None, Some (Next ())}
          \<and> count_list ws (pt_worker c b' w) + load (pe_net t) b' (pt_worker c b' w) = (if pe_worker t b' w = None then 0 else 1))"
  proof (cases "b' = b")
    case True
    with new show ?thesis by blast
  next
    case False
    from ok b' have "\<exists>ws. pe_ready s b' = Next ws \<and> set ws \<subseteq> pt_worker c b' ` {..<pt_workers c b'}
       \<and> (\<forall>w < pt_workers c b'. pe_worker s b' w \<in> {None, Some (Next ())}
          \<and> count_list ws (pt_worker c b' w) + load (pe_net s) b' (pt_worker c b' w) = (if pe_worker s b' w = None then 0 else 1))"
      unfolding brokers_ok_def by blast
    with same [OF False] show ?thesis by simp
  qed
qed

lemma brokerD:
  assumes "peernet_inv c s" and "b \<in> set (pt_names c)"
  obtains ws where "pe_ready s b = Next ws" "set ws \<subseteq> pt_worker c b ` {..<pt_workers c b}"
    "\<And>w. w < pt_workers c b \<Longrightarrow> pe_worker s b w \<in> {None, Some (Next ())}
      \<and> count_list ws (pt_worker c b w) + load (pe_net s) b (pt_worker c b w) = (if pe_worker s b w = None then 0 else 1)"
  using invD(3) [OF assms(1)] assms(2) unfolding brokers_ok_def by blast

lemma inv_greets:
  assumes inv: "peernet_inv c s" and b: "b \<in> set (pt_names c)" "w < pt_workers c b" and wk: "pe_worker s b w = None"
  shows "peernet_inv c (s\<lparr>pe_worker := (pe_worker s)(b := (pe_worker s b)(w := Some (Next ()))),
      pe_net := req_sends Z (FromWorker b (pt_worker c b w)) [peering_worker_ready] (pe_net s)\<rparr>)" (is "peernet_inv c ?t")
proof -
  let ?ch = "FromWorker b (pt_worker c b w)" and ?m = "[[], WORKER_READY]"
  have t: "pe_net ?t = enqueue ?ch ?m (pe_net s)" by (simp add: peering_worker_ready_def)
  have m: "placed c ?ch ?m" by (rule placed_ready [OF b])
  have "under_way c (pe_net ?t) a n = under_way c (pe_net s) a n" if "a \<in> set (pt_names c)" "n < pt_clients c a" for a n
    unfolding t using under_way_enqueue [OF placed_channels [OF well m], of ?m "pe_net s" a n] ready_belongs [OF well that] by simp
  then have "clients_ok c ?t" by (intro clients_same [OF invD(2) [OF inv]]) simp_all
  moreover have "brokers_ok c ?t"
  proof -
    obtain ws where ws: "pe_ready s b = Next ws" "set ws \<subseteq> pt_worker c b ` {..<pt_workers c b}"
      "\<And>w. w < pt_workers c b \<Longrightarrow> pe_worker s b w \<in> {None, Some (Next ())}
        \<and> count_list ws (pt_worker c b w) + load (pe_net s) b (pt_worker c b w) = (if pe_worker s b w = None then 0 else 1)"
      by (rule brokerD [OF inv b(1)]) blast
    show ?thesis
    proof (rule brokers_change [OF invD(3) [OF inv] b(1) _ _ ws(2)])
      fix v
      assume v: "v < pt_workers c b"
      then have "pt_worker c b w = pt_worker c b v \<longleftrightarrow> w = v" using setupD(5) [OF b(1,2)] by blast
      with ws(3) [OF v] wk show "pe_worker ?t b v \<in> {None, Some (Next ())}
        \<and> count_list ws (pt_worker c b v) + load (pe_net ?t) b (pt_worker c b v) = (if pe_worker ?t b v = None then 0 else 1)"
        unfolding t load_enqueue by (cases "v = w") auto
    qed (use ws(1) in \<open>simp_all add: peering_worker_ready_def load_enqueue\<close>)
  qed
  moreover have "net_ok c (pe_net ?t)" unfolding t by (rule net_ok_enqueue [OF invD(1) [OF inv] m])
  ultimately show ?thesis using invD(4) [OF inv] by (simp add: peernet_inv_def)
qed

lemma inv_works:
  assumes inv: "peernet_inv c s" and b: "b \<in> set (pt_names c)" "w < pt_workers c b" and wk: "pe_worker s b w = Some (Next ())"
    and m: "pe_net s (ToWorker b (pt_worker c b w)) = m # ms"
  shows "\<exists>pss. peering_worker_step (arrives (req_in Z m)) () = Inr (Next (), pss)
    \<and> peernet_inv c (s\<lparr>pe_worker := (pe_worker s)(b := (pe_worker s b)(w := Some (Next ()))),
      pe_net := req_sends Z (FromWorker b (pt_worker c b w)) pss ((pe_net s)(ToWorker b (pt_worker c b w) := ms))\<rparr>)"
proof -
  let ?ch = "ToWorker b (pt_worker c b w)" and ?ch' = "FromWorker b (pt_worker c b w)"
  from net_ok_takes [OF invD(1) [OF inv] m] have "placed c ?ch m" by simp
  then obtain a n where mo: "message_of c a n ?ch m" by cases blast
  then obtain env where env: "return_path c b a n env" "m = [] # env @ [[], ''HELLO'']" by cases blast
  let ?m = "[] # env @ [[], ''OK'']"
  have m': "message_of c a n ?ch' ?m" by (rule of_from_worker [OF env(1) b])
  obtain f fs where fs: "env = f # fs" using env(1) by (auto simp: return_path_def)
  let ?pss = "[parts_of (env @ [[], ''OK''])]"
  have step: "peering_worker_step (arrives (req_in Z m)) () = Inr (Next (), ?pss)"
    by (simp add: env(2) fs peering_worker_step_def was_interrupted_def butlast_append)
  let ?t = "s\<lparr>pe_worker := (pe_worker s)(b := (pe_worker s b)(w := Some (Next ()))), pe_net := req_sends Z ?ch' ?pss ((pe_net s)(?ch := ms))\<rparr>"
  have t: "pe_net ?t = enqueue ?ch' ?m ((pe_net s)(?ch := ms))" by simp
  have "clients_ok c ?t"
    by (rule clients_same [OF invD(2) [OF inv]], simp_all only: t)
      (simp_all add: under_way_moves [OF invD(1) [OF inv] m mo m'])
  moreover have "load (pe_net ?t) b' p = load (pe_net s) b' p" for b' p
    unfolding t using load_moves [where Q = "pe_net s", OF m, of ?ch' ?m b' p] by simp
  then have "brokers_ok c ?t" by (intro brokers_same [OF invD(3) [OF inv]]) (simp_all add: wk fun_eq_iff)
  moreover have "net_ok c (pe_net ?t)" unfolding t by (rule net_ok_moves [OF invD(1) [OF inv] m m'])
  ultimately have "peernet_inv c ?t" using invD(4) [OF inv] by (simp add: peernet_inv_def)
  with step show ?thesis by blast
qed

lemma inv_turns:
  assumes inv: "peernet_inv c s" and b: "b \<in> set (pt_names c)" and wb: "pe_ready s b = Next ws"
    and m: "pe_net s ch = m # ms" and r: "broker_reads Z c b ws ch m i"
  shows "\<exists>x os. peering_step (pt_peers c b) i ws = Inr (x, os)
    \<and> peernet_inv c (s\<lparr>pe_ready := (pe_ready s)(b := x), pe_net := peer_sends Z b os ((pe_net s)(ch := ms))\<rparr>)"
proof -
  from net_ok_takes [OF invD(1) [OF inv] m] have pl: "placed c ch m" and ok: "net_ok c ((pe_net s)(ch := ms))" by simp_all
  obtain ws0 where "pe_ready s b = Next ws0" "set ws0 \<subseteq> pt_worker c b ` {..<pt_workers c b}"
    "\<And>w. w < pt_workers c b \<Longrightarrow> pe_worker s b w \<in> {None, Some (Next ())}
      \<and> count_list ws0 (pt_worker c b w) + load (pe_net s) b (pt_worker c b w) = (if pe_worker s b w = None then 0 else 1)"
    by (rule brokerD [OF inv b]) blast
  with wb have ws: "set ws \<subseteq> pt_worker c b ` {..<pt_workers c b}"
    and cnt: "\<And>w. w < pt_workers c b \<Longrightarrow> pe_worker s b w \<in> {None, Some (Next ())}
      \<and> count_list ws (pt_worker c b w) + load (pe_net s) b (pt_worker c b w) = (if pe_worker s b w = None then 0 else 1)" by simp_all
  from broker_step [OF well zmq b pl r ws] show ?thesis
  proof (elim disjE exE conjE)
    fix w
    let ?p = "pt_worker c b w"
    assume w: "w < pt_workers c b" and ch: "ch = FromWorker b ?p" and mm: "m = [[], WORKER_READY]"
      and st: "peering_step (pt_peers c b) i ws = Inr (Next (ws @ [?p]), [])"
    let ?t = "s\<lparr>pe_ready := (pe_ready s)(b := Next (ws @ [?p])), pe_net := (pe_net s)(ch := ms)\<rparr>"
    have "under_way c ((pe_net s)(ch := ms)) a n = under_way c (pe_net s) a n" if "a \<in> set (pt_names c)" "n < pt_clients c a" for a n
    proof -
      have "\<not> belongs c a n ch m" unfolding ch mm by (rule ready_belongs [OF well that])
      with under_way_takes [where Q = "pe_net s", OF placed_channels [OF well pl] m, of a n] show ?thesis by simp
    qed
    then have "clients_ok c ?t" by (intro clients_same [OF invD(2) [OF inv]]) simp_all
    moreover have ld: "load ((pe_net s)(ch := ms)) b' p + (if b = b' \<and> ?p = p then 1 else 0) = load (pe_net s) b' p" for b' p
      using load_takes [where Q = "pe_net s", OF m, of b' p] by (simp add: ch)
    have "brokers_ok c ?t"
    proof (rule brokers_change [OF invD(3) [OF inv] b, where ws = "ws @ [?p]"])
      show "set (ws @ [?p]) \<subseteq> pt_worker c b ` {..<pt_workers c b}" using ws w by simp
      fix v
      assume "v < pt_workers c b"
      with cnt [OF this] ld [of b "pt_worker c b v"] show "pe_worker ?t b v \<in> {None, Some (Next ())}
        \<and> count_list (ws @ [?p]) (pt_worker c b v) + load (pe_net ?t) b (pt_worker c b v) = (if pe_worker ?t b v = None then 0 else 1)"
        by auto
    next
      fix b'
      assume "b' \<noteq> b"
      with ld [of b'] show "pe_ready ?t b' = pe_ready s b' \<and> pe_worker ?t b' = pe_worker s b' \<and> (\<forall>p. load (pe_net ?t) b' p = load (pe_net s) b' p)"
        by simp
    qed simp
    ultimately have "peernet_inv c ?t" using ok invD(4) [OF inv] by (simp add: peernet_inv_def)
    with st show ?thesis by simp
  next
    fix os a n ch' m' ws'
    assume st: "peering_step (pt_peers c b) i ws = Inr (Next ws', os)" and mo: "message_of c a n ch m" "message_of c a n ch' m'"
      and sends: "\<forall>Q. peer_sends Z b os Q = enqueue ch' m' Q" and ws': "set ws' \<subseteq> pt_worker c b ` {..<pt_workers c b}"
      and acc: "\<forall>b' p. account b ws' ch' b' p = account b ws ch b' p"
    let ?Q = "enqueue ch' m' ((pe_net s)(ch := ms))"
    let ?t = "s\<lparr>pe_ready := (pe_ready s)(b := Next ws'), pe_net := ?Q\<rparr>"
    have "clients_ok c ?t"
      by (rule clients_same [OF invD(2) [OF inv]]) (simp_all add: under_way_moves [OF invD(1) [OF inv] m mo])
    moreover have ld: "load ?Q b' p + (if at_worker ch b' p then 1 else 0) = load (pe_net s) b' p + (if at_worker ch' b' p then 1 else 0)" for b' p
      by (rule load_moves [where Q = "pe_net s", OF m])
    have "brokers_ok c ?t"
    proof (rule brokers_change [OF invD(3) [OF inv] b _ _ ws'])
      fix v
      assume "v < pt_workers c b"
      from cnt [OF this] ld [of b "pt_worker c b v"] acc [rule_format, of b "pt_worker c b v"]
      show "pe_worker ?t b v \<in> {None, Some (Next ())}
        \<and> count_list ws' (pt_worker c b v) + load (pe_net ?t) b (pt_worker c b v) = (if pe_worker ?t b v = None then 0 else 1)"
        by (auto simp: account_def)
    next
      fix b'
      assume b': "b' \<noteq> b"
      have "load ?Q b' p = load (pe_net s) b' p" for p using ld [of b' p] acc [rule_format, of b' p] b' by (simp add: account_def)
      with b' show "pe_ready ?t b' = pe_ready s b' \<and> pe_worker ?t b' = pe_worker s b' \<and> (\<forall>p. load (pe_net ?t) b' p = load (pe_net s) b' p)"
        by simp
    qed simp
    moreover have "net_ok c ?Q" by (rule net_ok_moves [OF invD(1) [OF inv] m mo(2)])
    ultimately have "peernet_inv c ?t" using invD(4) [OF inv] by (simp add: peernet_inv_def)
    with st sends show ?thesis by auto
  qed
qed

lemma inv_steps_on:
  assumes inv: "peernet_inv c s" and st: "peernet_step Z c s t"
  shows "peernet_inv c t"
  using st
proof cases
  case (client_asks b n)
  with inv_asks [OF inv] show ?thesis by simp
next
  case (client_hears b n m ms x pss)
  from inv_hears(1) [OF inv client_hears(2-5)] client_hears(6) have "x = Next ()" by simp
  with inv_hears(2) [OF inv client_hears(2-5)] client_hears(1) show ?thesis by simp
next
  case (client_faults b n m ms f)
  with inv_hears(1) [OF inv client_faults(2-5)] show ?thesis by simp
next
  case (worker_greets b w)
  with inv_greets [OF inv] show ?thesis by simp
next
  case (worker_works b w m ms x pss)
  with inv_works [OF inv worker_works(2-5)] show ?thesis by auto
next
  case (worker_faults b w m ms f)
  with inv_works [OF inv worker_faults(2-5)] show ?thesis by auto
next
  case (broker_turns b ws ch m ms i x os)
  with inv_turns [OF inv broker_turns(2-5)] show ?thesis by auto
next
  case (broker_faults b ws ch m ms i f)
  with inv_turns [OF inv broker_faults(2-5)] show ?thesis by auto
qed

lemma system: "invariant_system peernet_init (peernet_step Z c) (peernet_inv c)"
  by unfold_locales (rule peernet_init_inv, rule inv_steps_on)

text \<open>What the invariant says of a state, and that something can always happen.\<close>

lemma reachable_serves:
  assumes "(peernet_step Z c)\<^sup>*\<^sup>* peernet_init s"
  shows "(\<forall>a \<in> set (pt_names c). \<forall>n < pt_clients c a. pe_got s a n = replicate (length (pe_got s a n)) ''OK''
      \<and> (pe_client s a n = Next True \<and> under_way c (pe_net s) a n = 1 \<or> pe_client s a n = Next False \<and> under_way c (pe_net s) a n = 0))
    \<and> (\<forall>b \<in> set (pt_names c). \<exists>ws. pe_ready s b = Next ws \<and> (\<forall>w < pt_workers c b.
        count_list ws (pt_worker c b w) + load (pe_net s) b (pt_worker c b w) = (if pe_worker s b w = None then 0 else 1)))
    \<and> pe_fault s = None"
proof -
  have inv: "peernet_inv c s" by (rule invariant_system.inv_reachable [OF system assms])
  have "pe_client s a n = Next True \<and> under_way c (pe_net s) a n = 1 \<or> pe_client s a n = Next False \<and> under_way c (pe_net s) a n = 0"
    if "a \<in> set (pt_names c)" "n < pt_clients c a" for a n using clientD(2,3) [OF inv that] by fastforce
  moreover have "\<exists>ws. pe_ready s b = Next ws \<and> (\<forall>w < pt_workers c b.
      count_list ws (pt_worker c b w) + load (pe_net s) b (pt_worker c b w) = (if pe_worker s b w = None then 0 else 1))"
    if "b \<in> set (pt_names c)" for b using invD(3) [OF inv] that unfolding brokers_ok_def by blast
  ultimately show ?thesis using clientD(1) [OF inv] invD(4) [OF inv] by blast
qed

lemma moves_of_broker:
  assumes inv: "peernet_inv c s" and b: "b \<in> set (pt_names c)" "pe_ready s b = Next ws" and m: "pe_net s ch \<noteq> []"
    and r: "\<And>m. \<exists>i. broker_reads Z c b ws ch m i"
  shows "\<exists>t. peernet_step Z c s t"
proof -
  obtain m' ms where m': "pe_net s ch = m' # ms" using m by (cases "pe_net s ch") auto
  obtain i where i: "broker_reads Z c b ws ch m' i" using r by blast
  obtain x os where "peering_step (pt_peers c b) i ws = Inr (x, os)" using inv_turns [OF inv b m' i] by blast
  from broker_turns [OF b m' i this] show ?thesis by blast
qed

lemma moves_at_worker:
  assumes inv: "peernet_inv c s" and b: "b \<in> set (pt_names c)" "w < pt_workers c b" and ws: "pe_ready s b = Next ws"
    and m: "pt_worker c b w \<notin> set ws"
  shows "\<exists>t. peernet_step Z c s t"
proof (cases "pe_worker s b w = None")
  case True
  from worker_greets [where s = s, OF b True] show ?thesis by blast
next
  case False
  obtain ws0 where "pe_ready s b = Next ws0" "\<And>w. w < pt_workers c b \<Longrightarrow> pe_worker s b w \<in> {None, Some (Next ())}
      \<and> count_list ws0 (pt_worker c b w) + load (pe_net s) b (pt_worker c b w) = (if pe_worker s b w = None then 0 else 1)"
    by (rule brokerD [OF inv b(1)]) blast
  from this(2) [OF b(2)] this(1) ws False m have wk: "pe_worker s b w = Some (Next ())" and l: "load (pe_net s) b (pt_worker c b w) = 1"
    by (simp_all add: count_list_0_iff [THEN iffD2])
  show ?thesis
  proof (cases "pe_net s (ToWorker b (pt_worker c b w))")
    case Nil
    with l have "pe_net s (FromWorker b (pt_worker c b w)) \<noteq> []" by (auto simp: load_def)
    then show ?thesis by (rule moves_of_broker [OF inv b(1) ws]) (blast intro: reads_worker)
  next
    case (Cons m ms)
    from inv_works [OF inv b wk Cons] obtain pss where "peering_worker_step (arrives (req_in Z m)) () = Inr (Next (), pss)" by blast
    from worker_works [OF b wk Cons this] show ?thesis by blast
  qed
qed

lemma never_stuck:
  assumes inv: "peernet_inv c s" and full: "\<And>b. b \<in> set (pt_names c) \<Longrightarrow> 0 < pt_workers c b \<and> pt_peers c b \<noteq> []"
    and a: "a \<in> set (pt_names c)" "n < pt_clients c a"
  shows "\<exists>t. peernet_step Z c s t"
proof -
  have front: "\<exists>t. peernet_step Z c s t"
    if b: "b \<in> set (pt_names c)" and m: "pe_net s ch \<noteq> []" and ch: "(\<exists>x. ch = Request x b) \<or> (\<exists>p. ch = FromClient b p)" for b ch
  proof -
    obtain ws where ws: "pe_ready s b = Next ws" by (rule brokerD [OF inv b]) blast
    show ?thesis
    proof (cases "ws = []")
      case True
      then show ?thesis using moves_at_worker [OF inv b _ ws, of 0] full [OF b] by simp
    next
      case False
      have "0 < length (pt_peers c b)" using full [OF b] by simp
      with False ch have "\<exists>i. broker_reads Z c b ws ch m i" for m by (blast intro: reads_request reads_client)
      with moves_of_broker [OF inv b ws m] show ?thesis by blast
    qed
  qed
  show ?thesis
  proof (cases "pe_client s a n = Next False")
    case True
    from client_asks [where s = s, OF a True] show ?thesis by blast
  next
    case False
    then have cl: "pe_client s a n = Next True" using clientD(3) [OF inv a] by simp
    with clientD(2) [OF inv a] have "under_way c (pe_net s) a n = 1" by simp
    moreover have "(\<forall>ch. pe_net s ch = []) \<Longrightarrow> under_way c (pe_net s) a n = 0" by (simp add: under_way_def)
    ultimately obtain ch where "pe_net s ch \<noteq> []" by fastforce
    then obtain m ms where m: "pe_net s ch = m # ms" by (cases "pe_net s ch") auto
    with net_ok_takes [OF invD(1) [OF inv] m] have "placed c ch m" by simp
    then show ?thesis
    proof cases
      case (placed_ready b w)
      obtain ws where ws: "pe_ready s b = Next ws" by (rule brokerD [OF inv placed_ready(3)]) blast
      show ?thesis by (rule moves_of_broker [OF inv placed_ready(3) ws, of ch]) (use m placed_ready(1) in \<open>auto intro: reads_worker\<close>)
    next
      case (placed_message a' n')
      from placed_message show ?thesis
      proof cases
        case of_from_client
        show ?thesis by (rule front [of a' ch]) (use m of_from_client in auto)
      next
        case of_to_client
        show ?thesis
        proof (cases "pe_client s a' n' = Next True")
          case True
          from inv_hears(1) [OF inv of_to_client(3,4) True] m of_to_client(1)
          have "peering_client_step (arrives (req_in Z m)) () = Inr (Next (), [peering_client_request])" by simp
          from client_hears [OF of_to_client(3,4) True _ this] m of_to_client(1) show ?thesis by blast
        next
          case False
          then have "pe_client s a' n' = Next False" using clientD(3) [OF inv of_to_client(3,4)] by simp
          from client_asks [where s = s, OF of_to_client(3,4) this] show ?thesis by blast
        qed
      next
        case (of_request b)
        have "b \<in> set (pt_names c)" by (rule peer_setupD(2) [OF well of_request(3,5)])
        then show ?thesis by (rule front [of b ch]) (use m of_request(1) in auto)
      next
        case (of_reply b)
        obtain ws where ws: "pe_ready s a' = Next ws" by (rule brokerD [OF inv of_reply(3)]) blast
        show ?thesis by (rule moves_of_broker [OF inv of_reply(3) ws, of ch]) (use m of_reply(1) in \<open>auto intro: reads_reply\<close>)
      next
        case (of_to_worker b e w)
        obtain ws where ws: "pe_ready s b = Next ws" "\<And>w. w < pt_workers c b \<Longrightarrow> pe_worker s b w \<in> {None, Some (Next ())}
            \<and> count_list ws (pt_worker c b w) + load (pe_net s) b (pt_worker c b w) = (if pe_worker s b w = None then 0 else 1)"
          by (rule brokerD [OF inv of_to_worker(4)]) blast
        have "0 < load (pe_net s) b (pt_worker c b w)" using m of_to_worker(1) by (simp add: load_def)
        with ws(2) [OF of_to_worker(5)] have "count_list ws (pt_worker c b w) = 0" by (simp split: if_splits)
        then have "pt_worker c b w \<notin> set ws" by (simp add: count_list_0_iff)
        with moves_at_worker [OF inv of_to_worker(4,5) ws(1)] show ?thesis by blast
      next
        case (of_from_worker b e w)
        obtain ws where ws: "pe_ready s b = Next ws" by (rule brokerD [OF inv of_from_worker(4)]) blast
        show ?thesis by (rule moves_of_broker [OF inv of_from_worker(4) ws, of ch]) (use m of_from_worker(1) in \<open>auto intro: reads_worker\<close>)
      qed
    qed
  qed
qed

end

text \<open>
  A network in which every broker is started with the names of all others, as the usage text has it, as
  an instance: any ports, any numbers of clients and workers.
\<close>

definition full_mesh :: "int list \<Rightarrow> nat \<Rightarrow> nat \<Rightarrow> peer_setup" where
  "full_mesh ports clients workers = \<lparr>pt_names = map peering_broker_id ports,
     pt_peers = (\<lambda>b. filter (\<lambda>a. a \<noteq> b) (map peering_broker_id ports)),
     pt_client = (\<lambda>b n. replicate (Suc n) (CHR ''c'')), pt_clients = (\<lambda>_. clients),
     pt_worker = (\<lambda>b w. replicate (Suc w) (CHR ''w'')), pt_workers = (\<lambda>_. workers)\<rparr>"

lemma full_mesh_ok: "peer_setup_ok (full_mesh ports clients workers)"
proof -
  have inj: "inj_on (\<lambda>n. replicate (Suc n) x) A" for x :: char and A by (rule inj_onI) (metis length_replicate nat.inject)
  have "CHR ''c'' \<noteq> char_of (1::nat)" by code_simp
  then have "replicate (Suc n) (CHR ''c'') \<noteq> peering_broker_id p" "replicate (Suc n) (CHR ''c'') \<noteq> WORKER_READY" for n p
    by (simp_all add: peering_broker_id_def WORKER_READY_def)
  then show ?thesis unfolding peer_setup_ok_def full_mesh_def using inj by (auto simp del: replicate_Suc)
qed

interpretation peering_mesh: peering_network zmq_std "full_mesh ports clients workers" for ports clients workers
  by unfold_locales (simp_all add: full_mesh_ok)

subsection \<open>What the network does\<close>

text \<open>
  C14: in every interleaving of any number of brokers with their clients and workers, whatever the
  draws of the routing, no thread and no broker fails or stops; a client gets nothing but OK, and from
  its request to its reply exactly one message of its is under way in the whole network; and a worker
  that has reported is once in its broker's queue or has one message, never both.
\<close>

theorem peering_network_serves:
  assumes "zmq_contract Z" and "peer_setup_ok c" and r: "(peernet_step Z c)\<^sup>*\<^sup>* peernet_init s"
  shows "(\<forall>a \<in> set (pt_names c). \<forall>n < pt_clients c a. pe_got s a n = replicate (length (pe_got s a n)) ''OK''
      \<and> (pe_client s a n = Next True \<and> under_way c (pe_net s) a n = 1 \<or> pe_client s a n = Next False \<and> under_way c (pe_net s) a n = 0))
    \<and> (\<forall>b \<in> set (pt_names c). \<exists>ws. pe_ready s b = Next ws \<and> (\<forall>w < pt_workers c b.
        count_list ws (pt_worker c b w) + load (pe_net s) b (pt_worker c b w) = (if pe_worker s b w = None then 0 else 1)))
    \<and> pe_fault s = None"
  by (rule peering_network.reachable_serves [OF _ r]) (use assms(1,2) in \<open>simp add: peering_network_def\<close>)

theorem peering_network_serves_witness:
  "let c = full_mesh [5551, 5552] 2 1; b = peering_broker_id 5551
   in \<exists>s. (peernet_step zmq_std c)\<^sup>*\<^sup>* peernet_init s \<and> pe_client s b 0 = Next True \<and> under_way c (pe_net s) b 0 = 1"
proof -
  let ?c = "full_mesh [5551, 5552] 2 1" and ?b = "peering_broker_id 5551"
  let ?s = "peernet_init\<lparr>pe_client := (pe_client peernet_init)(?b := (pe_client peernet_init ?b)(0 := Next True)),
      pe_net := req_sends zmq_std (FromClient ?b (pt_client ?c ?b 0)) [peering_client_request] (pe_net peernet_init)\<rparr>"
  have b: "?b \<in> set (pt_names ?c)" "0 < pt_clients ?c ?b" by (simp_all add: full_mesh_def)
  have "peernet_step zmq_std ?c peernet_init ?s" by (rule client_asks [OF b]) (simp add: peernet_init_def)
  then have r: "(peernet_step zmq_std ?c)\<^sup>*\<^sup>* peernet_init ?s" by blast
  have cl: "pe_client ?s ?b 0 = Next True" by simp
  from peering_network_serves [OF zmq_std_contract full_mesh_ok r, THEN conjunct1, rule_format, OF b] cl
  have "under_way ?c (pe_net ?s) ?b 0 = 1" by (metis ctl.inject(1))
  with r cl show ?thesis unfolding Let_def by blast
qed

text \<open>
  C15: the network never comes to a halt: if every broker has a peer and starts a worker, and some
  client is started, then in every reachable state some thread or broker can make a step.
\<close>

theorem peering_network_goes_on:
  assumes "zmq_contract Z" and "peer_setup_ok c" and "\<And>b. b \<in> set (pt_names c) \<Longrightarrow> 0 < pt_workers c b \<and> pt_peers c b \<noteq> []"
    and "a \<in> set (pt_names c)" "0 < pt_clients c a" and r: "(peernet_step Z c)\<^sup>*\<^sup>* peernet_init s"
  shows "\<not> stuck (peernet_step Z c) s"
proof -
  have n: "peering_network Z c" using assms(1,2) by (simp add: peering_network_def)
  from invariant_system.inv_reachable [OF peering_network.system [OF n] r] have "peernet_inv c s" .
  from peering_network.never_stuck [OF n this assms(3,4,5)] show ?thesis by (simp add: stuck_def)
qed

theorem peering_network_goes_on_witness:
  "\<not> stuck (peernet_step zmq_std (full_mesh [5551, 5552] 2 1)) peernet_init"
proof (rule peering_network_goes_on [OF zmq_std_contract full_mesh_ok])
  fix b
  assume "b \<in> set (pt_names (full_mesh [5551, 5552] 2 1))"
  then have "b = peering_broker_id 5551 \<or> b = peering_broker_id 5552" by (simp add: full_mesh_def)
  then show "0 < pt_workers (full_mesh [5551, 5552] 2 1) b \<and> pt_peers (full_mesh [5551, 5552] 2 1) b \<noteq> []"
    by (elim disjE) (simp_all add: full_mesh_def broker_id_inj)
next
  show "peering_broker_id 5551 \<in> set (pt_names (full_mesh [5551, 5552] 2 1))" by (simp add: full_mesh_def)
qed (simp_all add: full_mesh_def)

end
