(* ===== verification/Startup.thy ===== *)
theory Startup
  imports Sockets Peering PubSub Proxies Freelance3 PPWorker Version
begin

text \<open>
  How the programs start: what \<open>main\<close> and the thread functions do up to their loops, as the list of
  calls they make on their sockets and the threads they start. The result of parsing the command
  line (\<open>boost::program_options\<close>) is an input. \<open>Wiring\<close> holds the lemmas about the
  order of the calls and about the endpoints that have to meet.
\<close>

subsection \<open>Calls\<close>

datatype socket_type = REQ | REP | DEALER | ROUTER | PUB | SUB | XPUB | XSUB | PUSH | PULL | PAIR

text \<open>
  A socket is named by its variable, with the thread function where several threads use the same
  name. \<open>Spawn\<close> starts a thread that makes calls of its own.
\<close>

datatype call =
    Open string socket_type
  | Bind string string
  | Connect string string
  | Subscribe string string
  | Identity string string
  | Sockopt string string int
  | Spawn "call list"

text \<open>A start that ends with an exit status, one that goes on to the program's loop, and one that fails.\<close>

datatype 'a startup = Exit int | Ready 'a | Fails fault

text \<open>
  What the parser has found on the command line: \<open>help\<close>, and the values given for the options;
  \<open>None\<close> instead of it stands for an exception of the parser (an unknown option, or a value of the
  wrong type).
\<close>

record cmdline =
  given_help :: bool
  given_text :: "string \<Rightarrow> string option"
  given_int :: "string \<Rightarrow> int option"
  given_texts :: "string \<Rightarrow> string list"

definition text_or :: "cmdline \<Rightarrow> string \<Rightarrow> string \<Rightarrow> string" where
  "text_or c name dflt = (case given_text c name of None \<Rightarrow> dflt | Some s \<Rightarrow> s)"

definition int_or :: "cmdline \<Rightarrow> string \<Rightarrow> int \<Rightarrow> int" where
  "int_or c name dflt = (case given_int c name of None \<Rightarrow> dflt | Some n \<Rightarrow> n)"

text \<open>
  The programs with a \<open>try\<close> block around \<open>main\<close> return 1 after an exception, also the one that
  \<open>notify\<close> throws when a required option is missing.
\<close>

definition with_options :: "cmdline option \<Rightarrow> (cmdline \<Rightarrow> 'a startup) \<Rightarrow> 'a startup" where
  "with_options p k = (case p of None \<Rightarrow> Exit 1 | Some c \<Rightarrow> if given_help c then Exit 0 else k c)"

definition required_int :: "cmdline \<Rightarrow> string \<Rightarrow> (int \<Rightarrow> 'a startup) \<Rightarrow> 'a startup" where
  "required_int c name k = (case given_int c name of None \<Rightarrow> Exit 1 | Some n \<Rightarrow> k n)"

definition required_text :: "cmdline \<Rightarrow> string \<Rightarrow> (string \<Rightarrow> 'a startup) \<Rightarrow> 'a startup" where
  "required_text c name k = (case given_text c name of None \<Rightarrow> Exit 1 | Some s \<Rightarrow> k s)"

definition required_texts :: "cmdline \<Rightarrow> string \<Rightarrow> (string list \<Rightarrow> 'a startup) \<Rightarrow> 'a startup" where
  "required_texts c name k = (if given_texts c name = [] then Exit 1 else k (given_texts c name))"

definition tcp :: "string \<Rightarrow> int \<Rightarrow> string" where
  "tcp addr port = ''tcp://'' @ addr @ '':'' @ int_string port"

subsection \<open>Request and reply\<close>

definition hwclient_setup :: "cmdline option \<Rightarrow> call list startup" where
  "hwclient_setup p = with_options p (\<lambda>c.
     let addr = text_or c ''server'' ''localhost''; portno = int_or c ''port'' 5555
     in Ready [Open ''socket'' REQ, Connect ''socket'' (tcp addr portno)])"

definition hwserver_setup :: "cmdline option \<Rightarrow> call list startup" where
  "hwserver_setup p = with_options p (\<lambda>c.
     let addr = text_or c ''address'' ''*''; portno = int_or c ''port'' 5555
     in Ready [Open ''socket'' REP, Bind ''socket'' (tcp addr portno)])"

text \<open>The number of requests goes with the calls.\<close>

definition rrclient_setup :: "cmdline option \<Rightarrow> (call list \<times> int) startup" where
  "rrclient_setup p = with_options p (\<lambda>c.
     let server_addr = text_or c ''server'' ''localhost''; server_port = int_or c ''port'' 5559;
         req_count = int_or c ''requests'' 100
     in Ready ([Open ''requester'' REQ, Connect ''requester'' (tcp server_addr server_port)], req_count))"

definition rrbroker_setup :: "cmdline option \<Rightarrow> call list startup" where
  "rrbroker_setup p = with_options p (\<lambda>c.
     let front_port = int_or c ''frontend-port'' 5559; back_port = int_or c ''backend-port'' 5560
     in Ready [Open ''frontend'' ROUTER, Open ''backend'' DEALER, Bind ''frontend'' (tcp ''*'' front_port),
          Bind ''backend'' (tcp ''*'' back_port)])"

definition rrworker_setup :: "cmdline option \<Rightarrow> call list startup" where
  "rrworker_setup p = with_options p (\<lambda>c.
     let broker_addr = text_or c ''broker'' ''localhost''; broker_port = int_or c ''port'' 5560
     in Ready [Open ''responder'' REP, Connect ''responder'' (tcp broker_addr broker_port)])"

definition msgqueue_setup :: "call list" where
  "msgqueue_setup = [Open ''frontend'' ROUTER, Bind ''frontend'' ''tcp://*:5559'', Open ''backend'' DEALER,
     Bind ''backend'' ''tcp://*:5560'']"

definition mtserver_worker_setup :: "call list" where
  "mtserver_worker_setup = [Open ''socket'' REP, Connect ''socket'' ''inproc://workers'']"

definition mtserver_setup :: "call list" where
  "mtserver_setup = [Open ''clients'' ROUTER, Bind ''clients'' ''tcp://*:5555'', Open ''workers'' DEALER,
     Bind ''workers'' ''inproc://workers''] @ replicate 5 (Spawn mtserver_worker_setup)"

definition interrupt_setup :: "call list" where
  "interrupt_setup = [Open ''receiver'' REP, Sockopt ''receiver'' ''RCVTIMEO'' 100, Bind ''receiver'' ''tcp://*:5555'']"

definition zcopy_setup :: "call list" where
  "zcopy_setup = [Open ''publisher'' PUB, Bind ''publisher'' ''tcp://*:5555'']"

definition identity_setup :: "call list" where
  "identity_setup = [Open ''sink'' ROUTER, Bind ''sink'' ''inproc://example'', Open ''anonymous'' REQ,
     Connect ''anonymous'' ''inproc://example'', Open ''identified'' REQ, Identity ''identified'' ''PEER2'',
     Connect ''identified'' ''inproc://example'']"

subsection \<open>Publishers, pipelines and their readers\<close>

definition wuserver_setup :: "cmdline option \<Rightarrow> call list startup" where
  "wuserver_setup p = with_options p (\<lambda>c.
     let portno = int_or c ''port'' 5556
     in Ready [Open ''publisher'' PUB, Bind ''publisher'' (tcp ''*'' portno)])"

definition wuclient_setup :: "cmdline option \<Rightarrow> call list startup" where
  "wuclient_setup p = with_options p (\<lambda>c.
     let flt = text_or c ''filter'' ''001''; addr = text_or c ''server'' ''localhost'';
         portno = int_or c ''port'' 5556
     in Ready [Open ''subscriber'' SUB, Connect ''subscriber'' (tcp addr portno), Subscribe ''subscriber'' flt])"

definition wuproxy_setup :: "cmdline option \<Rightarrow> call list startup" where
  "wuproxy_setup p = with_options p (\<lambda>c.
     required_text c ''sub-addr'' (\<lambda>sub_addr. required_text c ''pub-addr'' (\<lambda>pub_addr.
       let sub_port = int_or c ''sub-port'' 5556; pub_port = int_or c ''pub-port'' 8100
       in Ready [Open ''frontend'' SUB, Connect ''frontend'' (tcp sub_addr sub_port), Open ''backend'' PUB,
            Bind ''backend'' (tcp pub_addr pub_port), Subscribe ''frontend'' []])))"

definition taskvent_setup :: "cmdline option \<Rightarrow> call list startup" where
  "taskvent_setup p = with_options p (\<lambda>c.
     let port = int_or c ''port'' 5557; sink_addr = text_or c ''sink-addr'' ''localhost'';
         sink_port = int_or c ''sink-port'' 5558
     in Ready [Open ''sender'' PUSH, Bind ''sender'' (tcp ''*'' port), Open ''sink'' PUSH,
          Connect ''sink'' (tcp sink_addr sink_port)])"

definition taskwork_setup :: "cmdline option \<Rightarrow> call list startup" where
  "taskwork_setup p = with_options p (\<lambda>c.
     let vent_addr = text_or c ''vent-addr'' ''localhost''; vent_port = int_or c ''vent-port'' 5557;
         sink_addr = text_or c ''sink-addr'' ''localhost''; sink_port = int_or c ''sink-port'' 5558;
         ctrl_port = int_or c ''ctrl-port'' 5559
     in Ready [Open ''receiver'' PULL, Connect ''receiver'' (tcp vent_addr vent_port),
          Open ''sender'' PUSH, Connect ''sender'' (tcp sink_addr sink_port),
          Open ''controller'' SUB, Connect ''controller'' (tcp sink_addr ctrl_port), Subscribe ''controller'' []])"

definition tasksink_setup :: "cmdline option \<Rightarrow> call list startup" where
  "tasksink_setup p = with_options p (\<lambda>c.
     let recv_port = int_or c ''port'' 5558; ctrl_port = int_or c ''ctrl-port'' 5559
     in Ready [Open ''receiver'' PULL, Bind ''receiver'' (tcp ''*'' recv_port),
          Open ''controller'' PUB, Bind ''controller'' (tcp ''*'' ctrl_port)])"

text \<open>
  Both readers pass the buffer of the filter with a length of three: the third byte is outside the
  buffer when the filter has less than two characters, and the terminating zero when it has two.
\<close>

definition filter3 :: "string \<Rightarrow> string res" where
  "filter3 s = (if length s < 2 then Inl Undefined else Inr (take 3 (s @ [NUL])))"

definition mspoller_setup :: "cmdline option \<Rightarrow> call list startup" where
  "mspoller_setup p = with_options p (\<lambda>c.
     let vent_addr = text_or c ''vent-addr'' ''localhost''; vent_port = int_or c ''vent-port'' 5557;
         pub_addr = text_or c ''pub-addr'' ''localhost''; pub_port = int_or c ''pub-port'' 5556;
         pub_filter = text_or c ''pub-filter'' ''001''
     in case filter3 pub_filter of Inl e \<Rightarrow> Fails e
        | Inr flt \<Rightarrow> Ready [Open ''receiver'' PULL, Connect ''receiver'' (tcp vent_addr vent_port),
            Open ''subscriber'' SUB, Connect ''subscriber'' (tcp pub_addr pub_port), Subscribe ''subscriber'' flt])"

definition msreader_setup :: "cmdline option \<Rightarrow> call list startup" where
  "msreader_setup p = with_options p (\<lambda>c.
     let vent_addr = text_or c ''vent-addr'' ''localhost''; vent_port = int_or c ''vent-port'' 5557;
         pub_addr = text_or c ''pub-addr'' ''localhost''; pub_port = int_or c ''pub-port'' 5556;
         pub_filter = text_or c ''pub-filter'' ''001''
     in case filter3 pub_filter of Inl e \<Rightarrow> Fails e
        | Inr flt \<Rightarrow> Ready [Open ''receiver'' PULL, Connect ''receiver'' (tcp vent_addr vent_port),
            Open ''subscriber'' SUB, Connect ''subscriber'' (tcp pub_addr pub_port), Subscribe ''subscriber'' flt])"

definition syncpub_setup :: "call list" where
  "syncpub_setup = [Open ''publisher'' PUB, Sockopt ''publisher'' ''SNDHWM'' 0, Bind ''publisher'' ''tcp://*:5561'',
     Open ''syncservice'' REP, Bind ''syncservice'' ''tcp://*:5562'']"

definition syncsub_setup :: "call list" where
  "syncsub_setup = [Open ''subscriber'' SUB, Connect ''subscriber'' ''tcp://localhost:5561'', Subscribe ''subscriber'' [],
     Open ''syncclient'' REQ, Connect ''syncclient'' ''tcp://localhost:5562'']"

definition psenvpub_setup :: "call list" where
  "psenvpub_setup = [Open ''publisher'' PUB, Bind ''publisher'' ''tcp://*:5563'']"

definition psenvsub_setup :: "call list" where
  "psenvsub_setup = [Open ''subscriber'' SUB, Connect ''subscriber'' ''tcp://localhost:5563'', Subscribe ''subscriber'' ''B'']"

text \<open>\<open>pathopub\<close> and \<open>pathosub\<close> look at their arguments themselves; exactly one is used.\<close>

definition pathopub_setup :: "string list \<Rightarrow> call list" where
  "pathopub_setup args =
     (let port = (case args of [arg] \<Rightarrow> arg | _ \<Rightarrow> ''5556'')
      in [Open ''pub'' PUB, Bind ''pub'' (''tcp://*:'' @ port)])"

definition pathosub_setup :: "string list \<Rightarrow> nat \<Rightarrow> call list" where
  "pathosub_setup args draw =
     (let endpoint = (case args of [arg] \<Rightarrow> ''tcp://'' @ arg | _ \<Rightarrow> ''tcp://localhost:5556'')
      in [Open ''sub'' SUB, Connect ''sub'' endpoint, Subscribe ''sub'' (nat_string draw)])"

definition lvcache_setup :: "call list" where
  "lvcache_setup = [Open ''frontend'' SUB, Connect ''frontend'' ''tcp://localhost:5557'', Subscribe ''frontend'' [],
     Open ''backend'' XPUB, Bind ''backend'' ''tcp://*:5558'']"

subsection \<open>Programs of several threads\<close>

definition lbb_client_setup :: "nat \<Rightarrow> call list" where
  "lbb_client_setup num = [Open ''client'' REQ, Identity ''client'' (lbb_id num), Connect ''client'' ''tcp://localhost:5672'']"

definition lbb_worker_setup :: "nat \<Rightarrow> call list" where
  "lbb_worker_setup num = [Open ''worker'' REQ, Identity ''worker'' (lbb_id num), Connect ''worker'' ''tcp://localhost:5673'']"

definition lbb_setup :: "call list" where
  "lbb_setup = [Open ''frontend'' ROUTER, Open ''backend'' ROUTER, Bind ''frontend'' ''tcp://*:5672'',
     Bind ''backend'' ''tcp://*:5673''] @ map (\<lambda>n. Spawn (lbb_client_setup n)) [0..<10]
       @ map (\<lambda>n. Spawn (lbb_worker_setup n)) [0..<3]"

definition rtd_worker_setup :: "nat \<Rightarrow> call list" where
  "rtd_worker_setup num = [Open ''worker'' DEALER, Identity ''worker'' (pad_left 4 (hex_string num)),
     Connect ''worker'' ''tcp://localhost:5671'']"

definition rtd_setup :: "call list" where
  "rtd_setup = [Open ''broker'' ROUTER, Bind ''broker'' ''tcp://*:5671''] @ map (\<lambda>n. Spawn (rtd_worker_setup n)) [0..<10]"

definition rtr_worker_setup :: "nat \<Rightarrow> call list" where
  "rtr_worker_setup num = [Open ''worker'' REQ, Identity ''worker'' (pad_left 4 (hex_string num)),
     Connect ''worker'' ''tcp://localhost:5671'']"

definition rtr_setup :: "call list" where
  "rtr_setup = [Open ''broker'' ROUTER, Bind ''broker'' ''tcp://*:5671''] @ map (\<lambda>n. Spawn (rtr_worker_setup n)) [0..<10]"

definition asy_client_setup :: "string \<Rightarrow> call list" where
  "asy_client_setup ident = [Open ''client'' DEALER, Identity ''client'' ident, Connect ''client'' ''tcp://localhost:5570'']"

definition asy_worker_setup :: "call list" where
  "asy_worker_setup = [Open ''worker'' DEALER, Connect ''worker'' ''inproc://backend'']"

definition asy_server_setup :: "call list" where
  "asy_server_setup = [Open ''frontend'' ROUTER, Bind ''frontend'' ''tcp://*:5570'', Open ''backend'' DEALER,
     Bind ''backend'' ''inproc://backend''] @ replicate 5 (Spawn asy_worker_setup)"

definition asyncsrv_setup :: "string \<Rightarrow> string \<Rightarrow> string \<Rightarrow> call list" where
  "asyncsrv_setup id1 id2 id3 = [Spawn (asy_client_setup id1), Spawn (asy_client_setup id2), Spawn (asy_client_setup id3),
     Spawn asy_server_setup]"

text \<open>\<open>make_socket\<close> of the espresso program sets no linger time.\<close>

definition espresso_make_socket :: "string \<Rightarrow> socket_type \<Rightarrow> call list" where
  "espresso_make_socket name type = [Open name type, Sockopt name ''LINGER'' 0]"

definition espresso_subscriber_setup :: "call list" where
  "espresso_subscriber_setup = espresso_make_socket ''sub'' SUB @ [Connect ''sub'' ''tcp://localhost:6001'',
     Subscribe ''sub'' ''A'', Subscribe ''sub'' ''B'']"

definition espresso_publisher_setup :: "call list" where
  "espresso_publisher_setup = espresso_make_socket ''pub'' PUB @ [Bind ''pub'' ''tcp://*:6000'']"

definition espresso_listener_setup :: "call list" where
  "espresso_listener_setup = espresso_make_socket ''pipe'' PAIR @ [Connect ''pipe'' ''inproc://listener'']"

definition espresso_setup :: "call list" where
  "espresso_setup = [Spawn espresso_publisher_setup, Spawn espresso_subscriber_setup]
     @ espresso_make_socket ''sub'' XSUB @ [Connect ''sub'' ''tcp://localhost:6000'']
     @ espresso_make_socket ''pub'' XPUB @ [Bind ''pub'' ''tcp://*:6001'']
     @ espresso_make_socket ''lis_pipe'' PAIR @ [Bind ''lis_pipe'' ''inproc://listener'']
     @ [Spawn espresso_listener_setup]"

definition tripping_client_setup :: "call list" where
  "tripping_client_setup = [Open ''client'' DEALER, Identity ''client'' client_id, Sockopt ''client'' ''RCVHWM'' 0,
     Sockopt ''client'' ''SNDHWM'' 0, Connect ''client'' ''tcp://localhost:5555'']"

definition tripping_worker_setup :: "call list" where
  "tripping_worker_setup = [Open ''worker'' DEALER, Identity ''worker'' worker_id, Sockopt ''worker'' ''RCVHWM'' 0,
     Sockopt ''worker'' ''SNDHWM'' 0, Connect ''worker'' ''tcp://localhost:5556'']"

definition tripping_broker_setup :: "call list" where
  "tripping_broker_setup = [Open ''frontend'' ROUTER, Open ''backend'' ROUTER, Bind ''frontend'' ''tcp://*:5555'',
     Bind ''backend'' ''tcp://*:5556'']"

definition tripping_setup :: "call list" where
  "tripping_setup = [Spawn tripping_client_setup, Spawn tripping_worker_setup, Spawn tripping_broker_setup]"

subsection \<open>Brokers of brokers\<close>

text \<open>Without a peer or a port the parser's \<open>notify\<close> throws; \<open>help\<close> is looked at before.\<close>

definition peering1_setup :: "cmdline option \<Rightarrow> call list startup" where
  "peering1_setup p = with_options p (\<lambda>c.
     required_int c ''state-port'' (\<lambda>state_port. required_texts c ''peer-addr'' (\<lambda>peers.
       required_int c ''peer-port'' (\<lambda>peer_port.
         Ready ([Open ''statebe'' PUB, Bind ''statebe'' (tcp ''*'' state_port), Open ''statefe'' SUB,
             Subscribe ''statefe'' []]
           @ map (\<lambda>peer. Connect ''statefe'' (peering1_endpoint peer peer_port)) peers)))))"

definition peering2_worker_setup :: "string \<Rightarrow> call list" where
  "peering2_worker_setup conn_addr = [Open ''worker'' REQ, Connect ''worker'' (''tcp://'' @ conn_addr)]"

definition peering2_client_setup :: "string \<Rightarrow> call list" where
  "peering2_client_setup conn_addr = [Open ''client'' REQ, Connect ''client'' (''tcp://'' @ conn_addr)]"

text \<open>
  A negative count, compared with an unsigned number, does not end the loop that starts the threads,
  which goes on until a thread cannot be started.
\<close>

definition peering2_setup :: "cmdline option \<Rightarrow> call list startup" where
  "peering2_setup p = with_options p (\<lambda>c.
     required_int c ''cloud-port'' (\<lambda>cloudfe_port. required_texts c ''peer'' (\<lambda>peers.
       required_int c ''frontend-port'' (\<lambda>localfe_port. required_int c ''backend-port'' (\<lambda>localbe_port.
         let client_count = int_or c ''clients'' 10; worker_count = int_or c ''workers'' 3
         in if client_count < 0 \<or> worker_count < 0 then Fails Exception
            else Ready ([Open ''cloudfe'' ROUTER, Identity ''cloudfe'' (peering_broker_id cloudfe_port),
               Bind ''cloudfe'' (''tcp://*:'' @ int_string cloudfe_port),
               Open ''cloudbe'' ROUTER, Identity ''cloudbe'' (peering_broker_id cloudfe_port)]
             @ map (\<lambda>peer. Connect ''cloudbe'' (''tcp://'' @ peer)) peers
             @ [Open ''localfe'' ROUTER, Bind ''localfe'' (''tcp://*:'' @ int_string localfe_port),
                Open ''localbe'' ROUTER, Bind ''localbe'' (''tcp://*:'' @ int_string localbe_port)]
             @ replicate (nat worker_count) (Spawn (peering2_worker_setup (''localhost:'' @ int_string localbe_port)))
             @ replicate (nat client_count) (Spawn (peering2_client_setup (''localhost:'' @ int_string localfe_port)))))))))"

subsection \<open>Reliable request and reply\<close>

definition lp_make_socket :: "call list" where
  "lp_make_socket = [Open ''client'' REQ, Connect ''client'' ''tcp://localhost:5555'', Sockopt ''client'' ''LINGER'' 0]"

definition lpserver_setup :: "call list" where
  "lpserver_setup = [Open ''server'' REP, Bind ''server'' ''tcp://*:5555'']"

definition spqueue_setup :: "zmq_version \<Rightarrow> call list startup" where
  "spqueue_setup ver = (case sp_check_version ver 2 1 of
      Exited_failure \<Rightarrow> Exit 1
    | Returned \<Rightarrow> Ready [Open ''frontend'' ROUTER, Open ''backend'' ROUTER, Bind ''frontend'' ''tcp://*:5555'',
        Bind ''backend'' ''tcp://*:5556''])"

definition spw_set_id :: "int \<Rightarrow> string" where
  "spw_set_id pid = ''spworker-'' @ int_string pid"

definition spworker_setup :: "int \<Rightarrow> call list" where
  "spworker_setup pid = [Open ''worker'' REQ, Identity ''worker'' (spw_set_id pid),
     Connect ''worker'' ''tcp://localhost:5556'']"

definition ppqueue_setup :: "zmq_version \<Rightarrow> call list startup" where
  "ppqueue_setup ver = (if \<not> pp_check_version ver 4 0 then Exit 1
     else Ready [Open ''frontend'' ROUTER, Open ''backend'' ROUTER, Bind ''frontend'' ''tcp://*:5555'',
       Bind ''backend'' ''tcp://*:5556''])"

text \<open>\<open>new_socket\<close> goes on to send READY, which is part of the worker's steps.\<close>

definition ppworker_setup :: "zmq_version \<Rightarrow> int \<Rightarrow> call list startup" where
  "ppworker_setup ver pid = (if \<not> pp_check_version ver 4 0 then Exit 1
     else Ready [Open ''worker'' DEALER, Identity ''worker'' (ppw_get_id pid),
       Connect ''worker'' ''tcp://localhost:5556'', Sockopt ''worker'' ''LINGER'' 0])"

text \<open>The first model of the freelance pattern has no \<open>try\<close> block.\<close>

definition flserver1_setup :: "cmdline option \<Rightarrow> call list startup" where
  "flserver1_setup p = (case p of None \<Rightarrow> Fails Exception | Some c \<Rightarrow>
     if given_help c then Exit 0
     else let port = int_or c ''port'' 5555
          in Ready [Open ''server'' REP, Bind ''server'' (''tcp://*:'' @ int_string port)])"

definition flclient1_endpoints :: "cmdline option \<Rightarrow> string list startup" where
  "flclient1_endpoints p = (case p of None \<Rightarrow> Fails Exception | Some c \<Rightarrow>
     if given_help c then Exit 0
     else let endpoints = given_texts c ''endpoints''
          in Ready (if endpoints = [] then [''localhost:5555''] else endpoints))"

definition fl1_socket :: "string \<Rightarrow> call list" where
  "fl1_socket endpoint = [Open ''client'' REQ, Connect ''client'' (''tcp://'' @ endpoint), Sockopt ''client'' ''LINGER'' 0]"

definition flserver2_setup :: "string list \<Rightarrow> call list startup" where
  "flserver2_setup args = (case args of
      [] \<Rightarrow> Exit 0
    | arg # _ \<Rightarrow> Ready [Open ''server'' REP, Bind ''server'' (''tcp://*:'' @ arg)])"

definition flclient2_setup :: "string list \<Rightarrow> call list startup" where
  "flclient2_setup args = (if args = [] then Exit 0
     else Ready (Open ''socket_'' DEALER # map (\<lambda>arg. Connect ''socket_'' (''tcp://'' @ arg)) args))"

definition flserver3_setup :: "string list \<Rightarrow> call list" where
  "flserver3_setup args =
     (let port = fl3_get_port args; bind_addr = ''tcp://*:'' @ unsigned_string port
      in [Open ''server'' ROUTER, Identity ''server'' (flserver3_identity args), Bind ''server'' bind_addr])"

text \<open>The constructor of the agent; the thread it starts polls the two sockets.\<close>

definition fa_setup :: "call list" where
  "fa_setup = [Open ''router_'' ROUTER, Open ''apipipe_'' PAIR, Bind ''apipipe_'' ''inproc://agent'', Open ''pipe_'' PAIR,
     Connect ''pipe_'' ''inproc://agent'', Spawn []]"

text \<open>The endpoints the client of the third model asks its agent to connect to.\<close>

definition flclient3_endpoints :: "string list" where
  "flclient3_endpoints = [''tcp://localhost:5555'', ''tcp://localhost:5556'', ''tcp://localhost:5557'']"

end
