(* ===== verification/FreelanceNet.thy ===== *)
theory FreelanceNet
  imports Startup Systems
begin

text \<open>
  The third freelance model as a system: the client program and its API, the agent's thread, and any
  number of servers. The lemmas: which faults can occur at all, that the client can get all its
  answers, and that with nothing lost it may all the same give up, or have its agent fail.
\<close>

subsection \<open>The threads and what is under way\<close>

text \<open>
  The client program connects to the endpoints, 100 ms apart, makes its requests, prints the average,
  and waits in the destructor of the agent for the agent's thread. The numbers are what is left of the
  requests to make.
\<close>

datatype fl3_client = Connecting "string list" time | Looping int | Awaiting int | Printing int | Joining int | Returned

text \<open>
  \<open>fn_to_agent\<close> and \<open>fn_to_api\<close> are the two directions of the pipe between API and agent,
  \<open>fn_up\<close> and \<open>fn_down\<close> the messages on the way to and from each server; servers are named by
  their identity, the endpoint. \<open>fn_fault\<close> is that of the client's process, \<open>fn_stopped\<close> the
  servers whose loop has ended.
\<close>

record fl3net =
  fn_now :: time
  fn_client :: fl3_client
  fn_got :: "msg list"
  fn_agent :: "flagent ctl"
  fn_to_agent :: "msg list"
  fn_to_api :: "msg list"
  fn_up :: "frame \<Rightarrow> msg list"
  fn_down :: "frame \<Rightarrow> msg list"
  fn_fault :: "fault option"
  fn_stopped :: "frame set"

definition fl3net_start :: "string list \<Rightarrow> time \<Rightarrow> fl3net" where
  "fl3net_start eps t = \<lparr>fn_now = t, fn_client = Connecting eps t, fn_got = [], fn_agent = Next flagent_init,
     fn_to_agent = [], fn_to_api = [], fn_up = (\<lambda>_. []), fn_down = (\<lambda>_. []), fn_fault = None, fn_stopped = {}\<rparr>"

definition fl3_body :: frame where
  "fl3_body = ''random name''"

text \<open>What the agent sends, to its servers and to the API.\<close>

fun fa_routed :: "fa_act list \<Rightarrow> part list list" where
  "fa_routed [] = []"
| "fa_routed (FaRouter ps # os) = ps # fa_routed os"
| "fa_routed (FaPipe ps # os) = fa_routed os"
| "fa_routed (FaConnect ep # os) = fa_routed os"

fun fa_piped :: "fa_act list \<Rightarrow> msg list" where
  "fa_piped [] = []"
| "fa_piped (FaPipe ps # os) = map fst ps # fa_piped os"
| "fa_piped (FaRouter ps # os) = fa_piped os"
| "fa_piped (FaConnect ep # os) = fa_piped os"

text \<open>
  An iteration of the agent: the clock readings before the poll, the time it returns, and those of the
  handlers, up to \<open>t'\<close>. It returns with nothing to read only when the time-out has passed, and with
  -1 only when the context is gone, which the client's process destroys after the agent.
\<close>

definition fa_wakes :: "time \<Rightarrow> time \<Rightarrow> time \<Rightarrow> flagent \<Rightarrow> flagent_in \<Rightarrow> bool" where
  "fa_wakes t w t' a i \<longleftrightarrow> t \<le> w \<and> w \<le> t' \<and>
     (\<exists>b \<ge> w. (fai_pipe i = None \<and> fai_router i = None \<longrightarrow> 0 \<le> fa_timeout t w a \<and> w + msecs (fa_timeout t w a) \<le> b)
       \<and> (\<forall>k. {fai_t_control i k, fai_t_router i k, fai_t_dispatch i k, fai_t_ping i k} \<subseteq> {b..t'}))"

definition fa_reads :: "zmq_envelope \<Rightarrow> msg option \<Rightarrow> (frame \<times> msg) option \<Rightarrow> flagent_in \<Rightarrow> bool" where
  "fa_reads Z c r i \<longleftrightarrow> fai_pipe i = map_option arrives c \<and> fai_router i = map_option (\<lambda>(p, m). arrives (router_in Z p m)) r"

text \<open>The destructor of the agent waits for its thread to end.\<close>

fun agent_joins :: "flagent ctl \<Rightarrow> bool" where
  "agent_joins (Next a) \<longleftrightarrow> False"
| "agent_joins (Halt a) \<longleftrightarrow> True"

text \<open>A server's answers to the client, whose socket the library gave the name \<open>cid\<close>.\<close>

definition fl3_answers :: "zmq_envelope \<Rightarrow> frame \<Rightarrow> part list list \<Rightarrow> msg list" where
  "fl3_answers Z cid os = addressed Z cid os"

inductive fl3net_step :: "bool \<Rightarrow> zmq_envelope \<Rightarrow> (string \<Rightarrow> bool) \<Rightarrow> frame \<Rightarrow> frame set \<Rightarrow> fl3net \<Rightarrow> fl3net \<Rightarrow> bool"
  for lossy Z ok cid S where
  time_passes: "fn_now s \<le> t \<Longrightarrow> fl3net_step lossy Z ok cid S s (s\<lparr>fn_now := t\<rparr>)"
| api_connects: "fn_fault s = None \<Longrightarrow> fn_client s = Connecting (ep # eps) w \<Longrightarrow> w \<le> fn_now s \<Longrightarrow> flcliapi_connect ep = Inr ps \<Longrightarrow>
    fl3net_step lossy Z ok cid S s (s\<lparr>fn_client := Connecting eps (fn_now s + msecs 100),
      fn_to_agent := fn_to_agent s @ [map fst ps]\<rparr>)"
| api_connected: "fn_fault s = None \<Longrightarrow> fn_client s = Connecting [] w \<Longrightarrow> w \<le> fn_now s \<Longrightarrow>
    fl3net_step lossy Z ok cid S s (s\<lparr>fn_client := Looping TOTAL_REQUESTS\<rparr>)"
| api_requests: "fn_fault s = None \<Longrightarrow> fn_client s = Looping n \<Longrightarrow> n \<noteq> 0 \<Longrightarrow> flcliapi_request fl3_body = Inr ps \<Longrightarrow>
    fl3net_step lossy Z ok cid S s (s\<lparr>fn_client := Awaiting n, fn_to_agent := fn_to_agent s @ [map fst ps]\<rparr>)"
| api_gets: "fn_fault s = None \<Longrightarrow> fn_client s = Awaiting n \<Longrightarrow> fn_to_api s = m # ms \<Longrightarrow> flcliapi_reply (arrives m) = Inr reply \<Longrightarrow>
    fl3net_step lossy Z ok cid S s (s\<lparr>fn_client := (if reply = [] then Printing n else Looping (n - 1)),
      fn_to_api := ms, fn_got := fn_got s @ [reply]\<rparr>)"
| api_fails: "fn_fault s = None \<Longrightarrow> fn_client s = Awaiting n \<Longrightarrow> fn_to_api s = m # ms \<Longrightarrow> flcliapi_reply (arrives m) = Inl f \<Longrightarrow>
    fl3net_step lossy Z ok cid S s (s\<lparr>fn_fault := Some f\<rparr>)"
| loop_ends: "fn_fault s = None \<Longrightarrow> fn_client s = Looping 0 \<Longrightarrow> fl3net_step lossy Z ok cid S s (s\<lparr>fn_client := Printing 0\<rparr>)"
| client_prints: "fn_fault s = None \<Longrightarrow> fn_client s = Printing n \<Longrightarrow> flclient3_average elapsed n = Inr v \<Longrightarrow>
    fl3net_step lossy Z ok cid S s (s\<lparr>fn_client := Joining n\<rparr>)"
| client_divides: "fn_fault s = None \<Longrightarrow> fn_client s = Printing n \<Longrightarrow> flclient3_average elapsed n = Inl f \<Longrightarrow>
    fl3net_step lossy Z ok cid S s (s\<lparr>fn_fault := Some f\<rparr>)"
| client_joins: "fn_fault s = None \<Longrightarrow> fn_client s = Joining n \<Longrightarrow> agent_joins (fn_agent s) \<Longrightarrow>
    fl3net_step lossy Z ok cid S s (s\<lparr>fn_client := Returned\<rparr>)"
| agent_turns: "fn_fault s = None \<Longrightarrow> fn_agent s = Next a \<Longrightarrow> (fai_rc i = -1 \<Longrightarrow> fn_client s = Returned) \<Longrightarrow>
    fn_now s \<le> t \<Longrightarrow> fa_wakes t w t' a i \<Longrightarrow> takes_first (fn_to_agent s) c pipe \<Longrightarrow> takes (fn_down s) r down \<Longrightarrow>
    fa_reads Z c r i \<Longrightarrow> agent_task_step ok i a = Inr (d, os) \<Longrightarrow>
    fl3net_step lossy Z ok cid S s (s\<lparr>fn_now := t', fn_agent := d, fn_to_agent := pipe, fn_down := down,
      fn_to_api := fn_to_api s @ fa_piped os, fn_up := router_sends Z (fa_routed os) (fn_up s)\<rparr>)"
| agent_fails: "fn_fault s = None \<Longrightarrow> fn_agent s = Next a \<Longrightarrow> (fai_rc i = -1 \<Longrightarrow> fn_client s = Returned) \<Longrightarrow>
    fn_now s \<le> t \<Longrightarrow> fa_wakes t w t' a i \<Longrightarrow> takes_first (fn_to_agent s) c pipe \<Longrightarrow> takes (fn_down s) r down \<Longrightarrow>
    fa_reads Z c r i \<Longrightarrow> agent_task_step ok i a = Inl f \<Longrightarrow> fl3net_step lossy Z ok cid S s (s\<lparr>fn_fault := Some f\<rparr>)"
| server_answers: "ep \<in> S \<Longrightarrow> ep \<notin> fn_stopped s \<Longrightarrow> fn_up s ep = m # ms \<Longrightarrow> flserver3_step (arrives (router_in Z cid m)) () = Inr (Next u, os) \<Longrightarrow>
    fl3net_step lossy Z ok cid S s (s\<lparr>fn_up := (fn_up s)(ep := ms), fn_down := (fn_down s)(ep := fn_down s ep @ fl3_answers Z cid os)\<rparr>)"
| server_stops: "ep \<in> S \<Longrightarrow> ep \<notin> fn_stopped s \<Longrightarrow> fn_up s ep = m # ms \<Longrightarrow>
    flserver3_step (arrives (router_in Z cid m)) () = Inr (Halt u, os) \<or> flserver3_step (arrives (router_in Z cid m)) () = Inl f \<Longrightarrow>
    fl3net_step lossy Z ok cid S s (s\<lparr>fn_up := (fn_up s)(ep := ms), fn_stopped := insert ep (fn_stopped s)\<rparr>)"
| lost_up: "lossy \<Longrightarrow> loses (fn_up s) Q \<Longrightarrow> fl3net_step lossy Z ok cid S s (s\<lparr>fn_up := Q\<rparr>)"
| lost_down: "lossy \<Longrightarrow> loses (fn_down s) Q \<Longrightarrow> fl3net_step lossy Z ok cid S s (s\<lparr>fn_down := Q\<rparr>)"

subsection \<open>What the agent sends\<close>

definition to_agent_ok :: "string list \<Rightarrow> msg \<Rightarrow> bool" where
  "to_agent_ok eps m \<longleftrightarrow> (\<exists>ep \<in> set eps. m = [''CONNECT'', ep]) \<or> m = [''REQUEST'', fl3_body]"

definition to_api_ok :: "msg \<Rightarrow> bool" where
  "to_api_ok m \<longleftrightarrow> m = [''FAILED''] \<or> m = [''OK''] \<or> m = [''OK'', ''OK'']"

definition from_server_ok :: "msg \<Rightarrow> bool" where
  "from_server_ok m \<longleftrightarrow> m = [''PONG''] \<or> (\<exists>f. m = [f, ''OK''])"

fun fa_act_ok :: "fa_act \<Rightarrow> bool" where
  "fa_act_ok (FaConnect ep) \<longleftrightarrow> True"
| "fa_act_ok (FaPipe ps) \<longleftrightarrow> to_api_ok (map fst ps)"
| "fa_act_ok (FaRouter ps) \<longleftrightarrow> 2 \<le> length ps"

lemma fa_routed_append [simp]: "fa_routed (os @ os') = fa_routed os @ fa_routed os'"
  by (induction os rule: fa_routed.induct) simp_all

lemma fa_piped_append [simp]: "fa_piped (os @ os') = fa_piped os @ fa_piped os'"
  by (induction os rule: fa_piped.induct) simp_all

lemma set_fa_routed: "ps \<in> set (fa_routed os) \<longleftrightarrow> FaRouter ps \<in> set os"
  by (induction os rule: fa_routed.induct) auto

lemma set_fa_piped: "m \<in> set (fa_piped os) \<longleftrightarrow> (\<exists>ps. FaPipe ps \<in> set os \<and> m = map fst ps)"
  by (induction os rule: fa_piped.induct) auto

text \<open>The two halves of an iteration that depend on what has arrived.\<close>

definition fa_controls :: "(string \<Rightarrow> bool) \<Rightarrow> flagent_in \<Rightarrow> flagent \<Rightarrow> (flagent \<times> fa_act list) res" where
  "fa_controls ok i a =
     (case fai_pipe i of None \<Rightarrow> Inr (a, []) | Some es \<Rightarrow> on_control_message ok (fai_t_control i) es a)"

definition fa_routes :: "flagent_in \<Rightarrow> flagent \<Rightarrow> (flagent \<times> fa_act list) res" where
  "fa_routes i a = (case fai_router i of None \<Rightarrow> Inr (a, []) | Some es \<Rightarrow> on_router_message (fai_t_router i) es a)"

lemma agent_step_stages:
  assumes "fai_rc i \<noteq> -1"
  shows "agent_task_step ok i s =
    rbind (fa_controls ok i s) (\<lambda>(s, o1). rbind (fa_routes i s) (\<lambda>(s, o2). rbind (fa_dispatch (fai_t_dispatch i) s) (\<lambda>(s, o3).
      let (store, o4) = fa_pings (fai_t_ping i) 0 (fa_store s) (fa_conn s)
      in Inr (Next (s\<lparr>fa_store := store\<rparr>), o1 @ o2 @ o3 @ o4))))"
  using assms by (simp add: agent_task_step_def fa_controls_def fa_routes_def)

lemma on_control_ok:
  assumes "to_agent_ok eps m" and "\<And>ep. ep \<in> set eps \<Longrightarrow> ok ep"
  shows "(\<exists>t os. on_control_message ok now (arrives m) s = Inr (t, os) \<and> connected os \<subseteq> set eps \<and> (\<forall>x \<in> set os. fa_act_ok x))
    \<or> (on_control_message ok now (arrives m) s = Inl Assertion \<and> m = [''REQUEST'', fl3_body] \<and> fa_request s \<noteq> [])"
proof -
  from assms(1) consider ep where "ep \<in> set eps" "m = [''CONNECT'', ep]" | "m = [''REQUEST'', fl3_body]"
    by (auto simp: to_agent_ok_def)
  then show ?thesis
  proof cases
    case 1
    with assms(2) show ?thesis by (simp add: on_control_message_def Let_def)
  next
    case 2
    then show ?thesis by (cases "fa_request s = []") (simp_all add: on_control_message_def Let_def)
  qed
qed

lemma on_router_ok:
  assumes "fa_inv s" and "p \<in> fa_endpoints s" and "from_server_ok m"
  shows "\<exists>t os. on_router_message now (arrives (p # m)) s = Inr (t, os) \<and> (\<forall>x \<in> set os. fa_act_ok x)"
proof -
  obtain a where a: "map_of (fa_conn s) p = Some a"
    using assms(2) by (cases "map_of (fa_conn s) p") (auto simp: fa_endpoints_def map_of_eq_None_iff)
  from assms(3) obtain f fs where m: "m = f # fs" "fs = [] \<or> fs = [''OK'']" by (auto simp: from_server_ok_def)
  from on_router_message_eq [OF recv_arrives(5), of now p m s] a m show ?thesis
    by (cases "accepts_sequence (fa_sequence s) f") (auto simp: to_api_ok_def)
qed

lemma length_parts_of [simp]: "length (parts_of fs) = length fs"
  by (metis length_map map_fst_parts_of)

lemma fa_dispatch_ok: "fa_dispatch now s = Inr (t, os) \<Longrightarrow> x \<in> set os \<Longrightarrow> fa_act_ok x"
proof -
  assume d: "fa_dispatch now s = Inr (t, os)" "x \<in> set os"
  obtain store alive where "fa_find now 1 (fa_store s) (fa_alive s) = (store, alive)" by fastforce
  with d show "fa_act_ok x"
    by (cases "fa_request s"; cases alive) (auto simp: fa_dispatch_def Let_def to_api_ok_def fl3_send_frame_def split: if_splits)
qed

lemma fa_pings_ok: "fa_pings now k store conn = (store', os) \<Longrightarrow> x \<in> set os \<Longrightarrow> fa_act_ok x"
proof (induction now k store conn arbitrary: store' os rule: fa_pings.induct)
  case (2 now k store ep a conn)
  obtain sv o1 where p: "fa_ping (now (2 * k)) (now (2 * k + 1)) (store a) = (sv, o1)" by fastforce
  obtain st o2 where q: "fa_pings now (Suc k) (store(a := sv)) conn = (st, o2)" by fastforce
  have "\<forall>y \<in> set o1. fa_act_ok y" using p by (auto simp: fa_ping_def split: if_splits)
  with "2.IH" [OF p [symmetric] refl q] "2.prems" p q show ?case by auto
qed simp

text \<open>
  An iteration of the agent fed with such messages, those of servers it knows: it sends such messages,
  or it is given a request while another is outstanding.
\<close>

lemma agent_turn:
  assumes inv: "fa_inv s" and i: "fai_rc i \<noteq> -1" "fa_reads Z c r i" and Z: "zmq_contract Z"
    and ok: "\<And>ep. ep \<in> set eps \<Longrightarrow> ok ep" and c: "\<And>m. c = Some m \<Longrightarrow> to_agent_ok eps m"
    and r: "\<And>p m. r = Some (p, m) \<Longrightarrow> p \<in> fa_endpoints s \<and> from_server_ok m"
  shows "(\<exists>t os. agent_task_step ok i s = Inr (Next t, os) \<and> fa_inv t \<and> fa_endpoints t = fa_endpoints s \<union> connected os
      \<and> connected os \<subseteq> set eps \<and> (\<forall>x \<in> set os. fa_act_ok x) \<and> set (fa_addressees os) \<subseteq> fa_endpoints t)
    \<or> agent_task_step ok i s = Inl Assertion \<and> c = Some [''REQUEST'', fl3_body] \<and> fa_request s \<noteq> []"
proof -
  have 1: "(\<exists>t os. fa_controls ok i s = Inr (t, os) \<and> connected os \<subseteq> set eps \<and> (\<forall>x \<in> set os. fa_act_ok x))
    \<or> (fa_controls ok i s = Inl Assertion \<and> c = Some [''REQUEST'', fl3_body] \<and> fa_request s \<noteq> [])"
  proof (cases c)
    case None
    with i show ?thesis by (simp add: fa_controls_def fa_reads_def)
  next
    case (Some m)
    with i on_control_ok [OF c [OF Some] ok] show ?thesis by (simp add: fa_controls_def fa_reads_def)
  qed
  show ?thesis
  proof (cases "fa_controls ok i s")
    case (Inl e)
    with 1 i show ?thesis by (simp add: agent_step_stages)
  next
    case (Inr x)
    with 1 obtain s1 o1 where c1: "fa_controls ok i s = Inr (s1, o1)" "connected o1 \<subseteq> set eps" "\<forall>x \<in> set o1. fa_act_ok x"
      by auto
    have s1: "fa_inv s1" "fa_endpoints s \<subseteq> fa_endpoints s1"
      using c1(1) inv on_control_message_Inr [OF inv, of ok "fai_t_control i" _ s1 o1]
      by (auto simp: fa_controls_def split: option.splits)
    obtain s2 o2 where c2: "fa_routes i s1 = Inr (s2, o2)" "\<forall>x \<in> set o2. fa_act_ok x"
    proof (cases r)
      case None
      with i that show ?thesis by (simp add: fa_routes_def fa_reads_def)
    next
      case (Some pm)
      obtain p m where pm: "pm = (p, m)" by fastforce
      with r [of p m] Some s1 have "p \<in> fa_endpoints s1" "from_server_ok m" by auto
      from on_router_ok [OF s1(1) this, of "fai_t_router i"] that Some pm i zmq_contractD [OF Z] show ?thesis
        by (auto simp: fa_routes_def fa_reads_def)
    qed
    have s2: "connected o2 = {}"
      using c2(1) on_router_message_Inr [OF s1(1), of "fai_t_router i" _ s2 o2] by (auto simp: fa_routes_def split: option.splits)
    obtain s3 o3 where c3: "fa_dispatch (fai_t_dispatch i) s2 = Inr (s3, o3)" using fa_dispatch_total by blast
    obtain store o4 where c4: "fa_pings (fai_t_ping i) 0 (fa_store s3) (fa_conn s3) = (store, o4)" by fastforce
    let ?os = "o1 @ o2 @ o3 @ o4"
    have st: "agent_task_step ok i s = Inr (Next (s3\<lparr>fa_store := store\<rparr>), ?os)"
      using i c1 c2 c3 c4 by (simp add: agent_step_stages)
    have "connected o3 = {}" "connected o4 = {}"
      using fa_pings_spec [OF c4] c3 by (auto simp: fa_dispatch_def Let_def split: if_splits prod.splits list.splits)
    with c1 s2 have conn: "connected ?os \<subseteq> set eps" by simp
    have "\<forall>x \<in> set ?os. fa_act_ok x"
      using c1(3) c2(2) fa_dispatch_ok [OF c3] fa_pings_ok [OF c4] by auto
    with st agent_step_Inr [OF inv st] conn show ?thesis by auto
  qed
qed

subsection \<open>The invariant\<close>

text \<open>What the client has read: an OK for each request it is done with, and at most one empty reply, the last.\<close>

definition fl3_answered :: "int \<Rightarrow> msg list \<Rightarrow> bool" where
  "fl3_answered n g \<longleftrightarrow> 0 \<le> n \<and> n \<le> TOTAL_REQUESTS \<and> g = replicate (nat (TOTAL_REQUESTS - n)) [''OK'']"

definition loop_left :: "int \<Rightarrow> msg list \<Rightarrow> bool" where
  "loop_left n g \<longleftrightarrow> n = 0 \<and> fl3_answered 0 g \<or> 0 < n \<and> (\<exists>g'. fl3_answered n g' \<and> g = g' @ [[]])"

fun client_ok :: "string list \<Rightarrow> fl3_client \<Rightarrow> msg list \<Rightarrow> bool" where
  "client_ok eps (Connecting es w) g \<longleftrightarrow> set es \<subseteq> set eps \<and> g = []"
| "client_ok eps (Looping n) g \<longleftrightarrow> fl3_answered n g"
| "client_ok eps (Awaiting n) g \<longleftrightarrow> 0 < n \<and> fl3_answered n g"
| "client_ok eps (Printing n) g \<longleftrightarrow> loop_left n g"
| "client_ok eps (Joining n) g \<longleftrightarrow> loop_left n g \<and> n < TOTAL_REQUESTS"
| "client_ok eps Returned g \<longleftrightarrow> False"

definition agent_clash :: "fl3net \<Rightarrow> bool" where
  "agent_clash s \<longleftrightarrow> (\<exists>a ms. fn_agent s = Next a \<and> fa_request a \<noteq> [] \<and> fn_to_agent s = [''REQUEST'', fl3_body] # ms)"

definition fl3net_faults :: "fl3net \<Rightarrow> bool" where
  "fl3net_faults s \<longleftrightarrow> fn_fault s = None \<or> fn_fault s = Some Assertion \<and> agent_clash s
     \<or> fn_fault s = Some Undefined \<and> fn_client s = Printing TOTAL_REQUESTS"

definition agent_ok :: "string list \<Rightarrow> fl3net \<Rightarrow> flagent \<Rightarrow> bool" where
  "agent_ok eps s a \<longleftrightarrow> fn_agent s = Next a \<and> fa_inv a \<and> fa_endpoints a \<subseteq> set eps
     \<and> rows_ok (\<lambda>m. m \<noteq> []) (fa_endpoints a) (fn_up s) \<and> rows_ok from_server_ok (fa_endpoints a) (fn_down s)"

definition fl3net_inv :: "string list \<Rightarrow> fl3net \<Rightarrow> bool" where
  "fl3net_inv eps s \<longleftrightarrow> client_ok eps (fn_client s) (fn_got s) \<and> fl3net_faults s \<and> fn_stopped s = {}
     \<and> (\<forall>m \<in> set (fn_to_agent s). to_agent_ok eps m) \<and> (\<forall>m \<in> set (fn_to_api s). to_api_ok m) \<and> (\<exists>a. agent_ok eps s a)"

lemma loop_left_iff: "flclient3_loop n (replicate k [''OK''] @ g) = (if int k \<le> n then flclient3_loop (n - int k) g else flclient3_loop n (replicate k [''OK''] @ g))"
proof (induction k arbitrary: n)
  case (Suc k)
  show ?case
  proof (cases "int (Suc k) \<le> n")
    case True
    then have "n \<noteq> 0" "int k \<le> n - 1" by simp_all
    with Suc.IH [of "n - 1"] True show ?thesis by (simp add: algebra_simps)
  qed simp
qed simp

lemma loop_left_loop: "loop_left n g \<Longrightarrow> flclient3_loop TOTAL_REQUESTS g = Some n"
proof -
  assume l: "loop_left n g"
  have r: "flclient3_loop TOTAL_REQUESTS (replicate (nat (TOTAL_REQUESTS - n)) [''OK''] @ h) = flclient3_loop n h"
    if "0 \<le> n" "n \<le> TOTAL_REQUESTS" for h
    using loop_left_iff [of TOTAL_REQUESTS "nat (TOTAL_REQUESTS - n)" h] that by simp
  from l consider "n = 0" "fl3_answered 0 g" | g' where "0 < n" "fl3_answered n g'" "g = g' @ [[]]"
    by (auto simp: loop_left_def)
  then show ?thesis
  proof cases
    case 1
    with r [of "[]"] show ?thesis by (simp add: fl3_answered_def)
  next
    case 2
    with r [of "[[]]"] show ?thesis by (simp add: fl3_answered_def)
  qed
qed

lemma fl3_reply_ok: "to_api_ok m \<Longrightarrow> flcliapi_reply (arrives m) = Inr (if m = [''OK'', ''OK''] then [''OK''] else [])"
  by (auto simp: to_api_ok_def flcliapi_reply_def)

lemma fl3_answered_Suc: "0 < n \<Longrightarrow> fl3_answered n g \<Longrightarrow> fl3_answered (n - 1) (g @ [[''OK'']])"
proof -
  assume n: "0 < n" and g: "fl3_answered n g"
  then have "n \<le> TOTAL_REQUESTS" by (simp add: fl3_answered_def)
  then have "nat (TOTAL_REQUESTS - (n - 1)) = Suc (nat (TOTAL_REQUESTS - n))" by arith
  with n g show ?thesis by (simp add: fl3_answered_def replicate_append_same)
qed

lemma fl3_average_fails: "flclient3_average el n = Inl f \<longleftrightarrow> n = TOTAL_REQUESTS \<and> f = Undefined"
  by (auto simp: flclient3_average_def Let_def)

lemma rows_ok_sends:
  assumes Z: "zmq_contract Z" and os: "\<forall>x \<in> set os. fa_act_ok x" "set (fa_addressees os) \<subseteq> ids"
    and Q: "rows_ok (\<lambda>m. m \<noteq> []) ids Q"
  shows "rows_ok (\<lambda>m. m \<noteq> []) ids (router_sends Z (fa_routed os) Q)"
  using os Q
proof (induction os arbitrary: Q rule: fa_routed.induct)
  case (2 ps os)
  obtain x y qs where ps: "ps = x # y # qs" using "2.prems"(1) by (cases ps; cases "tl ps") auto
  have "rows_ok (\<lambda>m. m \<noteq> []) ids (enqueue (fst x) (fst y # map fst qs) Q)"
    by (rule rows_ok_enqueue [OF "2.prems"(3)]) (use "2.prems"(2) ps in auto)
  from "2.IH" [OF _ _ this] "2.prems" ps zmq_contractD [OF Z] show ?case by simp
qed simp_all

lemma fl3_answers_ok:
  assumes "zmq_contract Z" and "m \<noteq> []"
  shows "\<exists>a. flserver3_step (arrives (router_in Z cid m)) () = Inr (Next (), [parts_of (cid # a)]) \<and> from_server_ok a
    \<and> fl3_answers Z cid [parts_of (cid # a)] = [a]"
proof -
  obtain f fs where m: "m = f # fs" using assms(2) by (cases m) auto
  show ?thesis
    using flserver3_step_cases(2) [of cid fs "()"] flserver3_step_cases(3) [of f cid fs "()"] m zmq_contractD [OF assms(1)]
    by (cases "f = ''PING''") (auto simp: from_server_ok_def fl3_answers_def addressed_def simp del: parts_of.simps)
qed

subsection \<open>Every step keeps it\<close>

locale freelance_contract =
  fixes lossy :: bool and Z :: zmq_envelope and ok :: "string \<Rightarrow> bool" and cid :: frame and S :: "frame set" and eps :: "string list"
  assumes zmq: "zmq_contract Z" and connectable: "ep \<in> set eps \<Longrightarrow> ok ep"
begin

abbreviation "step \<equiv> fl3net_step lossy Z ok cid S"
abbreviation "good \<equiv> fl3net_inv eps"

lemma good_start: "good (fl3net_start eps t)"
  by (simp add: fl3net_inv_def fl3net_start_def fl3net_faults_def agent_ok_def rows_ok_def fa_endpoints_def flagent_init_def
      fa_inv_init [unfolded flagent_init_def])

text \<open>A step of the program's main thread: it keeps the agent, and may put messages into the pipe.\<close>

lemma good_client:
  assumes g: "good s" and f: "fn_fault s = None" and c: "client_ok eps c (fn_got s @ g)"
    and p: "\<And>m. m \<in> set ms \<Longrightarrow> to_agent_ok eps m" and q: "set q \<subseteq> set (fn_to_api s)"
  shows "good (s\<lparr>fn_client := c, fn_to_agent := fn_to_agent s @ ms, fn_to_api := q, fn_got := fn_got s @ g\<rparr>)"
proof -
  have "(\<forall>m \<in> set (fn_to_agent s). to_agent_ok eps m)" "(\<forall>m \<in> set (fn_to_api s). to_api_ok m)" "\<exists>a. agent_ok eps s a" "fn_stopped s = {}"
    using g by (simp_all add: fl3net_inv_def)
  with f c p q show ?thesis
    by (auto simp: fl3net_inv_def fl3net_faults_def agent_ok_def)
qed

lemma good_client_only:
  "good s \<Longrightarrow> fn_fault s = None \<Longrightarrow> client_ok eps c (fn_got s) \<Longrightarrow> good (s\<lparr>fn_client := c\<rparr>)"
  using good_client [of s c "[]" "[]" "fn_to_api s"] by simp

lemma good_client_sends:
  "good s \<Longrightarrow> fn_fault s = None \<Longrightarrow> client_ok eps c (fn_got s) \<Longrightarrow> to_agent_ok eps m \<Longrightarrow>
    good (s\<lparr>fn_client := c, fn_to_agent := fn_to_agent s @ [m]\<rparr>)"
  using good_client [of s c "[]" "[m]" "fn_to_api s"] by simp

lemma good_client_reads:
  "good s \<Longrightarrow> fn_fault s = None \<Longrightarrow> client_ok eps c (fn_got s @ [r]) \<Longrightarrow> fn_to_api s = m # ms \<Longrightarrow>
    good (s\<lparr>fn_client := c, fn_to_api := ms, fn_got := fn_got s @ [r]\<rparr>)"
  using good_client [of s c "[r]" "[]" ms] by (simp add: subset_insertI)

lemma good_client_ok: "good s \<Longrightarrow> client_ok eps (fn_client s) (fn_got s)"
  by (simp add: fl3net_inv_def)

lemma good_rows:
  assumes g: "good s"
    and up: "\<And>ids. rows_ok (\<lambda>m. m \<noteq> []) ids (fn_up s) \<Longrightarrow> rows_ok (\<lambda>m. m \<noteq> []) ids U"
    and down: "\<And>ids. rows_ok (\<lambda>m. m \<noteq> []) ids (fn_up s) \<Longrightarrow> rows_ok from_server_ok ids (fn_down s) \<Longrightarrow> rows_ok from_server_ok ids D"
  shows "good (s\<lparr>fn_up := U, fn_down := D\<rparr>)"
proof -
  obtain a where a: "agent_ok eps s a" using g by (auto simp: fl3net_inv_def)
  then have "agent_ok eps (s\<lparr>fn_up := U, fn_down := D\<rparr>) a" using up down by (simp add: agent_ok_def)
  moreover have "fl3net_faults (s\<lparr>fn_up := U, fn_down := D\<rparr>) = fl3net_faults s"
    by (simp add: fl3net_faults_def agent_clash_def)
  ultimately show ?thesis using g by (auto simp: fl3net_inv_def)
qed

lemma good_fault: "good s \<Longrightarrow> fl3net_faults (s\<lparr>fn_fault := f\<rparr>) \<Longrightarrow> good (s\<lparr>fn_fault := f\<rparr>)"
  by (simp add: fl3net_inv_def agent_ok_def)

text \<open>An iteration of the agent, as the contract of its code says it goes.\<close>

lemma agent_reads:
  assumes g: "good s" and ag: "fn_agent s = Next a" and rc: "fai_rc i = -1 \<Longrightarrow> fn_client s = Returned"
    and c: "takes_first (fn_to_agent s) c pipe" and r: "takes (fn_down s) r down" and i: "fa_reads Z c r i"
  shows "(\<exists>t os. agent_task_step ok i a = Inr (Next t, os) \<and> fa_inv t \<and> fa_endpoints t = fa_endpoints a \<union> connected os
      \<and> connected os \<subseteq> set eps \<and> (\<forall>x \<in> set os. fa_act_ok x) \<and> set (fa_addressees os) \<subseteq> fa_endpoints t)
    \<or> agent_task_step ok i a = Inl Assertion \<and> agent_clash s"
proof -
  have a: "agent_ok eps s a" using g ag by (auto simp: fl3net_inv_def agent_ok_def)
  have "fai_rc i \<noteq> -1" using rc good_client_ok [OF g] by auto
  moreover have "to_agent_ok eps m" if "c = Some m" for m
    using c g that by (auto simp: fl3net_inv_def elim: takes_first.cases)
  moreover have "p \<in> fa_endpoints a \<and> from_server_ok m" if "r = Some (p, m)" for p m
    using takes_member r a that unfolding agent_ok_def by blast
  moreover have "agent_clash s" if "c = Some [''REQUEST'', fl3_body]" "fa_request a \<noteq> []"
    using c that ag by (cases rule: takes_first.cases) (auto simp: agent_clash_def)
  ultimately show ?thesis
    using agent_turn [where s = a and c = c and eps = eps and ok = ok, OF _ _ i zmq connectable] a by (auto simp: agent_ok_def)
qed

lemma good_agent:
  assumes g: "good s" and f: "fn_fault s = None" and ag: "fn_agent s = Next a" and rc: "fai_rc i = -1 \<Longrightarrow> fn_client s = Returned"
    and c: "takes_first (fn_to_agent s) c pipe" and r: "takes (fn_down s) r down" and i: "fa_reads Z c r i"
    and st: "agent_task_step ok i a = Inr (d, os)"
  shows "good (s\<lparr>fn_now := t', fn_agent := d, fn_to_agent := pipe, fn_down := down,
      fn_to_api := fn_to_api s @ fa_piped os, fn_up := router_sends Z (fa_routed os) (fn_up s)\<rparr>)" (is "good ?s")
proof -
  have a: "agent_ok eps s a" using g ag by (auto simp: fl3net_inv_def agent_ok_def)
  from agent_reads [OF g ag rc c r i] st obtain t where d: "d = Next t" and t: "fa_inv t" "fa_endpoints t = fa_endpoints a \<union> connected os"
    "connected os \<subseteq> set eps" "\<forall>x \<in> set os. fa_act_ok x" "set (fa_addressees os) \<subseteq> fa_endpoints t" by auto
  have sub: "fa_endpoints a \<subseteq> fa_endpoints t" using t(2) by simp
  have "rows_ok (\<lambda>m. m \<noteq> []) (fa_endpoints t) (router_sends Z (fa_routed os) (fn_up s))"
    by (rule rows_ok_sends [OF zmq t(4,5) rows_ok_mono [OF _ sub]]) (use a in \<open>simp add: agent_ok_def\<close>)
  moreover have "rows_ok from_server_ok (fa_endpoints t) down"
    by (rule takes_rows [OF r rows_ok_mono [OF _ sub]]) (use a in \<open>simp add: agent_ok_def\<close>)
  ultimately have "agent_ok eps ?s t" using a t d by (auto simp: agent_ok_def)
  moreover have "\<forall>m \<in> set pipe. to_agent_ok eps m"
    using c g by (auto simp: fl3net_inv_def elim: takes_first.cases)
  moreover have "\<forall>m \<in> set (fa_piped os). to_api_ok m" using t(4) by (fastforce simp: set_fa_piped)
  ultimately show ?thesis using g f by (auto simp: fl3net_inv_def fl3net_faults_def)
qed

lemma good_step: "good s \<Longrightarrow> step s t \<Longrightarrow> good t"
proof -
  assume g: "good s" and st: "step s t"
  note client = good_client_ok [OF g]
  from st show "good t"
  proof cases
    case (time_passes t)
    with g show ?thesis by (simp add: fl3net_inv_def fl3net_faults_def agent_clash_def agent_ok_def)
  next
    case (api_connects ep es w ps)
    with client have "map fst ps = [''CONNECT'', ep]" "client_ok eps (Connecting es (fn_now s + msecs 100)) (fn_got s)" "ep \<in> set eps"
      by (auto simp: flcliapi_connect_def)
    with good_client_sends [OF g] api_connects show ?thesis by (simp add: to_agent_ok_def)
  next
    case (api_connected w)
    with client good_client_only [OF g, of "Looping TOTAL_REQUESTS"] show ?thesis
      by (simp add: fl3_answered_def TOTAL_REQUESTS_def)
  next
    case (api_requests n ps)
    with client have "map fst ps = [''REQUEST'', fl3_body]" "client_ok eps (Awaiting n) (fn_got s)"
      by (auto simp: flcliapi_request_def fl3_answered_def)
    with good_client_sends [OF g] api_requests show ?thesis by (simp add: to_agent_ok_def)
  next
    case (api_gets n m ms reply)
    with client have n: "0 < n" "fl3_answered n (fn_got s)" by simp_all
    have "to_api_ok m" using g api_gets by (simp add: fl3net_inv_def)
    with api_gets have r: "reply = [''OK''] \<or> reply = []" by (auto simp: fl3_reply_ok split: if_splits)
    then have "client_ok eps (if reply = [] then Printing n else Looping (n - 1)) (fn_got s @ [reply])"
      using n fl3_answered_Suc [OF n] by (auto simp: loop_left_def)
    with good_client_reads [OF g] api_gets show ?thesis by simp
  next
    case (api_fails n m ms f)
    have "to_api_ok m" using g api_fails by (simp add: fl3net_inv_def)
    with api_fails show ?thesis by (simp add: fl3_reply_ok)
  next
    case loop_ends
    with client good_client_only [OF g, of "Printing 0"] show ?thesis by (simp add: loop_left_def)
  next
    case (client_prints n el v)
    have "n \<noteq> TOTAL_REQUESTS" using client_prints fl3_average_fails [of el n Undefined] by auto
    with client client_prints have "client_ok eps (Joining n) (fn_got s)"
      by (auto simp: loop_left_def fl3_answered_def TOTAL_REQUESTS_def)
    with good_client_only [OF g] client_prints show ?thesis by simp
  next
    case (client_divides n el f)
    with fl3_average_fails [of el n f] have "n = TOTAL_REQUESTS" "f = Undefined" by auto
    with client_divides good_fault [OF g, of "Some Undefined"] show ?thesis by (simp add: fl3net_faults_def)
  next
    case (client_joins n)
    with g show ?thesis by (auto simp: fl3net_inv_def agent_ok_def)
  next
    case (agent_turns a i t0 w t' c pipe r down d os)
    from good_agent [OF g agent_turns(2,3,4,7,8,9,10)] agent_turns(1) show ?thesis by simp
  next
    case (agent_fails a i t0 w t' c pipe r down f)
    from agent_reads [OF g agent_fails(3,4,7,8,9)] agent_fails have "f = Assertion" "agent_clash s" by auto
    with agent_fails good_fault [OF g, of "Some Assertion"] show ?thesis by (simp add: fl3net_faults_def agent_clash_def)
  next
    case (server_answers ep m ms u os)
    have "m \<noteq> []" using g server_answers by (auto simp: fl3net_inv_def agent_ok_def dest: rows_okD)
    from fl3_answers_ok [OF zmq this, of cid] server_answers(5) obtain b where b: "from_server_ok b" "fl3_answers Z cid os = [b]" by auto
    have "rows_ok (\<lambda>m. m \<noteq> []) ids ((fn_up s)(ep := ms))" if "rows_ok (\<lambda>m. m \<noteq> []) ids (fn_up s)" for ids
      by (rule rows_ok_subset [OF that]) (use server_answers(4) in auto)
    moreover have "rows_ok from_server_ok ids ((fn_down s)(ep := fn_down s ep @ [b]))"
      if "rows_ok (\<lambda>m. m \<noteq> []) ids (fn_up s)" "rows_ok from_server_ok ids (fn_down s)" for ids
      by (rule rows_ok_upd [OF that(2)]) (use that rows_okD [OF that(1) server_answers(4)] b in \<open>auto simp: rows_ok_def\<close>)
    ultimately have "good (s\<lparr>fn_up := (fn_up s)(ep := ms), fn_down := (fn_down s)(ep := fn_down s ep @ [b])\<rparr>)"
      by (rule good_rows [OF g])
    with server_answers b show ?thesis by simp
  next
    case (server_stops ep m ms u os f)
    have "m \<noteq> []" using g server_stops by (auto simp: fl3net_inv_def agent_ok_def dest: rows_okD)
    from fl3_answers_ok [OF zmq this, of cid] server_stops show ?thesis by auto
  next
    case (lost_up Q)
    with good_rows [OF g, of Q "fn_down s"] loses_rows show ?thesis by simp
  next
    case (lost_down Q)
    with good_rows [OF g, of "fn_up s" Q] loses_rows show ?thesis by simp
  qed
qed

lemma system: "invariant_system (fl3net_start eps t) step good"
  by unfold_locales (rule good_start, rule good_step)

lemma kept:
  assumes "step\<^sup>*\<^sup>* (fl3net_start eps t) s"
  shows "fn_stopped s = {} \<and> (\<exists>k. fn_got s = replicate k [''OK''] \<or> fn_got s = replicate k [''OK''] @ [[]])
    \<and> (fn_fault s = None \<or> fn_fault s = Some Assertion \<and> agent_clash s \<or> fn_fault s = Some Undefined \<and> fn_got s = [[]])
    \<and> fn_client s \<noteq> Returned \<and> (\<exists>a. fn_agent s = Next a)
    \<and> (\<forall>n. fn_client s = Joining n \<longrightarrow> flclient3_loop TOTAL_REQUESTS (fn_got s) = Some n)"
proof -
  from invariant_system.inv_reachable [OF system assms] have g: "good s" .
  note c = good_client_ok [OF g]
  have "\<exists>k. fn_got s = replicate k [''OK''] \<or> fn_got s = replicate k [''OK''] @ [[]]"
    using c by (cases "fn_client s") (fastforce simp: loop_left_def fl3_answered_def intro: exI [of _ 0])+
  moreover have "fn_got s = [[]]" if "fn_client s = Printing TOTAL_REQUESTS"
    using c that by (auto simp: loop_left_def fl3_answered_def TOTAL_REQUESTS_def)
  moreover have "fn_client s \<noteq> Returned" using c by auto
  moreover have "flclient3_loop TOTAL_REQUESTS (fn_got s) = Some n" if "fn_client s = Joining n" for n
    using c that loop_left_loop [of n] by (simp del: flclient3_loop.simps)
  ultimately show ?thesis
    using g by (auto simp: fl3net_inv_def fl3net_faults_def agent_ok_def simp del: flclient3_loop.simps)
qed

end

interpretation freelance_std: freelance_contract lossy zmq_std "\<lambda>_. True" cid S eps for lossy cid S eps
  by unfold_locales simp_all

subsection \<open>An agent at rest\<close>

text \<open>
  At time \<open>T\<close> the agent has nothing to do: no request, no ping due, and a living server, \<open>ep\<close>, that it
  would send a request to.
\<close>

definition no_ping_due :: "time \<Rightarrow> flagent \<Rightarrow> bool" where
  "no_ping_due T a \<longleftrightarrow> (\<forall>b \<in> snd ` set (fa_conn a). T < fs_ping_at (fa_store a b))"

definition first_alive :: "time \<Rightarrow> frame \<Rightarrow> nat \<Rightarrow> flagent \<Rightarrow> bool" where
  "first_alive T ep x a \<longleftrightarrow> map_of (fa_conn a) ep = Some x \<and> fs_endpoint (fa_store a x) = ep \<and> T < fs_expires (fa_store a x)
     \<and> (\<exists>xs. fa_alive a = x # xs)"

definition fa_ready :: "time \<Rightarrow> frame \<Rightarrow> nat \<Rightarrow> flagent \<Rightarrow> bool" where
  "fa_ready T ep x a \<longleftrightarrow> fa_request a = [] \<and> no_ping_due T a \<and> first_alive T ep x a"

definition fa_seq :: "flagent \<Rightarrow> frame" where
  "fa_seq a = unsigned_string (fa_sequence a)"

definition fa_asked :: "time \<Rightarrow> frame \<Rightarrow> flagent \<Rightarrow> flagent" where
  "fa_asked T ep a = a\<lparr>fa_sequence := fa_sequence a + 1, fa_request := [ep, unsigned_string (fa_sequence a + 1), fl3_body],
     fa_expires := T + GLOBAL_TIMEOUT\<rparr>"

lemma fl3_in_reads:
  "zmq_contract Z \<Longrightarrow> fa_reads Z c r (fl3_in T c (map_option (\<lambda>(p, m). p # m) r))"
  by (cases r) (auto simp: fa_reads_def fl3_in_def zmq_contractD)

lemma quiet_pings: "no_ping_due T a \<Longrightarrow> fa_pings (\<lambda>_. T) 0 (fa_store a) (fa_conn a) = (fa_store a, [])"
  by (rule fa_pings_none) (simp add: no_ping_due_def)

lemma agent_request_step:
  assumes "fa_ready T ep x a"
  shows "agent_task_step ok (fl3_in T (Some [''REQUEST'', fl3_body]) None) a =
    Inr (Next (fa_asked T ep a), [FaRouter (parts_of [ep, unsigned_string (fa_sequence a + 1), fl3_body])])"
proof -
  let ?b = "a\<lparr>fa_sequence := fa_sequence a + 1, fa_request := [unsigned_string (fa_sequence a + 1), fl3_body],
     fa_expires := T + GLOBAL_TIMEOUT\<rparr>"
  obtain xs where x: "fa_alive a = x # xs" "fs_endpoint (fa_store a x) = ep" "T < fs_expires (fa_store a x)"
    using assms by (auto simp: fa_ready_def first_alive_def)
  have 1: "on_control_message ok (\<lambda>_. T) (arrives [''REQUEST'', fl3_body]) a = Inr (?b, [])"
    using assms by (simp add: on_control_message_def Let_def fa_ready_def)
  have "fa_request ?b \<noteq> []" "T < fa_expires ?b" "fa_alive ?b = x # xs" "\<not> fs_expired T (fa_store ?b x)"
    using x fl3_times(3) by (simp_all add: fs_expired_def)
  from fa_dispatch_live [OF this(1) _ this(3), of "\<lambda>_. T"] this x
  have 2: "fa_dispatch (\<lambda>_. T) ?b = Inr (fa_asked T ep a, [FaRouter (parts_of [ep, unsigned_string (fa_sequence a + 1), fl3_body])])"
    by (simp add: fa_asked_def del: parts_of.simps)
  have "no_ping_due T (fa_asked T ep a)" using assms by (simp add: fa_ready_def fa_asked_def no_ping_due_def)
  note 3 = quiet_pings [OF this]
  show ?thesis using 1 2 3 by (simp add: agent_task_step_def fl3_in_def del: parts_of.simps)
qed

lemma agent_answer_step:
  assumes m: "map_of (fa_conn a) p = Some x" and f: "accepts_sequence (fa_sequence a) f" and n: "no_ping_due T a"
  shows "agent_task_step ok (fl3_in T None (Some (p # f # fs))) a =
    Inr (Next ((fa_touched (\<lambda>_. T) x a)\<lparr>fa_request := []\<rparr>), [FaPipe (parts_of (''OK'' # fs))])"
proof -
  let ?b = "(fa_touched (\<lambda>_. T) x a)\<lparr>fa_request := []\<rparr>"
  from on_router_message_eq [OF recv_arrives(5), of "\<lambda>_. T" p "f # fs" a] m f
  have 1: "on_router_message (\<lambda>_. T) (arrives (p # f # fs)) a = Inr (?b, [FaPipe (parts_of (''OK'' # fs))])" by simp
  have 2: "fa_dispatch (\<lambda>_. T) ?b = Inr (?b, [])" by (simp add: fa_dispatch_def)
  have "no_ping_due T ?b" using n fl3_times(1) by (auto simp: no_ping_due_def fa_touched_def)
  note 3 = quiet_pings [OF this]
  show ?thesis using 1 2 3 by (simp add: agent_task_step_def fl3_in_def del: parts_of.simps)
qed

lemma agent_again_step:
  assumes "no_ping_due T a" and "first_alive T ep x a" and "fa_request a \<noteq> []" and "T < fa_expires a"
  shows "agent_task_step ok (fl3_in T None None) a =
    Inr (Next (a\<lparr>fa_request := ep # fa_request a\<rparr>), [FaRouter (parts_of (ep # fa_request a))])"
proof -
  obtain xs where x: "fa_alive a = x # xs" "fs_endpoint (fa_store a x) = ep" "T < fs_expires (fa_store a x)"
    using assms(2) by (auto simp: first_alive_def)
  have "fl3_quiet (T + 1) (fl3_in T None None)" by (simp add: fl3_quiet_def fl3_in_def)
  from fl3_quiet_step [OF this assms(3) x(1)] x assms show ?thesis by (simp add: no_ping_due_def Ball_def add1_zle_eq)
qed

text \<open>What stays when a request is made and when its answer comes.\<close>

lemma first_alive_simps [simp]:
  "first_alive T ep x (a\<lparr>fa_request := r\<rparr>) = first_alive T ep x a"
  "first_alive T ep x (fa_asked T' ep' a) = first_alive T ep x a"
  "no_ping_due T (a\<lparr>fa_request := r\<rparr>) = no_ping_due T a"
  "no_ping_due T (fa_asked T' ep' a) = no_ping_due T a"
  by (simp_all add: first_alive_def no_ping_due_def fa_asked_def)

lemma touched_kept:
  assumes "first_alive T ep x a" and "no_ping_due T a"
  shows "first_alive T ep x (fa_touched (\<lambda>_. T) y a)" "no_ping_due T (fa_touched (\<lambda>_. T) y a)"
  using assms fl3_times by (auto simp: first_alive_def no_ping_due_def fa_touched_def)

subsection \<open>Rounds\<close>

text \<open>
  The system at rest: the agent is ready, nothing is under way to or from the API and the server. What is under
  way to other servers does not matter.
\<close>

definition fl3net_rest :: "time \<Rightarrow> frame \<Rightarrow> nat \<Rightarrow> flagent \<Rightarrow> fl3net \<Rightarrow> bool" where
  "fl3net_rest T ep x a s \<longleftrightarrow> fn_now s = T \<and> fn_fault s = None \<and> fn_agent s = Next a \<and> fa_ready T ep x a
     \<and> fn_to_agent s = [] \<and> fn_to_api s = [] \<and> fn_up s ep = [] \<and> fn_down s ep = [] \<and> ep \<notin> fn_stopped s"

context freelance_contract
begin

text \<open>An iteration of the agent at time \<open>T\<close>, after a wait that began at \<open>u\<close>.\<close>

lemma agent_goes:
  assumes "fn_fault s = None" "fn_agent s = Next a" "fn_now s = u" "u \<le> T"
    and "takes_first (fn_to_agent s) c pipe" "takes (fn_down s) r down"
    and "agent_task_step ok (fl3_in T c (map_option (\<lambda>(p, m). p # m) r)) a = Inr (Next d, os)"
    and "c \<noteq> None \<or> r \<noteq> None \<or> 0 \<le> fa_timeout u u a \<and> u + msecs (fa_timeout u u a) \<le> T"
  shows "step s (s\<lparr>fn_now := T, fn_agent := Next d, fn_to_agent := pipe, fn_down := down,
    fn_to_api := fn_to_api s @ fa_piped os, fn_up := router_sends Z (fa_routed os) (fn_up s)\<rparr>)"
proof (rule agent_turns [OF assms(1,2) _ _ _ assms(5,6) _ assms(7)])
  show "fa_wakes u u T a (fl3_in T c (map_option (\<lambda>(p, m). p # m) r))"
    using assms(4,8) by (auto simp: fa_wakes_def fl3_in_def intro!: exI [of _ T])
qed (use assms fl3_in_reads [OF zmq] in \<open>simp_all add: fl3_in_def\<close>)

lemma server_goes:
  assumes "ep \<in> S" "ep \<notin> fn_stopped s" "fn_up s ep = (f # fs) # ms"
  shows "step s (s\<lparr>fn_up := (fn_up s)(ep := ms),
    fn_down := (fn_down s)(ep := fn_down s ep @ [if f = ''PING'' then [''PONG''] else [f, ''OK'']])\<rparr>)"
proof -
  let ?a = "if f = ''PING'' then [''PONG''] else [f, ''OK'']"
  have "flserver3_step (arrives (router_in Z cid (f # fs))) () = Inr (Next (), [parts_of (cid # ?a)])"
    using flserver3_step_cases(2,3) by (auto simp: zmq_contractD [OF zmq] simp del: parts_of.simps)
  from server_answers [OF assms(1-3) this]
  show ?thesis by (simp add: fl3_answers_def addressed_def zmq_contractD [OF zmq] del: parts_of.simps)
qed

lemma client_asks:
  assumes "fn_fault s = None" "fn_client s = Looping n" "n \<noteq> 0"
  shows "step s (s\<lparr>fn_client := Awaiting n, fn_to_agent := fn_to_agent s @ [[''REQUEST'', fl3_body]]\<rparr>)"
proof -
  have "flcliapi_request fl3_body = Inr (parts_of [''REQUEST'', fl3_body])"
    by (simp add: flcliapi_request_def del: parts_of.simps)
  from api_requests [OF assms this] show ?thesis by (simp del: parts_of.simps)
qed

lemma client_reads:
  assumes "fn_fault s = None" "fn_client s = Awaiting n" "fn_to_api s = m # ms" "to_api_ok m"
  shows "step s (s\<lparr>fn_client := (if m = [''OK'', ''OK''] then Looping (n - 1) else Printing n), fn_to_api := ms,
    fn_got := fn_got s @ [if m = [''OK'', ''OK''] then [''OK''] else []]\<rparr>)"
  using api_gets [OF assms(1-3) fl3_reply_ok [OF assms(4)], of lossy Z ok cid S] by (simp split: if_splits)

text \<open>The agent is given the client's request, and sends it.\<close>

lemma agent_asks:
  assumes "fn_fault s = None" "fn_agent s = Next a" "fn_now s = T" "fa_ready T ep x a" "fn_to_agent s = [[''REQUEST'', fl3_body]]"
  shows "step s (s\<lparr>fn_agent := Next (fa_asked T ep a), fn_to_agent := [],
    fn_up := enqueue ep [unsigned_string (fa_sequence a + 1), fl3_body] (fn_up s)\<rparr>)"
proof -
  have "takes_first (fn_to_agent s) (Some [''REQUEST'', fl3_body]) []" unfolding assms(5) by (rule takes_first_some)
  from agent_goes [OF assms(1-3) order_refl this takes_none, of "fa_asked T ep a" _] agent_request_step [OF assms(4), of ok]
  have "step s (s\<lparr>fn_now := T, fn_agent := Next (fa_asked T ep a), fn_to_agent := [], fn_down := fn_down s,
    fn_to_api := fn_to_api s, fn_up := enqueue ep [unsigned_string (fa_sequence a + 1), fl3_body] (fn_up s)\<rparr>)"
    by (simp add: zmq_contractD [OF zmq] del: parts_of.simps)
  then show ?thesis using assms(3) by (cases s) simp
qed

lemma agent_gets:
  assumes "fn_fault s = None" "fn_agent s = Next a" "fn_now s = T" "map_of (fa_conn a) ep = Some x" "no_ping_due T a"
    and "fn_down s ep = (f # fs) # ms" "accepts_sequence (fa_sequence a) f"
  shows "step s (s\<lparr>fn_agent := Next ((fa_touched (\<lambda>_. T) x a)\<lparr>fa_request := []\<rparr>), fn_down := (fn_down s)(ep := ms),
    fn_to_api := fn_to_api s @ [''OK'' # fs]\<rparr>)"
proof -
  have "takes (fn_down s) (Some (ep, f # fs)) ((fn_down s)(ep := ms))" using assms(6) by (rule takes_some)
  from agent_goes [OF assms(1-3) order_refl takes_first_none this] agent_answer_step [OF assms(4,7,5), of ok fs]
  have "step s (s\<lparr>fn_now := T, fn_agent := Next ((fa_touched (\<lambda>_. T) x a)\<lparr>fa_request := []\<rparr>), fn_to_agent := fn_to_agent s,
    fn_down := (fn_down s)(ep := ms), fn_to_api := fn_to_api s @ [''OK'' # fs], fn_up := fn_up s\<rparr>)"
    by (simp del: parts_of.simps)
  then show ?thesis using assms(3) by (cases s) simp
qed

text \<open>A round at one moment: request, dispatch, answer, and the client has its OK.\<close>

lemma client_round:
  assumes rest: "fl3net_rest T ep x a s" and S: "ep \<in> S" and n: "fn_client s = Looping n" "n \<noteq> 0"
    and q: "unat (fa_sequence a + 1) < 2 ^ 31"
  shows "\<exists>t b. step\<^sup>*\<^sup>* s t \<and> fl3net_rest T ep x b t \<and> fn_client t = Looping (n - 1)
    \<and> fn_got t = fn_got s @ [[''OK'']] \<and> fa_sequence b = fa_sequence a + 1
    \<and> fs_ping_at (fa_store b x) = T + PING_INTERVAL \<and> fs_expires (fa_store b x) = T + SERVER_TTL"
proof -
  let ?q = "unsigned_string (fa_sequence a + 1)"
  note r = rest [unfolded fl3net_rest_def]
  define s1 where "s1 = s\<lparr>fn_client := Awaiting n, fn_to_agent := [[''REQUEST'', fl3_body]]\<rparr>"
  have 1: "step s s1" using client_asks [of s n] r n by (simp add: s1_def)
  define s2 where "s2 = s1\<lparr>fn_agent := Next (fa_asked T ep a), fn_to_agent := [], fn_up := enqueue ep [?q, fl3_body] (fn_up s1)\<rparr>"
  have 2: "step s1 s2" unfolding s2_def by (rule agent_asks [of _ _ T ep x]) (use r in \<open>simp_all add: s1_def\<close>)
  define s3 where "s3 = s2\<lparr>fn_up := (fn_up s2)(ep := []), fn_down := (fn_down s2)(ep := [[?q, ''OK'']])\<rparr>"
  have 3: "step s2 s3"
    using server_goes [OF S, of s2 ?q "[fl3_body]" "[]"] r unsigned_not_PING
    by (simp add: s3_def s2_def s1_def enqueue_def)
  let ?b = "(fa_touched (\<lambda>_. T) x (fa_asked T ep a))\<lparr>fa_request := []\<rparr>"
  define s4 where "s4 = s3\<lparr>fn_agent := Next ?b, fn_down := (fn_down s3)(ep := []), fn_to_api := fn_to_api s3 @ [[''OK'', ''OK'']]\<rparr>"
  have 4: "step s3 s4" unfolding s4_def
    by (rule agent_gets [of _ _ T _ _ ?q])
      (use r accepts_own_sequence [OF q] in \<open>simp_all add: s3_def s2_def s1_def fa_ready_def first_alive_def fa_asked_def no_ping_due_def\<close>)
  define s5 where "s5 = s4\<lparr>fn_client := Looping (n - 1), fn_to_api := [], fn_got := fn_got s4 @ [[''OK'']]\<rparr>"
  have 5: "step s4 s5"
    using client_reads [of s4 n "[''OK'', ''OK'']" "[]"] r by (simp add: s5_def s4_def s3_def s2_def s1_def to_api_ok_def)
  have "fa_ready T ep x ?b" using r touched_kept [of T ep x "fa_asked T ep a" x] by (simp add: fa_ready_def)
  then have "fl3net_rest T ep x ?b s5"
    using r by (simp add: fl3net_rest_def s5_def s4_def s3_def s2_def s1_def)
  moreover have "fn_client s5 = Looping (n - 1)" "fn_got s5 = fn_got s @ [[''OK'']]" "fa_sequence ?b = fa_sequence a + 1"
    by (simp_all add: s5_def s4_def s3_def s2_def s1_def fa_asked_def)
  moreover have "fs_ping_at (fa_store ?b x) = T + PING_INTERVAL" "fs_expires (fa_store ?b x) = T + SERVER_TTL"
    by (simp_all add: fa_touched_def)
  moreover have "step\<^sup>*\<^sup>* s s5" using 1 2 3 4 5 by (meson rtranclp.rtrancl_into_rtrancl rtranclp.rtrancl_refl)
  ultimately show ?thesis by blast
qed

lemma client_rounds:
  assumes "fl3net_rest T ep x a s" and "ep \<in> S" and "fn_client s = Looping (int n)" and "unat (fa_sequence a) + n < 2 ^ 31"
  shows "\<exists>t b. step\<^sup>*\<^sup>* s t \<and> fl3net_rest T ep x b t \<and> fn_client t = Looping 0 \<and> fn_got t = fn_got s @ replicate n [''OK'']"
  using assms
proof (induction n arbitrary: s a)
  case 0
  then show ?case by (intro exI [of _ s] exI [of _ a]) simp
next
  case (Suc n)
  have q: "unat (fa_sequence a + 1) = unat (fa_sequence a) + 1"
    using Suc.prems(4) unat_add_lem [of "fa_sequence a" 1] by simp
  from client_round [OF Suc.prems(1,2,3)] Suc.prems(4) q obtain t b where
    t: "step\<^sup>*\<^sup>* s t" "fl3net_rest T ep x b t" "fn_client t = Looping (int n)" "fn_got t = fn_got s @ [[''OK'']]"
    "fa_sequence b = fa_sequence a + 1" by auto
  have "unat (fa_sequence b) + n < 2 ^ 31" using Suc.prems(4) q t(5) by simp
  from Suc.IH [OF t(2) Suc.prems(2) t(3) this] t show ?case
    by (metis append_Cons append_Nil append_assoc replicate_Suc rtranclp_trans)
qed

end

subsection \<open>Getting there\<close>

definition fa_connected :: "time \<Rightarrow> string \<Rightarrow> flagent \<Rightarrow> flagent" where
  "fa_connected t ep a = a\<lparr>fa_conn := AList.update ep (fa_next a) (fa_conn a), fa_alive := fa_alive a @ [fa_next a],
     fa_store := (fa_store a)(fa_next a := \<lparr>fs_endpoint = ep, fs_alive = False, fs_ping_at = t + PING_INTERVAL,
       fs_expires = t + SERVER_TTL\<rparr>), fa_next := fa_next a + 1\<rparr>"

lemma agent_connect_step:
  assumes "ok ep" and "fa_request a = []" and "no_ping_due t (fa_connected t ep a)"
  shows "agent_task_step ok (fl3_in t (Some [''CONNECT'', ep]) None) a = Inr (Next (fa_connected t ep a), [FaConnect ep])"
proof -
  have c: "on_control_message ok (\<lambda>_. t) (arrives [''CONNECT'', ep]) a = Inr (fa_connected t ep a, [FaConnect ep])"
    using assms(1) by (simp add: on_control_message_def Let_def fa_connected_def flcliserver_new_def fs_ttl_def fs_next_ping_def)
  have "fa_dispatch (\<lambda>_. t) (fa_connected t ep a) = Inr (fa_connected t ep a, [])"
    using assms(2) by (simp add: fa_dispatch_def fa_connected_def)
  with c quiet_pings [OF assms(3)] show ?thesis by (simp add: agent_task_step_def fl3_in_def)
qed

definition fl3_joined :: "time \<Rightarrow> flagent" where
  "fl3_joined t = fa_connected (t + msecs 200) ''tcp://localhost:5557'' (fa_connected (t + msecs 100) ''tcp://localhost:5556''
     (fa_connected t ''tcp://localhost:5555'' flagent_init))"

lemma fl3_joined_ready:
  "fa_ready (t + secs 2 - 1) ''tcp://localhost:5555'' 0 (fl3_joined t) \<and> fa_sequence (fl3_joined t) = 0
    \<and> fs_ping_at (fa_store (fl3_joined t) 0) = t + secs 2 \<and> (''tcp://localhost:5555'', 0) \<in> set (fa_conn (fl3_joined t))"
  by (simp add: fa_ready_def first_alive_def no_ping_due_def fl3_joined_def fa_connected_def flagent_init_def
      PING_INTERVAL_def SERVER_TTL_def secs_def msecs_def)

context freelance_contract
begin

lemma client_connects:
  assumes "fn_fault s = None" "fn_client s = Connecting (ep # es) u" "fn_now s = t" "u \<le> t" "fn_to_agent s = []"
    and "fn_agent s = Next a" "ok ep" "fa_request a = []" "no_ping_due t (fa_connected t ep a)"
  shows "step\<^sup>*\<^sup>* s (s\<lparr>fn_now := t + msecs 100, fn_client := Connecting es (t + msecs 100), fn_agent := Next (fa_connected t ep a)\<rparr>)"
proof -
  have c: "flcliapi_connect ep = Inr (parts_of [''CONNECT'', ep])" by (simp add: flcliapi_connect_def del: parts_of.simps)
  define s1 where "s1 = s\<lparr>fn_client := Connecting es (t + msecs 100), fn_to_agent := [[''CONNECT'', ep]]\<rparr>"
  have 1: "step s s1"
    using api_connects [OF assms(1,2) _ c, of lossy Z ok cid S] assms by (simp add: s1_def del: parts_of.simps)
  define s2 where "s2 = s1\<lparr>fn_now := t, fn_agent := Next (fa_connected t ep a), fn_to_agent := [], fn_down := fn_down s1,
    fn_to_api := fn_to_api s1, fn_up := fn_up s1\<rparr>"
  have "takes_first (fn_to_agent s1) (Some [''CONNECT'', ep]) []" by (simp add: s1_def takes_first_some)
  from agent_goes [OF _ _ _ order_refl this takes_none, of a t "fa_connected t ep a" "[FaConnect ep]"]
    agent_connect_step [of ok ep a t] assms
  have 2: "step s1 s2" by (simp add: s1_def s2_def)
  have 3: "step s2 (s2\<lparr>fn_now := t + msecs 100\<rparr>)" by (rule time_passes) (simp add: s2_def msecs_def)
  have "s2\<lparr>fn_now := t + msecs 100\<rparr> = s\<lparr>fn_now := t + msecs 100, fn_client := Connecting es (t + msecs 100), fn_agent := Next (fa_connected t ep a)\<rparr>"
    using assms by (cases s) (simp add: s1_def s2_def)
  with 1 2 3 show ?thesis by (metis r_into_rtranclp rtranclp.rtrancl_into_rtrancl)
qed

text \<open>The client's three connects, and then the last moment before the first ping is due.\<close>

lemma connects_run:
  assumes eps: "eps = flclient3_endpoints"
  shows "\<exists>s. step\<^sup>*\<^sup>* (fl3net_start flclient3_endpoints t) s \<and> fl3net_rest (t + secs 2 - 1) ''tcp://localhost:5555'' 0 (fl3_joined t) s
    \<and> fn_client s = Looping TOTAL_REQUESTS \<and> fn_got s = []"
proof -
  let ?e0 = "''tcp://localhost:5555''" and ?e1 = "''tcp://localhost:5556''" and ?e2 = "''tcp://localhost:5557''"
  let ?s0 = "fl3net_start flclient3_endpoints t"
  let ?a1 = "fa_connected t ?e0 flagent_init"
  let ?a2 = "fa_connected (t + msecs 100) ?e1 ?a1"
  have ok: "ok ?e0" "ok ?e1" "ok ?e2" by (rule connectable, simp add: eps flclient3_endpoints_def)+
  note simps = fa_connected_def flagent_init_def no_ping_due_def PING_INTERVAL_def secs_def msecs_def
  define s1 where "s1 = ?s0\<lparr>fn_now := t + msecs 100, fn_client := Connecting [?e1, ?e2] (t + msecs 100), fn_agent := Next ?a1\<rparr>"
  have 1: "step\<^sup>*\<^sup>* ?s0 s1" unfolding s1_def
    by (rule client_connects [where u = t]) (use ok(1) in \<open>simp_all add: fl3net_start_def flclient3_endpoints_def simps\<close>)
  define s2 where "s2 = s1\<lparr>fn_now := t + msecs 100 + msecs 100, fn_client := Connecting [?e2] (t + msecs 100 + msecs 100), fn_agent := Next ?a2\<rparr>"
  have 2: "step\<^sup>*\<^sup>* s1 s2" unfolding s2_def
    by (rule client_connects [where u = "t + msecs 100"]) (use ok(2) in \<open>simp_all add: s1_def fl3net_start_def simps\<close>)
  define s3 where "s3 = s2\<lparr>fn_now := t + msecs 200 + msecs 100, fn_client := Connecting [] (t + msecs 200 + msecs 100), fn_agent := Next (fl3_joined t)\<rparr>"
  have 3: "step\<^sup>*\<^sup>* s2 s3" unfolding s3_def fl3_joined_def
    by (rule client_connects [where u = "t + msecs 200"]) (use ok(3) in \<open>simp_all add: s2_def s1_def fl3net_start_def simps\<close>)
  define s4 where "s4 = s3\<lparr>fn_now := t + secs 2 - 1\<rparr>"
  have 4: "step s3 s4" unfolding s4_def by (rule time_passes) (simp add: s3_def simps)
  define s5 where "s5 = s4\<lparr>fn_client := Looping TOTAL_REQUESTS\<rparr>"
  have 5: "step s4 s5" unfolding s5_def
    by (rule api_connected [where w = "t + msecs 200 + msecs 100"]) (simp_all add: s4_def s3_def s2_def s1_def fl3net_start_def simps)
  have "step\<^sup>*\<^sup>* ?s0 s5" using 1 2 3 4 5 by (meson rtranclp.rtrancl_into_rtrancl rtranclp_trans)
  moreover have "fl3net_rest (t + secs 2 - 1) ?e0 0 (fl3_joined t) s5 \<and> fn_client s5 = Looping TOTAL_REQUESTS \<and> fn_got s5 = []"
    using fl3_joined_ready [of t] by (simp add: fl3net_rest_def s5_def s4_def s3_def s2_def s1_def fl3net_start_def)
  ultimately show ?thesis by blast
qed

lemma client_served:
  assumes "eps = flclient3_endpoints" and "''tcp://localhost:5555'' \<in> S"
  shows "\<exists>s. step\<^sup>*\<^sup>* (fl3net_start flclient3_endpoints t) s \<and> fn_client s = Joining 0 \<and> fn_fault s = None
    \<and> fn_got s = replicate 1000 [''OK''] \<and> fn_now s < t + secs 2"
proof -
  obtain s where s: "step\<^sup>*\<^sup>* (fl3net_start flclient3_endpoints t) s" "fl3net_rest (t + secs 2 - 1) ''tcp://localhost:5555'' 0 (fl3_joined t) s"
    "fn_client s = Looping (int 1000)" "fn_got s = []"
    using connects_run [OF assms(1), of t] by (auto simp: TOTAL_REQUESTS_def)
  have "unat (fa_sequence (fl3_joined t)) + 1000 < 2 ^ 31" using fl3_joined_ready [of t] by simp
  from client_rounds [OF s(2) assms(2) s(3) this] s(4) obtain u b where
    u: "step\<^sup>*\<^sup>* s u" "fl3net_rest (t + secs 2 - 1) ''tcp://localhost:5555'' 0 b u" "fn_client u = Looping 0" "fn_got u = replicate 1000 [''OK'']" by auto
  have f: "fn_fault u = None" "fn_now u = t + secs 2 - 1" using u(2) by (simp_all add: fl3net_rest_def)
  define v where "v = u\<lparr>fn_client := Printing 0\<rparr>"
  have v: "step u v" unfolding v_def by (rule loop_ends [OF f(1) u(3)])
  have "step v (v\<lparr>fn_client := Joining 0\<rparr>)"
    by (rule client_prints [of _ 0 0 "(0, 0)"]) (use f in \<open>simp_all add: v_def flclient3_average_def TOTAL_REQUESTS_def trunc_div_def\<close>)
  with s(1) u(1) v have "step\<^sup>*\<^sup>* (fl3net_start flclient3_endpoints t) (v\<lparr>fn_client := Joining 0\<rparr>)"
    by (meson rtranclp.rtrancl_into_rtrancl rtranclp_trans)
  moreover have "fn_client (v\<lparr>fn_client := Joining 0\<rparr>) = Joining 0" "fn_fault (v\<lparr>fn_client := Joining 0\<rparr>) = None"
    "fn_got (v\<lparr>fn_client := Joining 0\<rparr>) = replicate 1000 [''OK'']" "fn_now (v\<lparr>fn_client := Joining 0\<rparr>) < t + secs 2"
    using u(4) f by (simp_all add: v_def)
  ultimately show ?thesis by blast
qed

end

subsection \<open>Pings and polls\<close>

lemma quiet_tickless:
  assumes "no_ping_due T a" and "fa_request a \<noteq> [] \<longrightarrow> T \<le> fa_expires a"
  shows "T \<le> fa_tickless T a"
  unfolding fa_tickless_def Let_def
  by (rule fold_deadline_ge) (use assms in \<open>auto simp: no_ping_due_def secs_def\<close>)

lemma quiet_poll:
  assumes "no_ping_due T a" and "fa_request a \<noteq> [] \<longrightarrow> T \<le> fa_expires a" and "(ep, x) \<in> set (fa_conn a)" and "fs_ping_at (fa_store a x) \<le> u"
  shows "0 \<le> fa_timeout T T a \<and> T + msecs (fa_timeout T T a) \<le> u"
  using fa_timeout_bounds [OF order_refl quiet_tickless [OF assms(1,2)]] fa_tickless_le(3) [OF assms(3), of T] assms(4) by linarith

text \<open>After the pings none is due, and each server is sent pings only.\<close>

lemma fa_pings_Cons:
  assumes "fa_pings (\<lambda>_. u) k store ((ep, a) # conn) = (store', os)"
  obtains "u < fs_ping_at (store a)" "fa_pings (\<lambda>_. u) (Suc k) store conn = (store', os)"
  | os' where "fs_ping_at (store a) \<le> u" "fa_pings (\<lambda>_. u) (Suc k) (store(a := fs_next_ping u PING_INTERVAL (store a))) conn = (store', os')"
    "os = FaRouter [(fs_endpoint (store a), True), (''PING'', False)] # os'"
  using assms by (cases "u < fs_ping_at (store a)") (auto simp: fa_ping_def split: prod.splits)

lemma fs_next_ping_simps [simp]:
  "fs_ping_at (fs_next_ping u d sv) = u + d" "fs_expires (fs_next_ping u d sv) = fs_expires sv"
  by (simp_all add: fs_next_ping_def)

lemma fa_pings_store:
  "fa_pings (\<lambda>_. u) k store conn = (store', os) \<Longrightarrow>
    fs_expires (store' b) = fs_expires (store b) \<and> fa_piped os = [] \<and> (u < fs_ping_at (store b) \<or> b \<in> snd ` set conn \<longrightarrow> u < fs_ping_at (store' b))"
proof (induction conn arbitrary: k store store' os)
  case (Cons c conn)
  obtain ep a where c: "c = (ep, a)" by fastforce
  from Cons.prems [unfolded c] show ?case
  proof (cases rule: fa_pings_Cons)
    case 1
    from Cons.IH [OF 1(2)] 1(1) c show ?thesis by (cases "b = a") simp_all
  next
    case (2 os')
    from Cons.IH [OF 2(2)] 2(1,3) c fl3_times(1) show ?thesis by (cases "b = a") simp_all
  qed
qed simp

lemma fa_pings_sends:
  "fa_pings (\<lambda>_. u) k store conn = (store', os) \<Longrightarrow> zmq_contract Z \<Longrightarrow>
    \<exists>n. router_sends Z (fa_routed os) Q p = Q p @ replicate n [''PING'']
      \<and> (x \<in> snd ` set conn \<and> fs_endpoint (store x) = p \<and> fs_ping_at (store x) \<le> u \<longrightarrow> 0 < n)"
proof (induction conn arbitrary: k store store' os Q)
  case Nil
  then show ?case by (auto intro: exI [of _ 0])
next
  case (Cons c conn)
  obtain ep a where c: "c = (ep, a)" by fastforce
  from Cons.prems(1) [unfolded c] show ?case
  proof (cases rule: fa_pings_Cons)
    case 1
    from Cons.IH [OF 1(2) Cons.prems(2), of Q] 1(1) c show ?thesis by (cases "x = a") simp_all
  next
    case (2 os')
    let ?st = "store(a := fs_next_ping u PING_INTERVAL (store a))"
    let ?Q = "enqueue (fs_endpoint (store a)) [''PING''] Q"
    have sends: "router_sends Z (fa_routed os) Q p = router_sends Z (fa_routed os') ?Q p"
      by (simp add: 2(3) zmq_contractD [OF Cons.prems(2)])
    from Cons.IH [OF 2(2) Cons.prems(2), of ?Q] obtain n where n: "router_sends Z (fa_routed os) Q p = ?Q p @ replicate n [''PING'']"
      "x \<in> snd ` set conn \<and> fs_endpoint (?st x) = p \<and> fs_ping_at (?st x) \<le> u \<longrightarrow> 0 < n" unfolding sends by blast
    show ?thesis
    proof (cases "fs_endpoint (store a) = p")
      case True
      with n(1) have "router_sends Z (fa_routed os) Q p = Q p @ replicate (Suc n) [''PING'']" by (simp add: enqueue_def)
      then show ?thesis by blast
    next
      case False
      with n(1) have "router_sends Z (fa_routed os) Q p = Q p @ replicate n [''PING'']" by (simp add: enqueue_def)
      moreover have "x \<in> snd ` set (c # conn) \<and> fs_endpoint (store x) = p \<and> fs_ping_at (store x) \<le> u \<longrightarrow> 0 < n"
        using n(2) False c by (cases "x = a") simp_all
      ultimately show ?thesis by blast
    qed
  qed
qed

subsection \<open>Two runs that fail\<close>

lemma stoseq_endpoint: "accepts_sequence w ''tcp://localhost:5555''"
  by (simp add: accepts_sequence_def stoseq_def strtol_def c_str_def read_number_def is_space_def starts_digit_def is_digit_def)

lemma agent_clash_step:
  "fa_request a \<noteq> [] \<Longrightarrow> agent_task_step ok (fl3_in T (Some [''REQUEST'', fl3_body]) None) a = Inl Assertion"
  by (simp add: agent_task_step_def fl3_in_def on_control_message_def)

lemma agent_idle_step:
  "fa_request a = [] \<Longrightarrow> fa_pings (\<lambda>_. u) 0 (fa_store a) (fa_conn a) = (store, os) \<Longrightarrow>
    agent_task_step ok (fl3_in u None None) a = Inr (Next (a\<lparr>fa_store := store\<rparr>), os)"
  by (simp add: agent_task_step_def fl3_in_def fa_dispatch_def)

context freelance_contract
begin

text \<open>
  In the last millisecond before a ping is due the agent polls without waiting, so it dispatches the request a
  second time. The second answer is handed to the API when no request is outstanding.
\<close>

lemma agent_sends_twice:
  assumes r: "fl3net_rest T ep x a s" and S: "ep \<in> S" and n: "fn_client s = Looping n" "n \<noteq> 0"
    and q: "unat (fa_sequence a + 1) < 2 ^ 31" and e: "\<And>w. accepts_sequence w ep" "ep \<noteq> ''PING''"
    and p: "(ep, x) \<in> set (fa_conn a)" "fs_ping_at (fa_store a x) = T + 1"
  shows "\<exists>t b. step\<^sup>*\<^sup>* s t \<and> fa_ready T ep x b \<and> fn_to_api t = [[''OK'', ''OK''], [''OK'', ''OK'']] \<and> fn_client t = Awaiting n
    \<and> fn_fault t = None \<and> fn_to_agent t = [] \<and> fn_now t = T \<and> fn_agent t = Next b"
proof -
  let ?q = "unsigned_string (fa_sequence a + 1)"
  note r = r [unfolded fl3net_rest_def]
  have ready: "no_ping_due T a" "first_alive T ep x a" "map_of (fa_conn a) ep = Some x"
    using r by (simp_all add: fa_ready_def first_alive_def)
  define s1 where "s1 = s\<lparr>fn_client := Awaiting n, fn_to_agent := [[''REQUEST'', fl3_body]]\<rparr>"
  have 1: "step s s1" using client_asks [of s n] r n by (simp add: s1_def)
  define a2 where "a2 = fa_asked T ep a"
  define s2 where "s2 = s1\<lparr>fn_agent := Next a2, fn_to_agent := [], fn_up := enqueue ep [?q, fl3_body] (fn_up s1)\<rparr>"
  have 2: "step s1 s2" unfolding s2_def a2_def by (rule agent_asks [of _ _ T ep x]) (use r in \<open>simp_all add: s1_def\<close>)
  have a2: "no_ping_due T a2" "first_alive T ep x a2" "fa_request a2 = [ep, ?q, fl3_body]" "T < fa_expires a2"
    "fa_sequence a2 = fa_sequence a + 1" "fa_conn a2 = fa_conn a" "fa_store a2 = fa_store a"
    using ready fl3_times(3) by (simp_all add: a2_def) (simp_all add: fa_asked_def)
  define a3 where "a3 = a2\<lparr>fa_request := [ep, ep, ?q, fl3_body]\<rparr>"
  define s3 where "s3 = s2\<lparr>fn_now := T, fn_agent := Next a3, fn_to_agent := [], fn_down := fn_down s2, fn_to_api := [],
    fn_up := enqueue ep [ep, ?q, fl3_body] (fn_up s2)\<rparr>"
  have poll: "0 \<le> fa_timeout T T a2 \<and> T + msecs (fa_timeout T T a2) \<le> T + 1"
    by (rule quiet_poll [where ep = ep and x = x]) (use a2 p in simp_all)
  then have "fa_timeout T T a2 \<le> 0" unfolding msecs_def by linarith
  with poll have "0 \<le> fa_timeout T T a2 \<and> T + msecs (fa_timeout T T a2) \<le> T" by (simp add: msecs_def)
  with agent_goes [of s2 a2 T T None "[]" None "fn_down s2" a3 "[FaRouter (parts_of [ep, ep, ?q, fl3_body])]"]
    agent_again_step [OF a2(1,2) _ a2(4), of ok] r
  have 3: "step s2 s3"
    by (simp add: s3_def s2_def s1_def a3_def a2(3) zmq_contractD [OF zmq] takes_first_none takes_none del: parts_of.simps)
  define s4 where "s4 = s3\<lparr>fn_up := (fn_up s3)(ep := [[ep, ?q, fl3_body]]), fn_down := (fn_down s3)(ep := [[?q, ''OK'']])\<rparr>"
  have 4: "step s3 s4"
    using server_goes [OF S, of s3 ?q "[fl3_body]" "[[ep, ?q, fl3_body]]"] r unsigned_not_PING
    by (simp add: s4_def s3_def s2_def s1_def enqueue_def)
  define s5 where "s5 = s4\<lparr>fn_up := (fn_up s4)(ep := []), fn_down := (fn_down s4)(ep := [[?q, ''OK''], [ep, ''OK'']])\<rparr>"
  have 5: "step s4 s5"
    using server_goes [OF S, of s4 ep "[?q, fl3_body]" "[]"] r e(2) by (simp add: s5_def s4_def s3_def s2_def s1_def)
  define a6 where "a6 = (fa_touched (\<lambda>_. T) x a3)\<lparr>fa_request := []\<rparr>"
  have a6: "no_ping_due T a6" "first_alive T ep x a6" "map_of (fa_conn a6) ep = Some x"
    using touched_kept [of T ep x a3 x] a2 ready by (simp_all add: a6_def a3_def)
  define s6 where "s6 = s5\<lparr>fn_agent := Next a6, fn_down := (fn_down s5)(ep := [[ep, ''OK'']]), fn_to_api := fn_to_api s5 @ [[''OK'', ''OK'']]\<rparr>"
  have 6: "step s5 s6" unfolding s6_def a6_def
    by (rule agent_gets [of _ _ T _ _ ?q])
      (use r ready a2 accepts_own_sequence [OF q] in \<open>simp_all add: s5_def s4_def s3_def s2_def s1_def a3_def\<close>)
  define a7 where "a7 = (fa_touched (\<lambda>_. T) x a6)\<lparr>fa_request := []\<rparr>"
  define s7 where "s7 = s6\<lparr>fn_agent := Next a7, fn_down := (fn_down s6)(ep := []), fn_to_api := fn_to_api s6 @ [[''OK'', ''OK'']]\<rparr>"
  have 7: "step s6 s7" unfolding s7_def a7_def
    by (rule agent_gets [of _ _ T _ _ ep]) (use r a6 e in \<open>simp_all add: s6_def s5_def s4_def s3_def s2_def s1_def\<close>)
  have a7: "fa_ready T ep x a7" using touched_kept [OF a6(2,1), of x] by (simp add: fa_ready_def a7_def)
  have "fn_to_api s7 = [[''OK'', ''OK''], [''OK'', ''OK'']]" "fn_client s7 = Awaiting n" "fn_fault s7 = None" "fn_to_agent s7 = []"
    "fn_now s7 = T" "fn_agent s7 = Next a7"
    using r by (simp_all add: s7_def s6_def s5_def s4_def s3_def s2_def s1_def)
  moreover have "step\<^sup>*\<^sup>* s s7" using 1 2 3 4 5 6 7 by (meson rtranclp.rtrancl_into_rtrancl rtranclp.rtrancl_refl)
  ultimately show ?thesis using a7 by blast
qed

text \<open>With an answer too many the client is one request ahead of the agent.\<close>

lemma answer_too_many:
  assumes a: "fa_ready T ep x a" and api: "fn_to_api s = [[''OK'', ''OK''], [''OK'', ''OK'']]" "fn_client s = Awaiting n" "2 < n"
    and s: "fn_fault s = None" "fn_to_agent s = []" "fn_now s = T" "fn_agent s = Next a"
  shows "\<exists>t. step\<^sup>*\<^sup>* s t \<and> fn_fault t = Some Assertion \<and> fn_now t = T"
proof -
  define s1 where "s1 = s\<lparr>fn_client := Looping (n - 1), fn_to_api := [[''OK'', ''OK'']], fn_got := fn_got s @ [[''OK'']]\<rparr>"
  have 1: "step s s1" using client_reads [OF s(1) api(2,1)] by (simp add: s1_def to_api_ok_def)
  define s2 where "s2 = s1\<lparr>fn_client := Awaiting (n - 1), fn_to_agent := [[''REQUEST'', fl3_body]]\<rparr>"
  have 2: "step s1 s2" using client_asks [of s1 "n - 1"] api s by (simp add: s1_def s2_def)
  define s3 where "s3 = s2\<lparr>fn_agent := Next (fa_asked T ep a), fn_to_agent := [],
    fn_up := enqueue ep [unsigned_string (fa_sequence a + 1), fl3_body] (fn_up s2)\<rparr>"
  have 3: "step s2 s3" unfolding s3_def by (rule agent_asks [OF _ _ _ a]) (use s in \<open>simp_all add: s2_def s1_def\<close>)
  define s4 where "s4 = s3\<lparr>fn_client := Looping (n - 1 - 1), fn_to_api := [], fn_got := fn_got s3 @ [[''OK'']]\<rparr>"
  have 4: "step s3 s4" using client_reads [of s3 "n - 1" "[''OK'', ''OK'']" "[]"] s
    by (simp add: s4_def s3_def s2_def s1_def to_api_ok_def)
  define s5 where "s5 = s4\<lparr>fn_client := Awaiting (n - 1 - 1), fn_to_agent := [[''REQUEST'', fl3_body]]\<rparr>"
  have 5: "step s4 s5" using client_asks [of s4 "n - 1 - 1"] api s by (simp add: s5_def s4_def s3_def s2_def s1_def)
  have 6: "step s5 (s5\<lparr>fn_fault := Some Assertion\<rparr>)"
  proof (rule agent_fails [where c = "Some [''REQUEST'', fl3_body]" and r = None and i = "fl3_in T (Some [''REQUEST'', fl3_body]) None"])
    show "agent_task_step ok (fl3_in T (Some [''REQUEST'', fl3_body]) None) (fa_asked T ep a) = Inl Assertion"
      by (rule agent_clash_step) (simp add: fa_asked_def)
    show "takes_first (fn_to_agent s5) (Some [''REQUEST'', fl3_body]) []" by (simp add: s5_def takes_first_some)
    show "takes (fn_down s5) None (fn_down s5)" by (rule takes_none)
    show "fa_reads Z (Some [''REQUEST'', fl3_body]) None (fl3_in T (Some [''REQUEST'', fl3_body]) None)"
      using fl3_in_reads [OF zmq, of _ None] by simp
    show "fa_wakes T T T (fa_asked T ep a) (fl3_in T (Some [''REQUEST'', fl3_body]) None)"
      by (auto simp: fa_wakes_def fl3_in_def)
  qed (use s in \<open>simp_all add: s5_def s4_def s3_def s2_def s1_def fl3_in_def\<close>)
  have "step\<^sup>*\<^sup>* s (s5\<lparr>fn_fault := Some Assertion\<rparr>)"
    using 1 2 3 4 5 6 by (meson rtranclp.rtrancl_into_rtrancl rtranclp.rtrancl_refl)
  moreover have "fn_now (s5\<lparr>fn_fault := Some Assertion\<rparr>) = T" using s by (simp add: s5_def s4_def s3_def s2_def s1_def)
  ultimately show ?thesis by (intro exI [of _ "s5\<lparr>fn_fault := Some Assertion\<rparr>"]) simp
qed

lemma client_aborts:
  assumes "eps = flclient3_endpoints" and "''tcp://localhost:5555'' \<in> S"
  shows "\<exists>s. step\<^sup>*\<^sup>* (fl3net_start flclient3_endpoints t) s \<and> fn_fault s = Some Assertion \<and> fn_now s < t + secs 2"
proof -
  let ?T = "t + secs 2 - 1" and ?e = "''tcp://localhost:5555''"
  obtain s where s: "step\<^sup>*\<^sup>* (fl3net_start flclient3_endpoints t) s" "fl3net_rest ?T ?e 0 (fl3_joined t) s" "fn_client s = Looping TOTAL_REQUESTS"
    using connects_run [OF assms(1), of t] by blast
  note j = fl3_joined_ready [of t]
  obtain u b where u: "step\<^sup>*\<^sup>* s u" "fa_ready ?T ?e 0 b" "fn_to_api u = [[''OK'', ''OK''], [''OK'', ''OK'']]"
    "fn_client u = Awaiting TOTAL_REQUESTS" "fn_fault u = None" "fn_to_agent u = []" "fn_now u = ?T" "fn_agent u = Next b"
    using agent_sends_twice [OF s(2) assms(2) s(3)] j stoseq_endpoint by (auto simp: TOTAL_REQUESTS_def)
  from answer_too_many [OF u(2-4) _ u(5-8)] obtain v where "step\<^sup>*\<^sup>* u v" "fn_fault v = Some Assertion" "fn_now v = ?T"
    by (auto simp: TOTAL_REQUESTS_def)
  with s(1) u(1) show ?thesis by (intro exI [of _ v]) (auto dest: rtranclp_trans)
qed

text \<open>A server that is pinged answers PONG before the request that comes after the ping.\<close>

lemma agent_pings:
  assumes r: "fl3net_rest T ep x a s" and p: "fs_ping_at (fa_store a x) \<le> u" "u < fs_expires (fa_store a x)" "T \<le> u"
  shows "\<exists>t b n. step s t \<and> fn_now t = u \<and> fn_fault t = None \<and> fn_agent t = Next b \<and> fa_ready u ep x b \<and> fn_client t = fn_client s
    \<and> fn_to_agent t = [] \<and> fn_to_api t = [] \<and> fn_down t ep = [] \<and> fn_stopped t = fn_stopped s \<and> fn_got t = fn_got s
    \<and> fn_up t ep = [''PING''] # replicate n [''PING'']"
proof -
  note r = r [unfolded fl3net_rest_def]
  have a: "fa_request a = []" "no_ping_due T a" "map_of (fa_conn a) ep = Some x" "fs_endpoint (fa_store a x) = ep" "\<exists>xs. fa_alive a = x # xs"
    using r by (simp_all add: fa_ready_def first_alive_def)
  have conn: "(ep, x) \<in> set (fa_conn a)" using a(3) by (rule map_of_SomeD)
  then have x: "x \<in> snd ` set (fa_conn a)" by force
  obtain store os where ps: "fa_pings (\<lambda>_. u) 0 (fa_store a) (fa_conn a) = (store, os)" by fastforce
  obtain n where n: "router_sends Z (fa_routed os) (fn_up s) ep = fn_up s ep @ replicate n [''PING'']" "0 < n"
    using fa_pings_sends [OF ps zmq, of "fn_up s" ep x] x a p by blast
  let ?b = "a\<lparr>fa_store := store\<rparr>"
  let ?t = "s\<lparr>fn_now := u, fn_agent := Next ?b, fn_to_agent := [], fn_down := fn_down s, fn_to_api := fn_to_api s @ fa_piped os,
    fn_up := router_sends Z (fa_routed os) (fn_up s)\<rparr>"
  have "step s ?t"
    by (rule agent_goes [where c = None and r = None])
      (use r p(3) agent_idle_step [OF a(1) ps] quiet_poll [OF a(2) _ conn p(1)] a(1) in \<open>simp_all add: takes_first_none takes_none\<close>)
  moreover have "fa_ready u ep x ?b"
    using a p fa_pings_spec [OF ps] fa_pings_store [OF ps] by (simp add: fa_ready_def first_alive_def no_ping_due_def)
  moreover have "fn_up ?t ep = [''PING''] # replicate (n - 1) [''PING'']" using n r by (cases n) simp_all
  moreover have "fn_to_api ?t = []" using fa_pings_store [OF ps] r by simp
  ultimately show ?thesis using r by (intro exI [of _ ?t] exI [of _ ?b] exI [of _ "n - 1"]) simp
qed

lemma pong_for_answer:
  assumes a: "fa_ready T ep x a" and s: "fn_fault s = None" "fn_to_agent s = []" "fn_now s = T" "fn_agent s = Next a" "fn_to_api s = []"
    "fn_down s ep = []" "fn_up s ep = [''PING''] # ms" "ep \<notin> fn_stopped s"
    and n: "fn_client s = Looping n" "n \<noteq> 0" "n \<noteq> TOTAL_REQUESTS" and S: "ep \<in> S"
  shows "\<exists>t b. step\<^sup>*\<^sup>* s t \<and> fn_client t = Joining n \<and> fn_fault t = None \<and> fn_got t = fn_got s @ [[]] \<and> fn_now t = T
    \<and> fn_agent t = Next b \<and> T < fa_expires b"
proof -
  define s1 where "s1 = s\<lparr>fn_client := Awaiting n, fn_to_agent := [[''REQUEST'', fl3_body]]\<rparr>"
  have 1: "step s s1" using client_asks [of s n] s n by (simp add: s1_def)
  define s2 where "s2 = s1\<lparr>fn_agent := Next (fa_asked T ep a), fn_to_agent := [],
    fn_up := enqueue ep [unsigned_string (fa_sequence a + 1), fl3_body] (fn_up s1)\<rparr>"
  have 2: "step s1 s2" unfolding s2_def by (rule agent_asks [OF _ _ _ a]) (use s in \<open>simp_all add: s1_def\<close>)
  define s3 where "s3 = s2\<lparr>fn_up := (fn_up s2)(ep := ms @ [[unsigned_string (fa_sequence a + 1), fl3_body]]), fn_down := (fn_down s2)(ep := [[''PONG'']])\<rparr>"
  have 3: "step s2 s3"
    using server_goes [OF S, of s2 "''PING''" "[]" "ms @ [[unsigned_string (fa_sequence a + 1), fl3_body]]"] s
    by (simp add: s3_def s2_def s1_def enqueue_def)
  let ?b = "(fa_touched (\<lambda>_. T) x (fa_asked T ep a))\<lparr>fa_request := []\<rparr>"
  define s4 where "s4 = s3\<lparr>fn_agent := Next ?b, fn_down := (fn_down s3)(ep := []), fn_to_api := fn_to_api s3 @ [[''OK'']]\<rparr>"
  have 4: "step s3 s4" unfolding s4_def
    by (rule agent_gets [of _ _ T _ _ "''PONG''"])
      (use s a in \<open>simp_all add: s3_def s2_def s1_def fa_ready_def first_alive_def fa_asked_def no_ping_due_def\<close>)
  define s5 where "s5 = s4\<lparr>fn_client := Printing n, fn_to_api := [], fn_got := fn_got s4 @ [[]]\<rparr>"
  have 5: "step s4 s5"
    using client_reads [of s4 n "[''OK'']" "[]"] s by (simp add: s5_def s4_def s3_def s2_def s1_def to_api_ok_def)
  obtain v where v: "flclient3_average 0 n = Inr v" using n(3) by (simp add: flclient3_average_def Let_def)
  have 6: "step s5 (s5\<lparr>fn_client := Joining n\<rparr>)"
    by (rule client_prints [OF _ _ v]) (use s in \<open>simp_all add: s5_def s4_def s3_def s2_def s1_def\<close>)
  let ?t = "s5\<lparr>fn_client := Joining n\<rparr>"
  have "step\<^sup>*\<^sup>* s ?t" using 1 2 3 4 5 6 by (meson rtranclp.rtrancl_into_rtrancl rtranclp.rtrancl_refl)
  moreover have "fn_client ?t = Joining n" "fn_fault ?t = None" "fn_got ?t = fn_got s @ [[]]" "fn_now ?t = T" "fn_agent ?t = Next ?b"
    using s by (simp_all add: s5_def s4_def s3_def s2_def s1_def)
  moreover have "T < fa_expires ?b" using fl3_times(3) by (simp add: fa_asked_def)
  ultimately show ?thesis by blast
qed

lemma client_gives_up:
  assumes "eps = flclient3_endpoints" and S: "''tcp://localhost:5555'' \<in> S"
  shows "\<exists>s a. step\<^sup>*\<^sup>* (fl3net_start flclient3_endpoints t) s \<and> fn_client s = Joining (TOTAL_REQUESTS - 1) \<and> fn_fault s = None
    \<and> fn_got s = [[''OK''], []] \<and> fn_agent s = Next a \<and> fn_now s < fa_expires a"
proof -
  let ?T = "t + secs 2 - 1" and ?e = "''tcp://localhost:5555''"
  obtain s where s: "step\<^sup>*\<^sup>* (fl3net_start flclient3_endpoints t) s" "fl3net_rest ?T ?e 0 (fl3_joined t) s" "fn_client s = Looping TOTAL_REQUESTS"
    "fn_got s = []"
    using connects_run [OF assms(1), of t] by blast
  have "unat (fa_sequence (fl3_joined t) + 1) < 2 ^ 31" "TOTAL_REQUESTS \<noteq> 0"
    using fl3_joined_ready [of t] by (simp_all add: TOTAL_REQUESTS_def)
  from client_round [OF s(2) S s(3) this(2,1)] s(4) obtain u b where u: "step\<^sup>*\<^sup>* s u" "fl3net_rest ?T ?e 0 b u"
    "fn_client u = Looping (TOTAL_REQUESTS - 1)" "fn_got u = [[''OK'']]" "fs_ping_at (fa_store b 0) = ?T + PING_INTERVAL"
    "fs_expires (fa_store b 0) = ?T + SERVER_TTL" by auto
  let ?u = "?T + PING_INTERVAL"
  have "?u < ?T + SERVER_TTL" "?T \<le> ?u" by (simp_all add: PING_INTERVAL_def SERVER_TTL_def secs_def)
  with agent_pings [OF u(2), of ?u] u(5,6) obtain v c n where v: "step u v" "fn_now v = ?u" "fn_fault v = None" "fn_agent v = Next c"
    "fa_ready ?u ?e 0 c" "fn_client v = fn_client u" "fn_to_agent v = []" "fn_to_api v = []" "fn_down v ?e = []"
    "fn_stopped v = fn_stopped u" "fn_got v = fn_got u" "fn_up v ?e = [''PING''] # replicate n [''PING'']" by auto
  have "?e \<notin> fn_stopped v" using u(2) v(10) by (simp add: fl3net_rest_def)
  with pong_for_answer [OF v(5) v(3) v(7) v(2) v(4) v(8) v(9) v(12) _ _ _ _ S, of "TOTAL_REQUESTS - 1"] v u obtain w d where
    w: "step\<^sup>*\<^sup>* v w" "fn_client w = Joining (TOTAL_REQUESTS - 1)" "fn_fault w = None" "fn_got w = [[''OK''], []]" "fn_now w = ?u"
    "fn_agent w = Next d" "?u < fa_expires d" by (auto simp: TOTAL_REQUESTS_def)
  have "step\<^sup>*\<^sup>* (fl3net_start flclient3_endpoints t) w"
    using s(1) u(1) v(1) w(1) by (meson rtranclp.rtrancl_into_rtrancl rtranclp_trans)
  with w show ?thesis by auto
qed

end

subsection \<open>The properties of the system\<close>

text \<open>
  C16: in every interleaving of the client of the third freelance model, its agent and the servers, with
  any clock readings and messages lost: no server stops; what the client has read is one OK after another and
  at most one empty reply after them; the client's process fails in two ways only, its agent is given a request
  while another is outstanding, or the client divides by the number of its replies when the first was
  empty; and its \<open>main\<close> never returns, for the agent's thread that it waits for never ends.
\<close>

theorem freelance_keeps:
  assumes Z: "zmq_contract Z" and ok: "\<forall>ep \<in> set eps. ok ep"
    and r: "(fl3net_step lossy Z ok cid S)\<^sup>*\<^sup>* (fl3net_start eps t) s"
  shows "fn_stopped s = {} \<and> (\<exists>k. fn_got s = replicate k [''OK''] \<or> fn_got s = replicate k [''OK''] @ [[]])
    \<and> (fn_fault s = None \<or> fn_fault s = Some Assertion \<and> agent_clash s \<or> fn_fault s = Some Undefined \<and> fn_got s = [[]])
    \<and> fn_client s \<noteq> Returned \<and> (\<exists>a. fn_agent s = Next a)
    \<and> (\<forall>n. fn_client s = Joining n \<longrightarrow> flclient3_loop TOTAL_REQUESTS (fn_got s) = Some n)"
proof -
  have "freelance_contract Z ok eps" using Z ok by unfold_locales simp_all
  from freelance_contract.kept [OF this r] show ?thesis .
qed

theorem freelance_keeps_witness:
  "\<exists>s. (fl3net_step False zmq_std (\<lambda>_. True) ''c'' {''tcp://localhost:5555''})\<^sup>*\<^sup>* (fl3net_start flclient3_endpoints 0) s
    \<and> fn_fault s = Some Assertion \<and> agent_clash s \<and> fn_stopped s = {}"
proof -
  obtain s where r: "(fl3net_step False zmq_std (\<lambda>_. True) ''c'' {''tcp://localhost:5555''})\<^sup>*\<^sup>* (fl3net_start flclient3_endpoints 0) s"
    and f: "fn_fault s = Some Assertion"
    using freelance_std.client_aborts [OF refl, of "{''tcp://localhost:5555''}"] by blast
  from freelance_keeps [OF zmq_std_contract _ r] f r show ?thesis by auto
qed

text \<open>
  C18: with one server that answers, the client of the third freelance model can get all its thousand
  answers, within two seconds of its start and without any message lost.
\<close>

theorem freelance_serves:
  assumes "zmq_contract Z" and "\<forall>ep \<in> set flclient3_endpoints. ok ep" and "''tcp://localhost:5555'' \<in> S"
  shows "\<exists>s. (fl3net_step False Z ok cid S)\<^sup>*\<^sup>* (fl3net_start flclient3_endpoints t) s \<and> fn_client s = Joining 0
    \<and> fn_fault s = None \<and> fn_got s = replicate 1000 [''OK''] \<and> fn_now s < t + secs 2"
proof -
  have "freelance_contract Z ok flclient3_endpoints" using assms by unfold_locales simp_all
  from freelance_contract.client_served [OF this refl assms(3)] show ?thesis .
qed

theorem freelance_serves_witness:
  "\<exists>s. (fl3net_step False zmq_std (\<lambda>ep. ep \<noteq> []) ''c'' {''tcp://localhost:5555''})\<^sup>*\<^sup>* (fl3net_start flclient3_endpoints 0) s
    \<and> fn_client s = Joining 0 \<and> fn_got s = replicate 1000 [''OK'']"
proof -
  have "\<forall>ep \<in> set flclient3_endpoints. ep \<noteq> []" by (simp add: flclient3_endpoints_def)
  from freelance_serves [OF zmq_std_contract this, of "{''tcp://localhost:5555''}" "''c''" 0] show ?thesis by auto
qed

text \<open>
  C17: the third freelance model fails in two ways while its server runs and answers every request and no
  message is lost. The agent can dispatch a request twice; both answers reach the client, which then makes
  a request before the agent is done with the last one, and the agent's assertion fails. And the answer to a ping
  can complete a request before its time is over; the client takes that for the service not being available and
  gives up.
\<close>

theorem freelance_may_fail:
  assumes "zmq_contract Z" and "\<forall>ep \<in> set flclient3_endpoints. ok ep" and "''tcp://localhost:5555'' \<in> S"
  shows "(\<exists>s. (fl3net_step False Z ok cid S)\<^sup>*\<^sup>* (fl3net_start flclient3_endpoints t) s \<and> fn_fault s = Some Assertion
      \<and> fn_now s < t + secs 2)
    \<and> (\<exists>s a. (fl3net_step False Z ok cid S)\<^sup>*\<^sup>* (fl3net_start flclient3_endpoints t) s
      \<and> fn_client s = Joining (TOTAL_REQUESTS - 1) \<and> fn_fault s = None \<and> fn_got s = [[''OK''], []]
      \<and> fn_agent s = Next a \<and> fn_now s < fa_expires a)"
proof -
  have c: "freelance_contract Z ok flclient3_endpoints" using assms by unfold_locales simp_all
  from freelance_contract.client_aborts [OF c refl assms(3)] freelance_contract.client_gives_up [OF c refl assms(3)]
  show ?thesis by blast
qed

theorem freelance_may_fail_witness:
  "\<exists>s. (fl3net_step False zmq_std (\<lambda>ep. ep \<noteq> []) ''c'' {''tcp://localhost:5555''})\<^sup>*\<^sup>* (fl3net_start flclient3_endpoints 0) s
    \<and> fn_fault s = None \<and> fn_got s = [[''OK''], []]"
proof -
  have "\<forall>ep \<in> set flclient3_endpoints. ep \<noteq> []" by (simp add: flclient3_endpoints_def)
  from freelance_may_fail [OF zmq_std_contract this, of "{''tcp://localhost:5555''}" "''c''" 0] show ?thesis by blast
qed

end
