(* ===== verification/Freelance2Net.thy ===== *)
theory Freelance2Net
  imports Freelance12 Sockets Systems
begin

text \<open>
  The second freelance model (\<open>model-two-brutal-shotgun-massacre\<close>) as a system: the client and any number
  of servers behind REP sockets, with a clock. Each request goes to every server; all but one of the answers are
  left over for the requests after it. The lemmas: what the client can return for a request, and that it can be served.
\<close>

subsection \<open>Client and servers\<close>

text \<open>
  The client is at its loop with some requests left, waits for the answer to one until a point in time, with the
  last reply it has read, prints, or has ended.
\<close>

datatype fl2_phase = F2Looping int | F2Waiting int time msg | F2Printing int | F2Ended int

text \<open>
  \<open>f2_late\<close> holds the requests whose wait ended when its time was over; it is not a variable of the program.
  A request is numbered from 0, its sequence number is one more. The k-th copy of a request goes to server k.
\<close>

record fl2net =
  f2_now :: time
  f2_phase :: fl2_phase
  f2_client :: flclient2
  f2_got :: "msg list"
  f2_late :: "nat set"
  f2_up :: "nat \<Rightarrow> msg list"
  f2_down :: "nat \<Rightarrow> msg list"
  f2_fault :: "fault option"
  f2_stopped :: "nat set"

definition fl2net_start :: "nat \<Rightarrow> time \<Rightarrow> fl2net" where
  "fl2net_start N t = \<lparr>f2_now = t, f2_phase = F2Looping FL2_REQUESTS, f2_client = (flclient2_connect ^^ N) flclient2_init,
     f2_got = [], f2_late = {}, f2_up = (\<lambda>_. []), f2_down = (\<lambda>_. []), f2_fault = None, f2_stopped = {}\<rparr>"

definition fl2_text :: string where
  "fl2_text = ''random name''"

definition fl2_blasts :: "part list list \<Rightarrow> (nat \<Rightarrow> msg list) \<Rightarrow> (nat \<Rightarrow> msg list)" where
  "fl2_blasts pss Q k = (if k < length pss then Q k @ [map fst (pss ! k)] else Q k)"

text \<open>
  A poll from \<open>t\<close> on returns nothing only after the milliseconds it was given; \<open>t'\<close> is the reading of the
  clock at the end of the round.
\<close>

definition fl2_polls :: "time \<Rightarrow> time \<Rightarrow> time \<Rightarrow> (nat \<times> msg) option \<Rightarrow> bool" where
  "fl2_polls T t t' r \<longleftrightarrow> t \<le> t' \<and> (r = None \<longrightarrow> t + msecs (fl2_remaining_ms T t) \<le> t')"

definition fl2_returns :: "int \<Rightarrow> msg \<Rightarrow> fl2_phase" where
  "fl2_returns n reply = (if reply = [] then F2Printing n else F2Looping (n - 1))"

inductive fl2net_step :: "bool \<Rightarrow> zmq_envelope \<Rightarrow> fl2net \<Rightarrow> fl2net \<Rightarrow> bool" for lossy Z where
  f2_time: "f2_now s \<le> t \<Longrightarrow> fl2net_step lossy Z s (s\<lparr>f2_now := t\<rparr>)"
| f2_asks: "f2_fault s = None \<Longrightarrow> f2_phase s = F2Looping n \<Longrightarrow> n \<noteq> 0 \<Longrightarrow> flclient2_blast fl2_text (f2_client s) = Inr (c, pss) \<Longrightarrow>
    f2_now s \<le> t \<Longrightarrow>
    fl2net_step lossy Z s (s\<lparr>f2_now := t, f2_phase := F2Waiting n (t + FL2_TIMEOUT) [], f2_client := c, f2_up := fl2_blasts pss (f2_up s)\<rparr>)"
| f2_waits: "f2_fault s = None \<Longrightarrow> f2_phase s = F2Waiting n T reply \<Longrightarrow> f2_now s \<le> t \<Longrightarrow> takes (f2_down s) r down \<Longrightarrow> fl2_polls T t t' r \<Longrightarrow>
    fl2_round T (fc2_sequence (f2_client s)) (map_option (\<lambda>(k, m). arrives m) r) t' reply = Inr (False, reply') \<Longrightarrow>
    fl2net_step lossy Z s (s\<lparr>f2_now := t', f2_down := down, f2_phase := F2Waiting n T reply'\<rparr>)"
| f2_gets: "f2_fault s = None \<Longrightarrow> f2_phase s = F2Waiting n T reply \<Longrightarrow> f2_now s \<le> t \<Longrightarrow> takes (f2_down s) r down \<Longrightarrow> fl2_polls T t t' r \<Longrightarrow>
    fl2_round T (fc2_sequence (f2_client s)) (map_option (\<lambda>(k, m). arrives m) r) t' reply = Inr (True, reply') \<Longrightarrow>
    fl2net_step lossy Z s (s\<lparr>f2_now := t', f2_down := down, f2_phase := fl2_returns n reply', f2_got := f2_got s @ [reply'],
      f2_late := (if t' < T then f2_late s else insert (length (f2_got s)) (f2_late s))\<rparr>)"
| f2_fails: "f2_fault s = None \<Longrightarrow> f2_phase s = F2Waiting n T reply \<Longrightarrow> f2_now s \<le> t \<Longrightarrow> takes (f2_down s) r down \<Longrightarrow> fl2_polls T t t' r \<Longrightarrow>
    fl2_round T (fc2_sequence (f2_client s)) (map_option (\<lambda>(k, m). arrives m) r) t' reply = Inl f \<Longrightarrow>
    fl2net_step lossy Z s (s\<lparr>f2_fault := Some f\<rparr>)"
| f2_loop_ends: "f2_fault s = None \<Longrightarrow> f2_phase s = F2Looping 0 \<Longrightarrow> fl2net_step lossy Z s (s\<lparr>f2_phase := F2Printing 0\<rparr>)"
| f2_prints: "f2_fault s = None \<Longrightarrow> f2_phase s = F2Printing n \<Longrightarrow> flclient2_average elapsed n = Inr v \<Longrightarrow>
    fl2net_step lossy Z s (s\<lparr>f2_phase := F2Ended n\<rparr>)"
| f2_divides: "f2_fault s = None \<Longrightarrow> f2_phase s = F2Printing n \<Longrightarrow> flclient2_average elapsed n = Inl f \<Longrightarrow>
    fl2net_step lossy Z s (s\<lparr>f2_fault := Some f\<rparr>)"
| f2_server: "k < fc2_servers (f2_client s) \<Longrightarrow> k \<notin> f2_stopped s \<Longrightarrow> f2_up s k = m # ms \<Longrightarrow> flserver2_step (arrives (rep_in Z m)) () = Inr (Next u, os) \<Longrightarrow>
    fl2net_step lossy Z s (s\<lparr>f2_up := (f2_up s)(k := ms), f2_down := (f2_down s)(k := f2_down s k @ map (\<lambda>ps. rep_out Z (map fst ps)) os)\<rparr>)"
| f2_server_stops: "k < fc2_servers (f2_client s) \<Longrightarrow> k \<notin> f2_stopped s \<Longrightarrow> f2_up s k = m # ms \<Longrightarrow>
    flserver2_step (arrives (rep_in Z m)) () = Inr (Halt u, os) \<or> flserver2_step (arrives (rep_in Z m)) () = Inl f \<Longrightarrow>
    fl2net_step lossy Z s (s\<lparr>f2_up := (f2_up s)(k := ms), f2_stopped := insert k (f2_stopped s)\<rparr>)"
| f2_lost_up: "lossy \<Longrightarrow> f2_up s k = ms @ m # ns \<Longrightarrow> fl2net_step lossy Z s (s\<lparr>f2_up := (f2_up s)(k := ms @ ns)\<rparr>)"
| f2_lost_down: "lossy \<Longrightarrow> f2_down s k = ms @ m # ns \<Longrightarrow> fl2net_step lossy Z s (s\<lparr>f2_down := (f2_down s)(k := ms @ ns)\<rparr>)"

subsection \<open>What is under way\<close>

text \<open>Requests and answers to the first \<open>q\<close> requests.\<close>

definition fl2_seq :: "nat \<Rightarrow> frame" where
  "fl2_seq i = unsigned_string (of_nat (Suc i))"

definition fl2_up_ok :: "nat \<Rightarrow> msg \<Rightarrow> bool" where
  "fl2_up_ok q m \<longleftrightarrow> (\<exists>i < q. m = [[], fl2_seq i])"

definition fl2_down_ok :: "nat \<Rightarrow> msg \<Rightarrow> bool" where
  "fl2_down_ok q m \<longleftrightarrow> (\<exists>i < q. m = [[], fl2_seq i, ''OK''])"

text \<open>What the client may return for request \<open>i\<close>.\<close>

definition fl2_reply_ok :: "nat set \<Rightarrow> nat \<Rightarrow> msg \<Rightarrow> bool" where
  "fl2_reply_ok late i r \<longleftrightarrow> r = [fl2_seq i, ''OK''] \<or> i \<in> late \<and> (r = [] \<or> (\<exists>j < i. r = [fl2_seq j, ''OK'']))"

text \<open>The number of requests made, by the number of results and the point the client is at.\<close>

fun fl2_asked :: "fl2_phase \<Rightarrow> nat \<Rightarrow> nat" where
  "fl2_asked (F2Waiting n T reply) k = Suc k"
| "fl2_asked _ k = k"

fun fl2_phase_ok :: "fl2_phase \<Rightarrow> msg list \<Rightarrow> bool" where
  "fl2_phase_ok (F2Looping n) g \<longleftrightarrow> int (length g) + n = FL2_REQUESTS \<and> 0 \<le> n \<and> [] \<notin> set g"
| "fl2_phase_ok (F2Waiting n T reply) g \<longleftrightarrow> int (length g) + n = FL2_REQUESTS \<and> 0 < n \<and> [] \<notin> set g
     \<and> (reply = [] \<or> (\<exists>j < length g. reply = [fl2_seq j, ''OK'']))"
| "fl2_phase_ok (F2Printing n) g \<longleftrightarrow> n = 0 \<and> int (length g) = FL2_REQUESTS \<and> [] \<notin> set g
     \<or> (\<exists>g'. g = g' @ [[]] \<and> [] \<notin> set g' \<and> int (length g') + n = FL2_REQUESTS \<and> 0 < n)"
| "fl2_phase_ok (F2Ended n) g \<longleftrightarrow> (n = 0 \<and> int (length g) = FL2_REQUESTS \<and> [] \<notin> set g
     \<or> (\<exists>g'. g = g' @ [[]] \<and> [] \<notin> set g' \<and> int (length g') + n = FL2_REQUESTS \<and> 0 < n)) \<and> n < FL2_REQUESTS"

definition fl2net_inv :: "nat \<Rightarrow> fl2net \<Rightarrow> bool" where
  "fl2net_inv N s \<longleftrightarrow> fl2_phase_ok (f2_phase s) (f2_got s) \<and> f2_stopped s = {}
     \<and> f2_client s = \<lparr>fc2_servers = N, fc2_sequence = of_nat (fl2_asked (f2_phase s) (length (f2_got s)))\<rparr>
     \<and> (\<forall>i < length (f2_got s). fl2_reply_ok (f2_late s) i (f2_got s ! i))
     \<and> (f2_fault s = None \<or> f2_fault s = Some Undefined \<and> f2_got s = [[]])
     \<and> (\<forall>k. \<forall>m \<in> set (f2_up s k). fl2_up_ok (fl2_asked (f2_phase s) (length (f2_got s))) m)
     \<and> (\<forall>k. \<forall>m \<in> set (f2_down s k). fl2_down_ok (fl2_asked (f2_phase s) (length (f2_got s))) m)"

lemma seq_unat: "n < 2 ^ 31 \<Longrightarrow> unat (of_nat n :: 32 word) = n"
  by (simp add: unat_of_nat)

lemma seq_inject: "m < 2 ^ 31 \<Longrightarrow> n < 2 ^ 31 \<Longrightarrow> (of_nat m :: 32 word) = of_nat n \<longleftrightarrow> m = n"
  using seq_unat [of m] seq_unat [of n] by metis

lemma fl2_round_reads:
  assumes "Suc i < 2 ^ 31" and "q < 2 ^ 31"
  shows "fl2_round T (of_nat q) (Some (arrives [[], fl2_seq i, ''OK''])) now reply = Inr (Suc i = q \<or> \<not> now < T, [fl2_seq i, ''OK''])"
proof -
  have u: "unat (of_nat (Suc i) :: 32 word) < 2 ^ 31" using seq_unat [OF assms(1)] assms(1) by simp
  have "word_of_int (uint (of_nat (Suc i) :: 32 word)) = (of_nat q :: 32 word) \<longleftrightarrow> Suc i = q"
    using seq_inject [OF assms] by (simp del: of_nat_Suc)
  then show ?thesis by (simp add: fl2_round_def fl2_seq_def stoi_unsigned [OF u] del: of_nat_Suc)
qed

lemma fl2_round_none: "fl2_round T w None now reply = Inr (\<not> now < T, reply)"
  by (simp add: fl2_round_def)

lemma fl2_average_fails: "flclient2_average el n = Inl f \<longleftrightarrow> n = FL2_REQUESTS \<and> f = Undefined"
  by (auto simp: flclient2_average_def Let_def)

lemma fl2_blast_eq: "flclient2_blast txt c = Inr (c\<lparr>fc2_sequence := fc2_sequence c + 1\<rparr>,
    replicate (fc2_servers c) (parts_of [[], unsigned_string (fc2_sequence c + 1)]))"
  by (simp add: flclient2_blast_def Let_def del: parts_of.simps)

lemma fl2_server_eq:
  "zmq_contract Z \<Longrightarrow> flserver2_step (arrives (rep_in Z [[], f])) () = Inr (Next (), [parts_of [f, ''OK'']])
    \<and> rep_out Z (map fst (parts_of [f, ''OK''])) = [[], f, ''OK'']"
  by (simp add: flserver2_step_def zmq_contractD del: parts_of.simps)

text \<open>Whatever the client reads in a round: what it has then, and when the wait is over.\<close>

lemma fl2_round_ok:
  assumes q: "q < 2 ^ 31" "q = Suc k" and r: "takes Q r Q'" "\<And>p m. m \<in> set (Q p) \<Longrightarrow> fl2_down_ok q m"
    and reply: "reply = [] \<or> (\<exists>j < k. reply = [fl2_seq j, ''OK''])"
  shows "\<exists>over reply'. fl2_round T (of_nat q) (map_option (\<lambda>(k, m). arrives m) r) now reply = Inr (over, reply')
    \<and> (\<not> over \<longrightarrow> reply' = [] \<or> (\<exists>j < k. reply' = [fl2_seq j, ''OK'']))
    \<and> (over \<longrightarrow> reply' = [fl2_seq k, ''OK''] \<or> \<not> now < T \<and> (reply' = [] \<or> (\<exists>j < k. reply' = [fl2_seq j, ''OK''])))"
proof (cases r)
  case None
  with reply show ?thesis by (simp add: fl2_round_none)
next
  case (Some pm)
  obtain p m where pm: "pm = (p, m)" by fastforce
  with Some r(1) have "m \<in> set (Q p)" by (auto simp: takes_Some)
  from r(2) [OF this] obtain i where i: "i < q" "m = [[], fl2_seq i, ''OK'']" by (auto simp: fl2_down_ok_def)
  with q have "Suc i < 2 ^ 31" by simp
  note eq = fl2_round_reads [OF this q(1), of T now reply]
  show ?thesis using Some pm i q(2) eq by (cases "i = k") (auto simp: less_Suc_eq)
qed

lemma fl2_ok_mono: "fl2_up_ok q m \<Longrightarrow> q \<le> q' \<Longrightarrow> fl2_up_ok q' m" "fl2_down_ok q m \<Longrightarrow> q \<le> q' \<Longrightarrow> fl2_down_ok q' m"
  unfolding fl2_up_ok_def fl2_down_ok_def using less_le_trans by blast+

subsection \<open>Every step keeps it\<close>

locale fl2net_contract =
  fixes lossy :: bool and Z :: zmq_envelope and N :: nat
  assumes zmq: "zmq_contract Z"
begin

abbreviation "good \<equiv> fl2net_inv N"
abbreviation "asked s \<equiv> fl2_asked (f2_phase s) (length (f2_got s))"

lemma asked_small: "good s \<Longrightarrow> asked s < 2 ^ 31"
  by (cases "f2_phase s") (auto simp: fl2net_inv_def FL2_REQUESTS_def)

lemma connects: "(flclient2_connect ^^ n) flclient2_init = \<lparr>fc2_servers = n, fc2_sequence = 0\<rparr>"
  by (induction n) (simp_all add: flclient2_init_def flclient2_connect_def)

lemma good_start: "good (fl2net_start N t)"
  by (simp add: fl2net_inv_def fl2net_start_def connects FL2_REQUESTS_def)

lemma good_rows:
  assumes g: "good s" and up: "\<And>k m. m \<in> set (U k) \<Longrightarrow> fl2_up_ok (asked s) m" and down: "\<And>k m. m \<in> set (D k) \<Longrightarrow> fl2_down_ok (asked s) m"
  shows "good (s\<lparr>f2_up := U, f2_down := D\<rparr>)"
  using g up down by (simp add: fl2net_inv_def)

lemma rowsD:
  assumes "good s"
  shows "m \<in> set (f2_up s k) \<Longrightarrow> fl2_up_ok (asked s) m" "m \<in> set (f2_down s k) \<Longrightarrow> fl2_down_ok (asked s) m"
  using assms by (auto simp: fl2net_inv_def)

lemma fewer:
  assumes "good s"
  shows "set ms \<subseteq> set (f2_up s k) \<Longrightarrow> m \<in> set (((f2_up s)(k := ms)) j) \<Longrightarrow> fl2_up_ok (asked s) m"
    "set ms \<subseteq> set (f2_down s k) \<Longrightarrow> m \<in> set (((f2_down s)(k := ms)) j) \<Longrightarrow> fl2_down_ok (asked s) m"
  using rowsD [OF assms] by (auto split: if_splits)

text \<open>A round of the wait.\<close>

lemma wait_round:
  assumes g: "good s" and p: "f2_phase s = F2Waiting n T reply" and r: "takes (f2_down s) r down"
  shows "\<exists>over reply'. fl2_round T (fc2_sequence (f2_client s)) (map_option (\<lambda>(k, m). arrives m) r) now reply = Inr (over, reply')
    \<and> (\<not> over \<longrightarrow> reply' = [] \<or> (\<exists>j < length (f2_got s). reply' = [fl2_seq j, ''OK'']))
    \<and> (over \<longrightarrow> reply' = [fl2_seq (length (f2_got s)), ''OK''] \<or> \<not> now < T \<and> (reply' = [] \<or> (\<exists>j < length (f2_got s). reply' = [fl2_seq j, ''OK''])))"
proof -
  have q: "asked s = Suc (length (f2_got s))" by (simp add: p)
  have c: "fc2_sequence (f2_client s) = of_nat (asked s)" using g by (simp add: fl2net_inv_def)
  have "reply = [] \<or> (\<exists>j < length (f2_got s). reply = [fl2_seq j, ''OK''])" using g p by (simp add: fl2net_inv_def)
  from fl2_round_ok [OF asked_small [OF g] q r _ this] rowsD(2) [OF g] show ?thesis unfolding c by blast
qed

lemma takes_down:
  assumes "good s" and "takes (f2_down s) r down" and "m \<in> set (down k)"
  shows "fl2_down_ok (asked s) m"
proof -
  have "set (down k) \<subseteq> set (f2_down s k)" using assms(2) by (auto elim!: takes.cases split: if_splits)
  with rowsD(2) [OF assms(1)] assms(3) show ?thesis by blast
qed

lemma good_asks:
  assumes g: "good s" and f: "f2_fault s = None" and p: "f2_phase s = F2Looping n" "n \<noteq> 0"
  shows "good (s\<lparr>f2_now := t, f2_phase := F2Waiting n T [], f2_client := (f2_client s)\<lparr>fc2_sequence := fc2_sequence (f2_client s) + 1\<rparr>,
    f2_up := fl2_blasts (replicate (fc2_servers (f2_client s)) (parts_of [[], unsigned_string (fc2_sequence (f2_client s) + 1)])) (f2_up s)\<rparr>)"
proof -
  let ?k = "length (f2_got s)"
  have c: "f2_client s = \<lparr>fc2_servers = N, fc2_sequence = of_nat ?k\<rparr>" using g p by (simp add: fl2net_inv_def)
  have "fl2_up_ok (Suc ?k) m" if "m \<in> set (fl2_blasts (replicate N (parts_of [[], unsigned_string (of_nat ?k + 1)])) (f2_up s) j)" for m j
  proof (cases "m \<in> set (f2_up s j)")
    case True
    from fl2_ok_mono(1) [OF rowsD(1) [OF g this], of "Suc ?k"] p(1) show ?thesis by simp
  next
    case False
    with that have "m = [[], fl2_seq ?k]" by (auto simp: fl2_blasts_def fl2_seq_def add.commute split: if_splits simp del: parts_of.simps)
    then show ?thesis by (auto simp: fl2_up_ok_def)
  qed
  moreover have "fl2_down_ok (Suc ?k) m" if "m \<in> set (f2_down s j)" for m j
    using fl2_ok_mono(2) [OF rowsD(2) [OF g that], of "Suc ?k"] p(1) by simp
  ultimately show ?thesis using g f p c by (simp add: fl2net_inv_def add.commute del: parts_of.simps)
qed

lemma good_returns:
  assumes g: "good s" and f: "f2_fault s = None" and p: "f2_phase s = F2Waiting n T reply" and d: "takes (f2_down s) r down"
    and r: "r' = [fl2_seq (length (f2_got s)), ''OK''] \<or> \<not> t' < T \<and> (r' = [] \<or> (\<exists>j < length (f2_got s). r' = [fl2_seq j, ''OK'']))"
  shows "good (s\<lparr>f2_now := t', f2_down := down, f2_phase := fl2_returns n r', f2_got := f2_got s @ [r'],
      f2_late := (if t' < T then f2_late s else insert (length (f2_got s)) (f2_late s))\<rparr>)" (is "good ?t")
proof -
  let ?k = "length (f2_got s)"
  have old: "fl2_reply_ok (f2_late ?t) i (f2_got s ! i)" if "i < ?k" for i
    using g that by (auto simp: fl2net_inv_def fl2_reply_ok_def)
  have "fl2_reply_ok (f2_late ?t) ?k r'" using r by (auto simp: fl2_reply_ok_def)
  with old have replies: "\<forall>i < length (f2_got ?t). fl2_reply_ok (f2_late ?t) i (f2_got ?t ! i)"
    by (auto simp: nth_append less_Suc_eq)
  have a: "asked ?t = asked s" by (simp add: p fl2_returns_def)
  have ph: "fl2_phase_ok (f2_phase ?t) (f2_got ?t)" using g p by (auto simp: fl2net_inv_def fl2_returns_def)
  have "\<forall>k. \<forall>m \<in> set (f2_down ?t k). fl2_down_ok (asked s) m" using takes_down [OF g d] by simp
  with replies ph g f a show ?thesis unfolding fl2net_inv_def by simp
qed

lemma good_step: "good s \<Longrightarrow> fl2net_step lossy Z s t \<Longrightarrow> good t"
proof -
  assume g: "good s" and st: "fl2net_step lossy Z s t"
  from st show "good t"
  proof cases
    case (f2_time t)
    with g show ?thesis by (simp add: fl2net_inv_def)
  next
    case (f2_asks n c pss t)
    then have "c = (f2_client s)\<lparr>fc2_sequence := fc2_sequence (f2_client s) + 1\<rparr>"
      "pss = replicate (fc2_servers (f2_client s)) (parts_of [[], unsigned_string (fc2_sequence (f2_client s) + 1)])"
      by (simp_all add: fl2_blast_eq del: parts_of.simps)
    with good_asks [OF g f2_asks(2,3,4)] f2_asks(1) show ?thesis by simp
  next
    case (f2_waits n T reply t r down t' reply')
    from wait_round [OF g f2_waits(3,5), of t'] f2_waits(7)
    have "reply' = [] \<or> (\<exists>j < length (f2_got s). reply' = [fl2_seq j, ''OK''])" by auto
    with g f2_waits takes_down [OF g f2_waits(5)] show ?thesis by (simp add: fl2net_inv_def)
  next
    case (f2_gets n T reply t r down t' reply')
    from wait_round [OF g f2_gets(3,5), of t'] f2_gets(7)
    have "reply' = [fl2_seq (length (f2_got s)), ''OK''] \<or> \<not> t' < T \<and> (reply' = [] \<or> (\<exists>j < length (f2_got s). reply' = [fl2_seq j, ''OK'']))"
      by auto
    from good_returns [OF g f2_gets(2,3,5) this] f2_gets(1) show ?thesis by simp
  next
    case (f2_fails n T reply t r down t' f)
    from wait_round [OF g f2_fails(3,5), of t'] f2_fails(7) show ?thesis by auto
  next
    case f2_loop_ends
    with g show ?thesis by (auto simp: fl2net_inv_def)
  next
    case (f2_prints n el v)
    then have "n \<noteq> FL2_REQUESTS" using fl2_average_fails [of el n Undefined] by auto
    with g f2_prints show ?thesis by (auto simp: fl2net_inv_def FL2_REQUESTS_def)
  next
    case (f2_divides n el f)
    with fl2_average_fails [of el n f] g have "f = Undefined" "f2_got s = [[]]" by (auto simp: fl2net_inv_def FL2_REQUESTS_def)
    with g f2_divides show ?thesis by (simp add: fl2net_inv_def)
  next
    case (f2_server k m ms u os)
    then have m: "m \<in> set (f2_up s k)" by simp
    from rowsD(1) [OF g this] obtain i where i: "i < asked s" "m = [[], fl2_seq i]" by (auto simp: fl2_up_ok_def)
    with f2_server fl2_server_eq [OF zmq, of "fl2_seq i"] have os: "map (\<lambda>ps. rep_out Z (map fst ps)) os = [[[], fl2_seq i, ''OK'']]"
      by (auto simp del: parts_of.simps)
    have "good (s\<lparr>f2_up := (f2_up s)(k := ms), f2_down := (f2_down s)(k := f2_down s k @ [[[], fl2_seq i, ''OK'']])\<rparr>)"
    proof (rule good_rows [OF g])
      fix j m' assume "m' \<in> set (((f2_up s)(k := ms)) j)"
      then show "fl2_up_ok (asked s) m'" by (rule fewer(1) [OF g, rotated]) (use f2_server(4) in auto)
    next
      fix j m' assume "m' \<in> set (((f2_down s)(k := f2_down s k @ [[[], fl2_seq i, ''OK'']])) j)"
      then have "m' \<in> set (f2_down s j) \<or> m' = [[], fl2_seq i, ''OK'']" by (auto split: if_splits)
      then show "fl2_down_ok (asked s) m'" using rowsD(2) [OF g] i(1) by (auto simp: fl2_down_ok_def)
    qed
    with f2_server(1) os show ?thesis by simp
  next
    case (f2_server_stops k m ms u os f)
    then have m: "m \<in> set (f2_up s k)" by simp
    from rowsD(1) [OF g this] obtain i where "m = [[], fl2_seq i]" by (auto simp: fl2_up_ok_def)
    with f2_server_stops fl2_server_eq [OF zmq, of "fl2_seq i"] show ?thesis by auto
  next
    case (f2_lost_up k ms m ns)
    have "good (s\<lparr>f2_up := (f2_up s)(k := ms @ ns), f2_down := f2_down s\<rparr>)"
      by (rule good_rows [OF g fewer(1) [OF g] rowsD(2) [OF g]]) (use f2_lost_up in auto)
    with f2_lost_up show ?thesis by simp
  next
    case (f2_lost_down k ms m ns)
    have "good (s\<lparr>f2_up := f2_up s, f2_down := (f2_down s)(k := ms @ ns)\<rparr>)"
      by (rule good_rows [OF g rowsD(1) [OF g] fewer(2) [OF g]]) (use f2_lost_down in auto)
    with f2_lost_down show ?thesis by simp
  qed
qed

lemma system: "invariant_system (fl2net_start N t) (fl2net_step lossy Z) good"
  by unfold_locales (rule good_start, rule good_step)

text \<open>A round in which server 0 answers at once, the others not at all.\<close>

lemma round:
  assumes g: "good s" and f: "f2_fault s = None" and p: "f2_phase s = F2Looping n" "n \<noteq> 0" and N: "0 < N"
    and rows: "f2_up s 0 = []" "f2_down s 0 = []"
  shows "\<exists>t. (fl2net_step lossy Z)\<^sup>*\<^sup>* s t \<and> f2_phase t = F2Looping (n - 1) \<and> f2_got t = f2_got s @ [[fl2_seq (length (f2_got s)), ''OK'']]
    \<and> f2_fault t = None \<and> f2_up t 0 = [] \<and> f2_down t 0 = [] \<and> f2_late t = f2_late s
    \<and> f2_now t = f2_now s \<and> (\<forall>k. 0 < k \<longrightarrow> k < N \<longrightarrow> f2_up t k = f2_up s k @ [[[], fl2_seq (length (f2_got s))]] \<and> f2_down t k = f2_down s k)"
proof -
  let ?k = "length (f2_got s)" and ?T = "f2_now s + FL2_TIMEOUT"
  let ?pss = "replicate N (parts_of [[], fl2_seq ?k])"
  have c: "f2_client s = \<lparr>fc2_servers = N, fc2_sequence = of_nat ?k\<rparr>" using g p by (simp add: fl2net_inv_def)
  have st: "f2_stopped s = {}" using g by (simp add: fl2net_inv_def)
  define s1 where "s1 = s\<lparr>f2_now := f2_now s, f2_phase := F2Waiting n ?T [], f2_client := \<lparr>fc2_servers = N, fc2_sequence = of_nat (Suc ?k)\<rparr>,
    f2_up := fl2_blasts ?pss (f2_up s)\<rparr>"
  have 1: "fl2net_step lossy Z s s1" unfolding s1_def
    by (rule f2_asks [OF f p]) (simp_all add: fl2_blast_eq c fl2_seq_def add.commute del: parts_of.simps)
  have g1: "good s1" by (rule good_step [OF g 1])
  have u1: "f2_up s1 0 = [[[], fl2_seq ?k]]" using N rows by (simp add: s1_def fl2_blasts_def del: parts_of.simps)
  define s2 where "s2 = s1\<lparr>f2_up := (f2_up s1)(0 := []), f2_down := (f2_down s1)(0 := [[[], fl2_seq ?k, ''OK'']])\<rparr>"
  have "fl2net_step lossy Z s1 (s1\<lparr>f2_up := (f2_up s1)(0 := []), f2_down := (f2_down s1)(0 := f2_down s1 0 @
      map (\<lambda>ps. rep_out Z (map fst ps)) [parts_of [fl2_seq ?k, ''OK'']])\<rparr>)"
    by (rule f2_server [OF _ _ u1]) (use N st fl2_server_eq [OF zmq] in \<open>simp_all add: s1_def del: parts_of.simps\<close>)
  then have 2: "fl2net_step lossy Z s1 s2" using rows fl2_server_eq [OF zmq, of "fl2_seq ?k"] by (simp add: s2_def s1_def del: parts_of.simps)
  have g2: "good s2" by (rule good_step [OF g1 2])
  have T: "f2_now s < ?T" by (simp add: FL2_TIMEOUT_def msecs_def)
  define s3 where "s3 = s2\<lparr>f2_now := f2_now s, f2_down := (f2_down s2)(0 := []), f2_phase := fl2_returns n [fl2_seq ?k, ''OK''],
    f2_got := f2_got s2 @ [[fl2_seq ?k, ''OK'']], f2_late := (if f2_now s < ?T then f2_late s2 else insert (length (f2_got s2)) (f2_late s2))\<rparr>"
  have 3: "fl2net_step lossy Z s2 s3" unfolding s3_def
  proof (rule f2_gets [where t = "f2_now s" and r = "Some (0, [[], fl2_seq ?k, ''OK''])"])
    show "takes (f2_down s2) (Some (0, [[], fl2_seq ?k, ''OK''])) ((f2_down s2)(0 := []))"
      by (rule takes_some) (simp add: s2_def)
    have "Suc ?k < 2 ^ 31" using asked_small [OF g1] by (simp add: s1_def)
    with fl2_round_reads [OF this this, of ?T "f2_now s" "[]"]
    show "fl2_round ?T (fc2_sequence (f2_client s2)) (map_option (\<lambda>(k, m). arrives m) (Some (0, [[], fl2_seq ?k, ''OK'']))) (f2_now s) []
      = Inr (True, [fl2_seq ?k, ''OK''])" by (simp add: s2_def s1_def del: of_nat_Suc)
  qed (use f in \<open>simp_all add: s2_def s1_def fl2_polls_def\<close>)
  have "(fl2net_step lossy Z)\<^sup>*\<^sup>* s s3" using 1 2 3 by (meson rtranclp.rtrancl_into_rtrancl rtranclp.rtrancl_refl)
  moreover have "\<forall>k. 0 < k \<longrightarrow> k < N \<longrightarrow> f2_up s3 k = f2_up s k @ [[[], fl2_seq ?k]] \<and> f2_down s3 k = f2_down s k"
    by (simp add: s3_def s2_def s1_def fl2_blasts_def del: parts_of.simps)
  ultimately show ?thesis using f T by (intro exI [of _ s3]) (simp add: s3_def s2_def s1_def fl2_returns_def)
qed

lemma rounds:
  assumes "good s" and "f2_fault s = None" and "f2_phase s = F2Looping (int n)" and "0 < N" and "f2_up s 0 = []" "f2_down s 0 = []"
  shows "\<exists>t. (fl2net_step lossy Z)\<^sup>*\<^sup>* s t \<and> f2_phase t = F2Looping 0 \<and> f2_fault t = None \<and> f2_late t = f2_late s \<and> length (f2_got t) = length (f2_got s) + n"
  using assms
proof (induction n arbitrary: s)
  case 0
  then show ?case by auto
next
  case (Suc n)
  from round [OF Suc.prems(1,2,3) _ Suc.prems(4-6)] obtain t where t: "(fl2net_step lossy Z)\<^sup>*\<^sup>* s t" "f2_phase t = F2Looping (int n)"
    "length (f2_got t) = Suc (length (f2_got s))" "f2_fault t = None" "f2_up t 0 = []" "f2_down t 0 = []" "f2_late t = f2_late s" by auto
  have "good t" by (rule invariant_system.inv_steps [OF system t(1) Suc.prems(1)])
  from Suc.IH [OF this t(4,2) Suc.prems(4) t(5,6)] t show ?case by (metis add_Suc add_Suc_right rtranclp_trans)
qed

text \<open>An answer left over from the first request is returned for the second, when nothing else comes in time.\<close>

lemma stale_answer:
  assumes N: "1 < N"
  shows "\<exists>s. (fl2net_step lossy Z)\<^sup>*\<^sup>* (fl2net_start N t) s \<and> f2_got s = [[fl2_seq 0, ''OK''], [fl2_seq 0, ''OK'']]"
proof -
  let ?s = "fl2net_start N t"
  have "f2_fault ?s = None" "f2_phase ?s = F2Looping FL2_REQUESTS" "FL2_REQUESTS \<noteq> 0" "0 < N" "f2_up ?s 0 = []" "f2_down ?s 0 = []"
    using N by (simp_all add: fl2net_start_def FL2_REQUESTS_def)
  from round [OF good_start this] N obtain a where a: "(fl2net_step lossy Z)\<^sup>*\<^sup>* ?s a" "f2_phase a = F2Looping (FL2_REQUESTS - 1)"
    "f2_got a = [[fl2_seq 0, ''OK'']]" "f2_fault a = None" "f2_up a 1 = [[[], fl2_seq 0]]" "f2_down a 1 = []"
    by (auto simp: fl2net_start_def)
  have ga: "good a" by (rule invariant_system.inv_reachable [OF system a(1)])
  have c: "f2_client a = \<lparr>fc2_servers = N, fc2_sequence = of_nat 1\<rparr>" "f2_stopped a = {}"
    using ga a(2,3) by (simp_all add: fl2net_inv_def)
  define b where "b = a\<lparr>f2_up := (f2_up a)(1 := []), f2_down := (f2_down a)(1 := [[[], fl2_seq 0, ''OK'']])\<rparr>"
  have "fl2net_step lossy Z a (a\<lparr>f2_up := (f2_up a)(1 := []), f2_down := (f2_down a)(1 := f2_down a 1 @
      map (\<lambda>ps. rep_out Z (map fst ps)) [parts_of [fl2_seq 0, ''OK'']])\<rparr>)"
    by (rule f2_server [OF _ _ a(5)]) (use N c fl2_server_eq [OF zmq] in \<open>simp_all del: parts_of.simps\<close>)
  then have ab: "fl2net_step lossy Z a b" using a(6) fl2_server_eq [OF zmq, of "fl2_seq 0"] by (simp add: b_def del: parts_of.simps)
  let ?now = "f2_now a" and ?n = "FL2_REQUESTS - 1"
  let ?T = "?now + FL2_TIMEOUT"
  define d where "d = b\<lparr>f2_now := ?now, f2_phase := F2Waiting ?n ?T [], f2_client := \<lparr>fc2_servers = N, fc2_sequence = of_nat 2\<rparr>,
    f2_up := fl2_blasts (replicate N (parts_of [[], fl2_seq 1])) (f2_up b)\<rparr>"
  have bd: "fl2net_step lossy Z b d" unfolding d_def
    by (rule f2_asks) (use a c in \<open>simp_all add: b_def fl2_blast_eq fl2_seq_def FL2_REQUESTS_def del: parts_of.simps\<close>)
  have T: "?now < ?T" by (simp add: FL2_TIMEOUT_def msecs_def)
  define e where "e = d\<lparr>f2_now := ?now, f2_down := (f2_down d)(1 := []), f2_phase := F2Waiting ?n ?T [fl2_seq 0, ''OK'']\<rparr>"
  have de: "fl2net_step lossy Z d e" unfolding e_def
  proof (rule f2_waits [where t = ?now and r = "Some (1, [[], fl2_seq 0, ''OK''])"])
    show "takes (f2_down d) (Some (1, [[], fl2_seq 0, ''OK''])) ((f2_down d)(1 := []))"
      by (rule takes_some) (simp add: d_def b_def)
    show "fl2_round ?T (fc2_sequence (f2_client d)) (map_option (\<lambda>(k, m). arrives m) (Some (1, [[], fl2_seq 0, ''OK'']))) ?now []
      = Inr (False, [fl2_seq 0, ''OK''])"
      using fl2_round_reads [of 0 2 ?T ?now "[]"] T by (simp add: d_def)
  qed (use a in \<open>simp_all add: d_def b_def fl2_polls_def\<close>)
  define f where "f = e\<lparr>f2_now := ?T, f2_down := f2_down e, f2_phase := fl2_returns ?n [fl2_seq 0, ''OK''],
    f2_got := f2_got e @ [[fl2_seq 0, ''OK'']], f2_late := (if ?T < ?T then f2_late e else insert (length (f2_got e)) (f2_late e))\<rparr>"
  have ef: "fl2net_step lossy Z e f" unfolding f_def
    by (rule f2_gets [where t = ?now and r = None])
      (use a in \<open>simp_all add: e_def d_def b_def fl2_polls_def takes_none fl2_round_none fl2_remaining_ms_def FL2_TIMEOUT_def msecs_def trunc_div_def\<close>)
  have "(fl2net_step lossy Z)\<^sup>*\<^sup>* ?s f" using a(1) ab bd de ef by (meson rtranclp.rtrancl_into_rtrancl)
  moreover have "f2_got f = [[fl2_seq 0, ''OK''], [fl2_seq 0, ''OK'']]" using a by (simp add: f_def e_def d_def b_def)
  ultimately show ?thesis by blast
qed

lemma all_served:
  assumes "0 < N"
  shows "\<exists>u. (fl2net_step lossy Z)\<^sup>*\<^sup>* (fl2net_start N t) u \<and> f2_phase u = F2Ended 0 \<and> f2_late u = {} \<and> length (f2_got u) = 10000"
proof -
  let ?s = "fl2net_start N t"
  have "f2_fault ?s = None" "f2_phase ?s = F2Looping (int 10000)" "f2_up ?s 0 = []" "f2_down ?s 0 = []" "f2_late ?s = {}" "f2_got ?s = []"
    by (simp_all add: fl2net_start_def FL2_REQUESTS_def)
  with rounds [OF good_start this(1,2) assms this(3,4)] obtain u where u: "(fl2net_step lossy Z)\<^sup>*\<^sup>* ?s u" "f2_phase u = F2Looping 0"
    "f2_fault u = None" "f2_late u = {}" "length (f2_got u) = 10000" by auto
  have 1: "fl2net_step lossy Z u (u\<lparr>f2_phase := F2Printing 0\<rparr>)" by (rule f2_loop_ends [OF u(3,2)])
  have 2: "fl2net_step lossy Z (u\<lparr>f2_phase := F2Printing 0\<rparr>) (u\<lparr>f2_phase := F2Printing 0\<rparr>\<lparr>f2_phase := F2Ended 0\<rparr>)"
    by (rule f2_prints [of _ 0 0 "(0, 0)"]) (use u in \<open>simp_all add: flclient2_average_def FL2_REQUESTS_def trunc_div_def\<close>)
  have "(fl2net_step lossy Z)\<^sup>*\<^sup>* ?s (u\<lparr>f2_phase := F2Printing 0\<rparr>\<lparr>f2_phase := F2Ended 0\<rparr>)"
    using u(1) 1 2 by (meson rtranclp.rtrancl_into_rtrancl)
  with u show ?thesis by (intro exI [of _ "u\<lparr>f2_phase := F2Printing 0\<rparr>\<lparr>f2_phase := F2Ended 0\<rparr>"]) simp
qed

end

interpretation fl2net_std: fl2net_contract lossy zmq_std N for lossy N
  by unfold_locales simp

lemma fl2_loop_reads: "[] \<notin> set g \<Longrightarrow> 0 \<le> n \<Longrightarrow> flclient2_loop (int (length g) + n) (g @ h) = flclient2_loop n h"
proof (induction g)
  case (Cons r g)
  then have "int (length (r # g)) + n \<noteq> 0" "r \<noteq> []" by auto
  with Cons show ?case by (simp add: algebra_simps)
qed simp

lemma fl2_ended_loop: "fl2_phase_ok (F2Ended n) g \<Longrightarrow> flclient2_loop FL2_REQUESTS g = Some n"
proof -
  assume "fl2_phase_ok (F2Ended n) g"
  then consider "n = 0" "int (length g) = FL2_REQUESTS" "[] \<notin> set g"
    | g' where "g = g' @ [[]]" "[] \<notin> set g'" "int (length g') + n = FL2_REQUESTS" "0 < n" by auto
  then show ?thesis
  proof cases
    case 1
    with fl2_loop_reads [of g 0 "[]"] show ?thesis by simp
  next
    case 2
    with fl2_loop_reads [of g' n "[[]]"] show ?thesis by simp
  qed
qed

text \<open>
  C19: in every interleaving of the client of the second freelance model and its servers, with any clock
  readings and losses: no server stops, and nothing fails except the division by the number of replies when the
  first request got none. What the client returns for a request is the answer to that request; only when the time
  for the request is over it may be empty, or the answer to an earlier request. With a server that answers, the
  client can get all its ten thousand answers.
\<close>

theorem freelance2_answers:
  assumes Z: "zmq_contract Z" and r: "(fl2net_step lossy Z)\<^sup>*\<^sup>* (fl2net_start N t) s"
  shows "f2_stopped s = {} \<and> (\<forall>i < length (f2_got s). fl2_reply_ok (f2_late s) i (f2_got s ! i))
    \<and> (f2_fault s = None \<or> f2_fault s = Some Undefined \<and> f2_got s = [[]])
    \<and> (\<forall>n. f2_phase s = F2Ended n \<longrightarrow> flclient2_loop FL2_REQUESTS (f2_got s) = Some n)
    \<and> (0 < N \<longrightarrow> (\<exists>u. (fl2net_step False Z)\<^sup>*\<^sup>* (fl2net_start N t) u \<and> f2_phase u = F2Ended 0 \<and> f2_late u = {} \<and> length (f2_got u) = 10000))"
proof -
  have c: "fl2net_contract Z" by (rule fl2net_contract.intro [OF Z])
  from invariant_system.inv_reachable [OF fl2net_contract.system [OF c] r] have g: "fl2net_inv N s" .
  have "flclient2_loop FL2_REQUESTS (f2_got s) = Some n" if "f2_phase s = F2Ended n" for n
    by (rule fl2_ended_loop) (use g that in \<open>simp add: fl2net_inv_def\<close>)
  with g fl2net_contract.all_served [OF c, of N False t] show ?thesis by (simp add: fl2net_inv_def del: flclient2_loop.simps)
qed

theorem freelance2_answers_witness:
  "\<exists>s. (fl2net_step False zmq_std)\<^sup>*\<^sup>* (fl2net_start 2 0) s \<and> f2_got s = [[fl2_seq 0, ''OK''], [fl2_seq 0, ''OK'']]
    \<and> fl2_reply_ok (f2_late s) 1 [fl2_seq 0, ''OK''] \<and> f2_stopped s = {}"
proof -
  obtain s where r: "(fl2net_step False zmq_std)\<^sup>*\<^sup>* (fl2net_start 2 0) s" and got: "f2_got s = [[fl2_seq 0, ''OK''], [fl2_seq 0, ''OK'']]"
    using fl2net_std.stale_answer [of 2] by auto
  have "1 < length (f2_got s)" "f2_got s ! 1 = [fl2_seq 0, ''OK'']" using got by simp_all
  with freelance2_answers [OF zmq_std_contract r] r got show ?thesis by metis
qed

end
