(* ===== verification/TrippingNet.thy ===== *)
theory TrippingNet
  imports Proxies Sockets Systems "HOL-Library.Sublist"
begin

text \<open>
  The round-trip demonstrator (\<open>round-trip-demonstrator/tripping.cpp\<close>) as a system: main, client, worker
  and broker thread. The broker's ROUTER sockets discard what is addressed to a peer that is not connected yet, and
  what is addressed to a peer for which too much is waiting already: the client and the worker lift the limits on
  their own sockets, the broker keeps the default. The client pauses at its start to get around the first; nothing
  gets around the second in the asynchronous test. The lemmas: the invariant, a rank that every step raises, where
  a run can end, and runs that end well and badly.
\<close>

subsection \<open>The client\<close>

definition SYNC_CALLS :: nat where
  "SYNC_CALLS = 10000"

definition ASYNC_CALLS :: nat where
  "ASYNC_CALLS = 100000"

datatype trip_client = Pausing | SyncSend nat | SyncRecv nat | AsyncSend nat | AsyncRecv nat | ClientDone

text \<open>What the client does next, by the point it is at: go on, send, receive, or end a test.\<close>

fun trip_turns :: "trip_client \<Rightarrow> trip_client option" where
  "trip_turns Pausing = Some (SyncSend 0)"
| "trip_turns (AsyncSend i) = (if i < ASYNC_CALLS then None else Some (AsyncRecv 0))"
| "trip_turns _ = None"

fun trip_sends :: "trip_client \<Rightarrow> (frame \<times> trip_client) option" where
  "trip_sends (SyncSend i) = (if i < SYNC_CALLS then Some (nat_string i, SyncRecv i) else None)"
| "trip_sends (AsyncSend i) = (if i < ASYNC_CALLS then Some (nat_string i, AsyncSend (Suc i)) else None)"
| "trip_sends _ = None"

fun trip_gets :: "trip_client \<Rightarrow> trip_client option" where
  "trip_gets (SyncRecv i) = Some (SyncSend (Suc i))"
| "trip_gets (AsyncRecv i) = (if i < ASYNC_CALLS then Some (AsyncRecv (Suc i)) else None)"
| "trip_gets _ = None"

fun trip_ends :: "trip_client \<Rightarrow> (nat \<times> trip_client) option" where
  "trip_ends (SyncSend i) = (if i < SYNC_CALLS then None else Some (SYNC_CALLS, AsyncSend 0))"
| "trip_ends (AsyncRecv i) = (if i < ASYNC_CALLS then None else Some (ASYNC_CALLS, ClientDone))"
| "trip_ends _ = None"

subsection \<open>The threads\<close>

text \<open>
  \<open>tp_lost\<close> counts the messages the broker's sockets have discarded; it is not a variable of the program.
\<close>

record trip =
  tp_client :: trip_client
  tp_got :: "frame list"
  tp_fe_in :: "msg list"
  tp_be_out :: "msg list"
  tp_be_in :: "msg list"
  tp_fe_out :: "msg list"
  tp_connected :: bool
  tp_lost :: nat
  tp_returned :: bool
  tp_fault :: "fault option"

definition trip_init :: trip where
  "trip_init = \<lparr>tp_client = Pausing, tp_got = [], tp_fe_in = [], tp_be_out = [], tp_be_in = [], tp_fe_out = [],
     tp_connected = False, tp_lost = 0, tp_returned = False, tp_fault = None\<rparr>"

definition trip_running :: "trip \<Rightarrow> bool" where
  "trip_running s \<longleftrightarrow> \<not> tp_returned s \<and> tp_fault s = None"

definition trip_polls :: "zmq_envelope \<Rightarrow> msg option \<Rightarrow> msg option \<Rightarrow> poll_in" where
  "trip_polls Z rf rb = \<lparr>poll_be = map_option (\<lambda>m. arrives (router_in Z worker_id m)) rb,
     poll_fe = map_option (\<lambda>m. arrives (router_in Z client_id m)) rf\<rparr>"

text \<open>
  What becomes of what the broker sends: \<open>dw\<close> and \<open>dc\<close> say that the message for the worker, or the one for the
  client, is discarded because too many are waiting for that peer. What is for a worker that is not connected is
  discarded in any case. The client is connected when it has sent something.
\<close>

definition trip_broker_sends :: "zmq_envelope \<Rightarrow> sent list \<Rightarrow> bool \<Rightarrow> bool \<Rightarrow> trip \<Rightarrow> trip" where
  "trip_broker_sends Z os dw dc s =
     (let to_worker = addressed Z worker_id (sent_on Backend os); to_client = addressed Z client_id (sent_on Frontend os);
          w = (if tp_connected s \<and> \<not> dw then to_worker else []); c = (if dc then [] else to_client)
      in s\<lparr>tp_be_out := tp_be_out s @ w, tp_fe_out := tp_fe_out s @ c,
           tp_lost := tp_lost s + (length to_worker - length w) + (length to_client - length c)\<rparr>)"

text \<open>
  \<open>hwm\<close> is the least number of messages waiting for a peer at which the broker's sockets may discard the next: they
  are left at the library's default limit, which is 1000, and the library does not promise to take as many. Where the
  messages wait, in a queue of the library or on the way, is not known to the program: with \<open>hwm\<close> of them or more
  not yet received, the next may be taken or discarded; with fewer it is taken. The limit on what the broker receives holds
  up its peers, whose own queues have no limit, and loses nothing.
\<close>

inductive trip_step :: "zmq_envelope \<Rightarrow> nat \<Rightarrow> trip \<Rightarrow> trip \<Rightarrow> bool" for Z hwm where
  trip_client_turns: "trip_running s \<Longrightarrow> trip_turns (tp_client s) = Some c \<Longrightarrow> trip_step Z hwm s (s\<lparr>tp_client := c\<rparr>)"
| trip_client_sends: "trip_running s \<Longrightarrow> trip_sends (tp_client s) = Some (v, c) \<Longrightarrow>
    trip_step Z hwm s (s\<lparr>tp_client := c, tp_fe_in := tp_fe_in s @ [[v]]\<rparr>)"
| trip_client_gets: "trip_running s \<Longrightarrow> trip_gets (tp_client s) = Some c \<Longrightarrow> tp_fe_out s = m # ms \<Longrightarrow>
    recv_part (arrives m) = Inr (v, []) \<Longrightarrow>
    trip_step Z hwm s (s\<lparr>tp_client := c, tp_fe_out := ms, tp_got := tp_got s @ [v]\<rparr>)"
| trip_test_ends: "trip_running s \<Longrightarrow> trip_ends (tp_client s) = Some (n, c) \<Longrightarrow> tripping_rate elapsed n = Inr rate \<Longrightarrow>
    trip_step Z hwm s (s\<lparr>tp_client := c\<rparr>)"
| trip_test_fails: "trip_running s \<Longrightarrow> trip_ends (tp_client s) = Some (n, c) \<Longrightarrow> tripping_rate elapsed n = Inl f \<Longrightarrow>
    trip_step Z hwm s (s\<lparr>tp_fault := Some f\<rparr>)"
| trip_main_returns: "trip_running s \<Longrightarrow> tp_client s = ClientDone \<Longrightarrow> trip_step Z hwm s (s\<lparr>tp_returned := True\<rparr>)"
| trip_worker_connects: "trip_running s \<Longrightarrow> \<not> tp_connected s \<Longrightarrow> trip_step Z hwm s (s\<lparr>tp_connected := True\<rparr>)"
| trip_worker_echoes: "trip_running s \<Longrightarrow> tp_connected s \<Longrightarrow> tp_be_out s = m # ms \<Longrightarrow>
    tripping_worker_step (arrives m) () = Inr (Next u, os) \<Longrightarrow>
    trip_step Z hwm s (s\<lparr>tp_be_out := ms, tp_be_in := tp_be_in s @ map (map fst) os\<rparr>)"
| trip_worker_fails: "trip_running s \<Longrightarrow> tp_connected s \<Longrightarrow> tp_be_out s = m # ms \<Longrightarrow>
    tripping_worker_step (arrives m) () = Inl f \<Longrightarrow> trip_step Z hwm s (s\<lparr>tp_fault := Some f\<rparr>)"
| trip_broker_turns: "trip_running s \<Longrightarrow> takes_first (tp_fe_in s) rf fe \<Longrightarrow> takes_first (tp_be_in s) rb be \<Longrightarrow> rf \<noteq> None \<or> rb \<noteq> None \<Longrightarrow>
    tripping_broker_step (trip_polls Z rf rb) () = Inr (Next u, os) \<Longrightarrow>
    (dw \<longrightarrow> hwm \<le> length (tp_be_out s)) \<Longrightarrow> (dc \<longrightarrow> hwm \<le> length (tp_fe_out s)) \<Longrightarrow>
    trip_step Z hwm s (trip_broker_sends Z os dw dc (s\<lparr>tp_fe_in := fe, tp_be_in := be\<rparr>))"
| trip_broker_fails: "trip_running s \<Longrightarrow> takes_first (tp_fe_in s) rf fe \<Longrightarrow> takes_first (tp_be_in s) rb be \<Longrightarrow> rf \<noteq> None \<or> rb \<noteq> None \<Longrightarrow>
    tripping_broker_step (trip_polls Z rf rb) () = Inl f \<Longrightarrow> trip_step Z hwm s (s\<lparr>tp_fault := Some f\<rparr>)"

subsection \<open>The invariant and the rank\<close>

definition trip_values :: "frame list" where
  "trip_values = map nat_string [0..<SYNC_CALLS] @ map nat_string [0..<ASYNC_CALLS]"

fun trip_ok :: "trip_client \<Rightarrow> bool" where
  "trip_ok (SyncSend i) \<longleftrightarrow> i \<le> SYNC_CALLS"
| "trip_ok (SyncRecv i) \<longleftrightarrow> i < SYNC_CALLS"
| "trip_ok (AsyncSend i) \<longleftrightarrow> i \<le> ASYNC_CALLS"
| "trip_ok (AsyncRecv i) \<longleftrightarrow> i \<le> ASYNC_CALLS"
| "trip_ok _ \<longleftrightarrow> True"

text \<open>How much the client has sent and read, and the number of steps it has made.\<close>

fun trip_sent :: "trip_client \<Rightarrow> nat" where
  "trip_sent Pausing = 0"
| "trip_sent (SyncSend i) = i"
| "trip_sent (SyncRecv i) = Suc i"
| "trip_sent (AsyncSend i) = SYNC_CALLS + i"
| "trip_sent _ = SYNC_CALLS + ASYNC_CALLS"

fun trip_read :: "trip_client \<Rightarrow> nat" where
  "trip_read Pausing = 0"
| "trip_read (SyncSend i) = i"
| "trip_read (SyncRecv i) = i"
| "trip_read (AsyncSend i) = SYNC_CALLS"
| "trip_read (AsyncRecv i) = SYNC_CALLS + i"
| "trip_read ClientDone = SYNC_CALLS + ASYNC_CALLS"

fun trip_point :: "trip_client \<Rightarrow> nat" where
  "trip_point Pausing = 0"
| "trip_point (SyncSend i) = 1 + 2 * i"
| "trip_point (SyncRecv i) = 2 + 2 * i"
| "trip_point (AsyncSend i) = 2 + 2 * SYNC_CALLS + i"
| "trip_point (AsyncRecv i) = 3 + 2 * SYNC_CALLS + ASYNC_CALLS + i"
| "trip_point ClientDone = 4 + 2 * SYNC_CALLS + 2 * ASYNC_CALLS"

definition trip_under_way :: "trip \<Rightarrow> msg list" where
  "trip_under_way s = tp_fe_out s @ tp_be_in s @ tp_be_out s @ tp_fe_in s"

abbreviation singles :: "frame list \<Rightarrow> msg list" where
  "singles \<equiv> map (\<lambda>v. [v])"

fun trip_async :: "trip_client \<Rightarrow> bool" where
  "trip_async (AsyncSend i) \<longleftrightarrow> True"
| "trip_async (AsyncRecv i) \<longleftrightarrow> True"
| "trip_async _ \<longleftrightarrow> False"

definition trip_inv :: "trip \<Rightarrow> bool" where
  "trip_inv s \<longleftrightarrow> trip_ok (tp_client s) \<and> (tp_fault s = None \<or> tp_fault s = Some Undefined \<and> trip_ends (tp_client s) \<noteq> None)
     \<and> (tp_returned s \<longrightarrow> tp_client s = ClientDone) \<and> length (tp_got s) = trip_read (tp_client s)
     \<and> subseq (singles (tp_got s) @ trip_under_way s) (singles (take (trip_sent (tp_client s)) trip_values))
     \<and> length (tp_got s) + length (trip_under_way s) + tp_lost s = trip_sent (tp_client s)
     \<and> take SYNC_CALLS (tp_got s) = take (length (tp_got s)) (take SYNC_CALLS trip_values)
     \<and> (0 < tp_lost s \<longrightarrow> tp_client s = SyncRecv 0 \<or> trip_async (tp_client s))
     \<and> (\<not> tp_connected s \<longrightarrow> tp_got s = [] \<and> tp_fe_out s = [] \<and> tp_be_in s = [] \<and> tp_be_out s = [])"

definition trip_rank :: "trip \<Rightarrow> nat" where
  "trip_rank s = trip_point (tp_client s) + length (tp_be_out s) + 2 * length (tp_be_in s) + 3 * length (tp_fe_out s) + 3 * length (tp_got s)
     + 3 * tp_lost s + of_bool (tp_connected s) + of_bool (tp_returned s) + of_bool (tp_fault s \<noteq> None)"

lemma calls_pos: "0 < SYNC_CALLS" "0 < ASYNC_CALLS"
  by (simp_all add: SYNC_CALLS_def ASYNC_CALLS_def)

lemma trip_values_nth:
  "trip_ok c \<Longrightarrow> trip_sends c = Some (v, d) \<Longrightarrow> take (trip_sent d) trip_values = take (trip_sent c) trip_values @ [v]"
  by (cases c) (auto simp: trip_values_def take_Suc_conv_app_nth nth_append split: if_splits)

lemma trip_values_length: "length trip_values = SYNC_CALLS + ASYNC_CALLS"
  by (simp add: trip_values_def)

lemma trip_turns_kept: "trip_turns c = Some d \<Longrightarrow> trip_ok c \<Longrightarrow>
    trip_ok d \<and> trip_sent d = trip_sent c \<and> trip_read d = trip_read c \<and> trip_point c < trip_point d \<and> c \<noteq> SyncRecv 0 \<and> c \<noteq> ClientDone \<and> (trip_async c \<longrightarrow> trip_async d)"
  using calls_pos by (cases c) (auto split: if_splits)

lemma trip_sends_kept: "trip_sends c = Some (v, d) \<Longrightarrow> trip_ok c \<Longrightarrow>
    trip_ok d \<and> trip_sent d = Suc (trip_sent c) \<and> trip_read d = trip_read c \<and> trip_point c < trip_point d \<and> c \<noteq> SyncRecv 0 \<and> c \<noteq> ClientDone \<and> (trip_async c \<longrightarrow> trip_async d)"
  using calls_pos by (cases c) (auto split: if_splits)

lemma trip_gets_kept: "trip_gets c = Some d \<Longrightarrow> trip_ok c \<Longrightarrow>
    trip_ok d \<and> trip_sent d = trip_sent c \<and> trip_read d = Suc (trip_read c) \<and> trip_point c < trip_point d \<and> c \<noteq> ClientDone \<and> (trip_async c \<longrightarrow> trip_async d)"
  using calls_pos by (cases c) (auto split: if_splits)

lemma trip_ends_kept: "trip_ends c = Some (n, d) \<Longrightarrow> trip_ok c \<Longrightarrow>
    trip_ok d \<and> trip_sent d = trip_sent c \<and> trip_read d = trip_read c \<and> trip_point c < trip_point d \<and> c \<noteq> SyncRecv 0 \<and> c \<noteq> ClientDone \<and> (trip_async c \<longrightarrow> trip_read c = trip_sent c)"
  using calls_pos by (cases c) (auto split: if_splits)

lemma trip_rate_fails: "tripping_rate el n = Inl f \<Longrightarrow> f = Undefined"
  by (auto simp: tripping_rate_def Let_def split: if_splits)

text \<open>All messages have one part, and the broker gives each the address of the other side.\<close>

definition opt_msg :: "frame option \<Rightarrow> msg list" where
  "opt_msg v = (case v of None \<Rightarrow> [] | Some v \<Rightarrow> [[v]])"

lemma opt_msg_simps [simp]: "opt_msg None = []" "opt_msg (Some v) = [[v]]"
  by (simp_all add: opt_msg_def)

lemma takes_first_iff: "takes_first Q r ms \<longleftrightarrow> (r = None \<and> ms = Q) \<or> (\<exists>m. r = Some m \<and> Q = m # ms)"
  by (auto simp: takes_first.simps)

lemma trip_broker_out:
  assumes Z: "zmq_contract Z" and os: "tripping_broker_step (trip_polls Z (map_option (\<lambda>v. [v]) rf) (map_option (\<lambda>v. [v]) rb)) () = x"
  shows "\<exists>os. x = Inr (Next (), os) \<and> addressed Z worker_id (sent_on Backend os) = opt_msg rf
    \<and> addressed Z client_id (sent_on Frontend os) = opt_msg rb"
  using os by (cases rf; cases rb)
    (auto simp: trip_polls_def tripping_broker_step_def tripping_rewrite_def zmq_contractD [OF Z] addressed_def)

lemma opt_msg_length: "length (opt_msg v) = of_bool (v \<noteq> None)"
  by (cases v) simp_all

lemma trip_broker_turn:
  assumes Z: "zmq_contract Z" and os: "tripping_broker_step (trip_polls Z (map_option (\<lambda>v. [v]) rf) (map_option (\<lambda>v. [v]) rb)) () = x"
  shows "\<exists>os. x = Inr (Next (), os) \<and> trip_broker_sends Z os dw dc s =
    s\<lparr>tp_be_out := tp_be_out s @ (if tp_connected s \<and> \<not> dw then opt_msg rf else []),
      tp_fe_out := tp_fe_out s @ (if dc then [] else opt_msg rb),
      tp_lost := tp_lost s + of_bool (rf \<noteq> None \<and> (\<not> tp_connected s \<or> dw)) + of_bool (rb \<noteq> None \<and> dc)\<rparr>"
proof -
  from trip_broker_out [OF assms] obtain os where o: "x = Inr (Next (), os)"
    "addressed Z worker_id (sent_on Backend os) = opt_msg rf" "addressed Z client_id (sent_on Frontend os) = opt_msg rb" by blast
  have "trip_broker_sends Z os dw dc s =
    s\<lparr>tp_be_out := tp_be_out s @ (if tp_connected s \<and> \<not> dw then opt_msg rf else []),
      tp_fe_out := tp_fe_out s @ (if dc then [] else opt_msg rb),
      tp_lost := tp_lost s + of_bool (rf \<noteq> None \<and> (\<not> tp_connected s \<or> dw)) + of_bool (rb \<noteq> None \<and> dc)\<rparr>"
    unfolding trip_broker_sends_def Let_def o(2,3)
    by (cases "tp_connected s"; cases dw; cases dc) (simp_all add: opt_msg_length)
  with o(1) show ?thesis by blast
qed

lemma trip_singles:
  assumes "trip_inv s" and "m \<in> set (trip_under_way s)"
  shows "\<exists>v. m = [v]"
proof -
  have "subseq (singles (tp_got s) @ trip_under_way s) (singles (take (trip_sent (tp_client s)) trip_values))"
    using assms(1) by (simp add: trip_inv_def)
  moreover have "m \<in> set (singles (tp_got s) @ trip_under_way s)" using assms(2) by simp
  ultimately obtain y where "y \<in> set (singles (take (trip_sent (tp_client s)) trip_values))" "m = y" by (rule list_emb_set)
  then show ?thesis by auto
qed

text \<open>As long as nothing is discarded nothing is missing.\<close>

lemma trip_lossless:
  assumes "trip_inv s" and "tp_lost s = 0"
  shows "singles (tp_got s) @ trip_under_way s = singles (take (trip_sent (tp_client s)) trip_values)"
proof (rule subseq_same_length)
  show "subseq (singles (tp_got s) @ trip_under_way s) (singles (take (trip_sent (tp_client s)) trip_values))"
    using assms(1) by (simp add: trip_inv_def)
  have "trip_sent (tp_client s) \<le> length trip_values"
    using assms(1) by (cases "tp_client s") (auto simp: trip_inv_def trip_values_length)
  then show "length (singles (tp_got s) @ trip_under_way s) = length (singles (take (trip_sent (tp_client s)) trip_values))"
    using assms by (simp add: trip_inv_def)
qed

lemma trip_got_prefix:
  assumes "trip_inv s" and "tp_lost s = 0"
  shows "tp_got s = take (length (tp_got s)) trip_values"
proof -
  let ?n = "trip_sent (tp_client s)" and ?k = "length (tp_got s)"
  note eq = trip_lossless [OF assms]
  from arg_cong [where f = "take ?k", OF this] have "singles (tp_got s) = singles (take ?k (take ?n trip_values))"
    by (simp add: take_map)
  then have "tp_got s = take ?k (take ?n trip_values)" by (simp add: inj_map_eq_map inj_on_def inj_def)
  moreover have "?k \<le> length (take ?n trip_values)" using arg_cong [where f = length, OF eq]
    by (simp only: length_append length_map)
  then have "?k \<le> ?n" by simp
  ultimately show ?thesis by (metis min.absorb1 take_take)
qed

lemma trip_takes:
  assumes "takes_first Q r Q'" and "\<And>m. m \<in> set Q \<Longrightarrow> \<exists>v. m = [v]"
  obtains v where "r = map_option (\<lambda>v. [v]) v" "Q = opt_msg v @ Q'"
proof (cases r)
  case None
  with assms(1) that [of None] show thesis by (simp add: takes_first_iff)
next
  case (Some m)
  with assms obtain v where "m = [v]" "Q = m # Q'" by (auto simp: takes_first_iff)
  with Some that [of "Some v"] show thesis by simp
qed

text \<open>
  Where the client is when a message is discarded: at its first request, or in the asynchronous test, for in the
  synchronous one a single message is under way.
\<close>

lemma trip_discards_where:
  assumes g: "trip_inv s" and fe: "tp_fe_in s = opt_msg rf @ fe" and be: "tp_be_in s = opt_msg rb @ be" and hwm: "0 < hwm"
    and dw: "dw \<longrightarrow> hwm \<le> length (tp_be_out s)" and dc: "dc \<longrightarrow> hwm \<le> length (tp_fe_out s)"
    and lost: "rf \<noteq> None \<and> (\<not> tp_connected s \<or> dw) \<or> rb \<noteq> None \<and> dc"
  shows "tp_client s = SyncRecv 0 \<or> trip_async (tp_client s)"
proof (cases "tp_connected s")
  case True
  with lost dw dc hwm have "1 < length (trip_under_way s)" by (auto simp: trip_under_way_def fe be)
  with g have "trip_read (tp_client s) + 1 < trip_sent (tp_client s)" by (simp add: trip_inv_def)
  then show ?thesis by (cases "tp_client s") simp_all
next
  case False
  with g be dc hwm have q: "tp_got s = []" "rb = None \<or> \<not> dc" by (auto simp: trip_inv_def)
  with lost have "0 < length (trip_under_way s)" by (auto simp: trip_under_way_def fe)
  moreover have "length (trip_under_way s) + tp_lost s = trip_sent (tp_client s)" "trip_read (tp_client s) = 0"
    using g q by (simp_all add: trip_inv_def)
  ultimately have "0 < trip_sent (tp_client s)" "trip_read (tp_client s) = 0" by linarith+
  then show ?thesis by (cases "tp_client s") simp_all
qed

lemma trip_broker_keeps:
  assumes g: "trip_inv s" and fe: "tp_fe_in s = opt_msg rf @ fe" and be: "tp_be_in s = opt_msg rb @ be" and hwm: "0 < hwm"
    and dw: "dw \<longrightarrow> hwm \<le> length (tp_be_out s)" and dc: "dc \<longrightarrow> hwm \<le> length (tp_fe_out s)"
    and some: "rf \<noteq> None \<or> rb \<noteq> None"
    and t: "t = s\<lparr>tp_fe_in := fe, tp_be_in := be, tp_be_out := tp_be_out s @ (if tp_connected s \<and> \<not> dw then opt_msg rf else []),
      tp_fe_out := tp_fe_out s @ (if dc then [] else opt_msg rb),
      tp_lost := tp_lost s + of_bool (rf \<noteq> None \<and> (\<not> tp_connected s \<or> dw)) + of_bool (rb \<noteq> None \<and> dc)\<rparr>"
  shows "trip_inv t \<and> trip_rank s < trip_rank t"
proof
  let ?w = "if tp_connected s \<and> \<not> dw then opt_msg rf else []" and ?c = "if dc then [] else opt_msg rb"
  have same: "tp_client t = tp_client s" "tp_fault t = tp_fault s" "tp_returned t = tp_returned s" "tp_got t = tp_got s"
    "tp_connected t = tp_connected s" by (simp_all add: t)
  have qs: "tp_fe_in t = fe" "tp_be_in t = be" "tp_be_out t = tp_be_out s @ ?w" "tp_fe_out t = tp_fe_out s @ ?c"
    and l: "tp_lost t = tp_lost s + of_bool (rf \<noteq> None \<and> (\<not> tp_connected s \<or> dw)) + of_bool (rb \<noteq> None \<and> dc)"
    by (simp_all add: t)
  have uw: "trip_under_way s = tp_fe_out s @ opt_msg rb @ be @ tp_be_out s @ opt_msg rf @ fe"
    "trip_under_way t = tp_fe_out s @ ?c @ be @ tp_be_out s @ ?w @ fe"
    by (simp_all add: trip_under_way_def fe be qs)
  have "subseq (trip_under_way t) (trip_under_way s)" unfolding uw
    by (intro list_emb_append_mono subseq_order.refl) simp_all
  then have sub: "subseq (singles (tp_got t) @ trip_under_way t) (singles (tp_got s) @ trip_under_way s)"
    unfolding same by (simp add: subseq_append')
  have count: "length (trip_under_way t) + tp_lost t = length (trip_under_way s) + tp_lost s"
    unfolding uw l by (cases rf; cases rb) auto
  have "tp_client s = SyncRecv 0 \<or> trip_async (tp_client s)" if "0 < tp_lost t"
  proof (cases "rf \<noteq> None \<and> (\<not> tp_connected s \<or> dw) \<or> rb \<noteq> None \<and> dc")
    case True
    from trip_discards_where [OF g fe be hwm dw dc this] show ?thesis .
  next
    case False
    with that have "0 < tp_lost s" by (auto simp: l)
    with g show ?thesis by (simp add: trip_inv_def)
  qed
  moreover have "\<not> tp_connected s \<longrightarrow> rb = None \<and> be = []" using g be by (auto simp: trip_inv_def opt_msg_def split: option.splits)
  ultimately show "trip_inv t" using g count subseq_order.trans [OF sub] unfolding trip_inv_def same qs by auto
  show "trip_rank s < trip_rank t" using some unfolding trip_rank_def same qs l be by (cases rf; cases rb) auto
qed

lemma trip_got_subseq: "trip_inv s \<Longrightarrow> subseq (tp_got s) trip_values"
proof -
  assume g: "trip_inv s"
  let ?sent = "take (trip_sent (tp_client s)) trip_values"
  have "subseq (singles (tp_got s) @ trip_under_way s) (singles ?sent)" using g by (simp add: trip_inv_def)
  then have "subseq (singles (tp_got s)) (singles ?sent)" by (rule subseq_order.trans [rotated]) (simp add: list_emb_prefix)
  then have "subseq (map hd (singles (tp_got s))) (map hd (singles ?sent))" by (rule subseq_map)
  then have "subseq (tp_got s) ?sent" by (simp add: o_def)
  moreover have "subseq ?sent trip_values" using list_emb_prefix [OF subseq_order.refl, of ?sent "drop (trip_sent (tp_client s)) trip_values"] by simp
  ultimately show ?thesis by (rule subseq_order.trans)
qed

lemma trip_got_first:
  assumes g: "trip_inv s" and got: "tp_got t = tp_got s @ [v]" and m: "m = [v]" and uw: "trip_under_way s = m # ms"
  shows "take SYNC_CALLS (tp_got t) = take (length (tp_got t)) (take SYNC_CALLS trip_values)"
proof (cases "length (tp_got s) < SYNC_CALLS")
  case True
  with g uw have l: "tp_lost s = 0" by (cases "tp_client s") (auto simp: trip_inv_def)
  let ?k = "length (tp_got t)"
  from trip_lossless [OF g l] have "singles (tp_got t) @ ms = singles (take (trip_sent (tp_client s)) trip_values)"
    by (simp add: got uw m)
  from arg_cong [where f = "take ?k", OF this] have "singles (tp_got t) = singles (take ?k (take (trip_sent (tp_client s)) trip_values))"
    by (simp add: take_map)
  then have eq: "tp_got t = take ?k (take (trip_sent (tp_client s)) trip_values)" by (simp add: inj_map_eq_map inj_on_def inj_def)
  from arg_cong [where f = length, OF this] have "?k \<le> trip_sent (tp_client s)" by simp
  with eq have "tp_got t = take ?k trip_values" by (metis min.absorb1 take_take)
  with True got show ?thesis by (metis min.commute take_take)
next
  case False
  with g show ?thesis by (simp add: trip_inv_def got)
qed

lemma trip_keeps:
  assumes Z: "zmq_contract Z" and hwm: "0 < hwm" and g: "trip_inv s" and st: "trip_step Z hwm s t"
  shows "trip_inv t \<and> trip_rank s < trip_rank t"
  using st
proof cases
  case (trip_client_turns c)
  with g trip_turns_kept [of "tp_client s" c] show ?thesis
    by (auto simp: trip_inv_def trip_under_way_def trip_rank_def trip_running_def)
next
  case (trip_client_sends v c)
  with g have ok: "trip_ok (tp_client s)" by (simp add: trip_inv_def)
  note c = trip_sends_kept [OF trip_client_sends(3) ok] trip_values_nth [OF ok trip_client_sends(3)]
  have "subseq ((singles (tp_got s) @ trip_under_way s) @ [[v]]) (singles (take (trip_sent (tp_client s)) trip_values) @ [[v]])"
    using g by (intro list_emb_append_mono) (simp_all add: trip_inv_def)
  with g trip_client_sends c show ?thesis
    by (auto simp: trip_inv_def trip_under_way_def trip_rank_def trip_running_def)
next
  case (trip_client_gets c m ms v)
  then have "m \<in> set (trip_under_way s)" by (simp add: trip_under_way_def)
  from trip_singles [OF g this] trip_client_gets have m: "m = [v]" by auto
  have q: "tp_client t = c" "tp_got t = tp_got s @ [v]" "tp_lost t = tp_lost s" "tp_connected t = tp_connected s"
    "tp_fault t = tp_fault s" "tp_returned t = tp_returned s" "trip_under_way s = m # trip_under_way t"
    using trip_client_gets by (simp_all add: trip_under_way_def)
  from g have ok: "trip_ok (tp_client s)" by (simp add: trip_inv_def)
  note c = trip_gets_kept [OF trip_client_gets(3) ok]
  have "singles (tp_got s) @ trip_under_way s = singles (tp_got t) @ trip_under_way t" by (simp add: q m)
  moreover have "0 < tp_lost s \<longrightarrow> trip_async c"
    using g c trip_client_gets(3) q(7) by (auto simp: trip_inv_def split: if_splits)
  moreover have "take SYNC_CALLS (tp_got t) = take (length (tp_got t)) (take SYNC_CALLS trip_values)"
    by (rule trip_got_first [OF g q(2) m q(7)])
  ultimately have "trip_inv t" using g c q trip_client_gets unfolding trip_inv_def by (auto simp: trip_running_def)
  moreover have "trip_rank s < trip_rank t"
    using c trip_client_gets by (simp add: trip_rank_def)
  ultimately show ?thesis ..
next
  case (trip_test_ends n c rate elapsed)
  with g trip_ends_kept [of "tp_client s" n c] show ?thesis
    by (auto simp: trip_inv_def trip_under_way_def trip_rank_def trip_running_def)
next
  case (trip_test_fails n c elapsed f)
  with g trip_rate_fails [of elapsed n f] show ?thesis
    by (auto simp: trip_inv_def trip_under_way_def trip_rank_def trip_running_def)
next
  case trip_main_returns
  with g show ?thesis by (auto simp: trip_inv_def trip_under_way_def trip_rank_def trip_running_def)
next
  case trip_worker_connects
  with g show ?thesis by (auto simp: trip_inv_def trip_under_way_def trip_rank_def trip_running_def)
next
  case (trip_worker_echoes m ms u os)
  then have "m \<in> set (trip_under_way s)" by (simp add: trip_under_way_def)
  from trip_singles [OF g this] obtain v where m: "m = [v]" by auto
  with trip_worker_echoes have "map (map fst) os = [[v]]" by (auto simp: tripping_worker_step_def)
  with trip_worker_echoes g m show ?thesis
    by (auto simp: trip_inv_def trip_under_way_def trip_rank_def trip_running_def)
next
  case (trip_worker_fails m ms f)
  then have "m \<in> set (trip_under_way s)" by (simp add: trip_under_way_def)
  from trip_singles [OF g this] trip_worker_fails show ?thesis by (auto simp: tripping_worker_step_def)
next
  case (trip_broker_turns rf fe rb be u os dw dc)
  have one: "\<exists>v. m = [v]" if "m \<in> set (tp_fe_in s) \<or> m \<in> set (tp_be_in s)" for m
    by (rule trip_singles [OF g]) (use that in \<open>auto simp: trip_under_way_def\<close>)
  obtain vf where f: "rf = map_option (\<lambda>v. [v]) vf" "tp_fe_in s = opt_msg vf @ fe"
    by (rule trip_takes [OF trip_broker_turns(3)]) (use one in blast)+
  obtain vb where b: "rb = map_option (\<lambda>v. [v]) vb" "tp_be_in s = opt_msg vb @ be"
    by (rule trip_takes [OF trip_broker_turns(4)]) (use one in blast)+
  have "vf \<noteq> None \<or> vb \<noteq> None" using trip_broker_turns(5) f(1) b(1) by auto
  from trip_broker_keeps [OF g f(2) b(2) hwm trip_broker_turns(7,8) this refl]
    trip_broker_turn [OF Z trip_broker_turns(6) [unfolded f(1) b(1)], of dw dc "s\<lparr>tp_fe_in := fe, tp_be_in := be\<rparr>"] trip_broker_turns(1)
  show ?thesis by simp
next
  case (trip_broker_fails rf fe rb be f)
  have one: "\<exists>v. m = [v]" if "m \<in> set (tp_fe_in s) \<or> m \<in> set (tp_be_in s)" for m
    by (rule trip_singles [OF g]) (use that in \<open>auto simp: trip_under_way_def\<close>)
  obtain vf where f: "rf = map_option (\<lambda>v. [v]) vf"
    by (rule trip_takes [OF trip_broker_fails(3)]) (use one in blast)+
  obtain vb where b: "rb = map_option (\<lambda>v. [v]) vb"
    by (rule trip_takes [OF trip_broker_fails(4)]) (use one in blast)+
  from trip_broker_turn [OF Z trip_broker_fails(6) [unfolded f b]] show ?thesis by simp
qed

subsection \<open>Where a run ends\<close>

locale tripping_contract =
  fixes Z :: zmq_envelope and hwm :: nat
  assumes zmq: "zmq_contract Z" and hwm: "0 < hwm"
begin

lemma trip_rank_bounded: "trip_inv s \<Longrightarrow> trip_rank s \<le> 5 * (SYNC_CALLS + ASYNC_CALLS) + 8"
proof -
  assume g: "trip_inv s"
  let ?c = "tp_client s"
  have p: "trip_point ?c \<le> 4 + 2 * (SYNC_CALLS + ASYNC_CALLS)" and n: "trip_sent ?c \<le> SYNC_CALLS + ASYNC_CALLS"
    using g by (cases ?c; simp add: trip_inv_def)+
  have "length (tp_got s) + length (trip_under_way s) + tp_lost s \<le> SYNC_CALLS + ASYNC_CALLS"
    using g n by (simp add: trip_inv_def)
  then have "length (tp_be_out s) + 2 * length (tp_be_in s) + 3 * length (tp_fe_out s) + 3 * length (tp_got s) + 3 * tp_lost s
      \<le> 3 * (SYNC_CALLS + ASYNC_CALLS)" by (simp add: trip_under_way_def)
  moreover have "of_bool (tp_connected s) \<le> (1 :: nat)" "of_bool (tp_returned s) \<le> (1 :: nat)"
    "of_bool (tp_fault s \<noteq> None) \<le> (1 :: nat)" by simp_all
  ultimately show ?thesis using p unfolding trip_rank_def by linarith
qed

sublocale terminating_system trip_init "trip_step Z hwm" trip_inv trip_rank "5 * (SYNC_CALLS + ASYNC_CALLS) + 8"
proof
  show "trip_inv trip_init" by (simp add: trip_inv_def trip_init_def trip_under_way_def)
  fix s t
  assume "trip_inv s" "trip_step Z hwm s t"
  from trip_keeps [OF zmq hwm this] show "trip_inv t" "trip_rank s < trip_rank t" by simp_all
qed (rule trip_rank_bounded)

lemma trip_reached:
  assumes "(trip_step Z hwm ^^ n) trip_init s"
  shows "trip_inv s \<and> n \<le> 5 * (SYNC_CALLS + ASYNC_CALLS) + 8"
  using inv_reachable [OF relpowp_imp_rtranclp [OF assms]] run_bounded [OF assms] by simp

lemma trip_goes_on: "trip_inv s \<Longrightarrow> \<exists>t. (trip_step Z hwm)\<^sup>*\<^sup>* s t \<and> stuck (trip_step Z hwm) t"
  by (rule reaches_stuck)

text \<open>What is left when no thread can go on.\<close>

lemma trip_quiet:
  assumes g: "trip_inv s" and st: "stuck (trip_step Z hwm) s" and run: "trip_running s"
  shows "trip_gets (tp_client s) \<noteq> None" and "trip_under_way s = []"
proof -
  have c: "trip_turns (tp_client s) = None" "trip_sends (tp_client s) = None" "tp_client s \<noteq> ClientDone"
    using st trip_client_turns [OF run] trip_client_sends [OF run] trip_main_returns [OF run]
    by (auto simp: stuck_def) (metis not_None_eq surj_pair)+
  have "trip_ends (tp_client s) = None"
  proof (rule ccontr)
    assume "trip_ends (tp_client s) \<noteq> None"
    then obtain n d where e: "trip_ends (tp_client s) = Some (n, d)" by auto
    have "tripping_rate 0 n = Inl Undefined" by (simp add: tripping_rate_def trunc_div_def)
    from trip_test_fails [OF run e this] st show False by (auto simp: stuck_def)
  qed
  with c obtain d where d: "trip_gets (tp_client s) = Some d" by (cases "tp_client s") (auto split: if_splits)
  then show "trip_gets (tp_client s) \<noteq> None" by simp
  have conn: "tp_connected s" using trip_worker_connects [OF run] st by (auto simp: stuck_def)
  show "trip_under_way s = []"
  proof (rule ccontr)
  assume "trip_under_way s \<noteq> []"
  then obtain m ms where m: "tp_fe_out s = m # ms \<or> tp_be_out s = m # ms \<or> tp_be_in s = m # ms \<or> tp_fe_in s = m # ms"
    unfolding trip_under_way_def by (metis append_is_Nil_conv neq_Nil_conv)
  then have "m \<in> set (trip_under_way s)" by (auto simp: trip_under_way_def)
  from trip_singles [OF g this] obtain v where v: "m = [v]" by blast
  have turn: False if "takes_first (tp_fe_in s) (map_option (\<lambda>v. [v]) vf) fe" "takes_first (tp_be_in s) (map_option (\<lambda>v. [v]) vb) be"
    "vf \<noteq> None \<or> vb \<noteq> None" for vf vb fe be
  proof -
    obtain os where os: "tripping_broker_step (trip_polls Z (map_option (\<lambda>v. [v]) vf) (map_option (\<lambda>v. [v]) vb)) () = Inr (Next (), os)"
      using trip_broker_turn [OF zmq refl] by blast
    from trip_broker_turns [OF run that(1,2) _ os, of False hwm False] that(3) st show False by (auto simp: stuck_def)
  qed
  from m show False
  proof (elim disjE)
    assume "tp_fe_out s = m # ms"
    from trip_client_gets [OF run d this, of v] v st show False by (auto simp: stuck_def arrives_def)
  next
    assume "tp_be_out s = m # ms"
    from trip_worker_echoes [OF run conn this, of "()" "[[(v, False)]]"] v st show False
      by (auto simp: stuck_def tripping_worker_step_def)
  next
    assume "tp_be_in s = m # ms"
    with v show False by (intro turn [of None _ "Some v"]) (simp_all add: takes_first.simps)
  next
    assume "tp_fe_in s = m # ms"
    with v show False by (intro turn [of "Some v" _ None]) (simp_all add: takes_first.simps)
  qed
  qed
qed

lemma trip_stuck:
  assumes g: "trip_inv s" and st: "stuck (trip_step Z hwm) s"
  shows "tp_returned s \<or> tp_fault s = Some Undefined \<or> tp_lost s = 1 \<and> tp_client s = SyncRecv 0
    \<or> (\<exists>i < ASYNC_CALLS. tp_client s = AsyncRecv i \<and> tp_lost s = ASYNC_CALLS - i)"
proof (cases "trip_running s")
  case True
  have "trip_read (tp_client s) + tp_lost s = trip_sent (tp_client s)"
    using g trip_quiet(2) [OF g st True] by (simp add: trip_inv_def)
  with g trip_quiet(1) [OF g st True] show ?thesis by (cases "tp_client s") (auto simp: trip_inv_def split: if_splits)
next
  case False
  with g show ?thesis by (auto simp: trip_running_def trip_inv_def)
qed

end

lemma trip_ended:
  assumes g: "trip_inv s" and "tp_returned s \<or> tp_fault s \<noteq> None"
  shows "tp_lost s = 0" and "tp_returned s \<Longrightarrow> tp_got s = trip_values"
proof -
  show l: "tp_lost s = 0"
  proof (rule ccontr)
    assume "tp_lost s \<noteq> 0"
    with g have c: "tp_client s = SyncRecv 0 \<or> trip_async (tp_client s)" by (simp add: trip_inv_def)
    with assms have "trip_ends (tp_client s) \<noteq> None" by (auto simp: trip_inv_def)
    with c g have "tp_client s = AsyncRecv ASYNC_CALLS" by (cases "tp_client s") (auto simp: trip_inv_def split: if_splits)
    with g \<open>tp_lost s \<noteq> 0\<close> show False by (simp add: trip_inv_def)
  qed
  show "tp_got s = trip_values" if "tp_returned s"
    using trip_got_prefix [OF g l] g that by (auto simp: trip_inv_def trip_values_length)
qed

subsection \<open>Runs to the good end and to a bad one\<close>

text \<open>The worker is connected, the client has got \<open>got\<close>, \<open>out\<close> waits for it and \<open>l\<close> messages are gone.\<close>

definition trip_at :: "trip_client \<Rightarrow> frame list \<Rightarrow> frame list \<Rightarrow> nat \<Rightarrow> trip" where
  "trip_at c got out l = trip_init\<lparr>tp_client := c, tp_connected := True, tp_got := got, tp_fe_out := singles out, tp_lost := l\<rparr>"

lemma trip_at_simps [simp]:
  "tp_client (trip_at c got out l) = c" "tp_got (trip_at c got out l) = got" "tp_fe_in (trip_at c got out l) = []"
  "tp_be_out (trip_at c got out l) = []" "tp_be_in (trip_at c got out l) = []" "tp_fe_out (trip_at c got out l) = singles out"
  "tp_connected (trip_at c got out l)" "tp_lost (trip_at c got out l) = l" "\<not> tp_returned (trip_at c got out l)"
  "trip_running (trip_at c got out l)"
  by (simp_all add: trip_at_def trip_init_def trip_running_def)

lemma trip_at_client: "(trip_at c got out l)\<lparr>tp_client := d\<rparr> = trip_at d got out l"
  by (simp add: trip_at_def)

context tripping_contract
begin

lemma trip_call:
  assumes c: "trip_sends c = Some (v, d)" and dc: "dc \<longrightarrow> hwm \<le> length out"
  shows "(trip_step Z hwm)\<^sup>*\<^sup>* (trip_at c got out l) (trip_at d got (out @ (if dc then [] else [v])) (l + of_bool dc))"
proof -
  let ?s = "trip_at c got out l"
  let ?s1 = "?s\<lparr>tp_client := d, tp_fe_in := [[v]]\<rparr>"
  let ?s2 = "?s\<lparr>tp_client := d, tp_be_out := [[v]]\<rparr>"
  let ?s3 = "?s\<lparr>tp_client := d, tp_be_in := [[v]]\<rparr>"
  let ?s4 = "trip_at d got (out @ (if dc then [] else [v])) (l + of_bool dc)"
  have run: "trip_running ?s1" "trip_running ?s2" "trip_running ?s3" by (simp_all add: trip_at_def trip_init_def trip_running_def)
  have 1: "trip_step Z hwm ?s ?s1" using trip_client_sends [OF trip_at_simps(10), of c got out l v d Z hwm] c by simp
  obtain os where os: "tripping_broker_step (trip_polls Z (Some [v]) None) () = Inr (Next (), os)"
    "trip_broker_sends Z os False False (?s1\<lparr>tp_fe_in := [], tp_be_in := []\<rparr>) = ?s2"
    using trip_broker_turn [OF zmq refl, of "Some v" None False False "?s1\<lparr>tp_fe_in := [], tp_be_in := []\<rparr>"]
    by (auto simp: trip_at_def trip_init_def)
  have 2: "trip_step Z hwm ?s1 ?s2" unfolding os(2) [symmetric]
    by (rule trip_broker_turns [OF run(1) _ _ _ os(1)]) (simp_all add: takes_first.simps)
  have 3: "trip_step Z hwm ?s2 ?s3"
    using trip_worker_echoes [OF run(2), of "[v]" "[]" "()" "[[(v, False)]]" Z hwm]
    by (simp add: trip_at_def trip_init_def tripping_worker_step_def)
  obtain os where os: "tripping_broker_step (trip_polls Z None (Some [v])) () = Inr (Next (), os)"
    "trip_broker_sends Z os False dc (?s3\<lparr>tp_fe_in := [], tp_be_in := []\<rparr>) = ?s4"
    using trip_broker_turn [OF zmq refl, of None "Some v" False dc "?s3\<lparr>tp_fe_in := [], tp_be_in := []\<rparr>"]
    by (auto simp: trip_at_def trip_init_def)
  have 4: "trip_step Z hwm ?s3 ?s4" unfolding os(2) [symmetric]
    by (rule trip_broker_turns [OF run(3) _ _ _ os(1)]) (simp_all add: takes_first.simps dc)
  from 1 2 3 4 show ?thesis by (meson converse_rtranclp_into_rtranclp rtranclp.rtrancl_refl)
qed

lemma trip_echo:
  assumes "trip_gets c = Some d"
  shows "trip_step Z hwm (trip_at c got (v # out) l) (trip_at d (got @ [v]) out l)"
proof -
  have "recv_part (arrives [v]) = Inr (v, [])" by (simp add: arrives_def)
  from trip_client_gets [OF trip_at_simps(10) _ _ this, of c got "v # out" l d "singles out" Z hwm] assms
  show ?thesis by (simp add: trip_at_def trip_init_def)
qed

lemma trip_test_done:
  assumes "trip_ends c = Some (n, d)"
  shows "trip_step Z hwm (trip_at c got out l) (trip_at d got out l)"
proof -
  have "\<exists>rate. tripping_rate (msecs 1) n = Inr rate" by (simp add: tripping_rate_def trunc_div_def msecs_def)
  then obtain rate where "tripping_rate (msecs 1) n = Inr rate" by blast
  from trip_test_ends [OF trip_at_simps(10) _ this, of c got out l d Z hwm] assms show ?thesis by (simp add: trip_at_client)
qed

lemma trip_to_sync: "i \<le> SYNC_CALLS \<Longrightarrow> (trip_step Z hwm)\<^sup>*\<^sup>* trip_init (trip_at (SyncSend i) (map nat_string [0..<i]) [] 0)"
proof (induction i)
  case 0
  let ?s = "trip_init\<lparr>tp_connected := True\<rparr>"
  have run: "trip_running trip_init" "trip_running ?s" by (simp_all add: trip_running_def trip_init_def)
  have 1: "trip_step Z hwm trip_init ?s" by (rule trip_worker_connects [OF run(1)]) (simp add: trip_init_def)
  have "trip_step Z hwm ?s (?s\<lparr>tp_client := SyncSend 0\<rparr>)" by (rule trip_client_turns [OF run(2)]) (simp add: trip_init_def)
  with 1 show ?case by (auto simp: trip_at_def trip_init_def)
next
  case (Suc i)
  let ?got = "map nat_string [0..<i]"
  have "(trip_step Z hwm)\<^sup>*\<^sup>* (trip_at (SyncSend i) ?got [] 0) (trip_at (SyncRecv i) ?got [nat_string i] 0)"
    using trip_call [of "SyncSend i" "nat_string i" "SyncRecv i" False "[]" ?got 0] Suc.prems by simp
  moreover have "trip_step Z hwm (trip_at (SyncRecv i) ?got [nat_string i] 0) (trip_at (SyncSend (Suc i)) (map nat_string [0..<Suc i]) [] 0)"
    using trip_echo [of "SyncRecv i" "SyncSend (Suc i)" ?got "nat_string i" "[]" 0] by simp
  ultimately show ?case using Suc by (meson Suc_leD rtranclp.rtrancl_into_rtrancl rtranclp_trans)
qed

lemma trip_to_async:
  "i \<le> ASYNC_CALLS \<Longrightarrow>
    (trip_step Z hwm)\<^sup>*\<^sup>* trip_init (trip_at (AsyncSend i) (map nat_string [0..<SYNC_CALLS]) (map nat_string [0..<i]) 0)"
proof (induction i)
  case 0
  from trip_to_sync [OF order_refl] trip_test_done [of "SyncSend SYNC_CALLS" SYNC_CALLS "AsyncSend 0"] show ?case
    by (simp add: rtranclp.rtrancl_into_rtrancl)
next
  case (Suc i)
  let ?got = "map nat_string [0..<SYNC_CALLS]"
  have "(trip_step Z hwm)\<^sup>*\<^sup>* (trip_at (AsyncSend i) ?got (map nat_string [0..<i]) 0)
      (trip_at (AsyncSend (Suc i)) ?got (map nat_string [0..<Suc i]) 0)"
    using trip_call [of "AsyncSend i" "nat_string i" "AsyncSend (Suc i)" False "map nat_string [0..<i]" ?got 0] Suc.prems by simp
  with Suc show ?case by (meson Suc_leD rtranclp_trans)
qed

lemma trip_to_reading:
  "i \<le> ASYNC_CALLS \<Longrightarrow> (trip_step Z hwm)\<^sup>*\<^sup>* trip_init
    (trip_at (AsyncRecv i) (map nat_string [0..<SYNC_CALLS] @ map nat_string [0..<i]) (map nat_string [i..<ASYNC_CALLS]) 0)"
proof (induction i)
  case 0
  from trip_client_turns [where c = "AsyncRecv 0" and Z = Z and hwm = hwm, OF trip_at_simps(10) [of "AsyncSend ASYNC_CALLS"]] trip_to_async [OF order_refl]
  show ?case by (simp add: trip_at_client rtranclp.rtrancl_into_rtrancl)
next
  case (Suc i)
  let ?got = "map nat_string [0..<SYNC_CALLS] @ map nat_string [0..<i]"
  have "trip_step Z hwm (trip_at (AsyncRecv i) ?got (nat_string i # map nat_string [Suc i..<ASYNC_CALLS]) 0)
      (trip_at (AsyncRecv (Suc i)) (?got @ [nat_string i]) (map nat_string [Suc i..<ASYNC_CALLS]) 0)"
    using Suc.prems by (intro trip_echo) simp
  with Suc show ?case by (simp add: upt_conv_Cons rtranclp.rtrancl_into_rtrancl)
qed

text \<open>The good end: nothing is discarded, though there may be more under way than the limit.\<close>

lemma trip_may_return: "\<exists>t. (trip_step Z hwm)\<^sup>*\<^sup>* trip_init t \<and> tp_returned t"
proof -
  let ?t = "trip_at ClientDone trip_values [] 0"
  have "(trip_step Z hwm)\<^sup>*\<^sup>* trip_init ?t"
    using trip_to_reading [OF order_refl] trip_test_done [of "AsyncRecv ASYNC_CALLS" ASYNC_CALLS ClientDone trip_values "[]" 0]
    by (simp add: trip_values_def rtranclp.rtrancl_into_rtrancl)
  moreover have "trip_step Z hwm ?t (?t\<lparr>tp_returned := True\<rparr>)" by (rule trip_main_returns) simp_all
  moreover have "tp_returned (?t\<lparr>tp_returned := True\<rparr>)" by simp
  ultimately show ?thesis by (meson rtranclp.rtrancl_into_rtrancl)
qed

text \<open>Nothing that is lost or read is given back.\<close>

lemma trip_mono: "trip_step Z hwm s t \<Longrightarrow> tp_lost s \<le> tp_lost t \<and> length (tp_got s) \<le> length (tp_got t)"
  by (erule trip_step.cases) (auto simp: trip_broker_sends_def Let_def)

lemma trip_mono_run: "(trip_step Z hwm)\<^sup>*\<^sup>* s t \<Longrightarrow> tp_lost s \<le> tp_lost t \<and> length (tp_got s) \<le> length (tp_got t)"
  by (induction rule: rtranclp_induct) (auto dest: trip_mono intro: order_trans)

lemma trip_may_discard:
  assumes "hwm < ASYNC_CALLS"
  shows "\<exists>t i. (trip_step Z hwm)\<^sup>*\<^sup>* trip_init t \<and> stuck (trip_step Z hwm) t \<and> i < ASYNC_CALLS
    \<and> tp_client t = AsyncRecv i \<and> tp_lost t = ASYNC_CALLS - i"
proof -
  let ?got = "map nat_string [0..<SYNC_CALLS]"
  let ?s = "trip_at (AsyncSend (Suc hwm)) ?got (map nat_string [0..<hwm]) 1"
  have "(trip_step Z hwm)\<^sup>*\<^sup>* (trip_at (AsyncSend hwm) ?got (map nat_string [0..<hwm]) 0) ?s"
    using trip_call [of "AsyncSend hwm" "nat_string hwm" "AsyncSend (Suc hwm)" True "map nat_string [0..<hwm]" ?got 0] assms
    by simp
  with trip_to_async [of hwm] assms have s: "(trip_step Z hwm)\<^sup>*\<^sup>* trip_init ?s" by (meson less_imp_le rtranclp_trans)
  from trip_goes_on [OF inv_reachable [OF s]] obtain t where t: "(trip_step Z hwm)\<^sup>*\<^sup>* ?s t" "stuck (trip_step Z hwm) t" by blast
  with s have r: "(trip_step Z hwm)\<^sup>*\<^sup>* trip_init t" by (meson rtranclp_trans)
  from trip_mono_run [OF t(1)] have l: "0 < tp_lost t" "SYNC_CALLS \<le> length (tp_got t)" by simp_all
  note g = inv_reachable [OF r]
  from l g calls_pos have "tp_client t \<noteq> SyncRecv 0" by (auto simp: trip_inv_def)
  moreover from l trip_ended(1) [OF g] have "\<not> tp_returned t" "tp_fault t = None" by (cases "tp_fault t"; auto)+
  ultimately show ?thesis using r t(2) trip_stuck [OF g t(2)] by auto
qed

end

interpretation tripping_std: tripping_contract zmq_std 1000
  by unfold_locales simp_all

text \<open>
  C24: every run of the round-trip demonstrator ends, within five steps for each call and eight more, whatever
  the limit \<open>hwm\<close> of the broker's sockets. At any time the client has read back a part of what it sent, in order:
  without gaps in the synchronous test, and throughout unless the broker's sockets have discarded something. When no
  thread can go on, \<open>main\<close> has returned, the client has read all 110000 echoes and nothing was
  discarded; or a test took less than a millisecond and its rate was
  divided by zero; or the worker had not connected when the first call reached the broker, and that call is
  gone; or some calls of the asynchronous test are gone, for the client sends 100000 of them before it reads, and
  the sockets of the broker may discard when \<open>hwm\<close> are waiting. In the last two cases the client waits for
  as many echoes as were discarded and \<open>main\<close> never returns: a run that has lost a message cannot end well. There is
  a run that ends well, and for every limit below 100000 one that ends with calls of the asynchronous test gone.
\<close>

theorem tripping_completes:
  assumes Z: "zmq_contract Z" and hwm: "0 < hwm" and r: "(trip_step Z hwm ^^ n) trip_init s"
  shows "n \<le> 5 * (SYNC_CALLS + ASYNC_CALLS) + 8
    \<and> subseq (tp_got s) trip_values \<and> take SYNC_CALLS (tp_got s) = take (length (tp_got s)) (take SYNC_CALLS trip_values)
    \<and> (tp_lost s = 0 \<longrightarrow> tp_got s = take (length (tp_got s)) trip_values)
    \<and> (\<exists>t. (trip_step Z hwm)\<^sup>*\<^sup>* s t \<and> stuck (trip_step Z hwm) t)
    \<and> (stuck (trip_step Z hwm) s \<longrightarrow> tp_returned s \<and> tp_got s = trip_values \<and> tp_lost s = 0
        \<or> tp_fault s = Some Undefined
        \<or> tp_client s = SyncRecv 0 \<and> tp_lost s = 1
        \<or> (\<exists>i < ASYNC_CALLS. tp_client s = AsyncRecv i \<and> tp_lost s = ASYNC_CALLS - i))
    \<and> (0 < tp_lost s \<longrightarrow> \<not> tp_returned s \<and> tp_fault s = None)
    \<and> (\<exists>t. (trip_step Z hwm)\<^sup>*\<^sup>* trip_init t \<and> tp_returned t)
    \<and> (hwm < ASYNC_CALLS \<longrightarrow> (\<exists>t i. (trip_step Z hwm)\<^sup>*\<^sup>* trip_init t \<and> stuck (trip_step Z hwm) t \<and> i < ASYNC_CALLS
        \<and> tp_client t = AsyncRecv i \<and> tp_lost t = ASYNC_CALLS - i))"
proof (intro conjI impI)
  have c: "tripping_contract Z hwm" by (rule tripping_contract.intro [OF Z hwm])
  have g: "trip_inv s" using tripping_contract.trip_reached [OF c r] by simp
  show "n \<le> 5 * (SYNC_CALLS + ASYNC_CALLS) + 8" using tripping_contract.trip_reached [OF c r] by simp
  show "subseq (tp_got s) trip_values" by (rule trip_got_subseq [OF g])
  show "take SYNC_CALLS (tp_got s) = take (length (tp_got s)) (take SYNC_CALLS trip_values)" using g by (simp add: trip_inv_def)
  show "tp_lost s = 0 \<Longrightarrow> tp_got s = take (length (tp_got s)) trip_values" by (rule trip_got_prefix [OF g])
  show "\<exists>t. (trip_step Z hwm)\<^sup>*\<^sup>* s t \<and> stuck (trip_step Z hwm) t" by (rule tripping_contract.trip_goes_on [OF c g])
  show "tp_returned s \<and> tp_got s = trip_values \<and> tp_lost s = 0 \<or> tp_fault s = Some Undefined
      \<or> tp_client s = SyncRecv 0 \<and> tp_lost s = 1 \<or> (\<exists>i < ASYNC_CALLS. tp_client s = AsyncRecv i \<and> tp_lost s = ASYNC_CALLS - i)"
    if "stuck (trip_step Z hwm) s"
    using tripping_contract.trip_stuck [OF c g that] trip_ended [OF g] by blast
  show "0 < tp_lost s \<Longrightarrow> \<not> tp_returned s" "0 < tp_lost s \<Longrightarrow> tp_fault s = None" using trip_ended(1) [OF g] by (cases "tp_fault s"; auto)+
  show "\<exists>t. (trip_step Z hwm)\<^sup>*\<^sup>* trip_init t \<and> tp_returned t" by (rule tripping_contract.trip_may_return [OF c])
  show "\<exists>t i. (trip_step Z hwm)\<^sup>*\<^sup>* trip_init t \<and> stuck (trip_step Z hwm) t \<and> i < ASYNC_CALLS
      \<and> tp_client t = AsyncRecv i \<and> tp_lost t = ASYNC_CALLS - i" if "hwm < ASYNC_CALLS"
    by (rule tripping_contract.trip_may_discard [OF c that])
qed

lemma trip_loses_first:
  "(trip_step zmq_std 1000 ^^ 3) trip_init (trip_init\<lparr>tp_client := SyncRecv 0, tp_lost := 1\<rparr>)"
proof -
  let ?s1 = "trip_init\<lparr>tp_client := SyncSend 0\<rparr>"
  let ?s2 = "trip_init\<lparr>tp_client := SyncRecv 0, tp_fe_in := [[nat_string 0]]\<rparr>"
  let ?s3 = "trip_init\<lparr>tp_client := SyncRecv 0, tp_lost := 1\<rparr>"
  have run: "trip_running trip_init" "trip_running ?s1" "trip_running ?s2" by (simp_all add: trip_running_def trip_init_def)
  have 1: "trip_step zmq_std 1000 trip_init ?s1" by (rule trip_client_turns [OF run(1)]) (simp add: trip_init_def)
  have 2: "trip_step zmq_std 1000 ?s1 ?s2"
    using trip_client_sends [OF run(2), of "nat_string 0" "SyncRecv 0" zmq_std 1000] calls_pos by (simp add: trip_init_def)
  obtain os where os: "tripping_broker_step (trip_polls zmq_std (Some [nat_string 0]) None) () = Inr (Next (), os)"
    "trip_broker_sends zmq_std os False False (?s2\<lparr>tp_fe_in := [], tp_be_in := []\<rparr>) = ?s3"
    using trip_broker_turn [OF zmq_std_contract refl, of "Some (nat_string 0)" None False False "?s2\<lparr>tp_fe_in := [], tp_be_in := []\<rparr>"]
    by (auto simp: trip_init_def)
  have "trip_step zmq_std 1000 ?s2 (trip_broker_sends zmq_std os False False (?s2\<lparr>tp_fe_in := [], tp_be_in := []\<rparr>))"
    by (rule trip_broker_turns [OF run(3) _ _ _ os(1)]) (simp_all add: trip_init_def takes_first.simps)
  with 1 2 show ?thesis unfolding os(2) by (auto simp: numeral_3_eq_3 relcompp.simps)
qed

theorem tripping_completes_witness:
  "\<exists>s. (trip_step zmq_std 1000 ^^ 3) trip_init s \<and> tp_lost s = 1 \<and> \<not> tp_returned s
    \<and> (\<exists>t i. (trip_step zmq_std 1000)\<^sup>*\<^sup>* trip_init t \<and> tp_client t = AsyncRecv i \<and> i < ASYNC_CALLS)"
proof -
  let ?s = "trip_init\<lparr>tp_client := SyncRecv 0, tp_lost := 1\<rparr>"
  have hwm: "0 < (1000::nat)" and less: "1000 < ASYNC_CALLS" by (simp_all add: ASYNC_CALLS_def)
  note all = tripping_completes [OF zmq_std_contract hwm trip_loses_first]
  from all have "0 < tp_lost ?s \<longrightarrow> \<not> tp_returned ?s" by blast
  moreover from all less have "\<exists>t i. (trip_step zmq_std 1000)\<^sup>*\<^sup>* trip_init t \<and> tp_client t = AsyncRecv i \<and> i < ASYNC_CALLS" by blast
  ultimately show ?thesis using trip_loses_first by (intro exI [of _ ?s]) simp
qed

end
