(* ===== verification/Wiring.thy ===== *)
theory Wiring
  imports Startup Systems
begin

text \<open>
  What can go wrong while the programs start: a call on a socket that is not open, an identity set
  after the socket is attached (which has no effect), a subscription on a socket of another type, two
  binds to one endpoint, a connect within the process before its bind, and endpoints that do not meet.
  Each is ruled out by a check of the lists of \<open>Startup\<close>; that the check is enough is proved for
  every order in which the threads may run.
\<close>

subsection \<open>Threads that start\<close>

text \<open>The threads that have calls left, and the calls made so far.\<close>

inductive start_step :: "call list list \<times> call list \<Rightarrow> call list list \<times> call list \<Rightarrow> bool" where
  start_calls: "i < length ts \<Longrightarrow> ts ! i = c # cs \<Longrightarrow> \<forall>ds. c \<noteq> Spawn ds \<Longrightarrow>
    start_step (ts, tr) (ts[i := cs], tr @ [c])"
| start_spawns: "i < length ts \<Longrightarrow> ts ! i = Spawn ds # cs \<Longrightarrow>
    start_step (ts, tr) (ts[i := cs] @ [ds], tr)"

fun binds :: "call list \<Rightarrow> string list" where
  "binds [] = []"
| "binds (Bind s e # cs) = e # binds cs"
| "binds (_ # cs) = binds cs"

definition is_inproc :: "string \<Rightarrow> bool" where
  "is_inproc e \<longleftrightarrow> take 9 e = ''inproc://''"

text \<open>In a sequence of calls, each connect within the process comes after a bind of its endpoint.\<close>

fun inproc_ok :: "string list \<Rightarrow> call list \<Rightarrow> bool" where
  "inproc_ok bs [] \<longleftrightarrow> True"
| "inproc_ok bs (Bind s e # cs) \<longleftrightarrow> inproc_ok (e # bs) cs"
| "inproc_ok bs (Connect s e # cs) \<longleftrightarrow> (is_inproc e \<longrightarrow> e \<in> set bs) \<and> inproc_ok bs cs"
| "inproc_ok bs (_ # cs) \<longleftrightarrow> inproc_ok bs cs"

text \<open>The check of a program: the same, along the program and along each thread from where it starts.\<close>

fun start_safe :: "string list \<Rightarrow> call list \<Rightarrow> bool" where
  "start_safe bs [] \<longleftrightarrow> True"
| "start_safe bs (Bind s e # cs) \<longleftrightarrow> start_safe (e # bs) cs"
| "start_safe bs (Connect s e # cs) \<longleftrightarrow> (is_inproc e \<longrightarrow> e \<in> set bs) \<and> start_safe bs cs"
| "start_safe bs (Spawn ds # cs) \<longleftrightarrow> start_safe bs ds \<and> start_safe bs cs"
| "start_safe bs (Open s t # cs) \<longleftrightarrow> start_safe bs cs"
| "start_safe bs (Subscribe s f # cs) \<longleftrightarrow> start_safe bs cs"
| "start_safe bs (Identity s i # cs) \<longleftrightarrow> start_safe bs cs"
| "start_safe bs (Sockopt s n v # cs) \<longleftrightarrow> start_safe bs cs"

fun all_binds :: "call list \<Rightarrow> string list" where
  "all_binds [] = []"
| "all_binds (Bind s e # cs) = e # all_binds cs"
| "all_binds (Spawn ds # cs) = all_binds ds @ all_binds cs"
| "all_binds (Connect s e # cs) = all_binds cs"
| "all_binds (Open s t # cs) = all_binds cs"
| "all_binds (Subscribe s f # cs) = all_binds cs"
| "all_binds (Identity s i # cs) = all_binds cs"
| "all_binds (Sockopt s n v # cs) = all_binds cs"

lemma start_safe_mono: "start_safe bs cs \<Longrightarrow> set bs \<subseteq> set bs' \<Longrightarrow> start_safe bs' cs"
proof (induction bs cs arbitrary: bs' rule: start_safe.induct)
  case (2 bs s e cs)
  then have "set (e # bs) \<subseteq> set (e # bs')" "start_safe (e # bs) cs" by auto
  with "2.IH" show ?case by (simp only: start_safe.simps)
qed auto

lemma start_safe_append: "start_safe bs (cs @ ds) \<longleftrightarrow> start_safe bs cs \<and> start_safe (rev (binds cs) @ bs) ds"
  by (induction bs cs rule: start_safe.induct) auto

lemma binds_append [simp]: "binds (cs @ ds) = binds cs @ binds ds"
  by (induction cs rule: binds.induct) auto

lemma inproc_ok_append: "inproc_ok bs (cs @ ds) \<longleftrightarrow> inproc_ok bs cs \<and> inproc_ok (rev (binds cs) @ bs) ds"
  by (induction bs cs rule: inproc_ok.induct) auto

lemma start_safe_call:
  "start_safe bs (c # cs) \<Longrightarrow> \<forall>ds. c \<noteq> Spawn ds \<Longrightarrow> inproc_ok bs [c] \<and> start_safe (binds [c] @ bs) cs"
  by (cases c) auto

lemma sum_list_upd:
  "i < length ts \<Longrightarrow> sum_list (map f (ts[i := x])) + f (ts ! i) = sum_list (map f ts) + (f x :: 'a :: comm_monoid_add)"
proof (induction ts arbitrary: i)
  case (Cons t ts)
  then show ?case by (cases i) (simp_all add: ac_simps)
qed simp

text \<open>
  What is kept: the calls made are in order, each thread is safe from where it is, and the binds made
  and those still to be made are those of the program.
\<close>

definition start_keeps :: "string multiset \<Rightarrow> call list list \<times> call list \<Rightarrow> bool" where
  "start_keeps B = (\<lambda>(ts, tr). inproc_ok [] tr \<and> (\<forall>t \<in> set ts. start_safe (binds tr) t)
     \<and> mset (binds tr) + sum_list (map (\<lambda>t. mset (all_binds t)) ts) = B)"

lemma all_binds_call: "\<forall>ds. c \<noteq> Spawn ds \<Longrightarrow> all_binds (c # cs) = binds [c] @ all_binds cs"
  by (cases c) auto

lemma start_keeps_step: "start_keeps B s \<Longrightarrow> start_step s t \<Longrightarrow> start_keeps B t"
proof (erule start_step.cases)
  fix i ts c cs tr
  assume inv: "start_keeps B s" and s: "s = (ts, tr)" and t: "t = (ts[i := cs], tr @ [c])"
    and i: "i < length ts" "ts ! i = c # cs" and c: "\<forall>ds. c \<noteq> Spawn ds"
  have safe: "start_safe (binds tr) u" if "u \<in> set ts" for u using inv that by (simp add: start_keeps_def s)
  then have "start_safe (binds tr) (c # cs)" using i nth_mem by metis
  from start_safe_call [OF this c] have ok: "inproc_ok (binds tr) [c]" "start_safe (binds [c] @ binds tr) cs" by simp_all
  have "inproc_ok [] (tr @ [c])"
    using inv ok(1) by (cases c) (auto simp: start_keeps_def s inproc_ok_append)
  moreover have "start_safe (binds (tr @ [c])) u" if "u \<in> set (ts[i := cs])" for u
  proof (cases "u = cs")
    case True
    then show ?thesis using start_safe_mono [OF ok(2), of "binds (tr @ [c])"] by auto
  next
    case False
    then have "u \<in> set ts" using that set_update_subset_insert by fastforce
    from start_safe_mono [OF safe [OF this]] show ?thesis by simp
  qed
  moreover have "mset (binds (tr @ [c])) + sum_list (map (\<lambda>t. mset (all_binds t)) (ts[i := cs])) = B"
  proof -
    have "sum_list (map (\<lambda>t. mset (all_binds t)) (ts[i := cs])) + mset (binds [c]) + mset (all_binds cs) =
        sum_list (map (\<lambda>t. mset (all_binds t)) ts) + mset (all_binds cs)"
      using sum_list_upd [OF i(1), of "\<lambda>t. mset (all_binds t)" cs] i(2) all_binds_call [OF c, of cs] by (simp add: ac_simps)
    then show ?thesis using inv by (simp add: start_keeps_def s ac_simps)
  qed
  ultimately show ?thesis by (simp add: start_keeps_def t)
next
  fix i ts ds cs tr
  assume inv: "start_keeps B s" and s: "s = (ts, tr)" and t: "t = (ts[i := cs] @ [ds], tr)"
    and i: "i < length ts" "ts ! i = Spawn ds # cs"
  have safe: "start_safe (binds tr) u" if "u \<in> set ts" for u using inv that by (simp add: start_keeps_def s)
  then have "start_safe (binds tr) (Spawn ds # cs)" using i nth_mem by metis
  then have new: "start_safe (binds tr) ds" "start_safe (binds tr) cs" by simp_all
  have "start_safe (binds tr) u" if "u \<in> set (ts[i := cs] @ [ds])" for u
    using that new safe set_update_subset_insert [of ts i cs] by auto
  moreover have "sum_list (map (\<lambda>t. mset (all_binds t)) (ts[i := cs])) + mset (all_binds ds) =
      sum_list (map (\<lambda>t. mset (all_binds t)) ts)"
    using sum_list_upd [OF i(1), of "\<lambda>t. mset (all_binds t)" cs] i(2) by (simp add: ac_simps)
  ultimately show ?thesis using inv by (simp add: start_keeps_def s t add.assoc)
qed

definition start_inv :: "call list \<Rightarrow> call list list \<times> call list \<Rightarrow> bool" where
  "start_inv p s \<longleftrightarrow> start_safe [] p \<longrightarrow> start_keeps (mset (all_binds p)) s"

interpretation starting: invariant_system "([p], [])" start_step "start_inv p" for p
proof unfold_locales
  show "start_inv p ([p], [])" by (simp add: start_inv_def start_keeps_def)
  show "start_inv p s \<Longrightarrow> start_step s t \<Longrightarrow> start_inv p t" for s t
    using start_keeps_step unfolding start_inv_def by blast
qed

lemma distinct_prefix_mset: "mset xs \<subseteq># mset ys \<Longrightarrow> distinct ys \<Longrightarrow> distinct xs"
proof -
  assume sub: "mset xs \<subseteq># mset ys" and "distinct ys"
  then have "count (mset xs) a \<le> 1" for a
    using mset_subset_eq_count [OF sub, of a] distinct_count_atmost_1 [of ys]
    by (cases "a \<in> set ys") (auto simp: count_mset_0_iff [symmetric] simp del: count_mset_0_iff)
  then have "count (mset xs) a = (if a \<in> set xs then 1 else 0)" for a
    by (metis One_nat_def count_mset_0_iff le_SucE le_zero_eq)
  then show "distinct xs" unfolding distinct_count_atmost_1 by blast
qed

text \<open>A program that passes the check starts in order, however its threads are scheduled.\<close>

lemma start_in_order:
  assumes "start_safe [] p" and "distinct (all_binds p)" and "start_step\<^sup>*\<^sup>* ([p], []) (ts, tr)"
  shows "inproc_ok [] tr \<and> distinct (binds tr)"
proof -
  have keeps: "inproc_ok [] tr" "mset (binds tr) + sum_list (map (\<lambda>t. mset (all_binds t)) ts) = mset (all_binds p)"
    using starting.inv_reachable [OF assms(3)] assms(1) by (simp_all add: start_inv_def start_keeps_def)
  have "distinct (binds tr)"
  proof (rule distinct_prefix_mset)
    show "mset (binds tr) \<subseteq># mset (all_binds p)" using keeps(2) by (metis mset_subset_eq_add_left)
  qed (rule assms(2))
  with keeps(1) show ?thesis by simp
qed

subsection \<open>All the programs\<close>

text \<open>The programs whose start depends on options only, and those whose start is always the same.\<close>

definition option_programs :: "(cmdline option \<Rightarrow> call list startup) list" where
  "option_programs = [hwclient_setup, hwserver_setup, rrbroker_setup, rrworker_setup, wuserver_setup, wuclient_setup,
     wuproxy_setup, taskvent_setup, taskwork_setup, tasksink_setup, mspoller_setup, msreader_setup, peering1_setup,
     peering2_setup]"

definition fixed_programs :: "call list list" where
  "fixed_programs = [msgqueue_setup, mtserver_setup, interrupt_setup, zcopy_setup, identity_setup, syncpub_setup,
     syncsub_setup, psenvpub_setup, psenvsub_setup, lvcache_setup, lbb_setup, rtd_setup, rtr_setup, espresso_setup,
     tripping_setup, lp_make_socket, lpserver_setup, fa_setup, asyncsrv_setup ''A'' ''B'' ''C'']"

lemma fixed_programs_safe: "p \<in> set fixed_programs \<Longrightarrow> start_safe [] p \<and> distinct (all_binds p)"
proof -
  have "\<forall>p \<in> set fixed_programs. start_safe [] p \<and> distinct (all_binds p)" by code_simp
  then show "p \<in> set fixed_programs \<Longrightarrow> start_safe [] p \<and> distinct (all_binds p)" by blast
qed

text \<open>
  C34: whatever the order in which the threads of a program get to run while it starts, a connect
  within the process always comes after the bind it needs, and no endpoint is bound twice.
\<close>

theorem programs_start_in_order:
  assumes "p \<in> set fixed_programs" and "start_step\<^sup>*\<^sup>* ([p], []) (ts, tr)"
  shows "inproc_ok [] tr \<and> distinct (binds tr)"
  using start_in_order [OF _ _ assms(2)] fixed_programs_safe [OF assms(1)] by blast

lemma start_alone: "\<forall>ds. Spawn ds \<notin> set cs \<Longrightarrow> start_step\<^sup>*\<^sup>* ([cs], tr) ([[]], tr @ cs)"
proof (induction cs arbitrary: tr)
  case (Cons c cs)
  have "start_step ([c # cs], tr) ([cs], tr @ [c])"
    using start_calls [of 0 "[c # cs]" c cs tr] Cons.prems by auto
  moreover have "start_step\<^sup>*\<^sup>* ([cs], tr @ [c]) ([[]], (tr @ [c]) @ cs)" using Cons.IH [of "tr @ [c]"] Cons.prems by auto
  ultimately show ?case by (simp add: converse_rtranclp_into_rtranclp)
qed simp

theorem programs_start_in_order_witness:
  "start_step\<^sup>*\<^sup>* ([identity_setup], []) ([[]], identity_setup) \<and> inproc_ok [] identity_setup"
proof -
  have r: "start_step\<^sup>*\<^sup>* ([identity_setup], []) ([[]], identity_setup)"
    using start_alone [of identity_setup "[]"] by (simp add: identity_setup_def)
  have "identity_setup \<in> set fixed_programs" by (simp add: fixed_programs_def)
  from programs_start_in_order [OF this r] r show ?thesis by blast
qed

subsection \<open>Calls on the right sockets\<close>

text \<open>
  What a thread knows of its sockets: their types, and whether they are attached to an endpoint. All
  options but the linger time and subscriptions have to be set before that.
\<close>

fun well_formed :: "(string \<Rightarrow> (socket_type \<times> bool) option) \<Rightarrow> call list \<Rightarrow> bool" where
  "well_formed E [] \<longleftrightarrow> True"
| "well_formed E (Open s t # cs) \<longleftrightarrow> E s = None \<and> well_formed (E(s \<mapsto> (t, False))) cs"
| "well_formed E (Bind s e # cs) \<longleftrightarrow> (case E s of None \<Rightarrow> False | Some (t, a) \<Rightarrow> well_formed (E(s \<mapsto> (t, True))) cs)"
| "well_formed E (Connect s e # cs) \<longleftrightarrow> (case E s of None \<Rightarrow> False | Some (t, a) \<Rightarrow> well_formed (E(s \<mapsto> (t, True))) cs)"
| "well_formed E (Subscribe s f # cs) \<longleftrightarrow> (case E s of None \<Rightarrow> False | Some (t, a) \<Rightarrow> t = SUB \<and> well_formed E cs)"
| "well_formed E (Identity s i # cs) \<longleftrightarrow> (case E s of None \<Rightarrow> False | Some (t, a) \<Rightarrow> \<not> a \<and> well_formed E cs)"
| "well_formed E (Sockopt s n v # cs) \<longleftrightarrow>
     (case E s of None \<Rightarrow> False | Some (t, a) \<Rightarrow> (n = ''LINGER'' \<or> \<not> a) \<and> well_formed E cs)"
| "well_formed E (Spawn ds # cs) \<longleftrightarrow> well_formed Map.empty ds \<and> well_formed E cs"



lemma well_formed_spawns: "well_formed E (replicate n (Spawn ds) @ cs) \<longleftrightarrow> (n = 0 \<or> well_formed Map.empty ds) \<and> well_formed E cs"
  by (induction n) auto

lemma well_formed_spawned [simp]: "well_formed E (replicate n (Spawn ds)) \<longleftrightarrow> n = 0 \<or> well_formed Map.empty ds"
  using well_formed_spawns [of E n ds "[]"] by simp

lemma with_options_Ready: "with_options p k = Ready x \<longleftrightarrow> (\<exists>c. p = Some c \<and> \<not> given_help c \<and> k c = Ready x)"
  by (simp add: with_options_def split: option.splits)

lemma required_Ready:
  "required_int c name ki = Ready x \<longleftrightarrow> (\<exists>n. given_int c name = Some n \<and> ki n = Ready x)"
  "required_text c name kt = Ready x \<longleftrightarrow> (\<exists>v. given_text c name = Some v \<and> kt v = Ready x)"
  "required_texts c name kl = Ready x \<longleftrightarrow> given_texts c name \<noteq> [] \<and> kl (given_texts c name) = Ready x"
  by (simp_all add: required_int_def required_text_def required_texts_def split: option.splits)

lemma filter3_Ready: "(case filter3 f of Inl e \<Rightarrow> Fails e | Inr g \<Rightarrow> k g) = Ready x \<longleftrightarrow> (\<exists>g. filter3 f = Inr g \<and> k g = Ready x)"
  by (simp split: sum.splits)

lemmas ready_simps = with_options_Ready required_Ready filter3_Ready Let_def











subsection \<open>Exit statuses\<close>

lemmas option_defs = with_options_def required_int_def required_text_def required_texts_def Let_def

lemmas setup_defs = hwclient_setup_def hwserver_setup_def rrbroker_setup_def rrworker_setup_def wuserver_setup_def
  wuclient_setup_def wuproxy_setup_def taskvent_setup_def taskwork_setup_def tasksink_setup_def mspoller_setup_def
  msreader_setup_def

lemma options_parser_error: "\<forall>f \<in> set option_programs. f None = Exit 1"
  by (simp add: option_programs_def setup_defs peering1_setup_def peering2_setup_def with_options_def)

lemma options_help: "\<forall>f \<in> set option_programs. \<forall>c. given_help c \<longrightarrow> f (Some c) = Exit 0"
  by (simp add: option_programs_def setup_defs peering1_setup_def peering2_setup_def with_options_def)

lemma required_options:
  assumes "\<not> given_help c"
  shows "wuproxy_setup (Some c) = Exit 1 \<longleftrightarrow> given_text c ''sub-addr'' = None \<or> given_text c ''pub-addr'' = None"
    and "peering1_setup (Some c) = Exit 1 \<longleftrightarrow>
      given_int c ''state-port'' = None \<or> given_texts c ''peer-addr'' = [] \<or> given_int c ''peer-port'' = None"
    and "peering2_setup (Some c) = Exit 1 \<longleftrightarrow> given_int c ''cloud-port'' = None \<or> given_texts c ''peer'' = []
      \<or> given_int c ''frontend-port'' = None \<or> given_int c ''backend-port'' = None"
  using assms by (auto simp: wuproxy_setup_def peering1_setup_def peering2_setup_def option_defs split: option.splits)

lemma short_filters:
  assumes "\<not> given_help c"
  shows "mspoller_setup (Some c) = Fails e \<longleftrightarrow> e = Undefined \<and> length (text_or c ''pub-filter'' ''001'') < 2"
    and "msreader_setup (Some c) = Fails e \<longleftrightarrow> e = Undefined \<and> length (text_or c ''pub-filter'' ''001'') < 2"
  using assms by (auto simp: mspoller_setup_def msreader_setup_def with_options_def filter3_def Let_def)

text \<open>
  A program whose command line the parser rejects returns 1 and one that is asked for help
  returns 0, before any socket is opened; help comes first even when a required option is missing.
  Otherwise the programs with required options return 1 exactly when one is missing, and the two
  readers read past the end of their filter exactly when it has less than two characters.
\<close>

theorem programs_exit:
  "(\<forall>f \<in> set option_programs. f None = Exit 1 \<and> (\<forall>c. given_help c \<longrightarrow> f (Some c) = Exit 0))
    \<and> (\<forall>c. \<not> given_help c \<longrightarrow>
        (wuproxy_setup (Some c) = Exit 1 \<longleftrightarrow> given_text c ''sub-addr'' = None \<or> given_text c ''pub-addr'' = None)
        \<and> (peering1_setup (Some c) = Exit 1 \<longleftrightarrow>
            given_int c ''state-port'' = None \<or> given_texts c ''peer-addr'' = [] \<or> given_int c ''peer-port'' = None)
        \<and> (peering2_setup (Some c) = Exit 1 \<longleftrightarrow> given_int c ''cloud-port'' = None \<or> given_texts c ''peer'' = []
            \<or> given_int c ''frontend-port'' = None \<or> given_int c ''backend-port'' = None)
        \<and> (\<forall>e. mspoller_setup (Some c) = Fails e \<longleftrightarrow> e = Undefined \<and> length (text_or c ''pub-filter'' ''001'') < 2)
        \<and> (\<forall>e. msreader_setup (Some c) = Fails e \<longleftrightarrow> e = Undefined \<and> length (text_or c ''pub-filter'' ''001'') < 2))"
proof (intro conjI ballI allI impI)
  show "f \<in> set option_programs \<Longrightarrow> f None = Exit 1" for f using options_parser_error by (rule bspec)
  show "f \<in> set option_programs \<Longrightarrow> given_help c \<Longrightarrow> f (Some c) = Exit 0" for f c using options_help by blast
qed (erule required_options short_filters)+

theorem programs_exit_witness:
  "mspoller_setup (Some \<lparr>given_help = False, given_text = [''pub-filter'' \<mapsto> ''0''], given_int = Map.empty,
      given_texts = (\<lambda>_. [])\<rparr>) = Fails Undefined"
proof -
  let ?c = "\<lparr>given_help = False, given_text = [''pub-filter'' \<mapsto> ''0''], given_int = Map.empty, given_texts = (\<lambda>_. [])\<rparr>"
  have "\<not> given_help ?c" "length (text_or ?c ''pub-filter'' ''001'') < 2" by (simp_all add: text_or_def)
  with programs_exit show ?thesis by blast
qed

subsection \<open>Endpoints that meet\<close>

text \<open>Which types of socket talk to each other, and whether a peer on a host connects to what is bound.\<close>

fun talks :: "socket_type \<Rightarrow> socket_type \<Rightarrow> bool" where
  "talks REQ t \<longleftrightarrow> t \<in> {REP, ROUTER}"
| "talks REP t \<longleftrightarrow> t \<in> {REQ, DEALER}"
| "talks DEALER t \<longleftrightarrow> t \<in> {REP, DEALER, ROUTER}"
| "talks ROUTER t \<longleftrightarrow> t \<in> {REQ, DEALER, ROUTER}"
| "talks PUB t \<longleftrightarrow> t \<in> {SUB, XSUB}"
| "talks XPUB t \<longleftrightarrow> t \<in> {SUB, XSUB}"
| "talks SUB t \<longleftrightarrow> t \<in> {PUB, XPUB}"
| "talks XSUB t \<longleftrightarrow> t \<in> {PUB, XPUB}"
| "talks PUSH t \<longleftrightarrow> t = PULL"
| "talks PULL t \<longleftrightarrow> t = PUSH"
| "talks PAIR t \<longleftrightarrow> t = PAIR"

definition meets :: "string \<Rightarrow> string \<Rightarrow> string \<Rightarrow> bool" where
  "meets host b c \<longleftrightarrow> take 8 b = ''tcp://*:'' \<and> c = ''tcp://'' @ host @ '':'' @ drop 8 b \<or> is_inproc b \<and> b = c"

text \<open>The attached sockets of a program, its threads included: type, whether it binds, endpoint.\<close>

fun attached :: "(string \<Rightarrow> socket_type option) \<Rightarrow> call list \<Rightarrow> (socket_type \<times> bool \<times> string) list" where
  "attached E [] = []"
| "attached E (Open s t # cs) = attached (E(s \<mapsto> t)) cs"
| "attached E (Bind s e # cs) = (the (E s), True, e) # attached E cs"
| "attached E (Connect s e # cs) = (the (E s), False, e) # attached E cs"
| "attached E (Spawn ds # cs) = attached Map.empty ds @ attached E cs"
| "attached E (Subscribe s f # cs) = attached E cs"
| "attached E (Identity s i # cs) = attached E cs"
| "attached E (Sockopt s n v # cs) = attached E cs"

text \<open>Each connect of the one program meets a bind of one of the others, on a socket it can talk to.\<close>

definition served_at :: "string \<Rightarrow> call list list \<Rightarrow> socket_type \<Rightarrow> string \<Rightarrow> bool" where
  "served_at host servers t e \<longleftrightarrow>
     (\<exists>server \<in> set servers. \<exists>(t', b', e') \<in> set (attached Map.empty server). b' \<and> talks t' t \<and> meets host e' e)"

definition finds :: "string \<Rightarrow> call list \<Rightarrow> call list list \<Rightarrow> bool" where
  "finds host client servers \<longleftrightarrow> (\<forall>(t, b, e) \<in> set (attached Map.empty client). b \<or> served_at host servers t e)"

lemma served_atI: "(t', True, e') \<in> set (attached Map.empty server) \<Longrightarrow> server \<in> set servers \<Longrightarrow> talks t' t \<Longrightarrow>
    meets host e' e \<Longrightarrow> served_at host servers t e"
  unfolding served_at_def by blast

lemma meets_tcp [simp]: "meets host (tcp ''*'' port) (tcp host port)"
  by (simp add: meets_def tcp_def)

lemma meets_any [simp]: "meets host (''tcp://*:'' @ port) (''tcp://'' @ host @ '':'' @ port)"
  by (simp add: meets_def)

text \<open>Programs whose threads connect to each other.\<close>

definition threaded_programs :: "call list list" where
  "threaded_programs = [mtserver_setup, identity_setup, lbb_setup, rtd_setup, rtr_setup, espresso_setup, tripping_setup,
     fa_setup, asyncsrv_setup ''A'' ''B'' ''C'']"

lemma threaded_find: "\<forall>p \<in> set threaded_programs. finds ''localhost'' p [p]"
  by code_simp

lemma fixed_find:
  "finds ''localhost'' syncsub_setup [syncpub_setup]" "finds ''localhost'' psenvsub_setup [psenvpub_setup]"
  "finds ''localhost'' lp_make_socket [lpserver_setup]"
  "finds ''localhost'' lvcache_setup [lvcache_setup, pathopub_setup [''5557'']]"
  by code_simp+

lemma patho_find:
  "finds ''localhost'' (pathosub_setup [''localhost:5558''] n) [lvcache_setup]"
  "finds ''localhost'' (pathosub_setup [] n) [pathopub_setup []]"
  by (simp_all add: finds_def served_at_def pathosub_setup_def pathopub_setup_def lvcache_setup_def meets_def)

lemma pirate_find:
  "spqueue_setup ver = Ready q \<Longrightarrow> finds ''localhost'' (spworker_setup pid) [q] \<and> finds ''localhost'' lp_make_socket [q]"
  "ppqueue_setup ver = Ready q \<Longrightarrow> ppworker_setup ver pid = Ready w \<Longrightarrow>
    finds ''localhost'' w [q] \<and> finds ''localhost'' lp_make_socket [q]"
  by (auto simp: finds_def served_at_def spqueue_setup_def spworker_setup_def ppqueue_setup_def ppworker_setup_def lp_make_socket_def
      meets_def split: exit_status.splits if_splits)

text \<open>
  A ROUTER socket sends to the identity of a peer, and the third freelance client takes the endpoint
  for it: the identity of a server started with a port number is the endpoint on the same machine.
\<close>

lemma flserver3_found:
  assumes "n < 2 ^ 31"
  shows "flserver3_setup [nat_string n] = [Open ''server'' ROUTER, Identity ''server'' (''tcp://localhost:'' @ nat_string n),
      Bind ''server'' (''tcp://*:'' @ nat_string n)]
    \<and> meets ''localhost'' (''tcp://*:'' @ nat_string n) (''tcp://localhost:'' @ nat_string n)"
proof -
  have "fl3_get_port [nat_string n] = word_of_int (int n)"
    using assms by (simp add: strtol_nat_string nat_string_not_Nil [THEN not_sym])
  moreover have "unsigned_string (word_of_int (int n)) = nat_string n"
    using assms by (simp add: unsigned_string_def unat_of_nat)
  ultimately show ?thesis by (simp add: flserver3_setup_def flserver3_identity_def Let_def meets_def)
qed

lemma flclient3_named: "e \<in> set flclient3_endpoints \<Longrightarrow> \<exists>n < 2 ^ 31. e = ''tcp://localhost:'' @ nat_string n"
proof -
  have "nat_string 5555 = ''5555''" "nat_string 5556 = ''5556''" "nat_string 5557 = ''5557''"
    by (simp_all add: nat_string.simps [of 5555] nat_string.simps [of 5556] nat_string.simps [of 5557]
        nat_string.simps [of 555] nat_string.simps [of 55] nat_string.simps [of 5] digit_char_def char_of_eq_iff)
  then have "''tcp://localhost:5555'' = ''tcp://localhost:'' @ nat_string 5555"
    "''tcp://localhost:5556'' = ''tcp://localhost:'' @ nat_string 5556"
    "''tcp://localhost:5557'' = ''tcp://localhost:'' @ nat_string 5557"
    by simp_all
  moreover have "(5555 :: nat) < 2 ^ 31" "(5556 :: nat) < 2 ^ 31" "(5557 :: nat) < 2 ^ 31" by simp_all
  ultimately show "e \<in> set flclient3_endpoints \<Longrightarrow> \<exists>n < 2 ^ 31. e = ''tcp://localhost:'' @ nat_string n"
    unfolding flclient3_endpoints_def list.set by blast
qed

text \<open>Programs with options, on one machine or two.\<close>

lemma reqrep_find:
  "hwclient_setup (Some c) = Ready cs \<Longrightarrow> hwserver_setup (Some s) = Ready ss \<Longrightarrow> text_or s ''address'' ''*'' = ''*'' \<Longrightarrow>
    int_or s ''port'' 5555 = int_or c ''port'' 5555 \<Longrightarrow> finds (text_or c ''server'' ''localhost'') cs [ss]"
  "rrclient_setup (Some c) = Ready (cs, n) \<Longrightarrow> rrbroker_setup (Some s) = Ready ss \<Longrightarrow>
    int_or s ''frontend-port'' 5559 = int_or c ''port'' 5559 \<Longrightarrow> finds (text_or c ''server'' ''localhost'') cs [ss]"
  "rrworker_setup (Some c) = Ready cs \<Longrightarrow> rrbroker_setup (Some s) = Ready ss \<Longrightarrow>
    int_or s ''backend-port'' 5560 = int_or c ''port'' 5560 \<Longrightarrow> finds (text_or c ''broker'' ''localhost'') cs [ss]"
  by (auto simp: hwclient_setup_def hwserver_setup_def rrclient_setup_def rrbroker_setup_def rrworker_setup_def
      ready_simps finds_def served_at_def)

lemma pubsub_find:
  "wuclient_setup (Some c) = Ready cs \<Longrightarrow> wuserver_setup (Some s) = Ready ss \<Longrightarrow>
    int_or s ''port'' 5556 = int_or c ''port'' 5556 \<Longrightarrow> finds (text_or c ''server'' ''localhost'') cs [ss]"
  "taskvent_setup (Some v) = Ready vs \<Longrightarrow> tasksink_setup (Some s) = Ready ts \<Longrightarrow>
    int_or s ''port'' 5558 = int_or v ''sink-port'' 5558 \<Longrightarrow> finds (text_or v ''sink-addr'' ''localhost'') vs [ts]"
  by (auto simp: wuclient_setup_def wuserver_setup_def taskvent_setup_def tasksink_setup_def ready_simps finds_def served_at_def)

lemma pipeline_find:
  assumes "taskwork_setup (Some c) = Ready cs" "taskvent_setup (Some v) = Ready vs" "tasksink_setup (Some s) = Ready ts"
    and h: "text_or c ''vent-addr'' ''localhost'' = h" "text_or c ''sink-addr'' ''localhost'' = h"
    and port: "int_or v ''port'' 5557 = int_or c ''vent-port'' 5557" "int_or s ''port'' 5558 = int_or c ''sink-port'' 5558"
      "int_or s ''ctrl-port'' 5559 = int_or c ''ctrl-port'' 5559"
  shows "finds h cs [vs, ts]"
proof -
  have cs: "cs = [Open ''receiver'' PULL, Connect ''receiver'' (tcp h (int_or v ''port'' 5557)),
      Open ''sender'' PUSH, Connect ''sender'' (tcp h (int_or s ''port'' 5558)),
      Open ''controller'' SUB, Connect ''controller'' (tcp h (int_or s ''ctrl-port'' 5559)), Subscribe ''controller'' []]"
    using assms(1) unfolding taskwork_setup_def ready_simps h port by (clarsimp simp: h)
  have "(PUSH, True, tcp ''*'' (int_or v ''port'' 5557)) \<in> set (attached Map.empty vs)"
    using assms(2) unfolding taskvent_setup_def ready_simps by clarsimp
  moreover have "(PULL, True, tcp ''*'' (int_or s ''port'' 5558)) \<in> set (attached Map.empty ts)"
      "(PUB, True, tcp ''*'' (int_or s ''ctrl-port'' 5559)) \<in> set (attached Map.empty ts)"
    using assms(3) unfolding tasksink_setup_def ready_simps by clarsimp+
  ultimately have "served_at h [vs, ts] PULL (tcp h (int_or v ''port'' 5557))" "served_at h [vs, ts] PUSH (tcp h (int_or s ''port'' 5558))"
      "served_at h [vs, ts] SUB (tcp h (int_or s ''ctrl-port'' 5559))"
    by (auto intro: served_atI)
  then show ?thesis by (simp add: finds_def cs)
qed

text \<open>
  C33: the programs that belong together meet. A client given the port its server is given (or
  neither) connects to what the server binds, on sockets that talk to each other, on whatever host;
  the threads of one program meet; the workers of the pipeline meet ventilator and sink; the
  run described in the cache program meets; and a freelance server's identity is its endpoint.
\<close>

theorem programs_meet:
  "(\<forall>c s cs ss. hwclient_setup (Some c) = Ready cs \<and> hwserver_setup (Some s) = Ready ss \<and> text_or s ''address'' ''*'' = ''*''
      \<and> int_or s ''port'' 5555 = int_or c ''port'' 5555 \<longrightarrow> finds (text_or c ''server'' ''localhost'') cs [ss])
    \<and> (\<forall>c s cs ss n. rrclient_setup (Some c) = Ready (cs, n) \<and> rrbroker_setup (Some s) = Ready ss
      \<and> int_or s ''frontend-port'' 5559 = int_or c ''port'' 5559 \<longrightarrow> finds (text_or c ''server'' ''localhost'') cs [ss])
    \<and> (\<forall>c s cs ss. rrworker_setup (Some c) = Ready cs \<and> rrbroker_setup (Some s) = Ready ss
      \<and> int_or s ''backend-port'' 5560 = int_or c ''port'' 5560 \<longrightarrow> finds (text_or c ''broker'' ''localhost'') cs [ss])
    \<and> (\<forall>c s cs ss. wuclient_setup (Some c) = Ready cs \<and> wuserver_setup (Some s) = Ready ss
      \<and> int_or s ''port'' 5556 = int_or c ''port'' 5556 \<longrightarrow> finds (text_or c ''server'' ''localhost'') cs [ss])
    \<and> (\<forall>c v s h cs vs ts. taskwork_setup (Some c) = Ready cs \<and> taskvent_setup (Some v) = Ready vs \<and> tasksink_setup (Some s) = Ready ts
      \<and> text_or c ''vent-addr'' ''localhost'' = h \<and> text_or c ''sink-addr'' ''localhost'' = h \<and> text_or v ''sink-addr'' ''localhost'' = h
      \<and> int_or v ''port'' 5557 = int_or c ''vent-port'' 5557 \<and> int_or s ''port'' 5558 = int_or c ''sink-port'' 5558
      \<and> int_or s ''port'' 5558 = int_or v ''sink-port'' 5558 \<and> int_or s ''ctrl-port'' 5559 = int_or c ''ctrl-port'' 5559
      \<longrightarrow> finds h cs [vs, ts] \<and> finds h vs [ts])
    \<and> (\<forall>p \<in> set threaded_programs. finds ''localhost'' p [p])
    \<and> finds ''localhost'' syncsub_setup [syncpub_setup] \<and> finds ''localhost'' psenvsub_setup [psenvpub_setup]
    \<and> finds ''localhost'' lp_make_socket [lpserver_setup]
    \<and> (\<forall>n. finds ''localhost'' lvcache_setup [lvcache_setup, pathopub_setup [''5557'']]
      \<and> finds ''localhost'' (pathosub_setup [''localhost:5558''] n) [lvcache_setup]
      \<and> finds ''localhost'' (pathosub_setup [] n) [pathopub_setup []])
    \<and> (\<forall>ver pid q. spqueue_setup ver = Ready q \<longrightarrow> finds ''localhost'' (spworker_setup pid) [q] \<and> finds ''localhost'' lp_make_socket [q])
    \<and> (\<forall>ver pid q w. ppqueue_setup ver = Ready q \<and> ppworker_setup ver pid = Ready w
      \<longrightarrow> finds ''localhost'' w [q] \<and> finds ''localhost'' lp_make_socket [q])
    \<and> (\<forall>e \<in> set flclient3_endpoints. \<exists>arg b. flserver3_setup [arg] =
        [Open ''server'' ROUTER, Identity ''server'' e, Bind ''server'' b] \<and> meets ''localhost'' b e)"
proof (intro conjI allI impI ballI; (elim conjE)?)
  fix e
  assume "e \<in> set flclient3_endpoints"
  from flclient3_named [OF this] obtain n where "n < 2 ^ 31" "e = ''tcp://localhost:'' @ nat_string n" by blast
  with flserver3_found show "\<exists>arg b. flserver3_setup [arg] =
        [Open ''server'' ROUTER, Identity ''server'' e, Bind ''server'' b] \<and> meets ''localhost'' b e" by blast
next
  fix v s h vs ts
  assume "taskvent_setup (Some v) = Ready vs" "tasksink_setup (Some s) = Ready ts" "text_or v ''sink-addr'' ''localhost'' = h"
    "int_or s ''port'' 5558 = int_or v ''sink-port'' 5558"
  then show "finds h vs [ts]" using pubsub_find(2) by blast
qed ((rule fixed_find patho_find | (rule reqrep_find pubsub_find(1) pipeline_find; assumption)
    | (erule bspec [OF threaded_find]) | (erule pirate_find(1) [THEN conjunct1] pirate_find(1) [THEN conjunct2])
    | (erule (1) pirate_find(2) [THEN conjunct1] pirate_find(2) [THEN conjunct2]))+)

theorem programs_meet_witness:
  "finds ''localhost'' [Open ''requester'' REQ, Connect ''requester'' (tcp ''localhost'' 7000)]
      [[Open ''frontend'' ROUTER, Open ''backend'' DEALER, Bind ''frontend'' (tcp ''*'' 7000), Bind ''backend'' (tcp ''*'' 5560)]]"
proof -
  let ?c = "\<lparr>given_help = False, given_text = Map.empty, given_int = [''port'' \<mapsto> 7000], given_texts = (\<lambda>_. [])\<rparr>"
  let ?s = "\<lparr>given_help = False, given_text = Map.empty, given_int = [''frontend-port'' \<mapsto> 7000], given_texts = (\<lambda>_. [])\<rparr>"
  have "rrclient_setup (Some ?c) = Ready ([Open ''requester'' REQ, Connect ''requester'' (tcp ''localhost'' 7000)], 100)"
    "rrbroker_setup (Some ?s) = Ready [Open ''frontend'' ROUTER, Open ''backend'' DEALER, Bind ''frontend'' (tcp ''*'' 7000),
        Bind ''backend'' (tcp ''*'' 5560)]"
    "int_or ?s ''frontend-port'' 5559 = int_or ?c ''port'' 5559" "text_or ?c ''server'' ''localhost'' = ''localhost''"
    by (simp_all add: rrclient_setup_def rrbroker_setup_def with_options_def text_or_def int_or_def)
  with programs_meet show ?thesis by metis
qed

subsection \<open>A network of brokers\<close>

lemma attached_connects: "E s = Some t \<Longrightarrow>
    attached E (map (\<lambda>x. Connect s (f x)) xs @ cs) = map (\<lambda>x. (t, False, f x)) xs @ attached E cs"
  by (induction xs) simp_all

lemma attached_spawns: "set (attached E (replicate n (Spawn ds) @ cs)) =
    (if n = 0 then {} else set (attached Map.empty ds)) \<union> set (attached E cs)"
  by (induction n) auto

text \<open>The sockets of a broker: two that meet the peers, two that meet its own threads.\<close>

definition local_calls :: "int \<Rightarrow> int \<Rightarrow> nat \<Rightarrow> nat \<Rightarrow> call list" where
  "local_calls fe be m n = [Open ''localfe'' ROUTER, Bind ''localfe'' (''tcp://*:'' @ int_string fe),
      Open ''localbe'' ROUTER, Bind ''localbe'' (''tcp://*:'' @ int_string be)]
    @ replicate m (Spawn (peering2_worker_setup (''localhost:'' @ int_string be)))
    @ replicate n (Spawn (peering2_client_setup (''localhost:'' @ int_string fe))) @ []"

lemma local_attached:
  "set (attached E (local_calls fe be m n)) =
    {(ROUTER, True, ''tcp://*:'' @ int_string fe), (ROUTER, True, ''tcp://*:'' @ int_string be)}
      \<union> (if m = 0 then {} else {(REQ, False, ''tcp://localhost:'' @ int_string be)})
      \<union> (if n = 0 then {} else {(REQ, False, ''tcp://localhost:'' @ int_string fe)})"
proof -
  have w: "attached Map.empty (peering2_worker_setup (''localhost:'' @ int_string be)) = [(REQ, False, ''tcp://localhost:'' @ int_string be)]"
    "attached Map.empty (peering2_client_setup (''localhost:'' @ int_string fe)) = [(REQ, False, ''tcp://localhost:'' @ int_string fe)]"
    by (simp_all add: peering2_worker_setup_def peering2_client_setup_def)
  have locals: "attached E (local_calls fe be m n) =
      [(ROUTER, True, ''tcp://*:'' @ int_string fe), (ROUTER, True, ''tcp://*:'' @ int_string be)]
      @ attached (E(''localfe'' \<mapsto> ROUTER, ''localbe'' \<mapsto> ROUTER))
          (replicate m (Spawn (peering2_worker_setup (''localhost:'' @ int_string be)))
            @ replicate n (Spawn (peering2_client_setup (''localhost:'' @ int_string fe))) @ [])"
    unfolding local_calls_def by simp
  show ?thesis unfolding locals set_append attached_spawns w by simp
qed

lemma peering2_calls:
  assumes "peering2_setup (Some c) = Ready cs" and "given_int c ''cloud-port'' = Some q"
  obtains fe be m n where "cs = [Open ''cloudfe'' ROUTER, Identity ''cloudfe'' (peering_broker_id q),
        Bind ''cloudfe'' (''tcp://*:'' @ int_string q), Open ''cloudbe'' ROUTER, Identity ''cloudbe'' (peering_broker_id q)]
      @ map (\<lambda>peer. Connect ''cloudbe'' (''tcp://'' @ peer)) (given_texts c ''peer'') @ local_calls fe be m n"
  using assms unfolding peering2_setup_def ready_simps local_calls_def by (auto split: if_splits)

lemma peering2_attached:
  assumes "peering2_setup (Some c) = Ready cs" and "given_int c ''cloud-port'' = Some q"
  obtains fe be m n where "set (attached Map.empty cs) = {(ROUTER, True, ''tcp://*:'' @ int_string q)}
      \<union> (\<lambda>peer. (ROUTER, False, ''tcp://'' @ peer)) ` set (given_texts c ''peer'')
      \<union> set (attached Map.empty (local_calls fe be m n))"
    and "Identity ''cloudfe'' (peering_broker_id q) \<in> set cs"
proof -
  let ?E = "[''cloudfe'' \<mapsto> ROUTER, ''cloudbe'' \<mapsto> ROUTER]"
  obtain fe be m n where cs: "cs = [Open ''cloudfe'' ROUTER, Identity ''cloudfe'' (peering_broker_id q),
        Bind ''cloudfe'' (''tcp://*:'' @ int_string q), Open ''cloudbe'' ROUTER, Identity ''cloudbe'' (peering_broker_id q)]
      @ map (\<lambda>peer. Connect ''cloudbe'' (''tcp://'' @ peer)) (given_texts c ''peer'') @ local_calls fe be m n"
    using peering2_calls [OF assms] .
  have E: "?E ''cloudbe'' = Some ROUTER" by simp
  have cloud: "attached Map.empty cs = (ROUTER, True, ''tcp://*:'' @ int_string q)
      # attached ?E (map (\<lambda>peer. Connect ''cloudbe'' (''tcp://'' @ peer)) (given_texts c ''peer'') @ local_calls fe be m n)"
    unfolding cs by simp
  have env: "set (attached ?E (local_calls fe be m n)) = set (attached Map.empty (local_calls fe be m n))"
    by (simp only: local_attached)
  have "set (attached Map.empty cs) = {(ROUTER, True, ''tcp://*:'' @ int_string q)}
      \<union> (\<lambda>peer. (ROUTER, False, ''tcp://'' @ peer)) ` set (given_texts c ''peer'')
      \<union> set (attached Map.empty (local_calls fe be m n))"
    unfolding cloud attached_connects [where E = ?E and s = "''cloudbe''", OF E]
    by (simp only: list.set set_append set_map env) blast
  then show thesis using that by (simp add: cs)
qed

text \<open>
  A network of routing brokers on one machine, each given the ports of the others as
  localhost:port, is connected: every connect of every broker and of its threads meets a bind,
  and the identity a broker gives itself is the text by which its peers know it.
\<close>

theorem peering_network_meets:
  assumes ready: "\<forall>c \<in> set brokers. peering2_setup (Some c) = Ready (calls c)"
    and port: "\<forall>c \<in> set brokers. given_int c ''cloud-port'' = Some (port c)"
    and peers: "\<forall>c \<in> set brokers. \<forall>peer \<in> set (given_texts c ''peer''). \<exists>d \<in> set brokers. peer = peering_broker_id (port d)"
    and c: "c \<in> set brokers"
  shows "finds ''localhost'' (calls c) (map calls brokers)
    \<and> (\<forall>peer \<in> set (given_texts c ''peer''). \<exists>d \<in> set brokers. Identity ''cloudfe'' peer \<in> set (calls d))"
proof -
  have cloud: "(ROUTER, True, ''tcp://*:'' @ int_string (port d)) \<in> set (attached Map.empty (calls d))"
      "Identity ''cloudfe'' (peering_broker_id (port d)) \<in> set (calls d)" if "d \<in> set brokers" for d
    by (rule peering2_attached [OF bspec [OF ready that] bspec [OF port that]]; simp)+
  obtain fe be m n where own: "set (attached Map.empty (calls c)) = {(ROUTER, True, ''tcp://*:'' @ int_string (port c))}
      \<union> (\<lambda>peer. (ROUTER, False, ''tcp://'' @ peer)) ` set (given_texts c ''peer'')
      \<union> set (attached Map.empty (local_calls fe be m n))"
    using peering2_attached [OF bspec [OF ready c] bspec [OF port c]] by metis
  have peer_served: "served_at ''localhost'' (map calls brokers) ROUTER (''tcp://'' @ peer)"
    if peer: "peer \<in> set (given_texts c ''peer'')" for peer
  proof -
    obtain d where d: "d \<in> set brokers" "peer = peering_broker_id (port d)" using peers c peer by blast
    show ?thesis
      by (rule served_atI [OF cloud(1) [OF d(1)]]) (use d in \<open>simp_all add: peering_broker_id_def meets_def\<close>)
  qed
  have thread_served: "served_at ''localhost'' (map calls brokers) REQ (''tcp://localhost:'' @ int_string p)"
    if "p = fe \<or> p = be" for p
    by (rule served_atI [of ROUTER "''tcp://*:'' @ int_string p" "calls c"])
      (use that c in \<open>auto simp: own local_attached meets_def\<close>)
  have "b \<or> served_at ''localhost'' (map calls brokers) t e" if "(t, b, e) \<in> set (attached Map.empty (calls c))" for t b e
    using that peer_served thread_served unfolding own local_attached by (auto split: if_splits)
  then have "finds ''localhost'' (calls c) (map calls brokers)" unfolding finds_def by blast
  moreover have "\<exists>d \<in> set brokers. Identity ''cloudfe'' peer \<in> set (calls d)"
    if peer: "peer \<in> set (given_texts c ''peer'')" for peer
  proof -
    obtain d where d: "d \<in> set brokers" "peer = peering_broker_id (port d)" using peers c peer by blast
    from cloud(2) [OF d(1)] d show ?thesis by blast
  qed
  ultimately show ?thesis by blast
qed

text \<open>The three brokers that the comment at the head of \<open>peering2.cpp\<close> starts.\<close>

definition peering_line :: "int \<Rightarrow> int list \<Rightarrow> int \<Rightarrow> int \<Rightarrow> cmdline" where
  "peering_line cloud others fe be = \<lparr>given_help = False, given_text = Map.empty,
     given_int = [''cloud-port'' \<mapsto> cloud, ''frontend-port'' \<mapsto> fe, ''backend-port'' \<mapsto> be],
     given_texts = (\<lambda>_. map peering_broker_id others)\<rparr>"

definition peering_brokers :: "cmdline list" where
  "peering_brokers = [peering_line 5551 [5552, 5553] 5561 5562, peering_line 5552 [5551, 5553] 5571 5572,
     peering_line 5553 [5551, 5552] 5581 5582]"

definition ready_calls :: "'a startup \<Rightarrow> 'a option" where
  "ready_calls r = (case r of Ready x \<Rightarrow> Some x | _ \<Rightarrow> None)"

lemma peering_line_ready: "others \<noteq> [] \<Longrightarrow> \<exists>cs. peering2_setup (Some (peering_line cloud others fe be)) = Ready cs"
  by (simp add: peering2_setup_def with_options_def required_int_def required_texts_def peering_line_def int_or_def Let_def)

theorem peering_network_meets_witness:
  "finds ''localhost'' (the (ready_calls (peering2_setup (Some (peering_line 5551 [5552, 5553] 5561 5562)))))
    (map (\<lambda>c. the (ready_calls (peering2_setup (Some c)))) peering_brokers)"
proof -
  let ?calls = "\<lambda>c. the (ready_calls (peering2_setup (Some c)))"
  have "\<forall>c \<in> set peering_brokers. \<exists>cs. peering2_setup (Some c) = Ready cs"
    using peering_line_ready by (simp add: peering_brokers_def)
  then have ready: "\<forall>c \<in> set peering_brokers. peering2_setup (Some c) = Ready (?calls c)"
    by (fastforce simp: ready_calls_def)
  have port: "\<forall>c \<in> set peering_brokers. given_int c ''cloud-port'' = Some (the (given_int c ''cloud-port''))"
    by (simp add: peering_brokers_def peering_line_def)
  have peers: "\<forall>c \<in> set peering_brokers. \<forall>peer \<in> set (given_texts c ''peer'').
      \<exists>d \<in> set peering_brokers. peer = peering_broker_id (the (given_int d ''cloud-port''))"
    by (simp add: peering_brokers_def peering_line_def)
  have "peering_line 5551 [5552, 5553] 5561 5562 \<in> set peering_brokers" by (simp add: peering_brokers_def)
  from peering_network_meets [OF ready port peers this] show ?thesis by blast
qed

end
