(* ===== verification/Spec2Isabelle.thy ===== *)
theory Spec2Isabelle
  imports Version Workers PPQueue PPWorker SPQueue LBBroker Peering Freelance3 LazyPirate Freelance12
    LastValue RTBrokers Pipeline Proxies Diagnostics PubSub Readers LBSystem RTSystem Relay HelloNet
    AsyncNet EspressoNet PirateNet ParanoidNet PipeNet PeeringNet FreelanceNet Freelance2Net TrippingNet Wiring
begin

text \<open>
  A verification library for the ZeroMQ guide examples in C++.

  \<^bold>\<open>The program.\<close> The repository holds some fifty small programs, one directory per example of
  the guide. Each opens sockets of the ZeroMQ library and runs an event loop: poll, receive multipart
  messages, change a little state, send. The programs with logic of their own are the reliable
  request-reply patterns: the paranoid pirate (queue, worker, worker pool), the simple pirate, the
  load-balancing broker, the routing broker of the peering prototype, the lazy pirate, and the three
  freelance models, of which the third has an agent thread with timers behind an API object. Around
  them stand brokers that only forward, publishers and subscribers, a last value cache, a pipeline, and
  tools that print messages.

  \<^bold>\<open>How a program is modelled.\<close> The socket library is not in the repository. What it delivers is
  an input of the model: a list of \<open>recv_event\<close>, each a part with the flag that more parts follow,
  a receive that returned false, or an exception; and for every poll, which sockets are ready. The
  readings of the clock and the random draws are inputs too, at each place where the code makes one.
  What is sent is an output: a list of parts with their \<open>ZMQ_SNDMORE\<close> flags, tagged with the socket.
  One iteration of a loop is a function \<open>*_step\<close> from input and state to a result: a fault, or the
  next state and the output, wrapped in \<open>Next\<close> or, for \<open>break\<close> and \<open>return\<close>,
  \<open>Halt\<close>. The fold \<open>run\<close> of the prelude composes iterations. A fault is a failed assertion, undefined
  behaviour (the front of an empty deque, a buffer overrun, a signed overflow, a division by zero), an
  exception that leaves the function, or a receive that waits for ever. Unsigned counters are 32-bit
  words, as in the x86 builds the solution files are for; \<open>long\<close> has 32 bits there, \<open>char\<close> is
  signed, and times are integers in ticks of 100 ns.

  Some programs are modelled as systems too: all their threads, or several programs together, with
  the messages under way between them, as an inductive step relation (\<open>lbs_step\<close>,
  \<open>rts_step\<close>, \<open>relay_step\<close>, \<open>hello_step\<close>, \<open>asy_step\<close>,
  \<open>pirate_step\<close>, \<open>paranoid_step\<close>, \<open>espresso_net_step\<close>,
  \<open>pipeline_step\<close>, \<open>peernet_step\<close>, \<open>fl3net_step\<close>,
  \<open>fl2net_step\<close>, \<open>trip_step\<close>), whose steps are iterations of the loops above.
  Messages arrive in the order they were sent, whenever they do.

  \<^bold>\<open>Theories.\<close>

  \<^item> \<open>Prelude\<close>: results and faults, the partial operations of \<open>std::deque\<close>, \<open>run\<close>, the
    locales \<open>guarded_loop\<close> (an iteration that keeps an invariant), \<open>dispatcher\<close> and
    \<open>fifo_dispatcher\<close> (a broker that gives requests to workers that have reported), truncating division.
  \<^item> \<open>Frames\<close>: the receive and send helpers, of which the repository has seven copies
    (\<open>recv_frames\<close>, \<open>send_frames\<close>, \<open>recv_msg\<close>, \<open>send_msg\<close>), and the
    part-by-part forwarding loops. The locale \<open>frame_codec\<close> states what a sender and a receiver owe
    each other; every copy is an interpretation.
  \<^item> \<open>Numerals\<close>: \<open>to_string\<close>, \<open>%d\<close>, \<open>%X\<close>, \<open>strtol\<close>, \<open>stoi\<close>, stream extraction of
    an \<open>int\<close>, with their failures, and that reading inverts printing.
  \<^item> \<open>Brokers\<close>: ports, polls, and the contract \<open>zmq_contract\<close> of the envelopes of ROUTER, REQ and
    REP sockets, which is documented behaviour of the library; the end-to-end theorems take it as a
    hypothesis, and \<open>zmq_std\<close> is an instance.
  \<^item> \<open>Systems\<close>: the locales for step relations: an invariant, a bounded rank (so that all runs
    end), a refinement by tokens. \<open>Sockets\<close>: the messages under way for each peer of a socket, and
    what sending and receiving do to them.
  \<^item> \<open>Workers\<close>: the class \<open>workers_t\<close> (\<open>robust-reliable-queuing/workers.cpp\<close>), with a
    refinement to a list of pairs, the locale \<open>lru_pool\<close> for its clients, and the account of
    \<open>purge\<close>.
  \<^item> \<open>PPQueue\<close>, \<open>PPWorker\<close>: \<open>main\<close> of \<open>ppqueue.cpp\<close> and \<open>ppworker.cpp\<close>;
    \<open>Version\<close>: the two version checks.
  \<^item> \<open>SPQueue\<close>: \<open>basic-reliable-queuing\<close> (queue and worker). \<open>LazyPirate\<close>:
    \<open>client-side-reliability\<close>. \<open>PirateClients\<close>: lazy pirate clients as part of a system, with
    the locale \<open>lp_clients\<close> of what they ask of the rest; \<open>PirateNet\<close>, \<open>ParanoidNet\<close>: the
    clients with simple and with paranoid pirate queue and workers, with time-outs, crashes and losses.
  \<^item> \<open>LBBroker\<close>: \<open>load-balancing-message-broker/lbbroker.cpp\<close>, broker and both thread
    functions; \<open>LBTokens\<close> an abstract machine that moves tokens for its clients and workers;
    \<open>LBSystem\<close> the program with all its threads, which refines that machine.
  \<^item> \<open>Peering\<close>: \<open>prototyping-the-local-and-cloud-flows/peering2.cpp\<close>; \<open>PeeringNet\<close>:
    any number of such brokers with their clients and workers, by the ways a message can take.
  \<^item> \<open>Freelance3\<close>: \<open>model-three-complex-and-nasty\<close>: servers, agent thread, API, server and client
    program. Servers are shared objects in the source, held by two containers; here both containers
    hold addresses into a store. \<open>FreelanceNet\<close>: the client program, its API, its agent's
    thread and any number of servers as a system with a clock. \<open>Freelance12\<close>: models one and two;
    \<open>Freelance2Net\<close>: the client of model two with any number of servers.
  \<^item> \<open>RTBrokers\<close>: \<open>rtdealer.cpp\<close> and \<open>rtreq.cpp\<close>, as two interpretations of one
    locale; \<open>RTSystem\<close>: both programs with their threads. \<open>Relay\<close>: \<open>mtrelay.cpp\<close>.
  \<^item> \<open>Proxies\<close>: the forwarding brokers, the hello clients and servers, and \<open>tripping.cpp\<close>;
    \<open>HelloTokens\<close>, \<open>HelloNet\<close>: \<open>rrclient\<close>, \<open>rrbroker\<close> and \<open>rrworker\<close>, and
    \<open>hwclient\<close> with \<open>mtserver\<close>, as two interpretations of one system;
    \<open>TrippingNet\<close>: \<open>tripping.cpp\<close> with its threads.
  \<^item> \<open>Diagnostics\<close>: \<open>identity.cpp\<close> and \<open>asyncsrv.cpp\<close>; \<open>AsyncNet\<close>: the latter
    with its threads. \<open>PubSub\<close>: \<open>node-coordination\<close>, \<open>pub-sub-message-envelopes\<close>,
    \<open>espresso.cpp\<close>, \<open>peering1.cpp\<close>; \<open>EspressoNet\<close>: the espresso tracer with its threads.
  \<^item> \<open>LastValue\<close>: \<open>last-value-caching\<close>. \<open>Pipeline\<close>: \<open>divide-and-conquer\<close> and
    \<open>getting-the-message-out\<close>; \<open>PipeNet\<close>: ventilator, workers and sink as a system. \<open>Readers\<close>: \<open>interrupt.cpp\<close>, \<open>mspoller.cpp\<close>,
    \<open>msreader.cpp\<close>.
  \<^item> \<open>Startup\<close>: what every program does before its loop, from the command line to the last
    \<open>bind\<close> and \<open>connect\<close>, as lists of calls; \<open>Wiring\<close>: that the endpoints of programs
    that belong together meet, in which orders threads may start, and how programs exit.

  \<^bold>\<open>What is shown.\<close> Round trips through client, broker and worker, with the envelopes the sockets
  add (\<open>fl3_round_trip\<close>, \<open>peering_round_trip\<close>, \<open>pp_round_trip\<close>, \<open>fl2_round_trip\<close>).
  Of the systems, in every interleaving: the load-balancing program is its token machine
  (\<open>lbs_refines_tokens\<close>), serves all clients and ends (\<open>lbs_serves_all\<close>,
  \<open>lbs_terminates\<close>), or comes to a halt before its last worker has been told to
  (\<open>lbs_may_hang\<close>); the hello programs answer every request (\<open>hello_served\<close>); the router
  programs dismiss each worker once and return (\<open>rts_dismisses_each_once\<close>, \<open>rts_returns\<close>);
  the relay ends (\<open>relay_ends\<close>); the pipeline does each task once and ends
  (\<open>pipeline_completes\<close>); a client of the asynchronous server, and one of either pirate
  pattern, gets only answers of its own (\<open>asyncsrv_answers\<close>, \<open>pirate_answers\<close>,
  \<open>paranoid_answers\<close>), but a heartbeat may stop the paranoid pirate queue
  (\<open>paranoid_may_abort\<close>); a network of peering brokers keeps each request in one place and
  never comes to a halt (\<open>peering_network_serves\<close>, \<open>peering_network_goes_on\<close>); the third
  freelance model can serve its client (\<open>freelance_serves\<close>) and fails in no other ways than those
  stated (\<open>freelance_keeps\<close>), but in these it may fail although nothing is wrong with its servers
  (\<open>freelance_may_fail\<close>); the client of the second returns for a request its own answer or, when its
  time is over, an earlier one (\<open>freelance2_answers\<close>); the round-trip demonstrator makes all its calls and returns, unless its
  worker is late, its clock too coarse or a socket of its broker discards calls at the limit of its queue, and the
  last may happen (\<open>tripping_completes\<close>); the espresso
  listener sees what the subscriber gets (\<open>espresso_traces_subscriber\<close>). Over whole runs of one
  program: workers are served in the order of their reports, or at most as often as they report
  (\<open>peering_fifo\<close>, \<open>ppq_work_bound\<close>); counters stay in range; the cache holds the last values;
  the agent sends only where it was told to connect. The worker pool refines a list of pairs
  (\<open>workers_refine_pool\<close>) and keeps its two containers in step, and the copies of the helpers are equivalent
  (\<open>helpers_equivalent\<close>). For faults, the exact conditions under which an iteration fails
  (\<open>ppq_step_faults\<close>, \<open>fl3_assertions\<close>). And, where the code does not do what it means to,
  what it does instead: a purge does not reach all workers, and exactly which it does not is stated
  (\<open>purge_leaves_expired\<close>); the agent prefixes a
  request again at each retry (\<open>fl3_redispatch\<close>), and otherwise waits up to its next deadline, but without
  limit when that has passed (\<open>fl3_poll_timeout\<close>); a subscriber to a low topic stops at a foreign one
  (\<open>pathosub_stops\<close>). The programs meet at their endpoints (\<open>programs_meet\<close>,
  \<open>peering_network_meets\<close>) and start in a good order (\<open>programs_start_in_order\<close>).

  \<^bold>\<open>Bounds and fuel.\<close> All definitions are total without fuel, except the drain loop of
  \<open>msreader.cpp\<close>, which may not end and is a partial function with result \<open>None\<close> then. Loops
  that count have a measure. The inner loop of the peering broker, the waits of the second freelance
  client and every \<open>run\<close> recurse over the list of their inputs, one element for each poll; a run
  says nothing about what happens after its inputs are used up. The systems end within bounds that
  ranks give: 63 steps for ten clients and three workers of the load-balancing program, 40 for the
  workers of a router program once its time is over, 10 for the relay, 303 and two for each worker of the
  pipeline, 5 for each request of the hello programs, 550008 for the round-trip demonstrator.

  \<^bold>\<open>What is not modelled.\<close> Console output (except where the text printed is the result: the
  sink, the dumps, the subscribers, the listener), failing sends of most programs, limits on the length
  of the queues of a socket, and message loss (except in \<open>PirateNet\<close>, \<open>ParanoidNet\<close>, \<open>FreelanceNet\<close> and \<open>Freelance2Net\<close>,
  which lose messages, and in \<open>TrippingNet\<close>, where many thousand messages are under way: there the broker's
  sockets discard what is sent to a worker that has not connected, and may discard what is sent to a peer for which
  as many messages wait as their limit, a parameter of the model). The proxy of the library is
  a parameter where a system has one; of \<open>msgqueue.cpp\<close> and \<open>zcopy.cpp\<close>, which only call the
  library, the set-up is modelled and nothing else, and \<open>peering3.cpp\<close> is an empty program. The
  first freelance model is modelled program by program, not as a system. The order in which the agent of the
  third freelance model visits its table of servers is not specified by the source; the model uses the order of
  insertion.
\<close>

end
